(* ===== verification/Prelude.thy ===== *)
theory Prelude
  imports Main "HOL-Library.AList" "HOL-Library.Multiset" "HOL-Library.List_Lexorder" "HOL-Library.Char_ord"
begin

text \<open>
  Shared material of the development: results of fallible Go functions, Go maps as association
  lists, the ordering contract of \<^verbatim>\<open>sort.Slice\<close>, and the lemma collections the component
  theories extend.

  A Go function that returns \<^verbatim>\<open>(T, error)\<close> is a HOL function into \<open>'e + 'a\<close>: \<open>Inl\<close> is the
  non-nil error, \<open>Inr\<close> the value. A Go map is an association list with distinct keys; the list
  order stands for one iteration order, and the components prove that their results do not
  depend on it.
\<close>

named_theorems go_time_simps \<open>equations that evaluate calendar and clock readings\<close>
named_theorems store_simps \<open>effects of the store operations on the abstract store\<close>
named_theorems sched_simps \<open>definitions of the scheduler operations\<close>

section \<open>Results\<close>

definition bind_result :: "'e + 'a \<Rightarrow> ('a \<Rightarrow> 'e + 'b) \<Rightarrow> 'e + 'b" where
  "bind_result r f = (case r of Inl e \<Rightarrow> Inl e | Inr a \<Rightarrow> f a)"

lemma bind_result_simps [simp]:
  "bind_result (Inl e) f = Inl e"
  "bind_result (Inr a) f = f a"
  by (simp_all add: bind_result_def)

lemma bind_result_Inr_iff:
  "bind_result r f = Inr b \<longleftrightarrow> (\<exists>a. r = Inr a \<and> f a = Inr b)"
  by (cases r) auto

lemma bind_result_Inl_iff:
  "bind_result r f = Inl e \<longleftrightarrow> r = Inl e \<or> (\<exists>a. r = Inr a \<and> f a = Inl e)"
  by (cases r) auto

lemma bind_result_InrE [elim]:
  assumes "bind_result r f = Inr b"
  obtains a where "r = Inr a" "f a = Inr b"
  using assms by (auto simp: bind_result_Inr_iff)

section \<open>Go maps\<close>

type_synonym ('k, 'v) gomap = "('k \<times> 'v) list"

abbreviation gomap_ok :: "('k, 'v) gomap \<Rightarrow> bool" where
  "gomap_ok m \<equiv> distinct (map fst m)"

lemma map_of_update [simp]: "map_of (AList.update k v m) = (map_of m)(k \<mapsto> v)"
  by (rule update_conv')

lemma map_of_delete [simp]: "map_of (AList.delete k m) = (map_of m)(k := None)"
  by (rule delete_conv')

lemma gomap_ok_update [simp]: "gomap_ok m \<Longrightarrow> gomap_ok (AList.update k v m)"
  by (rule distinct_update)

lemma gomap_ok_delete [simp]: "gomap_ok m \<Longrightarrow> gomap_ok (AList.delete k m)"
  by (rule distinct_delete)

lemma gomap_in_set: "gomap_ok m \<Longrightarrow> (k, v) \<in> set m \<longleftrightarrow> map_of m k = Some v"
  by (simp add: map_of_eq_Some_iff)

lemma gomap_values: "gomap_ok m \<Longrightarrow> v \<in> set (map snd m) \<longleftrightarrow> (\<exists>k. map_of m k = Some v)"
  by (force simp: gomap_in_set [symmetric] image_iff)

lemma dom_map_of_gomap: "dom (map_of m) = set (map fst m)"
  by (simp add: dom_map_of_conv_image_fst)

text \<open>\<^verbatim>\<open>m[k]\<close>: the zero value when the key is absent.\<close>

definition gomap_get :: "('k, 'v) gomap \<Rightarrow> 'k \<Rightarrow> 'v \<Rightarrow> 'v" where
  "gomap_get m k zero = (case map_of m k of None \<Rightarrow> zero | Some v \<Rightarrow> v)"

lemma gomap_get_update [simp]:
  "gomap_get (AList.update k v m) k' z = (if k' = k then v else gomap_get m k' z)"
  by (simp add: gomap_get_def)

lemma gomap_get_Nil [simp]: "gomap_get [] k z = z"
  by (simp add: gomap_get_def)

section \<open>sort.Slice\<close>

text \<open>
  \<^verbatim>\<open>sort.Slice(xs, lt)\<close> sorts by a strict weak order. It is not stable, so its result is
  determined only where \<open>lt\<close> separates the elements; the locale proves that then every
  sorting routine gives the same list.
\<close>

fun insert_slice :: "('a \<Rightarrow> 'a \<Rightarrow> bool) \<Rightarrow> 'a \<Rightarrow> 'a list \<Rightarrow> 'a list" where
  "insert_slice lt x [] = [x]"
| "insert_slice lt x (y # ys) =
     (if lt y x then y # insert_slice lt x ys else x # y # ys)"

fun sort_slice :: "('a \<Rightarrow> 'a \<Rightarrow> bool) \<Rightarrow> 'a list \<Rightarrow> 'a list" where
  "sort_slice lt [] = []"
| "sort_slice lt (x # xs) = insert_slice lt x (sort_slice lt xs)"

lemma mset_insert_slice [simp]: "mset (insert_slice lt x ys) = add_mset x (mset ys)"
  by (induction ys) auto

lemma mset_sort_slice [simp]: "mset (sort_slice lt xs) = mset xs"
  by (induction xs) auto

lemma set_insert_slice [simp]: "set (insert_slice lt x ys) = insert x (set ys)"
  by (metis mset_insert_slice set_mset_add_mset_insert set_mset_mset)

lemma set_sort_slice [simp]: "set (sort_slice lt xs) = set xs"
  by (metis mset_sort_slice set_mset_mset)

lemma length_sort_slice [simp]: "length (sort_slice lt xs) = length xs"
  by (metis mset_sort_slice size_mset)

lemma distinct_sort_slice [simp]: "distinct (sort_slice lt xs) = distinct xs"
  by (metis mset_sort_slice mset_eq_imp_distinct_iff)

lemma distinct_map_mset_cong: "mset xs = mset ys \<Longrightarrow> distinct (map f xs) = distinct (map f ys)"
  by (metis mset_eq_imp_distinct_iff mset_map)

abbreviation slice_sorted :: "('a \<Rightarrow> 'a \<Rightarrow> bool) \<Rightarrow> 'a list \<Rightarrow> bool" where
  "slice_sorted lt \<equiv> sorted_wrt (\<lambda>x y. \<not> lt y x)"

locale slice_order =
  fixes lt :: "'a \<Rightarrow> 'a \<Rightarrow> bool"
  assumes lt_asym: "lt x y \<Longrightarrow> \<not> lt y x"
    and lt_negtrans: "\<not> lt x y \<Longrightarrow> \<not> lt y z \<Longrightarrow> \<not> lt x z"
begin

lemma sorted_insert_slice: "slice_sorted lt ys \<Longrightarrow> slice_sorted lt (insert_slice lt x ys)"
  by (induction ys) (auto dest: lt_asym lt_negtrans)

lemma sorted_sort_slice: "slice_sorted lt (sort_slice lt xs)"
  by (induction xs) (auto intro: sorted_insert_slice)

lemma sort_slice_unique:
  assumes "slice_sorted lt ys" and "mset ys = mset xs"
    and "\<And>x y. x \<in> set xs \<Longrightarrow> y \<in> set xs \<Longrightarrow> \<not> lt x y \<Longrightarrow> \<not> lt y x \<Longrightarrow> x = y"
  shows "ys = sort_slice lt xs"
proof -
  have "zs = ys"
    if "slice_sorted lt zs" "slice_sorted lt ys" "mset zs = mset ys"
      "\<And>x y. x \<in> set ys \<Longrightarrow> y \<in> set ys \<Longrightarrow> \<not> lt x y \<Longrightarrow> \<not> lt y x \<Longrightarrow> x = y" for zs ys
    using that
  proof (induction zs arbitrary: ys)
    case Nil
    then show ?case by simp
  next
    case (Cons z zs)
    obtain y ys' where ys: "ys = y # ys'"
      using Cons.prems(3) by (cases ys) auto
    have sets: "set (z # zs) = set ys"
      using Cons.prems(3) by (metis set_mset_mset)
    have "z = y"
    proof (rule Cons.prems(4))
      show "z \<in> set ys" using sets by auto
      show "y \<in> set ys" using ys by simp
      show "\<not> lt z y"
        using Cons.prems(2) ys sets lt_asym by (metis list.set_intros(1) set_ConsD sorted_wrt.simps(2))
      show "\<not> lt y z"
        using Cons.prems(1) ys sets lt_asym by (metis list.set_intros(1) set_ConsD sorted_wrt.simps(2))
    qed
    moreover have "zs = ys'"
      using Cons.prems ys calculation by (intro Cons.IH) auto
    ultimately show ?case using ys by simp
  qed
  from this [of "sort_slice lt xs" ys] assms show ?thesis
    by (metis mset_sort_slice set_mset_mset sorted_sort_slice)
qed

end

lemma sort_slice_perm:
  assumes "slice_order lt" and "mset xs = mset ys"
    and "\<And>x y. x \<in> set xs \<Longrightarrow> y \<in> set xs \<Longrightarrow> \<not> lt x y \<Longrightarrow> \<not> lt y x \<Longrightarrow> x = y"
  shows "sort_slice lt xs = sort_slice lt ys"
  using assms slice_order.sort_slice_unique [OF assms(1), of "sort_slice lt xs" ys]
  by (metis mset_sort_slice set_mset_mset slice_order.sorted_sort_slice)

text \<open>\<^verbatim>\<open>sort.Strings\<close>: byte-wise lexicographic order.\<close>

definition string_less :: "string \<Rightarrow> string \<Rightarrow> bool" where
  "string_less a b \<longleftrightarrow> a < b"

interpretation string_slice: slice_order string_less
  by unfold_locales (auto simp: string_less_def)

lemma sort_strings_eq: "sort_slice string_less xs = sort xs"
proof (rule string_slice.sort_slice_unique [symmetric])
  have "sorted (sort xs)" by simp
  then show "slice_sorted string_less (sort xs)"
    by (rule sorted_wrt_mono_rel [rotated]) (auto simp: string_less_def)
qed (auto simp: string_less_def)

section \<open>Integers of Go's width\<close>

text \<open>Go's \<^verbatim>\<open>int\<close>, \<^verbatim>\<open>int64\<close> and \<^verbatim>\<open>time.Duration\<close> are 64-bit two's complement values.\<close>

definition wrap64 :: "int \<Rightarrow> int" where
  "wrap64 x = (x + 2 ^ 63) mod 2 ^ 64 - 2 ^ 63"

definition max_int64 :: int where
  "max_int64 = 2 ^ 63 - 1"

definition min_int64 :: int where
  "min_int64 = - (2 ^ 63)"

lemma wrap64_id: "min_int64 \<le> x \<Longrightarrow> x \<le> max_int64 \<Longrightarrow> wrap64 x = x"
  by (simp add: wrap64_def max_int64_def min_int64_def)

lemma wrap64_range: "min_int64 \<le> wrap64 x" "wrap64 x \<le> max_int64"
proof -
  have "0 \<le> (x + 2 ^ 63) mod 2 ^ 64" "(x + 2 ^ 63) mod 2 ^ 64 < 2 ^ 64" by simp_all
  then show "min_int64 \<le> wrap64 x" "wrap64 x \<le> max_int64"
    by (simp_all add: wrap64_def max_int64_def min_int64_def)
qed

section \<open>Instants and durations\<close>

text \<open>Nanoseconds since the zero time, and nanoseconds; see the theory \<open>GoTime\<close>.\<close>

type_synonym time = int
type_synonym duration = int

abbreviation Nanos :: int where "Nanos \<equiv> 1000000000"

definition zero_time :: time where
  "zero_time = 0"

definition SecondD :: duration where "SecondD = Nanos"
definition MinuteD :: duration where "MinuteD = 60 * Nanos"
definition HourD :: duration where "HourD = 3600 * Nanos"

definition IsZero :: "time \<Rightarrow> bool" where
  "IsZero t \<longleftrightarrow> t = zero_time"

end
