(* ===== verification/GoStrings.thy ===== *)
theory GoStrings
  imports Prelude "HOL-Library.Word"
begin

text \<open>
  The functions of Go's \<^verbatim>\<open>strings\<close>, \<^verbatim>\<open>strconv\<close> and \<^verbatim>\<open>encoding/hex\<close> that cronflux calls, on
  Go strings as byte lists (\<open>char\<close> is a byte). White space follows \<^verbatim>\<open>unicode.IsSpace\<close> on the
  UTF-8 encoding, so \<open>TrimSpace\<close> and \<open>Fields\<close> also split at the multi-byte spaces.
\<close>

section \<open>Bytes and white space\<close>

definition byte :: "char \<Rightarrow> nat" where
  "byte c = of_char c"

text \<open>The length in bytes of the white-space rune a string starts with, 0 if there is none.\<close>

fun space_len :: "string \<Rightarrow> nat" where
  "space_len [] = 0"
| "space_len (a # s) =
     (if byte a \<in> {9, 10, 11, 12, 13, 32} then 1
      else if byte a = 0xC2 \<and> take 1 (map byte s) \<in> {[0x85], [0xA0]} then 2
      else if (byte a = 0xE1 \<and> take 2 (map byte s) = [0x9A, 0x80])
            \<or> (byte a = 0xE2 \<and> take 2 (map byte s) \<in>
                 {[0x80, 0x80], [0x80, 0x81], [0x80, 0x82], [0x80, 0x83], [0x80, 0x84],
                  [0x80, 0x85], [0x80, 0x86], [0x80, 0x87], [0x80, 0x88], [0x80, 0x89],
                  [0x80, 0x8A], [0x80, 0xA8], [0x80, 0xA9], [0x80, 0xAF], [0x81, 0x9F]})
            \<or> (byte a = 0xE3 \<and> take 2 (map byte s) = [0x80, 0x80]) then 3
      else 0)"

lemma space_len_le: "space_len s \<le> length s"
proof (cases s)
  case (Cons a t)
  then show ?thesis by (cases t; cases "tl t") auto
qed simp

declare space_len.simps(2) [simp del]

function trim_left :: "string \<Rightarrow> string" where
  "trim_left s = (if space_len s = 0 then s else trim_left (drop (space_len s) s))"
  by pat_completeness auto
termination
proof (relation "measure length")
  fix s assume "space_len s \<noteq> 0"
  then show "(drop (space_len s) s, s) \<in> measure length"
    using space_len_le [of s] by simp
qed simp

declare trim_left.simps [simp del]

text \<open>A trailing white-space rune: the shortest suffix that is one.\<close>

definition space_suffix_len :: "string \<Rightarrow> nat" where
  "space_suffix_len s =
     (if length s \<ge> 1 \<and> space_len (drop (length s - 1) s) = 1 then 1
      else if length s \<ge> 2 \<and> space_len (drop (length s - 2) s) = 2 then 2
      else if length s \<ge> 3 \<and> space_len (drop (length s - 3) s) = 3 then 3
      else 0)"

function trim_right :: "string \<Rightarrow> string" where
  "trim_right s =
     (if space_suffix_len s = 0 then s else trim_right (take (length s - space_suffix_len s) s))"
  by pat_completeness auto
termination
proof (relation "measure length")
  fix s assume "space_suffix_len s \<noteq> 0"
  then show "(take (length s - space_suffix_len s) s, s) \<in> measure length"
    by (auto simp: space_suffix_len_def split: if_splits)
qed simp

declare trim_right.simps [simp del]

definition TrimSpace :: "string \<Rightarrow> string" where
  "TrimSpace s = trim_right (trim_left s)"

text \<open>
  \<^verbatim>\<open>strings.Fields\<close>: the maximal runs of non-space bytes, left to right; \<open>w\<close> collects the
  current word, reversed.
\<close>

function fields_from :: "string \<Rightarrow> string \<Rightarrow> string list" where
  "fields_from w [] = (if w = [] then [] else [rev w])"
| "fields_from w (c # s) =
     (if space_len (c # s) = 0 then fields_from (c # w) s
      else (if w = [] then [] else [rev w]) @ fields_from [] (drop (space_len (c # s)) (c # s)))"
  by pat_completeness auto
termination
proof (relation "measure (\<lambda>(w, s). length s)")
  fix w c and s :: string
  assume "space_len (c # s) \<noteq> 0"
  then show "(([], drop (space_len (c # s)) (c # s)), w, c # s) \<in> measure (\<lambda>(w, s). length s)"
    by simp
qed auto

definition Fields :: "string \<Rightarrow> string list" where
  "Fields s = fields_from [] s"

section \<open>Splitting and prefixes\<close>

definition HasPrefix :: "string \<Rightarrow> string \<Rightarrow> bool" where
  "HasPrefix s p \<longleftrightarrow> take (length p) s = p"

definition TrimPrefix :: "string \<Rightarrow> string \<Rightarrow> string" where
  "TrimPrefix s p = (if HasPrefix s p then drop (length p) s else s)"

text \<open>\<^verbatim>\<open>strings.Split(s, sep)\<close> for a one-byte separator; never empty.\<close>

fun Split :: "string \<Rightarrow> char \<Rightarrow> string list" where
  "Split [] sep = [[]]"
| "Split (c # s) sep =
     (if c = sep then [] # Split s sep
      else (case Split s sep of [] \<Rightarrow> [[c]] | w # ws \<Rightarrow> (c # w) # ws))"

text \<open>\<^verbatim>\<open>strings.IndexByte\<close> as the split at the first occurrence, if any.\<close>

fun split_at_byte :: "char \<Rightarrow> string \<Rightarrow> (string \<times> string) option" where
  "split_at_byte b [] = None"
| "split_at_byte b (c # s) =
     (if c = b then Some ([], s)
      else map_option (\<lambda>(l, r). (c # l, r)) (split_at_byte b s))"

lemma split_at_byte_None: "split_at_byte b s = None \<longleftrightarrow> b \<notin> set s"
  by (induction s) auto

lemma split_at_byte_Some: "split_at_byte b s = Some (l, r) \<longleftrightarrow> s = l @ b # r \<and> b \<notin> set l"
proof (induction s arbitrary: l)
  case (Cons c s)
  then show ?case by (cases l) auto
qed simp

lemma Split_nonempty [simp]: "Split s sep \<noteq> []"
  by (induction s) (auto split: list.splits)

lemma Split_none: "sep \<notin> set s \<Longrightarrow> Split s sep = [s]"
  by (induction s) auto

lemma Split_append: "sep \<notin> set l \<Longrightarrow> Split (l @ sep # r) sep = l # Split r sep"
  by (induction l) auto

text \<open>
  \<^verbatim>\<open>strings.ToLower\<close>, exact wherever the result is looked up in a table with ASCII keys:
  besides the ASCII letters, U+0130 and U+212A are the runes whose lower case is ASCII.
\<close>

definition ascii_lower :: "char \<Rightarrow> char" where
  "ascii_lower c = (if 65 \<le> byte c \<and> byte c \<le> 90 then char_of (byte c + 32) else c)"

fun ToLower :: "string \<Rightarrow> string" where
  "ToLower [] = []"
| "ToLower (c # s) =
     (if byte c = 0xC4 \<and> take 1 (map byte s) = [0xB0] then CHR ''i'' # ToLower (drop 1 s)
      else if byte c = 0xE2 \<and> take 2 (map byte s) = [0x84, 0xAA] then CHR ''k'' # ToLower (drop 2 s)
      else ascii_lower c # ToLower s)"

section \<open>Decimal numbers\<close>

datatype num_error = ErrSyntax | ErrRange

definition is_digit :: "char \<Rightarrow> bool" where
  "is_digit c \<longleftrightarrow> 48 \<le> byte c \<and> byte c \<le> 57"

definition digit_value :: "char \<Rightarrow> nat" where
  "digit_value c = byte c - 48"

definition decimal_value :: "string \<Rightarrow> nat" where
  "decimal_value s = foldl (\<lambda>n c. n * 10 + digit_value c) 0 s"

text \<open>
  \<^verbatim>\<open>strconv.ParseUint(s, 10, 64)\<close>. The scan stops at the first byte that is not a digit
  (\<open>ErrSyntax\<close>) or at the first prefix that exceeds 64 bits (\<open>ErrRange\<close>), whichever is first.
\<close>

fun parse_uint_from :: "nat \<Rightarrow> string \<Rightarrow> num_error + nat" where
  "parse_uint_from n [] = Inr n"
| "parse_uint_from n (c # s) =
     (if \<not> is_digit c then Inl ErrSyntax
      else if n * 10 + digit_value c \<ge> 2 ^ 64 then Inl ErrRange
      else parse_uint_from (n * 10 + digit_value c) s)"

definition ParseUint :: "string \<Rightarrow> num_error + 64 word" where
  "ParseUint s =
     (if s = [] then Inl ErrSyntax
      else (case parse_uint_from 0 s of Inl e \<Rightarrow> Inl e | Inr n \<Rightarrow> Inr (word_of_nat n)))"

text \<open>\<^verbatim>\<open>strconv.Atoi\<close>: an optional sign, then decimal digits in the range of \<^verbatim>\<open>int\<close>.\<close>

fun parse_digits_from :: "nat \<Rightarrow> string \<Rightarrow> nat option" where
  "parse_digits_from n [] = Some n"
| "parse_digits_from n (c # s) =
     (if is_digit c then parse_digits_from (n * 10 + digit_value c) s else None)"

definition Atoi :: "string \<Rightarrow> num_error + int" where
  "Atoi s =
     (let neg = (take 1 s = ''-'');
          ds = (if take 1 s = ''-'' \<or> take 1 s = ''+'' then drop 1 s else s)
      in if ds = [] then Inl ErrSyntax
         else case parse_digits_from 0 ds of
           None \<Rightarrow> Inl ErrSyntax
         | Some n \<Rightarrow>
             (let v = (if neg then - int n else int n)
              in if min_int64 \<le> v \<and> v \<le> max_int64 then Inr v else Inl ErrRange))"

text \<open>Printing a number in decimal (\<^verbatim>\<open>%d\<close>).\<close>

definition digit_char :: "nat \<Rightarrow> char" where
  "digit_char d = char_of (48 + d)"

fun show_nat :: "nat \<Rightarrow> string" where
  "show_nat n = (if n < 10 then [digit_char n] else show_nat (n div 10) @ [digit_char (n mod 10)])"

declare show_nat.simps [simp del]

lemma byte_digit_char [simp]: "d < 10 \<Longrightarrow> byte (digit_char d) = 48 + d"
  by (simp add: byte_def digit_char_def)

lemma is_digit_digit_char [simp]: "d < 10 \<Longrightarrow> is_digit (digit_char d)"
  by (simp add: is_digit_def)

lemma digit_value_digit_char [simp]: "d < 10 \<Longrightarrow> digit_value (digit_char d) = d"
  by (simp add: digit_value_def)

lemma show_nat_nonempty [simp]: "show_nat n \<noteq> []"
  by (subst show_nat.simps) simp

lemma show_nat_digits: "c \<in> set (show_nat n) \<Longrightarrow> is_digit c"
proof (induction n rule: show_nat.induct)
  case (1 n)
  then show ?case
    by (cases "n < 10") (auto simp: show_nat.simps [of n])
qed

lemma parse_uint_from_append:
  "parse_uint_from n (s @ t) = bind_result (parse_uint_from n s) (\<lambda>m. parse_uint_from m t)"
  by (induction s arbitrary: n) auto

lemma parse_uint_show_nat:
  assumes "n < 2 ^ 64"
  shows "parse_uint_from 0 (show_nat n) = Inr n"
  using assms
proof (induction n rule: show_nat.induct)
  case (1 n)
  show ?case
  proof (cases "n < 10")
    case True
    then show ?thesis by (simp add: show_nat.simps [of n])
  next
    case False
    have "parse_uint_from 0 (show_nat (n div 10)) = Inr (n div 10)"
      using 1 False by simp
    then show ?thesis
      using False 1(2) by (simp add: show_nat.simps [of n] parse_uint_from_append)
  qed
qed

lemma ParseUint_show_nat: "n < 2 ^ 64 \<Longrightarrow> ParseUint (show_nat n) = Inr (word_of_nat n)"
  by (simp add: ParseUint_def parse_uint_show_nat)

lemma show_nat_inj: "show_nat m = show_nat n \<Longrightarrow> m = n"
proof (induction m arbitrary: n rule: show_nat.induct)
  case (1 m)
  have *: "digit_char a = digit_char b \<Longrightarrow> a < 10 \<Longrightarrow> b < 10 \<Longrightarrow> a = b" for a b
    by (metis digit_value_digit_char)
  show ?case
  proof (cases "m < 10"; cases "n < 10")
    assume "m < 10" "n < 10"
    then show ?thesis using 1 * by (simp add: show_nat.simps [of m] show_nat.simps [of n])
  next
    assume "\<not> m < 10" "\<not> n < 10"
    then have "m div 10 = n div 10" "digit_char (m mod 10) = digit_char (n mod 10)"
      using 1 by (auto simp: show_nat.simps [of m] show_nat.simps [of n])
    then show ?thesis using * by (metis div_mult_mod_eq mod_less_divisor zero_less_numeral)
  qed (use 1 in \<open>auto simp: show_nat.simps [of m] show_nat.simps [of n] dest: arg_cong [of _ _ length]\<close>)
qed

lemma unat_word_of_nat64: "n < 2 ^ 64 \<Longrightarrow> unat (word_of_nat n :: 64 word) = n"
  by (simp add: unat_of_nat)

section \<open>Hexadecimal encoding\<close>

text \<open>\<^verbatim>\<open>hex.EncodeToString\<close>: two lower-case digits per byte.\<close>

definition hex_char :: "nat \<Rightarrow> char" where
  "hex_char d = (if d < 10 then char_of (48 + d) else char_of (87 + d))"

definition EncodeToString :: "8 word list \<Rightarrow> string" where
  "EncodeToString bs = concat (map (\<lambda>b. [hex_char (unat b div 16), hex_char (unat b mod 16)]) bs)"

lemma byte_hex_char: "d < 16 \<Longrightarrow> byte (hex_char d) = (if d < 10 then 48 + d else 87 + d)"
  by (simp add: byte_def hex_char_def)

lemma hex_char_inj:
  assumes "hex_char a = hex_char b" "a < 16" "b < 16"
  shows "a = b"
proof -
  have "byte (hex_char a) = byte (hex_char b)" by (simp only: assms(1))
  then have "(if a < 10 then 48 + a else 87 + a) = (if b < 10 then 48 + b else 87 + b)"
    by (simp only: byte_hex_char assms(2,3))
  then show ?thesis by (simp split: if_splits)
qed

lemma length_EncodeToString: "length (EncodeToString bs) = 2 * length bs"
  by (induction bs) (auto simp: EncodeToString_def)

lemma EncodeToString_inj: "EncodeToString as = EncodeToString bs \<Longrightarrow> as = bs"
proof (induction "as" arbitrary: bs)
  case Nil
  then show ?case by (cases bs) (auto simp: EncodeToString_def)
next
  case (Cons a "as")
  then obtain b bs' where bs: "bs = b # bs'"
    by (cases bs) (auto simp: EncodeToString_def)
  have "unat a < 256" "unat b < 256"
    using unsigned_less [of a] unsigned_less [of b] by simp_all
  then have "unat a div 16 = unat b div 16" "unat a mod 16 = unat b mod 16"
    using Cons.prems bs by (auto simp: EncodeToString_def intro!: hex_char_inj)
  then have "unat a = unat b" by (metis div_mult_mod_eq)
  then have "a = b" by (rule unsigned_word_eqI)
  then show ?case
    using Cons bs by (auto simp: EncodeToString_def)
qed

end
