(* ===== verification/Cron_Field.thy ===== *)
theory Cron_Field
  imports GoStrings
begin

unbundle bit_operations_syntax

text \<open>
  Package \<^verbatim>\<open>cron\<close>: field bounds (\<^verbatim>\<open>bounds.go\<close>), symbolic names (\<^verbatim>\<open>names.go\<close>) and the field
  parser (\<^verbatim>\<open>field.go\<close>). A field becomes a 64-bit mask; Go's \<^verbatim>\<open>uint\<close> and \<^verbatim>\<open>uint64\<close> are
  \<open>64 word\<close>, so the step loop of \<open>parseTerm\<close> wraps around as it does in Go. The loop is a
  \<open>partial_function\<close>; \<open>Diverges\<close> stands for "does not return" and is shown never to happen.
\<close>

type_synonym u64 = "64 word"

section \<open>Bounds and names\<close>

record bounds =
  b_min :: u64
  b_max :: u64
  b_names :: "(string, u64) gomap option"

definition monthNames :: "(string, u64) gomap" where
  "monthNames =
     [(''jan'', 1), (''feb'', 2), (''mar'', 3), (''apr'', 4), (''may'', 5), (''jun'', 6),
      (''jul'', 7), (''aug'', 8), (''sep'', 9), (''oct'', 10), (''nov'', 11), (''dec'', 12)]"

definition dowNames :: "(string, u64) gomap" where
  "dowNames =
     [(''sun'', 0), (''mon'', 1), (''tue'', 2), (''wed'', 3), (''thu'', 4), (''fri'', 5), (''sat'', 6)]"

text \<open>The bounds as they are after \<^verbatim>\<open>init\<close> has filled in the name tables.\<close>

definition secondsBound :: bounds where
  "secondsBound = \<lparr>b_min = 0, b_max = 59, b_names = None\<rparr>"

definition minutesBound :: bounds where
  "minutesBound = \<lparr>b_min = 0, b_max = 59, b_names = None\<rparr>"

definition hoursBound :: bounds where
  "hoursBound = \<lparr>b_min = 0, b_max = 23, b_names = None\<rparr>"

definition domBound :: bounds where
  "domBound = \<lparr>b_min = 1, b_max = 31, b_names = None\<rparr>"

definition monthBound :: bounds where
  "monthBound = \<lparr>b_min = 1, b_max = 12, b_names = Some monthNames\<rparr>"

definition dowBound :: bounds where
  "dowBound = \<lparr>b_min = 0, b_max = 6, b_names = Some dowNames\<rparr>"

definition starBit :: u64 where
  "starBit = push_bit 63 1"

lemmas bounds_defs = secondsBound_def minutesBound_def hoursBound_def domBound_def monthBound_def
  dowBound_def

section \<open>Errors\<close>

datatype cron_error =
    InvalidStep string
  | InvalidRangeStart string cron_error
  | InvalidRangeEnd string cron_error
  | OutOfRange u64 u64 string
  | InvertedRange string
  | InvalidValue string num_error
  | EmptySpec
  | UnknownDescriptor string
  | FieldCount nat string
  | InvalidEvery string
  | NonPositiveEvery int
  | Diverges

section \<open>Parsing\<close>

definition parseValue :: "string \<Rightarrow> bounds \<Rightarrow> cron_error + u64" where
  "parseValue s b =
     (case (case b_names b of None \<Rightarrow> None | Some names \<Rightarrow> map_of names (ToLower s)) of
        Some v \<Rightarrow> Inr v
      | None \<Rightarrow>
          (case ParseUint s of
             Inl e \<Rightarrow> Inl (InvalidValue s e)
           | Inr n \<Rightarrow> Inr n))"

text \<open>\<^verbatim>\<open>for i := lo; i <= hi; i += step { mask |= 1 << i }\<close>\<close>

partial_function (option) mask_loop :: "u64 \<Rightarrow> u64 \<Rightarrow> u64 \<Rightarrow> u64 \<Rightarrow> u64 option" where
  "mask_loop i hi step acc =
     (if i \<le> hi then mask_loop (i + step) hi step (acc OR push_bit (unat i) 1)
      else Some acc)"

declare mask_loop.simps [code]

text \<open>The optional \<^verbatim>\<open>/step\<close>: the range part, the step and whether there is one.\<close>

definition parse_step :: "string \<Rightarrow> cron_error + string \<times> u64 \<times> bool" where
  "parse_step trm =
     (case split_at_byte (CHR ''/'') trm of
        None \<Rightarrow> Inr (trm, 1, False)
      | Some (rangePart, rest) \<Rightarrow>
          (case ParseUint rest of
             Inl e \<Rightarrow> Inl (InvalidStep trm)
           | Inr s \<Rightarrow> if s = 0 then Inl (InvalidStep trm) else Inr (rangePart, s, True)))"

text \<open>The \<^verbatim>\<open>switch\<close> on the range part: \<open>lo\<close>, \<open>hi\<close> and whether it was a star.\<close>

definition parse_range ::
  "string \<Rightarrow> string \<Rightarrow> bool \<Rightarrow> bounds \<Rightarrow> cron_error + u64 \<times> u64 \<times> bool" where
  "parse_range trm rangePart hasStep b =
     (if rangePart = ''*'' \<or> rangePart = ''?'' then Inr (b_min b, b_max b, True)
      else case split_at_byte (CHR ''-'') rangePart of
        Some (p0, p1) \<Rightarrow>
          (case parseValue p0 b of
             Inl e \<Rightarrow> Inl (InvalidRangeStart trm e)
           | Inr l \<Rightarrow>
               (case parseValue p1 b of
                  Inl e \<Rightarrow> Inl (InvalidRangeEnd trm e)
                | Inr h \<Rightarrow> Inr (l, h, False)))
      | None \<Rightarrow>
          bind_result (parseValue rangePart b)
            (\<lambda>n. Inr (n, if hasStep then b_max b else n, False)))"

definition parseTerm :: "string \<Rightarrow> bounds \<Rightarrow> cron_error + u64" where
  "parseTerm trm b =
     bind_result (parse_step trm) (\<lambda>(rangePart, step, hasStep).
     bind_result (parse_range trm rangePart hasStep b) (\<lambda>(lo, hi, star).
       if lo < b_min b \<or> b_max b < hi then Inl (OutOfRange (b_min b) (b_max b) trm)
       else if hi < lo then Inl (InvertedRange trm)
       else case mask_loop lo hi step 0 of
         None \<Rightarrow> Inl Diverges
       | Some acc \<Rightarrow> Inr (if star \<and> \<not> hasStep then acc OR starBit else acc)))"

fun parse_terms :: "string list \<Rightarrow> bounds \<Rightarrow> u64 \<Rightarrow> cron_error + u64" where
  "parse_terms [] b acc = Inr acc"
| "parse_terms (trm # terms) b acc =
     (case parseTerm trm b of
        Inl e \<Rightarrow> Inl e
      | Inr m \<Rightarrow> parse_terms terms b (acc OR m))"

definition parseField :: "string \<Rightarrow> bounds \<Rightarrow> cron_error + u64" where
  "parseField field b = parse_terms (Split field (CHR '','')) b 0"

section \<open>The step loop\<close>

lemma bit_set_bit: "n < 64 \<Longrightarrow> bit (acc OR push_bit k 1 :: u64) n \<longleftrightarrow> bit acc n \<or> n = k"
  by (auto simp: bit_simps)

text \<open>
  The loop returns for every nonzero step as long as \<open>hi\<close> is below half the range: a small step
  walks up past \<open>hi\<close>, and one that wraps walks down until it wraps below zero.
\<close>

lemma mask_loop_up:
  assumes "0 < unat step" "unat hi + unat step < 2 ^ 64"
  shows "\<exists>m. mask_loop i hi step acc = Some m \<and>
    (\<forall>n < 64. bit m n \<longleftrightarrow> bit acc n \<or> (\<exists>j. n = unat i + j * unat step \<and> n \<le> unat hi))"
proof (induction "unat hi + 1 - unat i" arbitrary: i acc rule: less_induct)
  case less
  show ?case
  proof (cases "i \<le> hi")
    case False
    then have "unat hi < unat i" by (simp add: word_less_nat_alt not_le)
    then show ?thesis using False by (auto simp: mask_loop.simps [of i])
  next
    case True
    then have le: "unat i \<le> unat hi" by (simp add: word_le_nat_alt)
    then have ui: "unat (i + step) = unat i + unat step"
      using assms by (simp add: unat_add_lem [symmetric])
    obtain m where m: "mask_loop (i + step) hi step (acc OR push_bit (unat i) 1) = Some m"
      "\<And>n. n < 64 \<Longrightarrow> bit m n \<longleftrightarrow> bit (acc OR push_bit (unat i) 1) n \<or>
        (\<exists>j. n = unat (i + step) + j * unat step \<and> n \<le> unat hi)"
    proof -
      have "unat hi + 1 - unat (i + step) < unat hi + 1 - unat i" using assms le ui by simp
      from less [OF this, of "acc OR push_bit (unat i) 1"] that show thesis by blast
    qed
    have "bit m n \<longleftrightarrow> bit acc n \<or> (\<exists>j. n = unat i + j * unat step \<and> n \<le> unat hi)" if "n < 64" for n
    proof -
      have "(\<exists>j. n = unat i + j * unat step \<and> n \<le> unat hi) \<longleftrightarrow>
        n = unat i \<or> (\<exists>j. n = unat i + unat step + j * unat step \<and> n \<le> unat hi)" (is "?l \<longleftrightarrow> ?r")
      proof
        assume ?l
        then obtain j where j: "n = unat i + j * unat step" "n \<le> unat hi" by blast
        then show ?r by (cases j) auto
      next
        assume ?r
        then show ?l
        proof
          assume "n = unat i"
          then show ?l using le by (intro exI [of _ 0]) simp
        next
          assume "\<exists>j. n = unat i + unat step + j * unat step \<and> n \<le> unat hi"
          then obtain j where "n = unat i + unat step + j * unat step" "n \<le> unat hi" by blast
          then show ?l by (intro exI [of _ "Suc j"]) simp
        qed
      qed
      then show ?thesis
        unfolding m(2) [OF that] bit_set_bit [OF that] ui by blast
    qed
    then show ?thesis using m(1) True by (auto simp: mask_loop.simps [of i])
  qed
qed

text \<open>
  A step that overflows the addition acts as its two's complement: the loop walks down from
  \<open>lo\<close>, below the range the term asked for.
\<close>

lemma mask_loop_down:
  assumes "unat hi < 2 ^ 63" "unat hi + unat step \<ge> 2 ^ 64"
  shows "\<exists>m. mask_loop i hi step acc = Some m \<and>
    (\<forall>n < 64. bit m n \<longleftrightarrow> bit acc n \<or> (i \<le> hi \<and> (\<exists>j. unat i = n + j * (2 ^ 64 - unat step))))"
proof (induction "unat i" arbitrary: i acc rule: less_induct)
  case less
  define k where "k = 2 ^ 64 - unat step"
  have us: "unat step < 2 ^ 64" using unsigned_less [of step] by simp
  then have k: "0 < k" "k \<le> unat hi" using assms by (auto simp: k_def)
  have add: "unat (i + step) = (unat i + unat step) mod 2 ^ 64" by (simp add: unat_word_ariths)
  show ?case
  proof (cases "i \<le> hi")
    case False
    then show ?thesis by (auto simp: mask_loop.simps [of i])
  next
    case True
    then have le: "unat i \<le> unat hi" by (simp add: word_le_nat_alt)
    let ?acc = "acc OR push_bit (unat i) 1"
    have bits: "n < 64 \<Longrightarrow> bit ?acc n \<longleftrightarrow> bit acc n \<or> n = unat i" for n
      by (rule bit_set_bit)
    show ?thesis
    proof (cases "k \<le> unat i")
      case False
      have "unat i + unat step < 2 ^ 64" using False us by (simp add: k_def)
      then have "unat (i + step) = unat i + unat step" using add by simp
      moreover have "unat step > 2 ^ 63" using assms by simp
      ultimately have "\<not> i + step \<le> hi" using assms by (simp add: word_le_nat_alt)
      then have "mask_loop i hi step acc = Some ?acc"
        using True by (simp add: mask_loop.simps [of i] mask_loop.simps [of "i + step"])
      moreover have "(\<exists>j. unat i = n + j * k) \<longleftrightarrow> n = unat i" for n
      proof
        assume "\<exists>j. unat i = n + j * k"
        then obtain j where "unat i = n + j * k" by blast
        then show "n = unat i" using False by (cases j) auto
      qed (auto intro: exI [of _ 0])
      ultimately show ?thesis using True bits by (simp add: k_def)
    next
      case ge: True
      have "unat i + unat step = unat i - k + 2 ^ 64" using ge us by (simp add: k_def)
      then have ui: "unat (i + step) = unat i - k"
        using add le assms by simp
      then have lt: "unat (i + step) < unat i" using k ge by simp
      have le': "i + step \<le> hi" using ui le by (simp add: word_le_nat_alt)
      from less [OF lt, of ?acc] obtain m where m: "mask_loop (i + step) hi step ?acc = Some m"
        "\<And>n. n < 64 \<Longrightarrow> bit m n \<longleftrightarrow> bit ?acc n \<or> (\<exists>j. unat i - k = n + j * k)"
        using ui le' by (auto simp: k_def)
      have "(\<exists>j. unat i = n + j * k) \<longleftrightarrow> n = unat i \<or> (\<exists>j. unat i - k = n + j * k)" for n
      proof
        assume "\<exists>j. unat i = n + j * k"
        then obtain j where j: "unat i = n + j * k" by blast
        then show "n = unat i \<or> (\<exists>j. unat i - k = n + j * k)" by (cases j) auto
      next
        assume "n = unat i \<or> (\<exists>j. unat i - k = n + j * k)"
        then show "\<exists>j. unat i = n + j * k"
        proof
          assume "\<exists>j. unat i - k = n + j * k"
          then obtain j where "unat i - k = n + j * k" by blast
          then show ?thesis using ge by (intro exI [of _ "Suc j"]) simp
        qed (auto intro: exI [of _ 0])
      qed
      then show ?thesis using m bits True by (auto simp: mask_loop.simps [of i] k_def)
    qed
  qed
qed

lemma mask_loop_bounds:
  assumes "unat hi < 63" "step \<noteq> 0" "lo \<le> hi"
  shows "\<exists>m. mask_loop lo hi step 0 = Some m \<and> bit m (unat lo) \<and> (\<forall>n. bit m n \<longrightarrow> n \<le> unat hi)"
proof -
  have lo: "unat lo \<le> unat hi" using assms(3) by (simp add: word_le_nat_alt)
  have st: "0 < unat step" using assms(2) by (simp add: unat_gt_0)
  have n64: "bit m n \<Longrightarrow> n < 64" for m :: u64 and n using bit_imp_le_length [of m n] by simp
  show ?thesis
  proof (cases "unat hi + unat step < 2 ^ 64")
    case True
    from mask_loop_up [OF st True, of lo 0] obtain m where m: "mask_loop lo hi step 0 = Some m"
      "\<And>n. n < 64 \<Longrightarrow> bit m n \<longleftrightarrow> (\<exists>j. n = unat lo + j * unat step \<and> n \<le> unat hi)" by auto
    have "bit m (unat lo)" using m(2) [of "unat lo"] lo assms(1) by (auto intro: exI [of _ 0])
    then show ?thesis using m n64 by blast
  next
    case False
    have "unat hi < 2 ^ 63" using assms(1) by simp
    from mask_loop_down [OF this, of step lo 0] False obtain m where m: "mask_loop lo hi step 0 = Some m"
      "\<And>n. n < 64 \<Longrightarrow> bit m n \<longleftrightarrow> (\<exists>j. unat lo = n + j * (2 ^ 64 - unat step))"
      using assms(3) by auto
    have "bit m (unat lo)" using m(2) [of "unat lo"] lo assms(1) by (auto intro: exI [of _ 0])
    moreover have "bit m n \<Longrightarrow> n \<le> unat hi" for n using m(2) [OF n64] lo by fastforce
    ultimately show ?thesis using m(1) by blast
  qed
qed

section \<open>What the parser returns\<close>

text \<open>The bounds cronflux parses with: below the star bit, and with alphabetic names.\<close>

definition bounds_ok :: "bounds \<Rightarrow> bool" where
  "bounds_ok b \<longleftrightarrow> unat (b_max b) < 63 \<and> b_min b \<le> b_max b \<and>
     (case b_names b of None \<Rightarrow> True
      | Some names \<Rightarrow> list_all (\<lambda>(k, v). k \<noteq> [] \<and> \<not> is_digit (hd k)) names)"

definition cron_bounds :: "bounds list" where
  "cron_bounds = [secondsBound, minutesBound, hoursBound, domBound, monthBound, dowBound]"

lemma cron_bounds_ok: "b \<in> set cron_bounds \<Longrightarrow> bounds_ok b"
  by (auto simp: cron_bounds_def bounds_ok_def bounds_defs monthNames_def dowNames_def is_digit_def byte_def)

lemma bit_starBit: "bit starBit n \<longleftrightarrow> n = 63"
  using bit_set_bit [of n 0 63] bit_imp_le_length [of starBit n]
  by (auto simp: starBit_def simp del: push_bit_of_1)

lemma parse_step_nonzero: "parse_step trm = Inr (r, step, hasStep) \<Longrightarrow> step \<noteq> 0"
  by (auto simp: parse_step_def split: option.splits sum.splits if_splits)

lemma parseValue_no_Diverges: "parseValue s b \<noteq> Inl Diverges"
  by (auto simp: parseValue_def split: option.splits sum.splits)

lemma parse_range_no_Diverges: "parse_range trm r h b \<noteq> Inl Diverges"
  using parseValue_no_Diverges
  by (auto simp: parse_range_def bind_result_Inl_iff split: option.splits sum.splits)

lemma parse_step_no_Diverges: "parse_step trm \<noteq> Inl Diverges"
  by (auto simp: parse_step_def split: option.splits sum.splits)

lemma parseTerm_loop:
  assumes "bounds_ok b" "\<not> (lo < b_min b \<or> b_max b < hi)" "\<not> hi < lo" "step \<noteq> 0"
  obtains m where "mask_loop lo hi step 0 = Some m" "bit m (unat lo)"
    "\<And>n. bit m n \<Longrightarrow> n \<le> unat (b_max b)"
proof -
  have hi: "hi \<le> b_max b" "lo \<le> hi" using assms by auto
  then have "unat hi \<le> unat (b_max b)" by (simp add: word_le_nat_alt)
  moreover from this have "unat hi < 63" using assms(1) by (simp add: bounds_ok_def)
  ultimately show thesis
    using mask_loop_bounds [OF _ assms(4) hi(2)] that by (meson le_trans)
qed

lemma parseTerm_no_Diverges: "bounds_ok b \<Longrightarrow> parseTerm trm b \<noteq> Inl Diverges"
  using parse_step_no_Diverges parse_range_no_Diverges
  by (auto simp: parseTerm_def bind_result_Inl_iff split: option.splits if_splits
      dest!: parse_step_nonzero elim!: parseTerm_loop)

lemma parseTerm_InrE:
  assumes "parseTerm trm b = Inr m"
  obtains r step h lo hi star m0 where "parse_step trm = Inr (r, step, h)"
    "parse_range trm r h b = Inr (lo, hi, star)"
    "\<not> (lo < b_min b \<or> b_max b < hi)" "\<not> hi < lo" "mask_loop lo hi step 0 = Some m0"
    "m = (if star \<and> \<not> h then m0 OR starBit else m0)"
proof -
  from assms obtain x where x: "parse_step trm = Inr x"
    "(case x of (r, step, h) \<Rightarrow> bind_result (parse_range trm r h b) (\<lambda>(lo, hi, star).
       if lo < b_min b \<or> b_max b < hi then Inl (OutOfRange (b_min b) (b_max b) trm)
       else if hi < lo then Inl (InvertedRange trm)
       else case mask_loop lo hi step 0 of None \<Rightarrow> Inl Diverges
         | Some acc \<Rightarrow> Inr (if star \<and> \<not> h then acc OR starBit else acc))) = Inr m"
    unfolding parseTerm_def by (rule bind_result_InrE)
  then show thesis
    by (cases x) (auto elim!: bind_result_InrE simp: that split: if_splits option.splits)
qed

text \<open>A mask has a value of the range, and nothing above it but the star bit.\<close>

definition mask_upto :: "bounds \<Rightarrow> u64 \<Rightarrow> bool" where
  "mask_upto b m \<longleftrightarrow> (\<exists>n \<le> unat (b_max b). unat (b_min b) \<le> n \<and> bit m n) \<and>
     (\<forall>n. bit m n \<longrightarrow> n \<le> unat (b_max b) \<or> n = 63)"

lemma parseTerm_mask: "bounds_ok b \<Longrightarrow> parseTerm trm b = Inr m \<Longrightarrow> mask_upto b m"
proof -
  assume ok: "bounds_ok b" and "parseTerm trm b = Inr m"
  then obtain r step h lo hi star m0 where
    p: "parse_step trm = Inr (r, step, h)" "\<not> (lo < b_min b \<or> b_max b < hi)" "\<not> hi < lo"
      "mask_loop lo hi step 0 = Some m0" "m = (if star \<and> \<not> h then m0 OR starBit else m0)"
    by (elim parseTerm_InrE)
  from parseTerm_loop [OF ok p(2,3) parse_step_nonzero [OF p(1)]] p(4)
  have m0: "bit m0 (unat lo)" "\<And>n. bit m0 n \<Longrightarrow> n \<le> unat (b_max b)" by force+
  have lo: "unat (b_min b) \<le> unat lo" using p(2) by (simp add: word_le_nat_alt not_less)
  have "bit m n \<longleftrightarrow> bit m0 n \<or> (star \<and> \<not> h \<and> n = 63)" for n
    using p(5) by (auto simp: bit_or_iff bit_starBit)
  then show ?thesis using m0 lo unfolding mask_upto_def by blast
qed

lemma parse_terms_mask:
  assumes "bounds_ok b" "parse_terms ts b acc = Inr m" "ts \<noteq> [] \<or> mask_upto b acc"
    "\<forall>n. bit acc n \<longrightarrow> n \<le> unat (b_max b) \<or> n = 63"
  shows "mask_upto b m"
  using assms(2-)
proof (induction ts arbitrary: acc)
  case (Cons t ts)
  then obtain m0 where m0: "parseTerm t b = Inr m0" "parse_terms ts b (acc OR m0) = Inr m"
    by (auto split: sum.splits)
  have "mask_upto b m0" by (rule parseTerm_mask) fact+
  then have "mask_upto b (acc OR m0)"
    using Cons.prems(3) by (auto simp: mask_upto_def bit_or_iff)
  then show ?case using Cons.IH [OF m0(2)] by (auto simp: mask_upto_def)
qed auto

lemma parseField_mask: "bounds_ok b \<Longrightarrow> parseField f b = Inr m \<Longrightarrow> mask_upto b m"
  unfolding parseField_def by (rule parse_terms_mask) auto

lemma parse_terms_no_Diverges: "bounds_ok b \<Longrightarrow> parse_terms ts b acc \<noteq> Inl Diverges"
  by (induction ts arbitrary: acc) (auto split: sum.splits simp: parseTerm_no_Diverges)

lemma parseField_no_Diverges: "bounds_ok b \<Longrightarrow> parseField f b \<noteq> Inl Diverges"
  by (simp add: parseField_def parse_terms_no_Diverges)

section \<open>Abstract syntax of fields\<close>

text \<open>
  The field syntax as a datatype, its concrete syntax and its meaning as a set of values. The
  parser is correct when the mask of a printed field is its meaning.
\<close>

datatype token = VNum nat | VName string

datatype range_syntax = RStar | RQuestion | RSingle token | RSpan token token

type_synonym term_syntax = "range_syntax \<times> nat option"

fun print_token :: "token \<Rightarrow> string" where
  "print_token (VNum n) = show_nat n"
| "print_token (VName s) = s"

fun print_range :: "range_syntax \<Rightarrow> string" where
  "print_range RStar = ''*''"
| "print_range RQuestion = ''?''"
| "print_range (RSingle v) = print_token v"
| "print_range (RSpan v w) = print_token v @ ''-'' @ print_token w"

fun print_term :: "term_syntax \<Rightarrow> string" where
  "print_term (r, None) = print_range r"
| "print_term (r, Some k) = print_range r @ ''/'' @ show_nat k"

fun print_field :: "term_syntax list \<Rightarrow> string" where
  "print_field [] = []"
| "print_field [t] = print_term t"
| "print_field (t # ts) = print_term t @ '','' @ print_field ts"

fun token_value :: "bounds \<Rightarrow> token \<Rightarrow> nat" where
  "token_value b (VNum n) = n"
| "token_value b (VName s) =
     (case b_names b of None \<Rightarrow> 0
      | Some names \<Rightarrow> (case map_of names (ToLower s) of None \<Rightarrow> 0 | Some v \<Rightarrow> unat v))"

fun token_ok :: "bounds \<Rightarrow> token \<Rightarrow> bool" where
  "token_ok b (VNum n) \<longleftrightarrow> n < 64"
| "token_ok b (VName s) \<longleftrightarrow>
     (case b_names b of None \<Rightarrow> False | Some names \<Rightarrow> map_of names (ToLower s) \<noteq> None) \<and>
     set s \<inter> set ''*?-/,'' = {}"

fun range_lo :: "bounds \<Rightarrow> range_syntax \<Rightarrow> nat" where
  "range_lo b (RSingle v) = token_value b v"
| "range_lo b (RSpan v w) = token_value b v"
| "range_lo b _ = unat (b_min b)"

fun range_hi :: "bounds \<Rightarrow> term_syntax \<Rightarrow> nat" where
  "range_hi b (RSingle v, None) = token_value b v"
| "range_hi b (RSpan v w, _) = token_value b w"
| "range_hi b _ = unat (b_max b)"

fun range_ok :: "bounds \<Rightarrow> range_syntax \<Rightarrow> bool" where
  "range_ok b (RSingle v) = token_ok b v"
| "range_ok b (RSpan v w) = (token_ok b v \<and> token_ok b w)"
| "range_ok b _ = True"

definition step_of :: "term_syntax \<Rightarrow> nat" where
  "step_of t = (case snd t of None \<Rightarrow> 1 | Some k \<Rightarrow> k)"

text \<open>A well-formed term: values in range, the range not inverted, a step below the wrap.\<close>

definition term_ok :: "bounds \<Rightarrow> term_syntax \<Rightarrow> bool" where
  "term_ok b t \<longleftrightarrow> range_ok b (fst t) \<and> unat (b_min b) \<le> range_lo b (fst t) \<and>
     range_lo b (fst t) \<le> range_hi b t \<and> range_hi b t \<le> unat (b_max b) \<and>
     0 < step_of t \<and> step_of t \<le> 2 ^ 64 - 64"

definition term_denotes :: "bounds \<Rightarrow> term_syntax \<Rightarrow> nat \<Rightarrow> bool" where
  "term_denotes b t n \<longleftrightarrow>
     range_lo b (fst t) \<le> n \<and> n \<le> range_hi b t \<and> (n - range_lo b (fst t)) mod step_of t = 0"

definition term_star :: "term_syntax \<Rightarrow> bool" where
  "term_star t \<longleftrightarrow> (fst t = RStar \<or> fst t = RQuestion) \<and> snd t = None"

lemma is_digit_special: "is_digit c \<Longrightarrow> c \<notin> set ''*?-/,''"
  by (auto simp: is_digit_def byte_def)

lemma print_token_chars:
  assumes "token_ok b v" "c \<in> set (print_token v)"
  shows "c \<notin> set ''*?-/,''"
proof (cases v)
  case (VNum n)
  then show ?thesis using assms is_digit_special [OF show_nat_digits] by simp
next
  case (VName s)
  then show ?thesis using assms by auto
qed

lemma print_token_nonempty: "bounds_ok b \<Longrightarrow> token_ok b v \<Longrightarrow> print_token v \<noteq> []"
  by (cases v) (auto simp: bounds_ok_def list_all_iff split: option.splits dest!: map_of_SomeD)

lemma ToLower_digits: "\<forall>c \<in> set s. is_digit c \<Longrightarrow> ToLower s = s"
  by (induction s rule: ToLower.induct) (auto simp: is_digit_def ascii_lower_def)

lemma names_not_digits:
  assumes "bounds_ok b" "b_names b = Some names"
  shows "map_of names (show_nat n) = None"
proof (rule ccontr)
  assume "map_of names (show_nat n) \<noteq> None"
  then obtain v where "(show_nat n, v) \<in> set names" by (auto dest: map_of_SomeD)
  then have "\<not> is_digit (hd (show_nat n))"
    using assms by (auto simp: bounds_ok_def list_all_iff)
  then show False using show_nat_digits [of "hd (show_nat n)" n] by simp
qed

lemma parseValue_print:
  assumes "bounds_ok b" "token_ok b v"
  shows "parseValue (print_token v) b = Inr (word_of_nat (token_value b v))"
proof (cases v)
  case (VNum n)
  then show ?thesis
    using assms ParseUint_show_nat [of n] ToLower_digits [of "show_nat n"] show_nat_digits [of _ n]
      names_not_digits [OF assms(1)]
    by (auto simp: parseValue_def split: option.splits)
next
  case (VName s)
  then show ?thesis using assms by (auto simp: parseValue_def split: option.splits)
qed

lemma print_range_chars:
  "range_ok b r \<Longrightarrow> CHR ''/'' \<notin> set (print_range r) \<and> CHR '','' \<notin> set (print_range r)"
  using print_token_chars [of b] by (cases r) auto

lemma print_term_chars: "range_ok b (fst t) \<Longrightarrow> CHR '','' \<notin> set (print_term t)"
  using print_range_chars [of b "fst t"] is_digit_special [OF show_nat_digits]
  by (cases t rule: print_term.cases) auto

lemma parse_step_print:
  assumes "term_ok b t"
  shows "parse_step (print_term t) =
    Inr (print_range (fst t), word_of_nat (step_of t), snd t \<noteq> None)"
proof (cases t rule: print_term.cases)
  case (1 r)
  then have "split_at_byte (CHR ''/'') (print_range r) = None"
    using assms print_range_chars [of b r] by (simp add: term_ok_def split_at_byte_None)
  then show ?thesis using 1 by (simp add: parse_step_def step_of_def)
next
  case (2 r k)
  then have "split_at_byte (CHR ''/'') (print_term t) = Some (print_range r, show_nat k)"
    using assms print_range_chars [of b r] by (simp add: term_ok_def split_at_byte_Some)
  moreover have k: "0 < k" "k < 2 ^ 64" using assms 2 by (auto simp: term_ok_def step_of_def)
  moreover from k have "(word_of_nat k :: u64) \<noteq> 0"
    using unat_word_of_nat64 [OF k(2)] by auto
  ultimately show ?thesis
    using 2 ParseUint_show_nat [OF k(2)] by (simp add: parse_step_def step_of_def)
qed

lemma parse_range_print:
  assumes ok: "bounds_ok b" and r: "range_ok b r"
  shows "parse_range trm (print_range r) h b =
    Inr (word_of_nat (range_lo b r), word_of_nat (range_hi b (r, if h then Some k else None)),
      r = RStar \<or> r = RQuestion)"
proof (cases r)
  case (RSingle v)
  have "print_token v \<noteq> ''*''" "print_token v \<noteq> ''?''" "CHR ''-'' \<notin> set (print_token v)"
    using r RSingle print_token_chars [of b v "CHR ''*''"] print_token_chars [of b v "CHR ''?''"]
      print_token_chars [of b v "CHR ''-''"] by auto
  then show ?thesis
    using RSingle r parseValue_print [OF ok, of v]
    by (auto simp: parse_range_def split_at_byte_None [THEN iffD2])
next
  case (RSpan v w)
  have "split_at_byte (CHR ''-'') (print_range r) = Some (print_token v, print_token w)"
    using RSpan r print_token_chars [of b v] by (auto simp: split_at_byte_Some)
  then show ?thesis
    using RSpan r parseValue_print [OF ok, of v] parseValue_print [OF ok, of w]
    by (auto simp: parse_range_def)
qed (auto simp: parse_range_def)

lemma parseTerm_print:
  assumes ok: "bounds_ok b" and t: "term_ok b t"
  shows "\<exists>m. parseTerm (print_term t) b = Inr m \<and>
    (\<forall>n. bit m n \<longleftrightarrow> term_denotes b t n \<or> (term_star t \<and> n = 63))"
proof -
  define lo hi st where "lo = range_lo b (fst t)" and "hi = range_hi b t" and "st = step_of t"
  have bd: "unat (b_min b) \<le> lo" "lo \<le> hi" "hi \<le> unat (b_max b)" "hi < 63" "0 < st" "st \<le> 2 ^ 64 - 64"
    using ok t by (auto simp: bounds_ok_def term_ok_def lo_def hi_def st_def)
  then have u: "unat (word_of_nat lo :: u64) = lo" "unat (word_of_nat hi :: u64) = hi"
    "unat (word_of_nat st :: u64) = st"
    by (auto intro!: unat_word_of_nat64)
  have hi_eq: "range_hi b (fst t, if snd t \<noteq> None then Some (the (snd t)) else None) = hi"
    by (cases t rule: print_term.cases) (auto simp: hi_def)
  have range: "parse_range (print_term t) (print_range (fst t)) (snd t \<noteq> None) b =
    Inr (word_of_nat lo, word_of_nat hi, fst t = RStar \<or> fst t = RQuestion)"
    using parse_range_print [OF ok, of "fst t" "print_term t" "snd t \<noteq> None" "the (snd t)"] t hi_eq
    by (simp add: term_ok_def lo_def)
  obtain m where m: "mask_loop (word_of_nat lo) (word_of_nat hi) (word_of_nat st) 0 = Some m"
    "\<And>n. n < 64 \<Longrightarrow> bit m n \<longleftrightarrow> (\<exists>j. n = lo + j * st \<and> n \<le> hi)"
    using mask_loop_up [of "word_of_nat st" "word_of_nat hi" "word_of_nat lo" 0] u bd by auto
  have guards: "\<not> ((word_of_nat lo :: u64) < b_min b \<or> b_max b < word_of_nat hi)"
    "\<not> (word_of_nat hi :: u64) < word_of_nat lo"
    using u bd by (simp_all add: word_less_nat_alt)
  let ?m = "if term_star t then m OR starBit else m"
  have "parseTerm (print_term t) b = Inr ?m"
    using parse_step_print [OF t] range m(1) guards
    by (auto simp: parseTerm_def term_star_def st_def [symmetric])
  moreover have "bit m n \<longleftrightarrow> term_denotes b t n" for n
  proof (cases "n < 64")
    case True
    have "(\<exists>j. n = lo + j * st) \<longleftrightarrow> lo \<le> n \<and> (n - lo) mod st = 0"
      by (auto simp: mod_eq_0_iff_dvd dvd_def mult.commute) (metis le_add_diff_inverse)
    then show ?thesis
      using m(2) [OF True] by (auto simp: term_denotes_def lo_def hi_def st_def)
  next
    case False
    then show ?thesis
      using bd bit_imp_le_length [of m n] by (auto simp: term_denotes_def hi_def)
  qed
  ultimately show ?thesis by (auto simp: bit_or_iff bit_starBit)
qed

lemma Split_print_field:
  "\<forall>t \<in> set ts. term_ok b t \<Longrightarrow> ts \<noteq> [] \<Longrightarrow> Split (print_field ts) (CHR '','') = map print_term ts"
proof (induction ts rule: print_field.induct)
  case (2 t)
  then show ?case using print_term_chars [of b t] by (auto simp: term_ok_def intro!: Split_none)
next
  case (3 t u ts)
  then show ?case using print_term_chars [of b t] by (auto simp: term_ok_def Split_append)
qed auto

lemma parse_terms_print:
  assumes "bounds_ok b" "\<forall>t \<in> set ts. term_ok b t"
  shows "\<exists>m. parse_terms (map print_term ts) b acc = Inr m \<and>
    (\<forall>n. bit m n \<longleftrightarrow> bit acc n \<or> (\<exists>t \<in> set ts. term_denotes b t n \<or> (term_star t \<and> n = 63)))"
  using assms(2)
proof (induction ts arbitrary: acc)
  case (Cons t ts)
  obtain m0 where m0: "parseTerm (print_term t) b = Inr m0"
    "\<And>n. bit m0 n \<longleftrightarrow> term_denotes b t n \<or> (term_star t \<and> n = 63)"
    using parseTerm_print [OF assms(1), of t] Cons.prems by auto
  from Cons.IH [of "acc OR m0"] Cons.prems obtain m where
    "parse_terms (map print_term ts) b (acc OR m0) = Inr m"
    "\<And>n. bit m n \<longleftrightarrow> bit (acc OR m0) n \<or> (\<exists>t \<in> set ts. term_denotes b t n \<or> (term_star t \<and> n = 63))"
    by auto
  then show ?case using m0 by (auto simp: bit_or_iff)
qed simp

lemma parseField_print_field:
  assumes "bounds_ok b" "\<forall>t \<in> set ts. term_ok b t" "ts \<noteq> []"
  shows "\<exists>m. parseField (print_field ts) b = Inr m \<and>
    (\<forall>n. bit m n \<longleftrightarrow> (\<exists>t \<in> set ts. term_denotes b t n \<or> (term_star t \<and> n = 63)))"
  using parse_terms_print [OF assms(1,2), of 0] Split_print_field [OF assms(2,3)]
  by (simp add: parseField_def)

section \<open>Properties\<close>

text \<open>C33: the field parser inverts the printer: the mask of a printed list of terms has exactly the
  values the terms denote, plus the star bit when one of them is an unstepped star.\<close>

theorem parseField_roundtrip:
  assumes "bounds_ok b" "\<forall>t \<in> set ts. term_ok b t" "ts \<noteq> []"
  shows "\<exists>m. parseField (print_field ts) b = Inr m \<and>
    (\<forall>n. bit m n \<longleftrightarrow> (\<exists>t \<in> set ts. term_denotes b t n \<or> (term_star t \<and> n = 63)))"
  using assms by (rule parseField_print_field)

theorem parseField_roundtrip_witness:
  "\<exists>m. parseField ''2-10/4,dec'' monthBound = Inr m \<and> bit m 6 \<and> bit m 12 \<and> \<not> bit m 3"
proof -
  let ?ts = "[(RSpan (VNum 2) (VNum 10), Some 4), (RSingle (VName ''dec''), None)]"
  have "\<forall>t \<in> set ?ts. term_ok monthBound t"
    by (simp add: term_ok_def step_of_def monthBound_def monthNames_def ascii_lower_def byte_def)
  from parseField_roundtrip [OF _ this] obtain m where
    m: "parseField (print_field ?ts) monthBound = Inr m"
      "\<And>n. bit m n \<longleftrightarrow> (\<exists>t \<in> set ?ts. term_denotes monthBound t n \<or> (term_star t \<and> n = 63))"
    by (auto simp: cron_bounds_ok cron_bounds_def)
  have p: "print_field ?ts = ''2-10/4,dec''"
    by (simp add: show_nat.simps digit_char_def char_of_def bit_0)
  have "bit m 6 \<and> bit m 12 \<and> \<not> bit m 3"
    unfolding m(2) by (simp add: term_denotes_def step_of_def term_star_def monthBound_def monthNames_def ascii_lower_def byte_def)
  then show ?thesis using m(1) unfolding p by blast
qed

text \<open>Parsing a field always returns, whatever the text and however large the step, and a mask it
  returns selects at least one value of the range and nothing above it but the star bit.\<close>

theorem parseField_bounds:
  assumes "bounds_ok b"
  shows "case parseField f b of Inl e \<Rightarrow> e \<noteq> Diverges | Inr m \<Rightarrow> mask_upto b m"
  using parseField_no_Diverges [OF assms, of f] parseField_mask [OF assms, of f]
  by (auto split: sum.split)

theorem parseField_bounds_witness:
  "case parseField ''5-10/18446744073709551615'' domBound of Inl e \<Rightarrow> e \<noteq> Diverges | Inr m \<Rightarrow> mask_upto domBound m"
  using parseField_bounds [of domBound] by (simp add: cron_bounds_ok cron_bounds_def)

end
