(* ===== verification/GoTime.thy ===== *)
theory GoTime
  imports Prelude
begin

text \<open>
  Go's \<^verbatim>\<open>time\<close> package as cronflux uses it. An instant (\<^verbatim>\<open>time.Time\<close>) is the number of
  nanoseconds since Go's zero time, 0001-01-01 00:00:00 UTC, so \<^verbatim>\<open>time.Time{}\<close> is 0 and
  \<^verbatim>\<open>Before\<close>, \<^verbatim>\<open>After\<close>, \<^verbatim>\<open>Equal\<close> are the order of the integers (\<^verbatim>\<open>Equal\<close> compares instants, not
  locations). A \<^verbatim>\<open>time.Duration\<close> is a signed count of nanoseconds. A \<^verbatim>\<open>*time.Location\<close> is the
  function from instants (in seconds) to the zone's offset in seconds east of UTC.

  The second half proves what the calendar is: the years, months, days, hours, minutes and
  seconds are nested grids of boundaries, stated as the locales \<open>calendar_unit\<close> and
  \<open>nested_units\<close> and interpreted on the definitions for every fixed zone offset.
\<close>

section \<open>Locations and arithmetic on instants\<close>

type_synonym location = "int \<Rightarrow> int"

definition UTC :: location where
  "UTC = (\<lambda>_. 0)"

text \<open>\<^verbatim>\<open>t.Truncate(d)\<close> rounds down to a multiple of \<open>d\<close> since the zero time.\<close>

definition Truncate :: "time \<Rightarrow> duration \<Rightarrow> time" where
  "Truncate t d = (if d \<le> 0 then t else t - t mod d)"

text \<open>\<^verbatim>\<open>t.Sub(u)\<close> saturates at the ends of the 64-bit range.\<close>

definition Sub :: "time \<Rightarrow> time \<Rightarrow> duration" where
  "Sub t u = max min_int64 (min max_int64 (t - u))"

definition Nanosecond :: "time \<Rightarrow> int" where
  "Nanosecond t = t mod Nanos"

section \<open>The calendar\<close>

definition is_leap :: "int \<Rightarrow> bool" where
  "is_leap y \<longleftrightarrow> y mod 4 = 0 \<and> (y mod 100 \<noteq> 0 \<or> y mod 400 = 0)"

text \<open>Days are counted from 0001-01-01, which is day 0.\<close>

definition days_before_year :: "int \<Rightarrow> int" where
  "days_before_year y = 365 * (y - 1) + (y - 1) div 4 - (y - 1) div 100 + (y - 1) div 400"

definition days_before_month :: "bool \<Rightarrow> int \<Rightarrow> int" where
  "days_before_month leap m =
     (if m \<le> 1 then 0 else if m = 2 then 31
      else (if leap then 1 else 0) +
        (if m = 3 then 59 else if m = 4 then 90 else if m = 5 then 120 else if m = 6 then 151
         else if m = 7 then 181 else if m = 8 then 212 else if m = 9 then 243
         else if m = 10 then 273 else if m = 11 then 304 else if m = 12 then 334 else 365))"

text \<open>Cutting off the 400-, 100-, 4- and 1-year cycles gives the year and the day within it.\<close>

definition year_yday :: "int \<Rightarrow> int \<times> int" where
  "year_yday d =
     (let n400 = d div 146097; d = d mod 146097;
          n100 = d div 36524; n100 = n100 - n100 div 4; d = d - 36524 * n100;
          n4 = d div 1461; d = d mod 1461;
          n1 = d div 365; n1 = n1 - n1 div 4
      in (1 + 400 * n400 + 100 * n100 + 4 * n4 + n1, d - 365 * n1))"

definition year_of_day :: "int \<Rightarrow> int" where
  "year_of_day d = fst (year_yday d)"

definition month_of_yday :: "bool \<Rightarrow> int \<Rightarrow> int" where
  "month_of_yday leap n =
     (if n < days_before_month leap 2 then 1 else if n < days_before_month leap 3 then 2
      else if n < days_before_month leap 4 then 3 else if n < days_before_month leap 5 then 4
      else if n < days_before_month leap 6 then 5 else if n < days_before_month leap 7 then 6
      else if n < days_before_month leap 8 then 7 else if n < days_before_month leap 9 then 8
      else if n < days_before_month leap 10 then 9 else if n < days_before_month leap 11 then 10
      else if n < days_before_month leap 12 then 11 else 12)"

definition month_of_day :: "int \<Rightarrow> int" where
  "month_of_day d = month_of_yday (is_leap (year_of_day d)) (snd (year_yday d))"

definition mday_of_day :: "int \<Rightarrow> int" where
  "mday_of_day d =
     snd (year_yday d) - days_before_month (is_leap (year_of_day d)) (month_of_day d) + 1"

text \<open>\<^verbatim>\<open>time.Date\<close> normalises the month into 1..12 first and adds the days linearly.\<close>

definition day_number :: "int \<Rightarrow> int \<Rightarrow> int \<Rightarrow> int" where
  "day_number y m d =
     (let y' = y + (m - 1) div 12; m' = (m - 1) mod 12 + 1
      in days_before_year y' + days_before_month (is_leap y') m' + d - 1)"

section \<open>Reading and building instants in a location\<close>

definition local_secs :: "location \<Rightarrow> time \<Rightarrow> int" where
  "local_secs loc t = t div Nanos + loc (t div Nanos)"

definition local_day :: "location \<Rightarrow> time \<Rightarrow> int" where
  "local_day loc t = local_secs loc t div 86400"

definition Year :: "location \<Rightarrow> time \<Rightarrow> int" where
  "Year loc t = year_of_day (local_day loc t)"

definition Month :: "location \<Rightarrow> time \<Rightarrow> int" where
  "Month loc t = month_of_day (local_day loc t)"

definition Day :: "location \<Rightarrow> time \<Rightarrow> int" where
  "Day loc t = mday_of_day (local_day loc t)"

text \<open>0001-01-01 was a Monday; Sunday is 0.\<close>

definition Weekday :: "location \<Rightarrow> time \<Rightarrow> int" where
  "Weekday loc t = (local_day loc t + 1) mod 7"

definition Hour :: "location \<Rightarrow> time \<Rightarrow> int" where
  "Hour loc t = local_secs loc t mod 86400 div 3600"

definition Minute :: "location \<Rightarrow> time \<Rightarrow> int" where
  "Minute loc t = local_secs loc t mod 3600 div 60"

definition Second :: "location \<Rightarrow> time \<Rightarrow> int" where
  "Second loc t = local_secs loc t mod 60"

text \<open>
  Local seconds to an instant: the offset is looked up at the local reading, and once more at
  the instant that offset gives, in case a zone transition lies between them.
\<close>

definition to_utc :: "location \<Rightarrow> int \<Rightarrow> int" where
  "to_utc loc u = (if loc u = 0 then u else u - loc (u - loc u))"

definition Date :: "int \<Rightarrow> int \<Rightarrow> int \<Rightarrow> int \<Rightarrow> int \<Rightarrow> int \<Rightarrow> int \<Rightarrow> location \<Rightarrow> time" where
  "Date y m d hh mm ss ns loc =
     to_utc loc (day_number y m d * 86400 + hh * 3600 + mm * 60 + ss) * Nanos + ns"

definition AddDate :: "location \<Rightarrow> time \<Rightarrow> int \<Rightarrow> int \<Rightarrow> int \<Rightarrow> time" where
  "AddDate loc t years months days =
     Date (Year loc t + years) (Month loc t + months) (Day loc t + days)
       (Hour loc t) (Minute loc t) (Second loc t) (Nanosecond t) loc"

section \<open>The calendar is correct\<close>

lemma int_div_pred:
  fixes y k :: int
  assumes "0 < k"
  shows "y div k = (y - 1) div k + (if y mod k = 0 then 1 else 0)"
proof -
  define q r where "q = (y - 1) div k" and "r = (y - 1) mod k"
  have y: "y = k * q + (r + 1)" and r: "0 \<le> r" "r < k"
    using assms mult_div_mod_eq [of k "y - 1"] by (auto simp: q_def r_def)
  show ?thesis
  proof (cases "r + 1 = k")
    case True
    then have *: "y = k * (q + 1)" using y by (simp add: algebra_simps)
    have "y div k = q + 1" "y mod k = 0" using assms by (simp_all add: *)
    then show ?thesis by (simp add: q_def)
  next
    case False
    then have "y div k = q" "y mod k = r + 1"
      using y r by (auto intro: int_div_pos_eq int_mod_pos_eq)
    then show ?thesis using r by (simp add: q_def)
  qed
qed

lemma days_before_year_Suc:
  "days_before_year (y + 1) = days_before_year y + (if is_leap y then 366 else 365)"
proof -
  define A B C where "A = (y - 1) div 4" and "B = (y - 1) div 100" and "C = (y - 1) div 400"
  define p q r where "p \<longleftrightarrow> y mod 4 = 0" and "q \<longleftrightarrow> y mod 100 = 0" and "r \<longleftrightarrow> y mod 400 = 0"
  have "(100::int) dvd 400" "(4::int) dvd 100" by simp_all
  then have imp: "r \<longrightarrow> q" "q \<longrightarrow> p"
    unfolding p_def q_def r_def mod_eq_0_iff_dvd by (blast intro: dvd_trans)+
  have "y div 4 = A + (if p then 1 else 0)" "y div 100 = B + (if q then 1 else 0)"
    "y div 400 = C + (if r then 1 else 0)"
    unfolding A_def B_def C_def p_def q_def r_def by (rule int_div_pred, simp)+
  then have "days_before_year (y + 1) =
    365 * y + (A + (if p then 1 else 0)) - (B + (if q then 1 else 0)) + (C + (if r then 1 else 0))"
    by (simp add: days_before_year_def)
  moreover have "days_before_year y = 365 * (y - 1) + A - B + C"
    by (simp add: days_before_year_def A_def B_def C_def)
  moreover have "is_leap y \<longleftrightarrow> p \<and> (\<not> q \<or> r)"
    by (simp add: is_leap_def p_def q_def r_def)
  ultimately show ?thesis
    using imp by (cases p; cases q; cases r) (simp_all del: days_before_year_def)
qed

lemma days_before_year_cycles:
  assumes "0 \<le> b" "b \<le> 3" "0 \<le> c" "c \<le> 24" "0 \<le> e" "e \<le> 3"
  shows "days_before_year (1 + 400 * a + 100 * b + 4 * c + e) =
    146097 * a + 36524 * b + 1461 * c + 365 * e"
proof -
  let ?y = "400 * a + 100 * b + 4 * c + e"
  have "?y div 4 = 100 * a + 25 * b + c"
    by (rule int_div_pos_eq [where r = e]) (use assms in auto)
  moreover have "?y div 100 = 4 * a + b"
    by (rule int_div_pos_eq [where r = "4 * c + e"]) (use assms in auto)
  moreover have "?y div 400 = a"
    by (rule int_div_pos_eq [where r = "100 * b + 4 * c + e"]) (use assms in auto)
  moreover have "1 + 400 * a + 100 * b + 4 * c + e - 1 = ?y" by simp
  ultimately show ?thesis
    unfolding days_before_year_def by (simp only:) simp
qed

text \<open>One cycle of the year computation: \<open>q - q div 4\<close> caps the quotient at 3.\<close>

lemma cycle_cut:
  fixes d k :: int
  assumes "0 \<le> d" "d < 5 * k" "b = d div k - d div k div 4"
  shows "0 \<le> b" "b \<le> 3" "k * b \<le> d" "b < 3 \<Longrightarrow> d < k * b + k" "d < k * b + 2 * k"
proof -
  have k: "0 < k" using assms by linarith
  define q where "q = d div k"
  define r where "r = d mod k"
  have d: "d = k * q + r" and r: "0 \<le> r" "r < k"
    using k by (auto simp: q_def r_def)
  have "0 \<le> q" using assms k by (simp add: q_def pos_imp_zdiv_nonneg_iff)
  have "k * q < k * 5" using d r assms by linarith
  then have "q < 5" using k mult_less_cancel_left_pos by blast
  then consider "q = 0" | "q = 1" | "q = 2" | "q = 3" | "q = 4" using \<open>0 \<le> q\<close> by linarith
  then have "q - q div 4 = (if q = 4 then 3 else q)" by cases simp_all
  then have b: "b = (if q = 4 then 3 else q)" using assms(3) by (simp add: q_def)
  show "0 \<le> b" "b \<le> 3" using b \<open>0 \<le> q\<close> \<open>q < 5\<close> by auto
  show "k * b \<le> d" "b < 3 \<Longrightarrow> d < k * b + k" "d < k * b + 2 * k"
    using b d r k by (auto split: if_splits)
qed

lemma year_yday_bounds:
  assumes "year_yday d = (y, n)"
  shows "days_before_year y + n = d" and "0 \<le> n" and "n < (if is_leap y then 366 else 365)"
proof -
  define a d1 where "a = d div 146097" and "d1 = d mod 146097"
  define b where "b = d1 div 36524 - d1 div 36524 div 4"
  define d2 where "d2 = d1 - 36524 * b"
  define c d3 where "c = d2 div 1461" and "d3 = d2 mod 1461"
  define e where "e = d3 div 365 - d3 div 365 div 4"
  have y: "y = 1 + 400 * a + 100 * b + 4 * c + e" and n: "n = d3 - 365 * e"
    using assms by (auto simp: year_yday_def Let_def a_def b_def c_def e_def d1_def d2_def d3_def)
  have d: "d = 146097 * a + d1" and d1: "0 \<le> d1" "d1 < 146097" by (auto simp: a_def d1_def)
  have "d1 < 5 * 36524" using d1 by simp
  note B = cycle_cut [OF d1(1) this b_def]
  have d2: "0 \<le> d2" "d2 \<le> 36524" "b < 3 \<Longrightarrow> d2 < 36524"
    using B d1 by (cases "b < 3"; simp add: d2_def)+
  have d2_eq: "d2 = 1461 * c + d3" and d3: "0 \<le> d3" "d3 < 1461" by (auto simp: c_def d3_def)
  have "0 \<le> c" using d2 by (simp add: c_def)
  have c: "0 \<le> c" "c \<le> 24" using d2 d2_eq d3 by linarith+
  have "d3 < 5 * 365" using d3 by simp
  note E = cycle_cut [OF d3(1) this e_def]
  have n_bounds: "0 \<le> n" "n \<le> 365" "e < 3 \<Longrightarrow> n < 365"
    using E d3 by (cases "e < 3"; simp add: n)+
  have "d = 146097 * a + 36524 * b + 1461 * c + 365 * e + n"
    using d d2_eq n by (simp add: d2_def)
  then show "days_before_year y + n = d"
    using days_before_year_cycles [OF B(1,2) c E(1,2), of a] y by simp
  show "0 \<le> n" by (fact n_bounds(1))
  show "n < (if is_leap y then 366 else 365)"
  proof (cases "n < 365")
    case False
    then have "n = 365" "\<not> e < 3" using n_bounds by auto
    then have "e = 3" using E(2) by simp
    then have "d3 = 1460" using n \<open>n = 365\<close> by simp
    then have cb: "c = 24 \<Longrightarrow> b = 3" using d2 d2_eq B(2) by (cases "b < 3") auto
    have y4: "y = 100 * (4 * a + b + (if c = 24 then 1 else 0)) + (if c = 24 then 0 else 4 * (c + 1))"
      using y \<open>e = 3\<close> by simp
    have "y mod 4 = 0" using y \<open>e = 3\<close> by (simp add: mod_eq_0_iff_dvd)
    moreover have "c < 24 \<Longrightarrow> y mod 100 = 4 * (c + 1)"
      using c y4 by (intro int_mod_pos_eq [where q = "4 * a + b"]) auto
    moreover have "c = 24 \<Longrightarrow> y = 400 * (a + 1)" using y4 cb by simp
    ultimately have "is_leap y" using c by (cases "c = 24") (auto simp: is_leap_def)
    then show ?thesis using \<open>n = 365\<close> by simp
  qed simp
qed

lemma year_of_day_bounds:
  "days_before_year (year_of_day d) \<le> d" "d < days_before_year (year_of_day d + 1)"
  using year_yday_bounds [of d "fst (year_yday d)" "snd (year_yday d)"]
  by (auto simp: year_of_day_def days_before_year_Suc)

lemma yday_eq: "snd (year_yday d) = d - days_before_year (year_of_day d)"
  using year_yday_bounds(1) [of d "fst (year_yday d)" "snd (year_yday d)"]
  by (simp add: year_of_day_def)

lemma month_of_yday_range: "1 \<le> month_of_yday leap n" "month_of_yday leap n \<le> 12"
  by (auto simp: month_of_yday_def)

lemma month_of_yday_bounds:
  assumes "0 \<le> n" "n < (if leap then 366 else 365)"
  shows "days_before_month leap (month_of_yday leap n) \<le> n"
    and "n < days_before_month leap (month_of_yday leap n + 1)"
  using assms by (auto simp: month_of_yday_def days_before_month_def split: if_splits)

lemma month_of_day_range: "1 \<le> month_of_day d" "month_of_day d \<le> 12"
  by (simp_all add: month_of_day_def month_of_yday_range)

lemma month_of_day_bounds:
  fixes d :: int
  defines "y \<equiv> year_of_day d"
  shows "days_before_year y + days_before_month (is_leap y) (month_of_day d) \<le> d"
    and "d < days_before_year y + days_before_month (is_leap y) (month_of_day d + 1)"
proof -
  let ?n = "snd (year_yday d)"
  have "year_yday d = (y, ?n)" by (simp add: y_def year_of_day_def)
  note n = year_yday_bounds [OF this]
  show "days_before_year y + days_before_month (is_leap y) (month_of_day d) \<le> d"
    "d < days_before_year y + days_before_month (is_leap y) (month_of_day d + 1)"
    using month_of_yday_bounds [OF n(2,3)] n(1) by (simp_all add: month_of_day_def y_def)
qed

lemma mday_of_day_eq:
  "mday_of_day d = d - days_before_year (year_of_day d)
     - days_before_month (is_leap (year_of_day d)) (month_of_day d) + 1"
  by (simp add: mday_of_day_def yday_eq)

lemma mday_of_day_pos: "1 \<le> mday_of_day d"
  using month_of_day_bounds(1) [of d] by (simp add: mday_of_day_eq)

text \<open>Months are numbered through, January of year 0 being month 0.\<close>

definition month_start :: "int \<Rightarrow> int" where
  "month_start k = day_number 0 (k + 1) 1"

definition month_index :: "int \<Rightarrow> int" where
  "month_index d = 12 * year_of_day d + month_of_day d - 1"

lemma month_start_eq:
  "month_start k = days_before_year (k div 12) + days_before_month (is_leap (k div 12)) (k mod 12 + 1)"
  by (simp add: month_start_def day_number_def Let_def)

lemma day_number_month_start: "day_number y m d = month_start (12 * y + m - 1) + d - 1"
proof -
  have "(12 * y + m - 1) div 12 = y + (m - 1) div 12" "(12 * y + m - 1) mod 12 = (m - 1) mod 12"
    using div_mult_self4 [of 12 "m - 1" y] mod_mult_self4 [of 12 y "m - 1"]
    by (simp_all add: algebra_simps)
  then show ?thesis by (simp add: month_start_eq day_number_def Let_def)
qed

lemma month_index_div_mod:
  "month_index d div 12 = year_of_day d" "month_index d mod 12 = month_of_day d - 1"
proof -
  have m: "0 \<le> month_of_day d - 1" "month_of_day d - 1 < 12" using month_of_day_range [of d] by auto
  show "month_index d div 12 = year_of_day d"
    by (rule int_div_pos_eq [OF _ m]) (simp add: month_index_def)
  show "month_index d mod 12 = month_of_day d - 1"
    by (rule int_mod_pos_eq [OF _ m]) (simp add: month_index_def)
qed

lemma month_start_Suc:
  "month_start (k + 1) = days_before_year (k div 12) + days_before_month (is_leap (k div 12)) (k mod 12 + 1 + 1)"
proof -
  have r: "0 \<le> k mod 12" "k mod 12 < 12" by simp_all
  show ?thesis
  proof (cases "k mod 12 = 11")
    case True
    have "(k + 1) div 12 = k div 12 + 1"
      by (rule int_div_pos_eq [where r = 0]) (use mult_div_mod_eq [of 12 k] True in auto)
    moreover have "(k + 1) mod 12 = 0"
      by (rule int_mod_pos_eq [where q = "k div 12 + 1"]) (use mult_div_mod_eq [of 12 k] True in auto)
    ultimately show ?thesis
      by (simp add: month_start_eq True days_before_year_Suc days_before_month_def)
  next
    case False
    then have lt: "k mod 12 + 1 < 12" using r by linarith
    have "(k + 1) div 12 = k div 12" "(k + 1) mod 12 = k mod 12 + 1"
      by (rule int_div_pos_eq [where r = "k mod 12 + 1"], use lt r mult_div_mod_eq [of 12 k] in auto)
        (rule int_mod_pos_eq [where q = "k div 12"], use lt r mult_div_mod_eq [of 12 k] in auto)
    then show ?thesis unfolding month_start_eq by simp
  qed
qed

lemma days_before_month_less:
  assumes "1 \<le> m" "m \<le> 12"
  shows "days_before_month leap m < days_before_month leap (m + 1)"
proof -
  have "m = 1 \<or> m = 2 \<or> m = 3 \<or> m = 4 \<or> m = 5 \<or> m = 6 \<or> m = 7 \<or> m = 8 \<or> m = 9 \<or> m = 10
    \<or> m = 11 \<or> m = 12"
    using assms by arith
  then show ?thesis by (elim disjE) (simp_all add: days_before_month_def)
qed

lemma month_start_less: "month_start k < month_start (k + 1)"
proof -
  have r: "0 \<le> k mod 12" "k mod 12 < 12" by simp_all
  then have "1 \<le> k mod 12 + 1" "k mod 12 + 1 \<le> 12" by linarith+
  from days_before_month_less [OF this] show ?thesis
    unfolding month_start_Suc unfolding month_start_eq by simp
qed

lemma month_index_bounds: "month_start (month_index d) \<le> d" "d < month_start (month_index d + 1)"
  using month_of_day_bounds [of d]
  unfolding month_start_Suc unfolding month_start_eq by (simp_all add: month_index_div_mod)

lemma mday_of_day_month: "mday_of_day d = d - month_start (month_index d) + 1"
  by (simp add: mday_of_day_eq month_start_eq month_index_div_mod)

section \<open>Calendar units as grids\<close>

text \<open>
  A unit of the calendar is a strictly increasing sequence of boundaries \<open>start\<close>, with the
  index of the unit an instant falls into.
\<close>

locale calendar_unit =
  fixes start :: "int \<Rightarrow> time" and idx :: "time \<Rightarrow> int"
  assumes start_Suc: "start k < start (k + 1)"
    and start_le: "start (idx t) \<le> t"
    and less_start: "t < start (idx t + 1)"
begin

definition aligned :: "time \<Rightarrow> bool" where
  "aligned t \<longleftrightarrow> start (idx t) = t"

lemma start_mono_nat: "start k < start (k + 1 + int n)"
proof (induction n)
  case 0
  show ?case by (simp add: start_Suc)
next
  case (Suc n)
  then show ?case
    using start_Suc [of "k + 1 + int n"] by (simp add: algebra_simps)
qed

lemma start_mono: "k < l \<Longrightarrow> start k < start l"
  using start_mono_nat [of k "nat (l - k - 1)"] by simp

lemma start_mono_le: "k \<le> l \<Longrightarrow> start k \<le> start l"
  using start_mono [of k l] by (cases "k = l") auto

lemma start_le_iff: "start k \<le> start l \<longleftrightarrow> k \<le> l"
  by (meson linorder_not_le start_mono start_mono_le)

lemma idx_eqI: "start k \<le> t \<Longrightarrow> t < start (k + 1) \<Longrightarrow> idx t = k"
proof -
  assume a: "start k \<le> t" "t < start (k + 1)"
  have "start k < start (idx t + 1)" "start (idx t) < start (k + 1)"
    using a start_le [of t] less_start [of t] by linarith+
  then have "k < idx t + 1" "idx t < k + 1"
    by (meson linorder_not_le start_mono_le)+
  then show ?thesis by linarith
qed

lemma idx_start [simp]: "idx (start k) = k"
  by (rule idx_eqI) (simp_all add: start_Suc)

lemma aligned_start [simp]: "aligned (start k)"
  by (simp add: aligned_def)

lemma aligned_iff: "aligned t \<longleftrightarrow> (\<exists>k. t = start k)"
  by (metis aligned_def aligned_start)

lemma idx_mono: "t \<le> u \<Longrightarrow> idx t \<le> idx u"
proof (rule ccontr)
  assume "t \<le> u" "\<not> idx t \<le> idx u"
  then have "start (idx u + 1) \<le> start (idx t)" by (intro start_mono_le) simp
  then show False using \<open>t \<le> u\<close> start_le [of t] less_start [of u] by linarith
qed

lemma aligned_ge_next: "aligned u \<Longrightarrow> t < u \<Longrightarrow> start (idx t + 1) \<le> u"
proof -
  assume "aligned u" "t < u"
  then obtain k where k: "u = start k" by (auto simp: aligned_iff)
  have "idx t < k"
    using \<open>t < u\<close> k start_le [of t] by (metis linorder_not_le order_trans start_mono_le not_less)
  then show ?thesis using k by (simp add: start_mono_le)
qed

end

text \<open>Two units, the boundaries of the coarse one among those of the fine one.\<close>

locale nested_units =
  fine: calendar_unit fstart fidx + coarse: calendar_unit cstart cidx
  for fstart :: "int \<Rightarrow> time" and fidx :: "time \<Rightarrow> int"
    and cstart :: "int \<Rightarrow> time" and cidx :: "time \<Rightarrow> int" +
  assumes nested: "fine.aligned (cstart k)"
begin

lemma coarse_fine: "coarse.aligned t \<Longrightarrow> fine.aligned t"
  using nested by (auto simp: coarse.aligned_iff)

lemma next_fine_le: "fstart (fidx t + 1) \<le> cstart (cidx t + 1)"
  by (rule fine.aligned_ge_next [OF nested]) (rule coarse.less_start)

lemma cidx_fine_eq: "fidx t = fidx u \<Longrightarrow> cidx t = cidx u"
proof -
  have "cidx t = cidx (fstart (fidx t))" for t
  proof (rule coarse.idx_eqI [symmetric])
    have "fine.aligned (cstart (cidx t))" by (rule nested)
    moreover have "cstart (cidx t) \<le> t" by (rule coarse.start_le)
    ultimately show "cstart (cidx t) \<le> fstart (fidx t)"
      by (metis fine.aligned_def fine.idx_mono fine.start_mono_le)
    show "fstart (fidx t) < cstart (cidx t + 1)"
      using fine.start_le [of t] coarse.less_start [of t] by linarith
  qed
  then show "fidx t = fidx u \<Longrightarrow> cidx t = cidx u" by metis
qed

text \<open>Stepping to the next fine boundary changes the coarse unit only at its boundary.\<close>

lemma crossing:
  assumes "cidx (fstart (fidx t + 1)) \<noteq> cidx t"
  shows "coarse.aligned (fstart (fidx t + 1))"
proof -
  let ?u = "fstart (fidx t + 1)"
  have "t \<le> ?u" using fine.less_start [of t] by simp
  then have "cidx t + 1 \<le> cidx ?u" using assms coarse.idx_mono [of t ?u] by simp
  then have "cstart (cidx t + 1) \<le> ?u"
    using coarse.start_le [of ?u] coarse.start_mono_le by (meson order_trans)
  then have "?u = cstart (cidx t + 1)" using next_fine_le [of t] by simp
  then show ?thesis by simp
qed

end

section \<open>The units of a zone with a fixed offset\<close>

text \<open>
  \<open>minute_zone k\<close> is \<open>k\<close> whole minutes east of UTC, the granularity of today's civil time zones; \<open>UTC\<close> is the zone 0. In it the local
  reading is the instant shifted by the offset \<open>zone_shift k\<close>.
\<close>

abbreviation MinuteN :: int where "MinuteN \<equiv> 60000000000"
abbreviation HourN :: int where "HourN \<equiv> 3600000000000"
abbreviation DayN :: int where "DayN \<equiv> 86400000000000"

definition minute_zone :: "int \<Rightarrow> location" where
  "minute_zone k = (\<lambda>_. 60 * k)"

definition zone_shift :: "int \<Rightarrow> int" where
  "zone_shift k = 60 * k * Nanos"

lemma zone_shift_mod [simp]:
  "(t + zone_shift k) mod MinuteN = t mod MinuteN" "(t + zone_shift k) mod Nanos = t mod Nanos"
proof -
  have "zone_shift k = MinuteN * k" "zone_shift k = Nanos * (60 * k)" by (simp_all add: zone_shift_def)
  then show "(t + zone_shift k) mod MinuteN = t mod MinuteN" "(t + zone_shift k) mod Nanos = t mod Nanos"
    by (metis mod_mult_self2)+
qed

lemma UTC_minute_zone: "UTC = minute_zone 0"
  by (simp add: UTC_def minute_zone_def)

definition grid_start :: "int \<Rightarrow> int \<Rightarrow> int \<Rightarrow> time" where
  "grid_start w k i = i * w - zone_shift k"

definition grid_idx :: "int \<Rightarrow> int \<Rightarrow> time \<Rightarrow> int" where
  "grid_idx w k t = (t + zone_shift k) div w"

definition day_unit_start :: "(int \<Rightarrow> int) \<Rightarrow> int \<Rightarrow> int \<Rightarrow> time" where
  "day_unit_start S k i = grid_start DayN k (S i)"

definition day_unit_idx :: "(int \<Rightarrow> int) \<Rightarrow> int \<Rightarrow> time \<Rightarrow> int" where
  "day_unit_idx I k t = I (grid_idx DayN k t)"

lemma grid_start_idx: "grid_start w k (grid_idx w k t) = t - (t + zone_shift k) mod w"
  using minus_mod_eq_mult_div [of "t + zone_shift k" w]
  by (simp add: grid_start_def grid_idx_def mult.commute)

lemma grid_unit:
  assumes "0 < w"
  shows "calendar_unit (grid_start w k) (grid_idx w k)"
proof
  fix t i
  have Suc: "grid_start w k (i + 1) = grid_start w k i + w" for i
    by (simp add: grid_start_def algebra_simps)
  show "grid_start w k i < grid_start w k (i + 1)" using Suc assms by simp
  show "grid_start w k (grid_idx w k t) \<le> t" "t < grid_start w k (grid_idx w k t + 1)"
    using assms pos_mod_bound [OF assms, of "t + zone_shift k"] by (auto simp: Suc grid_start_idx)
qed

lemma grid_aligned:
  assumes "0 < w"
  shows "calendar_unit.aligned (grid_start w k) (grid_idx w k) t \<longleftrightarrow> (t + zone_shift k) mod w = 0"
  by (simp add: calendar_unit.aligned_def [OF grid_unit [OF assms]] grid_start_idx)

lemma grid_nested:
  assumes "0 < w" "0 < c"
  shows "nested_units (grid_start w k) (grid_idx w k) (grid_start (c * w) k) (grid_idx (c * w) k)"
  using assms
  by (intro nested_units.intro nested_units_axioms.intro grid_unit) (simp_all add: grid_aligned grid_start_def)

lemma day_unit:
  assumes S: "\<And>i. S i < S (i + 1)" "\<And>d. S (I d) \<le> d" "\<And>d. d < S (I d + 1)"
  shows "calendar_unit (day_unit_start S k) (day_unit_idx I k)"
proof
  fix i t
  have mono: "grid_start DayN k a < grid_start DayN k b \<longleftrightarrow> a < b" for a b
    by (simp add: grid_start_def)
  show "day_unit_start S k i < day_unit_start S k (i + 1)"
    by (simp add: day_unit_start_def mono S(1))
  have le: "grid_start DayN k (grid_idx DayN k t) \<le> t" "t < grid_start DayN k (grid_idx DayN k t + 1)"
    using calendar_unit.start_le [OF grid_unit, of DayN] calendar_unit.less_start [OF grid_unit, of DayN]
    by simp_all
  have "grid_start DayN k (S (I d)) \<le> grid_start DayN k d" for d
    using S(2) by (simp add: grid_start_def)
  then show "day_unit_start S k (day_unit_idx I k t) \<le> t"
    using le(1) by (simp add: day_unit_start_def day_unit_idx_def) (meson order_trans)
  have "grid_start DayN k (d + 1) \<le> grid_start DayN k (S (I d + 1))" for d
    using S(3) [of d] by (simp add: grid_start_def)
  then show "t < day_unit_start S k (day_unit_idx I k t + 1)"
    using le(2) by (simp add: day_unit_start_def day_unit_idx_def) (meson less_le_trans)
qed

lemma day_unit_nested:
  assumes S: "\<And>i. S i < S (i + 1)" "\<And>d. S (I d) \<le> d" "\<And>d. d < S (I d + 1)"
  shows "nested_units (grid_start DayN k) (grid_idx DayN k) (day_unit_start S k) (day_unit_idx I k)"
  using day_unit [OF S]
  by (intro nested_units.intro nested_units_axioms.intro grid_unit)
    (simp_all add: grid_aligned day_unit_start_def, simp add: grid_start_def)

abbreviation year_start_at :: "int \<Rightarrow> int \<Rightarrow> time" where
  "year_start_at \<equiv> day_unit_start days_before_year"

abbreviation year_idx_at :: "int \<Rightarrow> time \<Rightarrow> int" where
  "year_idx_at \<equiv> day_unit_idx year_of_day"

abbreviation month_start_at :: "int \<Rightarrow> int \<Rightarrow> time" where
  "month_start_at \<equiv> day_unit_start month_start"

abbreviation month_idx_at :: "int \<Rightarrow> time \<Rightarrow> int" where
  "month_idx_at \<equiv> day_unit_idx month_index"

lemma days_before_year_less: "days_before_year y < days_before_year (y + 1)"
  by (simp add: days_before_year_Suc)

interpretation sec_unit: calendar_unit "grid_start Nanos k" "grid_idx Nanos k" for k
  by (rule grid_unit) simp

interpretation minute_unit: calendar_unit "grid_start MinuteN k" "grid_idx MinuteN k" for k
  by (rule grid_unit) simp

interpretation hour_unit: calendar_unit "grid_start HourN k" "grid_idx HourN k" for k
  by (rule grid_unit) simp

interpretation mday_unit: calendar_unit "grid_start DayN k" "grid_idx DayN k" for k
  by (rule grid_unit) simp

interpretation month_unit: calendar_unit "month_start_at k" "month_idx_at k" for k
  by (rule day_unit) (fact month_start_less month_index_bounds)+

interpretation year_unit: calendar_unit "year_start_at k" "year_idx_at k" for k
  by (rule day_unit) (fact days_before_year_less year_of_day_bounds)+

interpretation sec_min: nested_units "grid_start Nanos k" "grid_idx Nanos k"
    "grid_start MinuteN k" "grid_idx MinuteN k" for k
  using grid_nested [of Nanos 60 k] by simp

interpretation min_hour: nested_units "grid_start MinuteN k" "grid_idx MinuteN k"
    "grid_start HourN k" "grid_idx HourN k" for k
  using grid_nested [of MinuteN 60 k] by simp

interpretation hour_day: nested_units "grid_start HourN k" "grid_idx HourN k"
    "grid_start DayN k" "grid_idx DayN k" for k
  using grid_nested [of HourN 24 k] by simp

interpretation day_month: nested_units "grid_start DayN k" "grid_idx DayN k"
    "month_start_at k" "month_idx_at k" for k
  by (rule day_unit_nested) (fact month_start_less month_index_bounds)+

lemma month_start_year: "month_start (12 * y) = days_before_year y"
  by (simp add: month_start_eq days_before_month_def)

interpretation month_year: nested_units "month_start_at k" "month_idx_at k"
    "year_start_at k" "year_idx_at k" for k
proof
  fix i
  have "year_start_at k i = month_start_at k (12 * i)"
    by (simp add: day_unit_start_def month_start_year)
  then show "month_unit.aligned k (year_start_at k i)"
    by simp
qed

section \<open>Readings in a fixed zone\<close>

lemma local_secs_fixed: "local_secs (minute_zone k) t = (t + zone_shift k) div Nanos"
  by (simp add: local_secs_def minute_zone_def zone_shift_def)

lemma local_day_fixed [go_time_simps]: "local_day (minute_zone k) t = grid_idx DayN k t"
  by (simp add: local_day_def local_secs_fixed grid_idx_def flip: zdiv_zmult2_eq)

lemma Year_fixed: "Year (minute_zone k) t = year_idx_at k t"
  by (simp add: Year_def local_day_fixed day_unit_idx_def)

lemma mod_div_swap: "0 < b \<Longrightarrow> 0 < c \<Longrightarrow> (a mod (b * c)) div b = (a div b) mod (c::int)" for a b :: int
  by (simp add: zmod_zmult2_eq div_add1_eq)

lemma Hour_fixed: "Hour (minute_zone k) t = grid_idx HourN k t mod 24"
  using mod_div_swap [of 3600 24 "(t + zone_shift k) div Nanos"] zdiv_zmult2_eq [of 3600 "t + zone_shift k" Nanos]
  by (simp add: Hour_def local_secs_fixed grid_idx_def)

lemma Minute_fixed: "Minute (minute_zone k) t = grid_idx MinuteN k t mod 60"
  using mod_div_swap [of 60 60 "(t + zone_shift k) div Nanos"] zdiv_zmult2_eq [of 60 "t + zone_shift k" Nanos]
  by (simp add: Minute_def local_secs_fixed grid_idx_def)

lemma Second_fixed: "Second (minute_zone k) t = grid_idx Nanos k t mod 60"
  by (simp add: Second_def local_secs_fixed grid_idx_def)

lemma Date_fixed:
  "Date y m d hh mm ss ns (minute_zone k) =
     (day_number y m d * 86400 + hh * 3600 + mm * 60 + ss) * Nanos + ns - zone_shift k"
  by (simp add: Date_def to_utc_def minute_zone_def zone_shift_def)

text \<open>Where a grid is aligned, its coarser multiples are where the index is a multiple.\<close>

lemma grid_wrap:
  assumes "0 < w" "calendar_unit.aligned (grid_start w k) (grid_idx w k) t"
  shows "grid_idx w k t mod c = 0 \<longleftrightarrow> (t + zone_shift k) mod (c * w) = 0"
proof -
  have "t + zone_shift k = grid_idx w k t * w"
    using assms(2) by (simp add: calendar_unit.aligned_def [OF grid_unit [OF assms(1)]] grid_start_def)
  then show ?thesis using assms(1) by simp
qed

lemma day_aligned_reading:
  assumes "mday_unit.aligned k t"
  shows "Hour (minute_zone k) t = 0" "Minute (minute_zone k) t = 0" "Second (minute_zone k) t = 0"
    "Nanosecond t = 0"
proof -
  have h: "hour_unit.aligned k t" by (rule hour_day.coarse_fine [OF assms])
  then have m: "minute_unit.aligned k t" by (rule min_hour.coarse_fine)
  then have s: "sec_unit.aligned k t" by (rule sec_min.coarse_fine)
  show "Hour (minute_zone k) t = 0"
    using grid_wrap [OF _ h, of 24] assms by (simp add: Hour_fixed grid_aligned)
  show "Minute (minute_zone k) t = 0"
    using grid_wrap [OF _ m, of 60] h by (simp add: Minute_fixed grid_aligned)
  show "Second (minute_zone k) t = 0"
    using grid_wrap [OF _ s, of 60] m by (simp add: Second_fixed grid_aligned)
  show "Nanosecond t = 0"
    using s by (simp add: grid_aligned Nanosecond_def)
qed

end
