(* ===== verification/Cron_Spec.thy ===== *)
theory Cron_Spec
  imports Cron_Field GoTime
begin

unbundle bit_operations_syntax

text \<open>
  Package \<^verbatim>\<open>cron\<close>, \<^verbatim>\<open>spec.go\<close>: a parsed expression and the calendar walk \<^verbatim>\<open>Next\<close>. The walk is
  modelled for any location, as the five loops and the \<^verbatim>\<open>goto WRAP\<close> of the source; both may
  fail to return in a location the model knows nothing about, so they are partial functions. For
  every zone with a fixed offset the walk is shown to return, and to return the earliest matching
  instant of the search window or the zero time.
\<close>

section \<open>Schedules\<close>

record SpecSchedule =
  s_Second :: u64
  s_Minute :: u64
  s_Hour :: u64
  s_Dom :: u64
  s_Month :: u64
  s_Dow :: u64
  s_Location :: "location option"

definition loc_of :: "SpecSchedule \<Rightarrow> location" where
  "loc_of s = (case s_Location s of None \<Rightarrow> UTC | Some l \<Rightarrow> l)"

definition maxSearchYears :: int where
  "maxSearchYears = 5"

text \<open>\<^verbatim>\<open>1<<uint(v)&mask\<close>\<close>

definition bit_of :: "int \<Rightarrow> u64 \<Rightarrow> u64" where
  "bit_of v m = push_bit (nat v) 1 AND m"

definition dayMatches :: "SpecSchedule \<Rightarrow> location \<Rightarrow> time \<Rightarrow> bool" where
  "dayMatches s loc t =
     (let domMatch = bit_of (Day loc t) (s_Dom s) > 0;
          dowMatch = bit_of (Weekday loc t) (s_Dow s) > 0
      in if s_Dom s AND starBit > 0 \<or> s_Dow s AND starBit > 0 then domMatch \<and> dowMatch
         else domMatch \<or> dowMatch)"

section \<open>The calendar walk\<close>

text \<open>
  One loop of \<^verbatim>\<open>Next\<close>: until the field matches, round down to the field's unit the first time
  (\<open>added\<close>), step to the next unit, and \<^verbatim>\<open>goto WRAP\<close> when the next larger unit has begun. The
  outcome is either the jump or the state the code falls through with.
\<close>

datatype flow = Goto time bool | Fall time bool

partial_function (option) field_loop ::
  "(time \<Rightarrow> bool) \<Rightarrow> (time \<Rightarrow> time) \<Rightarrow> (time \<Rightarrow> time) \<Rightarrow> (time \<Rightarrow> bool) \<Rightarrow> time \<Rightarrow> bool \<Rightarrow> flow option"
  where
  "field_loop matches reset step wrapped t added =
     (if matches t then Some (Fall t added)
      else (let t1 = step (if added then t else reset t)
            in if wrapped t1 then Some (Goto t1 True)
               else field_loop matches reset step wrapped t1 True))"

declare field_loop.simps [code]

definition month_loop :: "SpecSchedule \<Rightarrow> location \<Rightarrow> time \<Rightarrow> bool \<Rightarrow> flow option" where
  "month_loop s loc =
     field_loop (\<lambda>t. bit_of (Month loc t) (s_Month s) \<noteq> 0)
       (\<lambda>t. Date (Year loc t) (Month loc t) 1 0 0 0 0 loc)
       (\<lambda>t. AddDate loc t 0 1 0)
       (\<lambda>t. Month loc t = 1)"

definition day_loop :: "SpecSchedule \<Rightarrow> location \<Rightarrow> time \<Rightarrow> bool \<Rightarrow> flow option" where
  "day_loop s loc =
     field_loop (dayMatches s loc)
       (\<lambda>t. Date (Year loc t) (Month loc t) (Day loc t) 0 0 0 0 loc)
       (\<lambda>t. AddDate loc t 0 0 1)
       (\<lambda>t. Day loc t = 1)"

definition hour_loop :: "SpecSchedule \<Rightarrow> location \<Rightarrow> time \<Rightarrow> bool \<Rightarrow> flow option" where
  "hour_loop s loc =
     field_loop (\<lambda>t. bit_of (Hour loc t) (s_Hour s) \<noteq> 0)
       (\<lambda>t. Date (Year loc t) (Month loc t) (Day loc t) (Hour loc t) 0 0 0 loc)
       (\<lambda>t. t + HourD)
       (\<lambda>t. Hour loc t = 0)"

definition minute_loop :: "SpecSchedule \<Rightarrow> location \<Rightarrow> time \<Rightarrow> bool \<Rightarrow> flow option" where
  "minute_loop s loc =
     field_loop (\<lambda>t. bit_of (Minute loc t) (s_Minute s) \<noteq> 0)
       (\<lambda>t. Truncate t MinuteD)
       (\<lambda>t. t + MinuteD)
       (\<lambda>t. Minute loc t = 0)"

definition second_loop :: "SpecSchedule \<Rightarrow> location \<Rightarrow> time \<Rightarrow> bool \<Rightarrow> flow option" where
  "second_loop s loc =
     field_loop (\<lambda>t. bit_of (Second loc t) (s_Second s) \<noteq> 0)
       (\<lambda>t. Truncate t SecondD)
       (\<lambda>t. t + SecondD)
       (\<lambda>t. Second loc t = 0)"

text \<open>Falling through one loop into what follows it.\<close>

definition then_walk ::
  "(time \<Rightarrow> bool \<Rightarrow> flow option) \<Rightarrow> (time \<Rightarrow> bool \<Rightarrow> flow option) \<Rightarrow> time \<Rightarrow> bool \<Rightarrow> flow option" where
  "then_walk l w t added =
     (case l t added of
        None \<Rightarrow> None
      | Some (Goto t' a) \<Rightarrow> Some (Goto t' a)
      | Some (Fall t' a) \<Rightarrow> w t' a)"

definition walk :: "SpecSchedule \<Rightarrow> location \<Rightarrow> time \<Rightarrow> bool \<Rightarrow> flow option" where
  "walk s loc =
     then_walk (month_loop s loc)
       (then_walk (day_loop s loc)
         (then_walk (hour_loop s loc)
           (then_walk (minute_loop s loc)
             (then_walk (second_loop s loc) (\<lambda>t a. Some (Fall t a))))))"

partial_function (option) next_wrap ::
  "SpecSchedule \<Rightarrow> location \<Rightarrow> int \<Rightarrow> time \<Rightarrow> bool \<Rightarrow> time option" where
  "next_wrap s loc yearLimit t added =
     (if Year loc t > yearLimit then Some zero_time
      else (case walk s loc t added of
        None \<Rightarrow> None
      | Some (Goto t' a) \<Rightarrow> next_wrap s loc yearLimit t' a
      | Some (Fall t' a) \<Rightarrow> Some t'))"

declare next_wrap.simps [code]

text \<open>\<^verbatim>\<open>Next\<close>; \<open>None\<close> means that it does not return.\<close>

definition Next :: "SpecSchedule \<Rightarrow> time \<Rightarrow> time option" where
  "Next s t =
     (let loc = loc_of s;
          t1 = Truncate t SecondD + SecondD
      in next_wrap s loc (Year loc t1 + maxSearchYears) t1 False)"

section \<open>Correctness of the walk, one field at a time\<close>

definition whole :: "time \<Rightarrow> bool" where
  "whole t \<longleftrightarrow> t mod Nanos = 0"

text \<open>
  What a suffix of the walk promises inside a unit \<open>cstart\<close>/\<open>cidx\<close> of the calendar, for the
  fields \<open>M\<close> it looks at: started at a whole second (aligned as \<open>A\<close> says once \<open>added\<close> is set),
  it returns. It falls through at the first match, in the same unit, or jumps having skipped no
  match, aligned again, and not beyond the end of the unit.
\<close>

definition walk_ok ::
  "(int \<Rightarrow> time) \<Rightarrow> (time \<Rightarrow> int) \<Rightarrow> (time \<Rightarrow> bool) \<Rightarrow> (time \<Rightarrow> bool) \<Rightarrow> (time \<Rightarrow> bool \<Rightarrow> flow option) \<Rightarrow> bool"
  where
  "walk_ok cstart cidx M A W \<longleftrightarrow>
     (\<forall>t added. whole t \<longrightarrow> (added \<longrightarrow> A t) \<longrightarrow>
       (\<exists>t' a. W t added = Some (Fall t' a) \<and> t \<le> t' \<and> whole t' \<and> M t' \<and> cidx t' = cidx t \<and>
          (\<forall>u. t \<le> u \<and> u < t' \<longrightarrow> \<not> M u)) \<or>
       (\<exists>t'. W t added = Some (Goto t' True) \<and> t < t' \<and> whole t' \<and> A t' \<and>
          (cidx t' = cidx t \<or> t' = cstart (cidx t + 1)) \<and> (\<forall>u. t \<le> u \<and> u < t' \<longrightarrow> \<not> M u)))"

lemma walk_okE:
  assumes "walk_ok cstart cidx M A W" "whole t" "added \<longrightarrow> A t"
  obtains (fall) t' a where "W t added = Some (Fall t' a)" "t \<le> t'" "whole t'" "M t'"
      "cidx t' = cidx t" "\<And>u. t \<le> u \<Longrightarrow> u < t' \<Longrightarrow> \<not> M u"
  | (goto) t' where "W t added = Some (Goto t' True)" "t < t'" "whole t'" "A t'"
      "cidx t' = cidx t \<or> t' = cstart (cidx t + 1)" "\<And>u. t \<le> u \<Longrightarrow> u < t' \<Longrightarrow> \<not> M u"
  using assms unfolding walk_ok_def by blast

text \<open>
  A field of the walk: its unit is the fine one, the unit of the enclosing field the coarse one;
  \<open>W\<close> is the rest of the walk, which works inside the fine unit.
\<close>

locale field_level = nested_units fstart fidx cstart cidx
  for fstart :: "int \<Rightarrow> time" and fidx :: "time \<Rightarrow> int"
    and cstart :: "int \<Rightarrow> time" and cidx :: "time \<Rightarrow> int" +
  fixes m :: "time \<Rightarrow> bool" and reset step :: "time \<Rightarrow> time" and wrapped :: "time \<Rightarrow> bool"
    and M A :: "time \<Rightarrow> bool" and W :: "time \<Rightarrow> bool \<Rightarrow> flow option"
  assumes match_unit: "fidx t = fidx u \<Longrightarrow> m t = m u"
    and reset_start: "reset t = fstart (fidx t)"
    and step_next: "fine.aligned t \<Longrightarrow> step t = fstart (fidx t + 1)"
    and wrapped_iff: "fine.aligned t \<Longrightarrow> wrapped t \<longleftrightarrow> coarse.aligned t"
    and rest_ok: "walk_ok fstart fidx M A W"
    and start_whole: "whole (fstart i)"
    and start_aligned: "A (fstart i)"
begin

lemma no_match_in_unit: "\<not> m t \<Longrightarrow> t \<le> u \<Longrightarrow> u < fstart (fidx t + 1) \<Longrightarrow> \<not> m u"
  using fine.idx_eqI [of "fidx t" u] fine.start_le [of t] match_unit [of u t] by auto

lemma loop_ok:
  assumes "added \<Longrightarrow> m t \<or> fine.aligned t"
  shows "(\<exists>t' a. field_loop m reset step wrapped t added = Some (Fall t' a) \<and> t \<le> t' \<and> m t' \<and>
      cidx t' = cidx t \<and> (t' = t \<and> a = added \<or> fine.aligned t') \<and> (\<forall>u. t \<le> u \<and> u < t' \<longrightarrow> \<not> m u)) \<or>
    (field_loop m reset step wrapped t added = Some (Goto (cstart (cidx t + 1)) True) \<and>
      (\<forall>u. t \<le> u \<and> u < cstart (cidx t + 1) \<longrightarrow> \<not> m u))"
  using assms
proof (induction "nat (cstart (cidx t + 1) - t)" arbitrary: t added rule: less_induct)
  case less
  show ?case
  proof (cases "m t")
    case True
    then show ?thesis by (auto simp: field_loop.simps [of _ _ _ _ t])
  next
    case False
    define t1 where "t1 = fstart (fidx t + 1)"
    have step: "step (if added then t else reset t) = t1"
      using less.prems False by (auto simp: t1_def reset_start step_next)
    have lt: "t < t1" and al: "fine.aligned t1" by (simp_all add: t1_def fine.less_start)
    have skip: "\<And>u. t \<le> u \<Longrightarrow> u < t1 \<Longrightarrow> \<not> m u" using no_match_in_unit [OF False] by (simp add: t1_def)
    have unfold: "field_loop m reset step wrapped t added =
      (if wrapped t1 then Some (Goto t1 True) else field_loop m reset step wrapped t1 True)"
      using False step by (simp add: field_loop.simps [of _ _ _ _ t])
    have le: "t1 \<le> cstart (cidx t + 1)" unfolding t1_def by (rule next_fine_le)
    show ?thesis
    proof (cases "coarse.aligned t1")
      case True
      then have t1: "t1 = cstart (cidx t + 1)" using coarse.aligned_ge_next [OF True lt] le by simp
      have "wrapped t1" using True wrapped_iff [OF al] by simp
      then have "field_loop m reset step wrapped t added = Some (Goto t1 True)" using unfold by simp
      then show ?thesis using skip unfolding t1 by blast
    next
      case False
      then have same: "cidx t1 = cidx t" using crossing [of t] by (auto simp: t1_def)
      have "t1 < cstart (cidx t + 1)" using le False by (metis coarse.aligned_start order_le_less)
      then have dec: "nat (cstart (cidx t1 + 1) - t1) < nat (cstart (cidx t + 1) - t)"
        using lt same by simp
      have eq: "field_loop m reset step wrapped t added = field_loop m reset step wrapped t1 True"
        using unfold False by (simp add: wrapped_iff [OF al])
      have join: "\<forall>u. t \<le> u \<and> u < v \<longrightarrow> \<not> m u" if "\<forall>u. t1 \<le> u \<and> u < v \<longrightarrow> \<not> m u" for v
        using that skip by (meson linorder_not_le)
      have "True \<Longrightarrow> m t1 \<or> fine.aligned t1" using al by simp
      from less.hyps [OF dec this] show ?thesis
      proof (rule disjE)
        assume "\<exists>t' a. field_loop m reset step wrapped t1 True = Some (Fall t' a) \<and> t1 \<le> t' \<and> m t' \<and>
          cidx t' = cidx t1 \<and> (t' = t1 \<and> a = True \<or> fine.aligned t') \<and> (\<forall>u. t1 \<le> u \<and> u < t' \<longrightarrow> \<not> m u)"
        then obtain t' a where "field_loop m reset step wrapped t1 True = Some (Fall t' a)" "t1 \<le> t'"
          "m t'" "cidx t' = cidx t1" "fine.aligned t'" "\<forall>u. t1 \<le> u \<and> u < t' \<longrightarrow> \<not> m u"
          using al by blast
        then show ?thesis using eq same lt join [of t'] by auto
      next
        assume "field_loop m reset step wrapped t1 True = Some (Goto (cstart (cidx t1 + 1)) True) \<and>
          (\<forall>u. t1 \<le> u \<and> u < cstart (cidx t1 + 1) \<longrightarrow> \<not> m u)"
        then show ?thesis using eq same join [of "cstart (cidx t + 1)"] by simp
      qed
    qed
  qed
qed

definition A' :: "time \<Rightarrow> bool" where
  "A' t \<longleftrightarrow> (if m t then A t else fine.aligned t)"

lemma coarse_A': "A' (cstart i)"
proof -
  have "fine.aligned (cstart i)" by (rule nested)
  then show ?thesis using start_aligned by (auto simp: A'_def fine.aligned_iff)
qed

lemma fine_A': "A' (fstart i)"
  using start_aligned by (auto simp: A'_def)

lemma then_walk_ok:
  "walk_ok cstart cidx (\<lambda>t. m t \<and> M t) A' (then_walk (field_loop m reset step wrapped) W)"
  unfolding walk_ok_def
proof (intro allI impI)
  fix t added
  assume w: "whole t" and pre: "added \<longrightarrow> A' t"
  let ?L = "field_loop m reset step wrapped"
  have "whole (cstart i)" for i
    using start_whole nested [of i] by (auto simp: fine.aligned_iff)
  note cw = this
  from loop_ok [of added t] pre consider
    (fall) t1 a where "?L t added = Some (Fall t1 a)" "t \<le> t1" "m t1" "cidx t1 = cidx t"
      "t1 = t \<and> a = added \<or> fine.aligned t1" "\<And>u. t \<le> u \<Longrightarrow> u < t1 \<Longrightarrow> \<not> m u"
  | (goto) "?L t added = Some (Goto (cstart (cidx t + 1)) True)"
      "\<And>u. t \<le> u \<Longrightarrow> u < cstart (cidx t + 1) \<Longrightarrow> \<not> m u"
    by (auto simp: A'_def split: if_splits)
  then show "(\<exists>t' a. then_walk ?L W t added = Some (Fall t' a) \<and> t \<le> t' \<and> whole t' \<and> (m t' \<and> M t') \<and>
        cidx t' = cidx t \<and> (\<forall>u. t \<le> u \<and> u < t' \<longrightarrow> \<not> (m u \<and> M u))) \<or>
    (\<exists>t'. then_walk ?L W t added = Some (Goto t' True) \<and> t < t' \<and> whole t' \<and> A' t' \<and>
        (cidx t' = cidx t \<or> t' = cstart (cidx t + 1)) \<and> (\<forall>u. t \<le> u \<and> u < t' \<longrightarrow> \<not> (m u \<and> M u)))"
  proof cases
    case goto
    then show ?thesis using coarse_A' cw coarse.less_start by (auto simp: then_walk_def)
  next
    case (fall t1 a)
    have pre1: "whole t1" "a \<longrightarrow> A t1"
      using fall(3,5) w pre start_whole start_aligned by (auto simp: fine.aligned_iff A'_def)
    show ?thesis
    proof (cases rule: walk_okE [OF rest_ok pre1])
      case 1: (1 t2 b)
      have "m t2" using match_unit [OF 1(5)] fall(3) by simp
      moreover have "cidx t2 = cidx t" using cidx_fine_eq [OF 1(5)] fall(4) by simp
      moreover have "\<And>u. t \<le> u \<Longrightarrow> u < t2 \<Longrightarrow> \<not> (m u \<and> M u)" using fall(6) 1(6) by (meson linorder_not_le)
      ultimately show ?thesis using 1 fall(1,2) by (auto simp: then_walk_def)
    next
      case 2: (2 t2)
      have "A' t2" using 2(4,5) match_unit [of t2 t1] fall(3) fine_A' by (auto simp: A'_def)
      moreover have "cidx t2 = cidx t \<or> t2 = cstart (cidx t + 1)"
        using 2(5)
      proof
        assume "fidx t2 = fidx t1"
        then show ?thesis using cidx_fine_eq [of t2 t1] fall(4) by simp
      next
        assume t2: "t2 = fstart (fidx t1 + 1)"
        show ?thesis
        proof (cases "cidx t2 = cidx t1")
          case False
          then have "coarse.aligned t2" using crossing [of t1] t2 by simp
          then have "cstart (cidx t1 + 1) \<le> t2" using 2(2) by (rule coarse.aligned_ge_next)
          then show ?thesis using next_fine_le [of t1] t2 fall(4) by simp
        qed (simp add: fall(4))
      qed
      moreover have "\<And>u. t \<le> u \<Longrightarrow> u < t2 \<Longrightarrow> \<not> (m u \<and> M u)" using fall(6) 2(6) by (meson linorder_not_le)
      ultimately show ?thesis using 2 fall(1,2) by (auto simp: then_walk_def)
    qed
  qed
qed

end

section \<open>The five fields in a fixed zone\<close>

lemma grid_next: "0 < w \<Longrightarrow> grid_start w k (i + 1) = grid_start w k i + w"
  by (simp add: grid_start_def algebra_simps)

lemma whole_grid [simp]: "whole (grid_start (c * Nanos) k i)"
  using zone_shift_mod(2) [of "grid_start (c * Nanos) k i" k] by (simp add: whole_def grid_start_def)

lemma whole_units [simp]:
  "whole (grid_start Nanos k i)" "whole (grid_start MinuteN k i)" "whole (grid_start HourN k i)"
  "whole (grid_start DayN k i)" "whole (day_unit_start S k i)"
  using whole_grid [of 1 k] whole_grid [of 60 k] whole_grid [of 3600 k] whole_grid [of 86400 k]
  by (simp_all add: day_unit_start_def)

lemma day_number_local: "day_number (year_of_day d) (month_of_day d) n = month_start (month_index d) + n - 1"
  by (simp add: day_number_month_start month_index_def)

lemma reset_month:
  "Date (Year (minute_zone k) t) (Month (minute_zone k) t) 1 0 0 0 0 (minute_zone k) =
     month_start_at k (month_idx_at k t)"
  by (simp add: Date_fixed Year_def Month_def local_day_fixed day_number_local day_unit_start_def
      day_unit_idx_def grid_start_def)

lemma reset_day:
  "Date (Year (minute_zone k) t) (Month (minute_zone k) t) (Day (minute_zone k) t) 0 0 0 0 (minute_zone k) =
     grid_start DayN k (grid_idx DayN k t)"
  by (simp add: Date_fixed Year_def Month_def Day_def local_day_fixed day_number_local
      mday_of_day_month grid_start_def)

lemma grid_idx_hour_day: "grid_idx DayN k t = grid_idx HourN k t div 24"
  using zdiv_zmult2_eq [of 24 "t + zone_shift k" HourN] by (simp add: grid_idx_def)

lemma reset_hour:
  "Date (Year (minute_zone k) t) (Month (minute_zone k) t) (Day (minute_zone k) t) (Hour (minute_zone k) t)
     0 0 0 (minute_zone k) = grid_start HourN k (grid_idx HourN k t)"
proof -
  let ?h = "grid_idx HourN k t"
  have "h = 24 * q + r \<Longrightarrow> h * HourN = (q * 86400 + r * 3600) * Nanos" for h q r :: int
    by (simp add: algebra_simps)
  from this [of ?h "?h div 24" "?h mod 24"]
  have "?h * HourN = (?h div 24 * 86400 + ?h mod 24 * 3600) * Nanos" by simp
  then show ?thesis
    by (simp add: Date_fixed Year_def Month_def Day_def Hour_fixed local_day_fixed day_number_local
        mday_of_day_month grid_start_def grid_idx_hour_day)
qed

lemma month_aligned_iff: "month_unit.aligned k t \<longleftrightarrow> mday_unit.aligned k t \<and> Day (minute_zone k) t = 1"
proof
  assume a: "month_unit.aligned k t"
  then have t: "t = grid_start DayN k (month_start (month_index (grid_idx DayN k t)))"
    by (simp add: month_unit.aligned_def day_unit_start_def day_unit_idx_def)
  then have "grid_idx DayN k t = month_start (month_index (grid_idx DayN k t))"
    by (metis mday_unit.idx_start)
  then show "mday_unit.aligned k t \<and> Day (minute_zone k) t = 1"
    using day_month.coarse_fine [OF a] by (simp add: Day_def local_day_fixed mday_of_day_month)
next
  assume a: "mday_unit.aligned k t \<and> Day (minute_zone k) t = 1"
  then have "grid_idx DayN k t = month_start (month_index (grid_idx DayN k t))"
    by (simp add: Day_def local_day_fixed mday_of_day_month)
  then show "month_unit.aligned k t"
    using a by (simp add: month_unit.aligned_def mday_unit.aligned_def day_unit_start_def day_unit_idx_def)
qed

lemma step_day:
  assumes "mday_unit.aligned k t"
  shows "AddDate (minute_zone k) t 0 0 1 = grid_start DayN k (grid_idx DayN k t + 1)"
  using day_aligned_reading [OF assms]
  by (simp add: AddDate_def Date_fixed Year_def Month_def Day_def local_day_fixed day_number_local
      mday_of_day_month grid_start_def)

lemma step_month:
  assumes "month_unit.aligned k t"
  shows "AddDate (minute_zone k) t 0 1 0 = month_start_at k (month_idx_at k t + 1)"
proof -
  have a: "mday_unit.aligned k t" "Day (minute_zone k) t = 1"
    using assms by (simp_all add: month_aligned_iff)
  have "12 * year_of_day d + (month_of_day d + 1) - 1 = month_index d + 1" for d
    by (simp add: month_index_def)
  then show ?thesis
    using day_aligned_reading [OF a(1)] a(2)
    by (simp add: AddDate_def Date_fixed Year_def Month_def local_day_fixed day_number_month_start
        day_unit_start_def day_unit_idx_def grid_start_def)
qed

lemma wrapped_month:
  assumes "month_unit.aligned k t"
  shows "Month (minute_zone k) t = 1 \<longleftrightarrow> year_unit.aligned k t"
proof -
  let ?i = "month_idx_at k t"
  have t: "t = month_start_at k ?i" using assms by (simp add: month_unit.aligned_def)
  have "Month (minute_zone k) t = 1 \<longleftrightarrow> ?i mod 12 = 0"
    by (simp add: Month_def local_day_fixed day_unit_idx_def month_index_div_mod)
  also have "\<dots> \<longleftrightarrow> (\<exists>y. ?i = 12 * y)" by (auto simp: mod_eq_0_iff_dvd dvd_def)
  also have "\<dots> \<longleftrightarrow> (\<exists>y. month_start_at k ?i = month_start_at k (12 * y))"
    using month_unit.idx_start by metis
  also have "\<dots> \<longleftrightarrow> year_unit.aligned k t"
    using t by (simp add: year_unit.aligned_iff day_unit_start_def month_start_year)
  finally show ?thesis .
qed

interpretation second_level: field_level "grid_start Nanos k" "grid_idx Nanos k"
    "grid_start MinuteN k" "grid_idx MinuteN k"
    "\<lambda>t. bit_of (Second (minute_zone k) t) (s_Second s) \<noteq> 0" "\<lambda>t. Truncate t SecondD"
    "\<lambda>t. t + SecondD" "\<lambda>t. Second (minute_zone k) t = 0" whole "\<lambda>_. True"
    "\<lambda>t a. Some (Fall t a)" for k :: int and s :: SpecSchedule
proof
  show "walk_ok (grid_start Nanos k) (grid_idx Nanos k) whole (\<lambda>_. True) (\<lambda>t a. Some (Fall t a))"
    by (auto simp: walk_ok_def)
  fix t
  show "Truncate t SecondD = grid_start Nanos k (grid_idx Nanos k t)"
    by (simp add: Truncate_def SecondD_def grid_start_idx)
  assume a: "sec_unit.aligned k t"
  then show "t + SecondD = grid_start Nanos k (grid_idx Nanos k t + 1)"
    by (simp add: grid_next SecondD_def sec_unit.aligned_def)
  show "Second (minute_zone k) t = 0 \<longleftrightarrow> minute_unit.aligned k t"
    using grid_wrap [OF _ a, of 60] by (simp add: Second_fixed grid_aligned)
qed (simp_all add: Second_fixed)

interpretation minute_level: field_level "grid_start MinuteN k" "grid_idx MinuteN k"
    "grid_start HourN k" "grid_idx HourN k"
    "\<lambda>t. bit_of (Minute (minute_zone k) t) (s_Minute s) \<noteq> 0" "\<lambda>t. Truncate t MinuteD"
    "\<lambda>t. t + MinuteD" "\<lambda>t. Minute (minute_zone k) t = 0"
    "\<lambda>t. bit_of (Second (minute_zone k) t) (s_Second s) \<noteq> 0 \<and> whole t"
    "second_level.A' k s"
    "then_walk (second_loop s (minute_zone k)) (\<lambda>t a. Some (Fall t a))" for k :: int and s :: SpecSchedule
proof
  show "walk_ok (grid_start MinuteN k) (grid_idx MinuteN k)
     (\<lambda>t. bit_of (Second (minute_zone k) t) (s_Second s) \<noteq> 0 \<and> whole t) (second_level.A' k s)
     (then_walk (second_loop s (minute_zone k)) (\<lambda>t a. Some (Fall t a)))"
    unfolding second_loop_def by (rule second_level.then_walk_ok)
  fix t
  show "Truncate t MinuteD = grid_start MinuteN k (grid_idx MinuteN k t)"
    by (simp add: Truncate_def MinuteD_def grid_start_idx)
  assume a: "minute_unit.aligned k t"
  then show "t + MinuteD = grid_start MinuteN k (grid_idx MinuteN k t + 1)"
    by (simp add: grid_next MinuteD_def minute_unit.aligned_def)
  show "Minute (minute_zone k) t = 0 \<longleftrightarrow> hour_unit.aligned k t"
    using grid_wrap [OF _ a, of 60] by (simp add: Minute_fixed grid_aligned)
qed (simp_all add: Minute_fixed second_level.coarse_A')

abbreviation second_matches :: "int \<Rightarrow> SpecSchedule \<Rightarrow> time \<Rightarrow> bool" where
  "second_matches k s t \<equiv> bit_of (Second (minute_zone k) t) (s_Second s) \<noteq> 0 \<and> whole t"

abbreviation minute_matches :: "int \<Rightarrow> SpecSchedule \<Rightarrow> time \<Rightarrow> bool" where
  "minute_matches k s t \<equiv> bit_of (Minute (minute_zone k) t) (s_Minute s) \<noteq> 0 \<and> second_matches k s t"

abbreviation hour_matches :: "int \<Rightarrow> SpecSchedule \<Rightarrow> time \<Rightarrow> bool" where
  "hour_matches k s t \<equiv> bit_of (Hour (minute_zone k) t) (s_Hour s) \<noteq> 0 \<and> minute_matches k s t"

abbreviation day_matches :: "int \<Rightarrow> SpecSchedule \<Rightarrow> time \<Rightarrow> bool" where
  "day_matches k s t \<equiv> dayMatches s (minute_zone k) t \<and> hour_matches k s t"

interpretation hour_level: field_level "grid_start HourN k" "grid_idx HourN k"
    "grid_start DayN k" "grid_idx DayN k"
    "\<lambda>t. bit_of (Hour (minute_zone k) t) (s_Hour s) \<noteq> 0"
    "\<lambda>t. Date (Year (minute_zone k) t) (Month (minute_zone k) t) (Day (minute_zone k) t)
       (Hour (minute_zone k) t) 0 0 0 (minute_zone k)"
    "\<lambda>t. t + HourD" "\<lambda>t. Hour (minute_zone k) t = 0" "minute_matches k s" "minute_level.A' k s"
    "then_walk (minute_loop s (minute_zone k))
       (then_walk (second_loop s (minute_zone k)) (\<lambda>t a. Some (Fall t a)))"
    for k :: int and s :: SpecSchedule
proof
  show "walk_ok (grid_start HourN k) (grid_idx HourN k) (minute_matches k s) (minute_level.A' k s)
     (then_walk (minute_loop s (minute_zone k))
       (then_walk (second_loop s (minute_zone k)) (\<lambda>t a. Some (Fall t a))))"
    unfolding minute_loop_def by (rule minute_level.then_walk_ok)
  fix t
  assume a: "hour_unit.aligned k t"
  then show "t + HourD = grid_start HourN k (grid_idx HourN k t + 1)"
    by (simp add: grid_next HourD_def hour_unit.aligned_def)
  show "Hour (minute_zone k) t = 0 \<longleftrightarrow> mday_unit.aligned k t"
    using grid_wrap [OF _ a, of 24] by (simp add: Hour_fixed grid_aligned)
qed (simp_all add: Hour_fixed reset_hour [unfolded Hour_fixed] minute_level.coarse_A')

interpretation day_level: field_level "grid_start DayN k" "grid_idx DayN k"
    "month_start_at k" "month_idx_at k" "dayMatches s (minute_zone k)"
    "\<lambda>t. Date (Year (minute_zone k) t) (Month (minute_zone k) t) (Day (minute_zone k) t) 0 0 0 0 (minute_zone k)"
    "\<lambda>t. AddDate (minute_zone k) t 0 0 1" "\<lambda>t. Day (minute_zone k) t = 1"
    "hour_matches k s" "hour_level.A' k s"
    "then_walk (hour_loop s (minute_zone k)) (then_walk (minute_loop s (minute_zone k))
       (then_walk (second_loop s (minute_zone k)) (\<lambda>t a. Some (Fall t a))))"
    for k :: int and s :: SpecSchedule
proof
  show "walk_ok (grid_start DayN k) (grid_idx DayN k) (hour_matches k s) (hour_level.A' k s)
     (then_walk (hour_loop s (minute_zone k)) (then_walk (minute_loop s (minute_zone k))
       (then_walk (second_loop s (minute_zone k)) (\<lambda>t a. Some (Fall t a)))))"
    unfolding hour_loop_def by (rule hour_level.then_walk_ok)
qed (simp_all add: dayMatches_def Day_def Weekday_def local_day_fixed reset_day
    [unfolded Day_def local_day_fixed] step_day month_aligned_iff hour_level.coarse_A')

interpretation month_level: field_level "month_start_at k" "month_idx_at k"
    "year_start_at k" "year_idx_at k" "\<lambda>t. bit_of (Month (minute_zone k) t) (s_Month s) \<noteq> 0"
    "\<lambda>t. Date (Year (minute_zone k) t) (Month (minute_zone k) t) 1 0 0 0 0 (minute_zone k)"
    "\<lambda>t. AddDate (minute_zone k) t 0 1 0" "\<lambda>t. Month (minute_zone k) t = 1"
    "day_matches k s" "day_level.A' k s"
    "then_walk (day_loop s (minute_zone k)) (then_walk (hour_loop s (minute_zone k))
       (then_walk (minute_loop s (minute_zone k))
         (then_walk (second_loop s (minute_zone k)) (\<lambda>t a. Some (Fall t a)))))"
    for k :: int and s :: SpecSchedule
proof
  show "walk_ok (month_start_at k) (month_idx_at k) (day_matches k s) (day_level.A' k s)
     (then_walk (day_loop s (minute_zone k)) (then_walk (hour_loop s (minute_zone k))
       (then_walk (minute_loop s (minute_zone k))
         (then_walk (second_loop s (minute_zone k)) (\<lambda>t a. Some (Fall t a))))))"
    unfolding day_loop_def by (rule day_level.then_walk_ok)
  fix t u
  assume "month_idx_at k t = month_idx_at k u"
  then have "month_of_day (grid_idx DayN k t) = month_of_day (grid_idx DayN k u)"
    using month_index_div_mod(2) [of "grid_idx DayN k t"] month_index_div_mod(2) [of "grid_idx DayN k u"]
    by (simp add: day_unit_idx_def)
  then show "(bit_of (Month (minute_zone k) t) (s_Month s) \<noteq> 0) = (bit_of (Month (minute_zone k) u) (s_Month s) \<noteq> 0)"
    by (simp add: Month_def local_day_fixed)
qed (simp_all add: reset_month step_month wrapped_month day_level.coarse_A')

section \<open>Activation instants\<close>

text \<open>
  The reference definition: the instants an expression stands for, read off the masks bit by bit.
  Days follow the rule of \<^verbatim>\<open>dayMatches\<close>: either of two restricted day fields is enough, an
  unrestricted one leaves the other to decide.
\<close>

definition day_allowed :: "SpecSchedule \<Rightarrow> location \<Rightarrow> time \<Rightarrow> bool" where
  "day_allowed s loc t \<longleftrightarrow>
     (if bit (s_Dom s) 63 \<or> bit (s_Dow s) 63
      then bit (s_Dom s) (nat (Day loc t)) \<and> bit (s_Dow s) (nat (Weekday loc t))
      else bit (s_Dom s) (nat (Day loc t)) \<or> bit (s_Dow s) (nat (Weekday loc t)))"

definition activates :: "SpecSchedule \<Rightarrow> location \<Rightarrow> time \<Rightarrow> bool" where
  "activates s loc t \<longleftrightarrow>
     t mod Nanos = 0 \<and> bit (s_Month s) (nat (Month loc t)) \<and> day_allowed s loc t \<and>
     bit (s_Hour s) (nat (Hour loc t)) \<and> bit (s_Minute s) (nat (Minute loc t)) \<and>
     bit (s_Second s) (nat (Second loc t))"

lemma and_push_bit_nonzero: "push_bit n 1 AND m \<noteq> 0 \<longleftrightarrow> bit m n" for m :: u64
proof -
  have bits: "bit (push_bit n 1 AND m) i \<longleftrightarrow> i = n \<and> bit m i" for i
    using bit_imp_le_length [of m i] by (auto simp: bit_simps)
  show ?thesis
  proof (cases "bit m n")
    case True
    then show ?thesis using bits [of n] by (metis bit_0_eq bot_apply bot_bool_def)
  next
    case False
    have "push_bit n 1 AND m = 0" by (rule bit_word_eqI) (use False bits in auto)
    then show ?thesis using False by simp
  qed
qed

lemma bit_of_nonzero: "bit_of v m \<noteq> 0 \<longleftrightarrow> bit m (nat v)"
  by (simp only: bit_of_def and_push_bit_nonzero)

lemma and_starBit: "m AND starBit > 0 \<longleftrightarrow> bit m 63" for m :: u64
  unfolding word_neq_0_conv [symmetric] starBit_def
  by (subst and.commute) (rule and_push_bit_nonzero)

lemma dayMatches_iff: "dayMatches s loc t \<longleftrightarrow> day_allowed s loc t"
  unfolding dayMatches_def day_allowed_def Let_def and_starBit
  by (simp add: word_neq_0_conv [symmetric] bit_of_nonzero)

lemma activates_iff:
  "activates s (minute_zone k) t \<longleftrightarrow> bit_of (Month (minute_zone k) t) (s_Month s) \<noteq> 0 \<and> day_matches k s t"
  by (auto simp: activates_def bit_of_nonzero dayMatches_iff whole_def)

lemma walk_fixed_ok:
  "walk_ok (year_start_at k) (year_idx_at k) (activates s (minute_zone k)) (month_level.A' k s)
     (walk s (minute_zone k))"
  unfolding activates_iff walk_def month_loop_def by (rule month_level.then_walk_ok)

text \<open>The outcome of a search: the earliest activation in the window, or the zero time.\<close>

definition earliest_or_zero :: "(time \<Rightarrow> bool) \<Rightarrow> (time \<Rightarrow> bool) \<Rightarrow> time \<Rightarrow> bool" where
  "earliest_or_zero window act r \<longleftrightarrow>
     (window r \<and> act r \<and> (\<forall>u < r. window u \<longrightarrow> \<not> act u)) \<or>
     (r = zero_time \<and> (\<forall>u. window u \<longrightarrow> \<not> act u))"

lemma next_wrap_ok:
  assumes W: "walk_ok (year_start_at k) (year_idx_at k) (activates s (minute_zone k)) A
      (walk s (minute_zone k))"
    and "whole t" "added \<longrightarrow> A t"
  shows "\<exists>r. next_wrap s (minute_zone k) lim t added = Some r \<and>
    earliest_or_zero (\<lambda>u. t \<le> u \<and> Year (minute_zone k) u \<le> lim) (activates s (minute_zone k)) r"
  using assms(2,3)
proof (induction "nat (year_start_at k (lim + 1) - t)" arbitrary: t added rule: less_induct)
  case less
  let ?Z = "minute_zone k" and ?act = "activates s (minute_zone k)"
  show ?case
  proof (cases "Year ?Z t > lim")
    case True
    then have "\<not> Year ?Z u \<le> lim" if "t \<le> u" for u
      using year_unit.idx_mono [OF that, of k] by (simp add: Year_fixed)
    then show ?thesis using True by (auto simp: next_wrap.simps [of _ _ _ t] earliest_or_zero_def)
  next
    case False
    then have in_window: "t < year_start_at k (lim + 1)"
      using year_unit.less_start [of t k] year_unit.start_mono_le [of "year_idx_at k t + 1" "lim + 1" k]
      by (simp add: Year_fixed)
    show ?thesis
    proof (cases rule: walk_okE [OF W less.prems])
      case 1: (1 r a)
      then have "next_wrap s ?Z lim t added = Some r" using False by (simp add: next_wrap.simps [of _ _ _ t])
      then show ?thesis using 1 False by (auto simp: earliest_or_zero_def Year_fixed)
    next
      case 2: (2 t')
      have "nat (year_start_at k (lim + 1) - t') < nat (year_start_at k (lim + 1) - t)"
        using 2(2) in_window by simp
      from less.hyps [OF this 2(3), of True] 2(4) obtain r where
        r: "next_wrap s ?Z lim t' True = Some r"
          "earliest_or_zero (\<lambda>u. t' \<le> u \<and> Year ?Z u \<le> lim) ?act r" by auto
      have "next_wrap s ?Z lim t added = Some r"
        using 2(1) r(1) False by (simp add: next_wrap.simps [of _ _ _ t])
      moreover have "earliest_or_zero (\<lambda>u. t \<le> u \<and> Year ?Z u \<le> lim) ?act r"
        using r(2) 2(2,6) unfolding earliest_or_zero_def by (meson linorder_not_le order_less_imp_le order_trans)
      ultimately show ?thesis by blast
    qed
  qed
qed

lemma Truncate_second: "Truncate t SecondD + SecondD = (t div Nanos + 1) * Nanos"
  by (simp add: Truncate_def SecondD_def minus_mod_eq_mult_div algebra_simps)

lemma whole_after: "u mod Nanos = 0 \<Longrightarrow> t < u \<longleftrightarrow> Truncate t SecondD + SecondD \<le> u"
proof -
  assume "u mod Nanos = 0"
  then obtain q where u: "u = q * Nanos" by (auto simp: mod_eq_0_iff_dvd dvd_def)
  have "t < q * Nanos \<longleftrightarrow> t div Nanos < q"
    using mult_div_mod_eq [of Nanos t] pos_mod_sign [of Nanos t] pos_mod_bound [of Nanos t] by linarith
  then show ?thesis by (auto simp: u Truncate_second)
qed

text \<open>The years \<^verbatim>\<open>Next\<close> searches after \<open>t\<close>.\<close>

definition search_window :: "location \<Rightarrow> time \<Rightarrow> time \<Rightarrow> bool" where
  "search_window loc t u \<longleftrightarrow> t < u \<and> Year loc u \<le> Year loc (Truncate t SecondD + SecondD) + maxSearchYears"

lemma Next_minute_zone:
  assumes "loc_of s = minute_zone k"
  shows "\<exists>r. Next s t = Some r \<and>
    earliest_or_zero (search_window (minute_zone k) t) (activates s (minute_zone k)) r"
proof -
  let ?t = "Truncate t SecondD + SecondD"
  have "whole ?t" by (simp add: whole_def Truncate_second)
  from next_wrap_ok [OF walk_fixed_ok [of k s] this, of False "Year (minute_zone k) ?t + maxSearchYears"] obtain r where
    r: "Next s t = Some r" "earliest_or_zero (\<lambda>u. ?t \<le> u \<and>
      Year (minute_zone k) u \<le> Year (minute_zone k) ?t + maxSearchYears) (activates s (minute_zone k)) r"
    by (auto simp: Next_def assms)
  have "search_window (minute_zone k) t u \<longleftrightarrow>
    ?t \<le> u \<and> Year (minute_zone k) u \<le> Year (minute_zone k) ?t + maxSearchYears"
    if "activates s (minute_zone k) u" for u
    using whole_after [of u t] that by (simp add: activates_def search_window_def)
  then have "earliest_or_zero (search_window (minute_zone k) t) (activates s (minute_zone k)) r"
    using r(2) unfolding earliest_or_zero_def by blast
  then show ?thesis using r(1) by blast
qed

section \<open>Properties\<close>

text \<open>C32: for any masks and any zone with a fixed offset of whole minutes, \<^verbatim>\<open>Next\<close> returns, and it
  returns the earliest activation strictly after the instant asked about within the search window,
  or the zero time when the window has none.\<close>

theorem Next_earliest:
  assumes "loc_of s = minute_zone k"
  shows "\<exists>r. Next s t = Some r \<and>
    earliest_or_zero (search_window (minute_zone k) t) (activates s (minute_zone k)) r"
  using assms by (rule Next_minute_zone)

definition every_minute :: SpecSchedule where
  "every_minute = \<lparr>s_Second = 1, s_Minute = - 1, s_Hour = - 1, s_Dom = - 1, s_Month = - 1, s_Dow = - 1, s_Location = None\<rparr>"

theorem Next_earliest_witness:
  "\<exists>r. Next every_minute 5 = Some r \<and> earliest_or_zero (search_window UTC 5) (activates every_minute UTC) r"
  using Next_earliest [of every_minute 0 5] by (simp add: every_minute_def loc_of_def UTC_minute_zone)

end
