(* ===== verification/GoFloat.thy ===== *)
theory GoFloat
  imports Prelude Complex_Main "HOL-Library.Log_Nat"
begin

text \<open>
  Go's \<^verbatim>\<open>float64\<close>: IEEE 754 binary64 values as exact rationals with infinities and NaN, and the
  operations cronflux uses, each rounded once to nearest-even (no fused multiply-add). The sign
  of zero is not kept: no operation used here can tell the two zeros apart. \<^verbatim>\<open>math.Pow\<close> is the
  algorithm of Go's library for a non-negative integral exponent.
\<close>

section \<open>Rounding\<close>

definition pow2 :: "int \<Rightarrow> rat" where
  "pow2 e = (if 0 \<le> e then 2 ^ nat e else 1 / 2 ^ nat (- e))"

text \<open>The binary exponent of a positive rational.\<close>

definition exponent :: "rat \<Rightarrow> int" where
  "exponent x =
     (let (n, d) = quotient_of x; e = bitlen n - bitlen d
      in if pow2 e \<le> x then e else e - 1)"

definition round_half_even :: "rat \<Rightarrow> int" where
  "round_half_even q =
     (let f = \<lfloor>q\<rfloor>; r = q - of_int f
      in if r < 1 / 2 then f else if 1 / 2 < r then f + 1 else if even f then f else f + 1)"

definition ulp_exponent :: "rat \<Rightarrow> int" where
  "ulp_exponent x = max (exponent \<bar>x\<bar> - 52) (- 1074)"

definition round64 :: "rat \<Rightarrow> rat" where
  "round64 x =
     (if x = 0 then 0
      else of_int (round_half_even (x / pow2 (ulp_exponent x))) * pow2 (ulp_exponent x))"

section \<open>Values and operations\<close>

datatype f64 = Fin rat | PosInf | NegInf | NaN

definition to_f64 :: "rat \<Rightarrow> f64" where
  "to_f64 x =
     (let y = round64 x
      in if pow2 1024 \<le> y then PosInf else if y \<le> - pow2 1024 then NegInf else Fin y)"

definition f64_of_int :: "int \<Rightarrow> f64" where
  "f64_of_int n = to_f64 (of_int n)"

definition inf_sign :: "bool \<Rightarrow> f64" where
  "inf_sign pos = (if pos then PosInf else NegInf)"

fun f64_add :: "f64 \<Rightarrow> f64 \<Rightarrow> f64" where
  "f64_add (Fin a) (Fin b) = to_f64 (a + b)"
| "f64_add NaN _ = NaN"
| "f64_add _ NaN = NaN"
| "f64_add PosInf NegInf = NaN"
| "f64_add NegInf PosInf = NaN"
| "f64_add PosInf _ = PosInf"
| "f64_add NegInf _ = NegInf"
| "f64_add _ PosInf = PosInf"
| "f64_add _ NegInf = NegInf"

fun f64_neg :: "f64 \<Rightarrow> f64" where
  "f64_neg (Fin a) = Fin (- a)"
| "f64_neg PosInf = NegInf"
| "f64_neg NegInf = PosInf"
| "f64_neg NaN = NaN"

definition f64_sub :: "f64 \<Rightarrow> f64 \<Rightarrow> f64" where
  "f64_sub a b = f64_add a (f64_neg b)"

fun f64_mul :: "f64 \<Rightarrow> f64 \<Rightarrow> f64" where
  "f64_mul (Fin a) (Fin b) = to_f64 (a * b)"
| "f64_mul NaN _ = NaN"
| "f64_mul _ NaN = NaN"
| "f64_mul PosInf (Fin b) = (if b = 0 then NaN else inf_sign (0 < b))"
| "f64_mul NegInf (Fin b) = (if b = 0 then NaN else inf_sign (b < 0))"
| "f64_mul (Fin a) PosInf = (if a = 0 then NaN else inf_sign (0 < a))"
| "f64_mul (Fin a) NegInf = (if a = 0 then NaN else inf_sign (a < 0))"
| "f64_mul PosInf PosInf = PosInf"
| "f64_mul PosInf NegInf = NegInf"
| "f64_mul NegInf PosInf = NegInf"
| "f64_mul NegInf NegInf = PosInf"

text \<open>Division of finite values by a nonzero finite value, which is all that is used.\<close>

definition f64_div_fin :: "rat \<Rightarrow> rat \<Rightarrow> f64" where
  "f64_div_fin a b = to_f64 (a / b)"

text \<open>Comparisons are false on NaN.\<close>

fun f64_less :: "f64 \<Rightarrow> f64 \<Rightarrow> bool" where
  "f64_less (Fin a) (Fin b) = (a < b)"
| "f64_less NaN _ = False"
| "f64_less _ NaN = False"
| "f64_less NegInf b = (b \<noteq> NegInf)"
| "f64_less a PosInf = (a \<noteq> PosInf)"
| "f64_less _ _ = False"

fun f64_le :: "f64 \<Rightarrow> f64 \<Rightarrow> bool" where
  "f64_le (Fin a) (Fin b) = (a \<le> b)"
| "f64_le NaN _ = False"
| "f64_le _ NaN = False"
| "f64_le NegInf _ = True"
| "f64_le _ PosInf = True"
| "f64_le _ _ = False"

text \<open>
  Conversion to \<^verbatim>\<open>int64\<close> truncates towards zero. A value that does not fit is implementation
  defined in Go; on amd64 the result is the smallest integer.
\<close>

fun f64_to_int64 :: "f64 \<Rightarrow> int" where
  "f64_to_int64 (Fin a) =
     (let n = (if 0 \<le> a then \<lfloor>a\<rfloor> else \<lceil>a\<rceil>)
      in if min_int64 \<le> n \<and> n \<le> max_int64 then n else min_int64)"
| "f64_to_int64 _ = min_int64"

section \<open>math.Pow\<close>

text \<open>\<^verbatim>\<open>math.Frexp\<close> of a positive value: the fraction in \<open>[1/2, 1)\<close> and the exponent.\<close>

definition Frexp :: "rat \<Rightarrow> rat \<times> int" where
  "Frexp x = (x / pow2 (exponent x + 1), exponent x + 1)"

text \<open>The square-and-multiply loop over the bits of the exponent \<open>i\<close>.\<close>

function pow_loop :: "nat \<Rightarrow> rat \<Rightarrow> int \<Rightarrow> rat \<Rightarrow> int \<Rightarrow> rat \<times> int" where
  "pow_loop i x1 xe a1 ae =
     (if i = 0 then (a1, ae)
      else if xe < - 4096 \<or> 4096 < xe then (a1, ae + xe)
      else let a1' = (if odd i then round64 (a1 * x1) else a1);
               ae' = (if odd i then ae + xe else ae);
               x2 = round64 (x1 * x1);
               xe2 = 2 * xe
           in if x2 < 1 / 2 then pow_loop (i div 2) (round64 (x2 + x2)) (xe2 - 1) a1' ae'
              else pow_loop (i div 2) x2 xe2 a1' ae')"
  by pat_completeness auto
termination
  by (relation "measure (\<lambda>(i, _). i)") auto

declare pow_loop.simps [simp del]

text \<open>\<^verbatim>\<open>math.Ldexp\<close>\<close>

definition Ldexp :: "rat \<Rightarrow> int \<Rightarrow> f64" where
  "Ldexp a e = to_f64 (a * pow2 e)"

text \<open>
  \<^verbatim>\<open>math.Pow(x, float64(n))\<close> for \<open>n \<ge> 0\<close>. The base is \<open>> 1\<close> (or NaN) wherever cronflux calls
  it, so the cases for \<open>x \<le> 0\<close> are not needed.
\<close>

definition Pow :: "f64 \<Rightarrow> nat \<Rightarrow> f64" where
  "Pow x n =
     (let y = round64 (of_nat n)
      in if y = 0 \<or> x = Fin 1 then Fin 1
         else if y = 1 then x
         else case x of
           Fin a \<Rightarrow>
             (if 2 ^ 63 \<le> y then PosInf
              else let (x1, xe) = Frexp a; (a1, ae) = pow_loop (nat \<lfloor>y\<rfloor>) x1 xe 1 0
                   in Ldexp a1 ae)
         | PosInf \<Rightarrow> PosInf
         | _ \<Rightarrow> NaN)"

section \<open>Facts about rounding\<close>

lemma pow2_powi: "pow2 e = 2 powi e"
  by (simp add: pow2_def power_int_def field_simps)

lemma pow2_add: "pow2 (a + b) = pow2 a * pow2 b"
  by (simp add: pow2_powi power_int_add)

lemma pow2_diff: "pow2 (a - b) = pow2 a / pow2 b"
  by (simp add: pow2_powi power_int_diff)

lemma pow2_pos [simp]: "0 < pow2 e"
  by (simp add: pow2_powi)

lemma pow2_neq0 [simp]: "pow2 e \<noteq> 0"
  by (simp add: pow2_powi)

lemma pow2_0 [simp]: "pow2 0 = 1"
  by (simp add: pow2_def)

lemma pow2_mono: "a \<le> b \<Longrightarrow> pow2 a \<le> pow2 b"
  by (simp add: pow2_powi power_int_increasing)

lemma pow2_strict_mono: "a < b \<Longrightarrow> pow2 a < pow2 b"
  by (simp add: pow2_powi power_int_strict_increasing)

lemma abs_pow2 [simp]: "\<bar>pow2 e\<bar> = pow2 e"
  by (rule abs_of_pos) simp

lemma pow2_less_iff: "pow2 a < pow2 b \<longleftrightarrow> a < b"
  by (meson linorder_not_le pow2_mono pow2_strict_mono)

lemma pow2_nat: "0 \<le> e \<Longrightarrow> pow2 e = of_int (2 ^ nat e)"
  by (simp add: pow2_def)

lemma bitlen_pow2:
  assumes "0 < n"
  shows "pow2 (bitlen n - 1) \<le> of_int n" "of_int n < pow2 (bitlen n)"
proof -
  have b: "2 ^ nat (bitlen n - 1) \<le> n \<and> n < 2 ^ nat (bitlen n)"
    by (rule bitlen_bounds [OF assms])
  have "1 \<le> bitlen n" using assms bitlen_le_iff_power [of n 0] by (simp add: not_less [symmetric])
  then have "pow2 (bitlen n - 1) = of_int (2 ^ nat (bitlen n - 1))" "pow2 (bitlen n) = of_int (2 ^ nat (bitlen n))"
    by (simp_all add: pow2_nat)
  then show "pow2 (bitlen n - 1) \<le> of_int n" "of_int n < pow2 (bitlen n)"
    using b by (simp_all only: of_int_le_iff of_int_less_iff)
qed

lemma exponent_bounds:
  assumes "0 < x"
  shows "pow2 (exponent x) \<le> x" "x < pow2 (exponent x + 1)"
proof -
  obtain n d where q: "quotient_of x = (n, d)" by (cases "quotient_of x") auto
  then have d: "0 < d" and x: "x = of_int n / of_int d"
    by (auto simp: quotient_of_denom_pos quotient_of_div)
  then have n: "0 < n" using assms by (simp add: zero_less_divide_iff)
  define e where "e = bitlen n - bitlen d"
  have "pow2 (e - 1) = pow2 (bitlen n - 1) / pow2 (bitlen d)"
    by (simp add: e_def pow2_diff [symmetric] algebra_simps)
  also have "\<dots> \<le> x"
    unfolding x using bitlen_pow2 [OF n] bitlen_pow2 [OF d] d n by (intro frac_le) (auto intro: order_less_imp_le)
  finally have lo: "pow2 (e - 1) \<le> x" .
  have "x < pow2 (bitlen n) / pow2 (bitlen d - 1)"
    unfolding x using bitlen_pow2 [OF n] bitlen_pow2 [OF d] n by (intro frac_less) auto
  also have "\<dots> = pow2 (e + 1)" by (simp add: e_def pow2_diff [symmetric] algebra_simps)
  finally have hi: "x < pow2 (e + 1)" .
  have "exponent x = (if pow2 e \<le> x then e else e - 1)" by (simp add: exponent_def q e_def)
  then show "pow2 (exponent x) \<le> x" "x < pow2 (exponent x + 1)"
    using lo hi by (auto simp: not_le)
qed

lemma exponent_mono:
  assumes "0 < x" "x \<le> y"
  shows "exponent x \<le> exponent y"
proof -
  have "pow2 (exponent x) < pow2 (exponent y + 1)"
    using exponent_bounds [of x] exponent_bounds [of y] assms by linarith
  then show ?thesis by (simp add: pow2_less_iff)
qed

lemma exponent_eqI:
  assumes "pow2 e \<le> x" "x < pow2 (e + 1)"
  shows "exponent x = e"
proof -
  have "0 < x" using assms(1) pow2_pos [of e] by linarith
  then have "pow2 (exponent x) < pow2 (e + 1)" "pow2 e < pow2 (exponent x + 1)"
    using exponent_bounds [of x] assms by linarith+
  then show ?thesis by (simp add: pow2_less_iff)
qed

lemma round_half_even_of_int [simp]: "round_half_even (of_int n) = n"
  by (simp add: round_half_even_def)

lemma round_half_even_bounds:
  "of_int (round_half_even q) \<le> q + 1 / 2" "q - 1 / 2 \<le> of_int (round_half_even q)"
proof -
  have "of_int \<lfloor>q\<rfloor> \<le> q" "q < of_int \<lfloor>q\<rfloor> + 1" by linarith+
  then show "of_int (round_half_even q) \<le> q + 1 / 2" "q - 1 / 2 \<le> of_int (round_half_even q)"
    unfolding round_half_even_def Let_def by (simp_all split: if_split, linarith+)
qed

lemma round_half_even_mono:
  assumes "p \<le> q"
  shows "round_half_even p \<le> round_half_even q"
proof (cases "\<lfloor>p\<rfloor> = \<lfloor>q\<rfloor>")
  case True
  then show ?thesis using assms by (auto simp: round_half_even_def Let_def)
next
  case False
  then have "\<lfloor>p\<rfloor> + 1 \<le> \<lfloor>q\<rfloor>" using floor_mono [OF assms] by linarith
  moreover have "round_half_even p \<le> \<lfloor>p\<rfloor> + 1" "\<lfloor>q\<rfloor> \<le> round_half_even q"
    by (auto simp: round_half_even_def Let_def)
  ultimately show ?thesis by linarith
qed

lemma round64_0 [simp]: "round64 0 = 0"
  by (simp add: round64_def)

text \<open>A multiple of the unit in the last place is kept.\<close>

lemma round64_exact:
  assumes "x = of_int m * pow2 e" "ulp_exponent x \<le> e"
  shows "round64 x = x"
proof (cases "x = 0")
  case False
  let ?u = "ulp_exponent x"
  have "x / pow2 ?u = of_int m * pow2 (e - ?u)" using assms(1) by (simp add: pow2_diff)
  also have "\<dots> = of_int (m * 2 ^ nat (e - ?u))" using assms(2) by (simp add: pow2_nat)
  finally have eq: "x / pow2 ?u = of_int (m * 2 ^ nat (e - ?u))" .
  have "round64 x = of_int (m * 2 ^ nat (e - ?u)) * pow2 ?u"
    using False by (simp only: round64_def eq round_half_even_of_int if_False)
  also have "\<dots> = x" unfolding eq [symmetric] by simp
  finally show ?thesis .
qed simp

lemma ulp_exponent_of_int:
  assumes "\<bar>m\<bar> < 2 ^ 53" "m \<noteq> 0" "- 1074 \<le> e"
  shows "ulp_exponent (of_int m * pow2 e) \<le> e"
proof -
  let ?x = "\<bar>of_int m * pow2 e\<bar>"
  have x: "?x = of_int \<bar>m\<bar> * pow2 e" by (simp add: abs_mult)
  have "of_int \<bar>m\<bar> < (of_int (2 ^ 53) :: rat)" using assms(1) by (simp only: of_int_less_iff)
  also have "\<dots> = pow2 53" by (simp add: pow2_def)
  finally have "?x < pow2 53 * pow2 e" unfolding x by (intro mult_strict_right_mono) auto
  then have "?x < pow2 (53 + e)" by (simp add: pow2_add)
  moreover have "0 < ?x" using assms(2) by simp
  ultimately have "pow2 (exponent ?x) < pow2 (53 + e)" using exponent_bounds(1) [of ?x] by linarith
  then show ?thesis using assms(3) by (simp add: ulp_exponent_def pow2_less_iff)
qed

lemma round64_small: "\<bar>m\<bar> < 2 ^ 53 \<Longrightarrow> - 1074 \<le> e \<Longrightarrow> round64 (of_int m * pow2 e) = of_int m * pow2 e"
  by (cases "m = 0") (auto intro!: round64_exact [where m = m and e = e] ulp_exponent_of_int)

lemma round64_pow2: "- 1074 \<le> e \<Longrightarrow> round64 (pow2 e) = pow2 e"
  using round64_small [of 1 e] by simp

lemma round64_int: "\<bar>m\<bar> \<le> 2 ^ 53 \<Longrightarrow> round64 (of_int m) = of_int m"
proof (cases "\<bar>m\<bar> = 2 ^ 53")
  case True
  then consider "m = 2 ^ 53" | "m = - (2 ^ 53)" by linarith
  then show ?thesis
  proof cases
    case 1
    then show ?thesis using round64_pow2 [of 53] by (simp add: pow2_def)
  next
    case 2
    have "ulp_exponent (of_int m) = 1"
      using exponent_eqI [of 53 "2 ^ 53"] 2 by (simp add: ulp_exponent_def pow2_def)
    then show ?thesis
      using 2 by (intro round64_exact [where m = "- (2 ^ 52)" and e = 1]) (simp_all add: pow2_def)
  qed
next
  case False
  assume "\<bar>m\<bar> \<le> 2 ^ 53"
  then show ?thesis using round64_small [of m 0] False by simp
qed

lemma round64_nonneg: "0 \<le> x \<Longrightarrow> 0 \<le> round64 x"
proof -
  assume "0 \<le> x"
  then have "of_int 0 \<le> x / pow2 (ulp_exponent x)" by (simp add: less_imp_le)
  then have "0 \<le> round_half_even (x / pow2 (ulp_exponent x))"
    using round_half_even_mono [of "of_int 0"] round_half_even_of_int [of 0] by metis
  then show ?thesis by (simp add: round64_def less_imp_le)
qed

text \<open>Comparing with a power of two that is a multiple of the unit in the last place.\<close>

lemma round64_le_pow2:
  assumes "0 < x" "x \<le> pow2 e" "ulp_exponent x \<le> e"
  shows "round64 x \<le> pow2 e"
proof -
  let ?u = "ulp_exponent x"
  have "x / pow2 ?u \<le> pow2 (e - ?u)" using assms(2) by (simp add: pow2_diff divide_right_mono less_imp_le)
  then have "round_half_even (x / pow2 ?u) \<le> round_half_even (pow2 (e - ?u))" by (rule round_half_even_mono)
  also have "\<dots> = 2 ^ nat (e - ?u)" using assms(3) by (simp only: pow2_nat round_half_even_of_int)
  finally have "of_int (round_half_even (x / pow2 ?u)) \<le> (of_int (2 ^ nat (e - ?u)) :: rat)"
    by (simp only: of_int_le_iff)
  then have "of_int (round_half_even (x / pow2 ?u)) \<le> pow2 (e - ?u)" using assms(3) by (simp add: pow2_nat)
  then have "round64 x \<le> pow2 (e - ?u) * pow2 ?u"
    using assms(1) by (simp add: round64_def mult_right_mono less_imp_le)
  then show ?thesis by (simp add: pow2_add [symmetric])
qed

lemma round64_ge_pow2:
  assumes "pow2 e \<le> x" "ulp_exponent x \<le> e"
  shows "pow2 e \<le> round64 x"
proof -
  let ?u = "ulp_exponent x"
  have x: "0 < x" using assms(1) pow2_pos [of e] by linarith
  have "pow2 (e - ?u) \<le> x / pow2 ?u" using assms(1) by (simp add: pow2_diff divide_right_mono less_imp_le)
  then have "round_half_even (pow2 (e - ?u)) \<le> round_half_even (x / pow2 ?u)" by (rule round_half_even_mono)
  moreover have "round_half_even (pow2 (e - ?u)) = 2 ^ nat (e - ?u)"
    using assms(2) by (simp only: pow2_nat round_half_even_of_int)
  ultimately have "(of_int (2 ^ nat (e - ?u)) :: rat) \<le> of_int (round_half_even (x / pow2 ?u))"
    by (simp only: of_int_le_iff)
  then have "pow2 (e - ?u) \<le> of_int (round_half_even (x / pow2 ?u))" using assms(2) by (simp add: pow2_nat)
  then have "pow2 (e - ?u) * pow2 ?u \<le> round64 x"
    using x by (simp add: round64_def mult_right_mono less_imp_le)
  then show ?thesis by (simp add: pow2_add [symmetric])
qed

lemma round64_mono:
  assumes "0 \<le> x" "x \<le> y"
  shows "round64 x \<le> round64 y"
proof (cases "x = 0")
  case True
  then show ?thesis using assms round64_nonneg [of y] by simp
next
  case False
  then have x: "0 < x" and y: "0 < y" using assms by auto
  let ?u = "ulp_exponent x" and ?v = "ulp_exponent y"
  have ex: "exponent x \<le> exponent y" by (rule exponent_mono [OF x assms(2)])
  show ?thesis
  proof (cases "?u = ?v")
    case True
    have "x / pow2 ?u \<le> y / pow2 ?u" using assms(2) by (simp add: divide_right_mono less_imp_le)
    then have "round_half_even (x / pow2 ?u) \<le> round_half_even (y / pow2 ?v)"
      using True by (simp add: round_half_even_mono)
    then show ?thesis using x y True by (simp add: round64_def mult_right_mono less_imp_le)
  next
    case False
    then have uv: "?u < ?v" "exponent x + 1 \<le> exponent y" "?v = exponent y - 52"
      using ex x y by (auto simp: ulp_exponent_def max_def split: if_splits)
    have "x \<le> pow2 (exponent y)"
      using exponent_bounds(2) [OF x] pow2_mono [OF uv(2)] by linarith
    then have "round64 x \<le> pow2 (exponent y)" using x uv by (intro round64_le_pow2) auto
    also have "\<dots> \<le> round64 y" using exponent_bounds(1) [OF y] uv by (intro round64_ge_pow2) auto
    finally show ?thesis .
  qed
qed

lemma round64_ge: "0 \<le> a \<Longrightarrow> a \<le> x \<Longrightarrow> round64 a = a \<Longrightarrow> a \<le> round64 x"
  using round64_mono [of a x] by simp

lemma round64_le: "0 \<le> x \<Longrightarrow> x \<le> b \<Longrightarrow> round64 b = b \<Longrightarrow> round64 x \<le> b"
  using round64_mono [of x b] by simp

text \<open>The rounding error: half a unit in the last place.\<close>

lemma round64_error:
  assumes "0 \<le> x"
  shows "round64 x \<le> x + x * pow2 (- 53) + pow2 (- 1075)" "x - x * pow2 (- 53) - pow2 (- 1075) \<le> round64 x"
proof -
  have "round64 x \<le> x + x * pow2 (- 53) + pow2 (- 1075) \<and> x - x * pow2 (- 53) - pow2 (- 1075) \<le> round64 x"
  proof (cases "x = 0")
    case False
    then have x: "0 < x" using assms by simp
    let ?u = "ulp_exponent x"
    have u: "pow2 ?u / 2 \<le> x * pow2 (- 53) + pow2 (- 1075)"
    proof (cases "?u = - 1074")
      case True
      have "pow2 (- 1074) = 2 * pow2 (- 1075)" using pow2_add [of 1 "- 1075"] by (simp add: pow2_def)
      moreover have "0 \<le> x * pow2 (- 53)" using x by (simp add: less_imp_le)
      ultimately show ?thesis unfolding True by linarith
    next
      case False
      then have "?u = exponent x - 52" using x by (auto simp: ulp_exponent_def max_def)
      then have "pow2 ?u = 2 * (pow2 (exponent x) * pow2 (- 53))"
        using pow2_add [of "exponent x" "- 52"] pow2_add [of 1 "- 53"] by (simp add: pow2_def [of 1])
      moreover have "pow2 (exponent x) * pow2 (- 53) \<le> x * pow2 (- 53)"
        using exponent_bounds(1) [OF x] by (intro mult_right_mono) (simp_all add: less_imp_le)
      ultimately show ?thesis using pow2_pos [of "- 1075"] by linarith
    qed
    define q where "q = x / pow2 ?u"
    have xq: "x = q * pow2 ?u" by (simp add: q_def)
    have r: "round64 x = of_int (round_half_even q) * pow2 ?u" using x by (simp add: round64_def q_def)
    have "round64 x \<le> (q + 1 / 2) * pow2 ?u" "(q - 1 / 2) * pow2 ?u \<le> round64 x"
      unfolding r using round_half_even_bounds [of q] by (intro mult_right_mono; simp add: less_imp_le)+
    then show ?thesis using u xq by (simp add: algebra_simps)
  qed (simp add: less_imp_le)
  then show "round64 x \<le> x + x * pow2 (- 53) + pow2 (- 1075)" "x - x * pow2 (- 53) - pow2 (- 1075) \<le> round64 x"
    by auto
qed

text \<open>Conversions keep the order and small integers.\<close>

lemma pow2_1024_big: "2 ^ 53 < pow2 1024"
  using pow2_strict_mono [of 53 1024] by (simp add: pow2_def [of 53])

lemma f64_of_int_small: "\<bar>n\<bar> \<le> 2 ^ 53 \<Longrightarrow> f64_of_int n = Fin (of_int n)"
proof -
  assume n: "\<bar>n\<bar> \<le> 2 ^ 53"
  then have "\<bar>of_int n\<bar> \<le> (of_int (2 ^ 53) :: rat)" by (simp only: of_int_abs [symmetric] of_int_le_iff)
  then have "\<bar>of_int n\<bar> < pow2 1024" using pow2_1024_big by simp
  then show ?thesis using round64_int [OF n] by (auto simp: f64_of_int_def to_f64_def Let_def)
qed

lemma to_f64_nonneg:
  assumes "0 \<le> x"
  obtains "to_f64 x = PosInf" "pow2 1024 \<le> round64 x" | "to_f64 x = Fin (round64 x)" "0 \<le> round64 x"
proof -
  have "0 \<le> round64 x" by (rule round64_nonneg [OF assms])
  moreover have "0 < pow2 1024" by simp
  ultimately have "\<not> round64 x \<le> - pow2 1024" by linarith
  then show thesis
    using that round64_nonneg [OF assms] by (cases "pow2 1024 \<le> round64 x") (auto simp: to_f64_def Let_def)
qed

lemma to_f64_pow2: "- 1074 \<le> e \<Longrightarrow> to_f64 (pow2 e) = (if e < 1024 then Fin (pow2 e) else PosInf)"
proof -
  assume e: "- 1074 \<le> e"
  have "\<not> pow2 e \<le> - pow2 1024" using pow2_pos [of e] pow2_pos [of 1024] by linarith
  then show ?thesis
    using e pow2_strict_mono [of e 1024] pow2_mono [of 1024 e]
    by (auto simp: to_f64_def Let_def round64_pow2 not_le [symmetric])
qed

section \<open>Facts about math.Pow\<close>

lemma pow_loop_nonneg:
  "0 \<le> x1 \<Longrightarrow> 0 \<le> a1 \<Longrightarrow> 0 \<le> fst (pow_loop i x1 xe a1 ae)"
proof (induction i x1 xe a1 ae rule: pow_loop.induct)
  case (1 i x1 xe a1 ae)
  have "0 \<le> round64 (a1 * x1)" "0 \<le> round64 (x1 * x1)" "0 \<le> round64 (round64 (x1 * x1) + round64 (x1 * x1))"
    using "1.prems" by (simp_all add: round64_nonneg)
  with 1 show ?case by (subst pow_loop.simps) (auto simp: Let_def)
qed

text \<open>A base above one never gives NaN or a negative power.\<close>

lemma Pow_nonneg:
  assumes "0 < a"
  shows "Pow (Fin a) n = PosInf \<or> (\<exists>p\<ge>0. Pow (Fin a) n = Fin p)"
proof -
  have x1: "0 \<le> a / pow2 (exponent a + 1)" using assms by (simp add: less_imp_le)
  obtain a1 ae where l: "pow_loop (nat \<lfloor>round64 (of_nat n)\<rfloor>) (a / pow2 (exponent a + 1)) (exponent a + 1) 1 0 = (a1, ae)"
    by fastforce
  then have "0 \<le> a1 * pow2 ae" using pow_loop_nonneg [OF x1, of 1] by (metis fst_conv mult_nonneg_nonneg pow2_pos less_imp_le zero_le_one)
  then have "Ldexp a1 ae = PosInf \<or> (\<exists>p\<ge>0. Ldexp a1 ae = Fin p)"
    unfolding Ldexp_def by (rule to_f64_nonneg) auto
  then show ?thesis using assms l by (auto simp: Pow_def Let_def Frexp_def)
qed

text \<open>Powers of two are exact: the loop keeps the fraction at one half.\<close>

lemma exponent_2: "exponent 2 = 1"
  by (rule exponent_eqI) (simp_all add: pow2_def)

lemma round64_halves:
  "round64 (1 / 4) = 1 / 4" "round64 (1 / 2) = 1 / 2"
  using round64_pow2 [of "- 2"] round64_pow2 [of "- 1"] by (simp_all only: pow2_def) simp_all

lemma pow_loop_two_step:
  assumes "i \<noteq> 0" "- 4096 \<le> xe" "xe \<le> 4096" "- 1073 \<le> k"
  shows "pow_loop i (1 / 2) xe (pow2 k) ae =
           pow_loop (i div 2) (1 / 2) (2 * xe - 1) (pow2 (if odd i then k - 1 else k)) (if odd i then ae + xe else ae)"
proof -
  have "pow2 k * (1 / 2) = pow2 (k - 1)" by (simp add: pow2_diff pow2_def [of 1])
  then have "round64 (pow2 k * (1 / 2)) = pow2 (k - 1)" using assms(4) round64_pow2 [of "k - 1"] by simp
  then show ?thesis using assms(1-3) by (subst pow_loop.simps) (simp add: Let_def round64_halves)
qed

lemma pow_loop_two:
  assumes "2 \<le> xe" "2 ^ nat (- k) \<le> xe - 1" "- 13 \<le> k" "k \<le> 0" "0 \<le> ae"
  shows "\<exists>k' ae'. pow_loop i (1 / 2) xe (pow2 k) ae = (pow2 k', ae') \<and>
           (k' + ae' = k + ae + (xe - 1) * int i \<or> 1024 \<le> k' + ae' \<and> 1024 \<le> k + ae + (xe - 1) * int i)"
  using assms
proof (induction i arbitrary: xe k ae rule: less_induct)
  case (less i)
  consider "i = 0" | "i \<noteq> 0" "4096 < xe" | "i \<noteq> 0" "xe \<le> 4096" by linarith
  then show ?case
  proof cases
    case 1
    then show ?thesis by (auto simp: pow_loop.simps [of 0])
  next
    case 2
    then have "4096 * 1 \<le> (xe - 1) * int i" by (intro mult_mono) auto
    then have "1024 \<le> k + ae + (xe - 1) * int i" using less.prems(3,5) by linarith
    moreover have "pow_loop i (1 / 2) xe (pow2 k) ae = (pow2 k, ae + xe)" using 2 by (simp add: pow_loop.simps [of i])
    ultimately show ?thesis using 2 less.prems by auto
  next
    case 3
    define k2 where "k2 = (if odd i then k - 1 else k)"
    define ae2 where "ae2 = (if odd i then ae + xe else ae)"
    have "2 ^ nat (- k) < (2::int) ^ 12" using less.prems 3 by simp
    then have "nat (- k) < 12" by (rule power_less_imp_less_exp [rotated]) simp
    then have k2: "- 13 \<le> k2" "k2 \<le> 0" using less.prems by (auto simp: k2_def)
    have "nat (- k2) \<le> Suc (nat (- k))" using less.prems by (auto simp: k2_def)
    then have "2 ^ nat (- k2) \<le> (2::int) ^ Suc (nat (- k))" by (intro power_increasing) auto
    then have p: "2 ^ nat (- k2) \<le> (2 * xe - 1) - 1" using less.prems by simp
    have step: "pow_loop i (1 / 2) xe (pow2 k) ae = pow_loop (i div 2) (1 / 2) (2 * xe - 1) (pow2 k2) ae2"
      unfolding k2_def ae2_def using 3 less.prems by (intro pow_loop_two_step) auto
    have i: "int i = 2 * int (i div 2) + (if odd i then 1 else 0)"
      by (cases "odd i") (auto elim!: oddE evenE)
    have "k2 + ae2 + (2 * xe - 1 - 1) * int (i div 2) = k + ae + (xe - 1) * int i"
      unfolding i by (simp add: k2_def ae2_def algebra_simps)
    with less.IH [of "i div 2" "2 * xe - 1" k2 ae2] 3 less.prems k2 p show ?thesis
      unfolding step by (auto simp: ae2_def)
  qed
qed

lemma Frexp_2: "Frexp 2 = (1 / 2, 2)"
  by (simp add: Frexp_def exponent_2 pow2_def)

lemma Pow_2:
  assumes "n \<le> 2 ^ 53"
  shows "Pow (Fin 2) n = (if n < 1024 then Fin (2 ^ n) else PosInf)"
proof -
  have n: "round64 (of_nat n) = of_nat n"
    using assms round64_int [of "int n"] by simp
  obtain k' ae' where l: "pow_loop n (1 / 2) 2 (pow2 0) 0 = (pow2 k', ae')"
    and e: "k' + ae' = int n \<or> 1024 \<le> k' + ae' \<and> 1024 \<le> int n"
    using pow_loop_two [of 2 0 0 n] by auto
  have "Ldexp (pow2 k') ae' = to_f64 (pow2 (k' + ae'))" by (simp add: Ldexp_def pow2_add)
  also have "\<dots> = (if k' + ae' < 1024 then Fin (pow2 (k' + ae')) else PosInf)"
    using e by (intro to_f64_pow2) auto
  also have "\<dots> = (if n < 1024 then Fin (2 ^ n) else PosInf)" using e by (auto simp: pow2_def)
  finally have L: "Ldexp (pow2 k') ae' = (if n < 1024 then Fin (2 ^ n) else PosInf)" .
  have "\<not> (2 ^ 63 \<le> (of_nat n :: rat))"
    using assms by (simp add: not_le)
  then show ?thesis using L l by (auto simp: Pow_def Let_def n Frexp_2)
qed

end
