(* ===== verification/GoDuration.thy ===== *)
theory GoDuration
  imports GoStrings GoFloat
begin

text \<open>
  \<^verbatim>\<open>time.ParseDuration\<close> as Go's library has it: an optional sign, then decimal numbers with an
  optional fraction, each followed by a unit. Sums are kept below \<open>2 ^ 64\<close> as the \<^verbatim>\<open>uint64\<close>
  arithmetic does; the fraction of a unit goes through \<^verbatim>\<open>float64\<close>.
\<close>

datatype duration_error = InvalidDuration | MissingUnit | UnknownUnit string

definition unitMap :: "(string, nat) gomap" where
  "unitMap =
     [(''ns'', 1), (''us'', 1000), ([char_of (0xC2 :: nat), char_of (0xB5 :: nat), CHR ''s''], 1000),
      ([char_of (0xCE :: nat), char_of (0xBC :: nat), CHR ''s''], 1000), (''ms'', 1000000),
      (''s'', 1000000000), (''m'', 60000000000), (''h'', 3600000000000)]"

fun leadingInt :: "nat \<Rightarrow> string \<Rightarrow> (nat \<times> string) option" where
  "leadingInt x [] = Some (x, [])"
| "leadingInt x (c # s) =
     (if \<not> is_digit c then Some (x, c # s)
      else if 2 ^ 63 div 10 < x then None
      else let x = x * 10 + digit_value c in if 2 ^ 63 < x then None else leadingInt x s)"

fun leadingFraction :: "bool \<Rightarrow> nat \<Rightarrow> rat \<Rightarrow> string \<Rightarrow> nat \<times> rat \<times> string" where
  "leadingFraction overflow x scale [] = (x, scale, [])"
| "leadingFraction overflow x scale (c # s) =
     (if \<not> is_digit c then (x, scale, c # s)
      else if overflow \<or> (2 ^ 63 - 1) div 10 < x then leadingFraction True x scale s
      else let y = x * 10 + digit_value c
           in if 2 ^ 63 < y then leadingFraction True x scale s
              else leadingFraction False y (round64 (scale * 10)) s)"

definition fraction_nanos :: "nat \<Rightarrow> rat \<Rightarrow> nat \<Rightarrow> nat" where
  "fraction_nanos f scale unit =
     nat \<lfloor>round64 (round64 (of_nat f) * round64 (of_nat unit / scale))\<rfloor>"

definition unit_char :: "char \<Rightarrow> bool" where
  "unit_char c \<longleftrightarrow> c \<noteq> CHR ''.'' \<and> \<not> is_digit c"

text \<open>The unit after a number: the nanoseconds and the rest of the string.\<close>

definition parse_unit :: "nat \<Rightarrow> nat \<Rightarrow> rat \<Rightarrow> string \<Rightarrow> duration_error + nat \<times> string" where
  "parse_unit v f scale s =
     (let u = takeWhile unit_char s; s = dropWhile unit_char s
      in if u = [] then Inl MissingUnit
         else case map_of unitMap u of
           None \<Rightarrow> Inl (UnknownUnit u)
         | Some unit \<Rightarrow>
             if 2 ^ 63 div unit < v then Inl InvalidDuration
             else if f = 0 then Inr (v * unit, s)
             else let v = v * unit + fraction_nanos f scale unit
                  in if 2 ^ 63 < v then Inl InvalidDuration else Inr (v, s))"

text \<open>One number with its unit.\<close>

definition parse_component :: "string \<Rightarrow> duration_error + nat \<times> string" where
  "parse_component s =
     (if s = [] \<or> unit_char (hd s) then Inl InvalidDuration
      else case leadingInt 0 s of
        None \<Rightarrow> Inl InvalidDuration
      | Some (v, s1) \<Rightarrow>
          if take 1 s1 = ''.''
          then (case leadingFraction False 0 1 (drop 1 s1) of (f, scale, s2) \<Rightarrow>
                  if length s1 = length s \<and> length s2 = length (drop 1 s1) then Inl InvalidDuration
                  else parse_unit v f scale s2)
          else if length s1 = length s then Inl InvalidDuration
          else parse_unit v 0 1 s1)"

lemma leadingInt_length: "leadingInt x s = Some (v, r) \<Longrightarrow> length r \<le> length s"
  by (induction x s rule: leadingInt.induct) (auto simp: Let_def split: if_splits)

lemma leadingFraction_length: "leadingFraction ov x sc s = (f, sc', r) \<Longrightarrow> length r \<le> length s"
  by (induction ov x sc s rule: leadingFraction.induct) (auto simp: Let_def split: if_splits)

lemma parse_unit_length:
  assumes "parse_unit v f scale s = Inr (w, r)"
  shows "length r < length s"
proof -
  have u: "takeWhile unit_char s \<noteq> []" "r = dropWhile unit_char s"
    using assms by (auto simp: parse_unit_def Let_def split: if_splits option.splits)
  have "length (takeWhile unit_char s) + length (dropWhile unit_char s) = length s"
    by (metis length_append takeWhile_dropWhile_id)
  moreover have "0 < length (takeWhile unit_char s)" using u(1) by blast
  ultimately show ?thesis unfolding u(2) by linarith
qed

lemma parse_component_length: "parse_component s = Inr (v, r) \<Longrightarrow> length r < length s"
  by (auto simp: parse_component_def split: if_splits option.splits prod.splits
      dest!: parse_unit_length leadingInt_length leadingFraction_length)

function parse_components :: "nat \<Rightarrow> string \<Rightarrow> duration_error + nat" where
  "parse_components d s =
     (if s = [] then Inr d
      else case parse_component s of
        Inl e \<Rightarrow> Inl e
      | Inr (v, r) \<Rightarrow>
          let d = (d + v) mod 2 ^ 64
          in if 2 ^ 63 < d then Inl InvalidDuration else parse_components d r)"
  by pat_completeness auto
termination
  by (relation "measure (\<lambda>(d, s). length s)") (auto dest: parse_component_length)

declare parse_components.simps [simp del]

definition ParseDuration :: "string \<Rightarrow> duration_error + duration" where
  "ParseDuration orig =
     (let neg = (take 1 orig = ''-'');
          s = (if take 1 orig = ''-'' \<or> take 1 orig = ''+'' then drop 1 orig else orig)
      in if s = ''0'' then Inr 0
         else if s = [] then Inl InvalidDuration
         else bind_result (parse_components 0 s) (\<lambda>d.
           if neg then Inr (wrap64 (- int d))
           else if 2 ^ 63 - 1 < d then Inl InvalidDuration
           else Inr (int d)))"

section \<open>Facts\<close>

lemma parse_components_bound: "d \<le> 2 ^ 63 \<Longrightarrow> parse_components d s = Inr v \<Longrightarrow> v \<le> 2 ^ 63"
proof (induction d s rule: parse_components.induct)
  case (1 d s)
  show ?case
  proof (cases "s = []")
    case True
    then show ?thesis using 1 by (simp add: parse_components.simps [of d])
  next
    case False
    then obtain w r where c: "parse_component s = Inr (w, r)" "\<not> 2 ^ 63 < (d + w) mod 2 ^ 64"
        "parse_components ((d + w) mod 2 ^ 64) r = Inr v"
      using 1(3) by (subst (asm) parse_components.simps) (auto simp: Let_def split: sum.splits if_splits)
    show ?thesis by (rule "1.IH" [OF False c(1) refl refl]) (use c in auto)
  qed
qed

text \<open>The result fits a \<^verbatim>\<open>time.Duration\<close>.\<close>

lemma ParseDuration_range:
  assumes "ParseDuration s = Inr d"
  shows "min_int64 \<le> d \<and> d \<le> max_int64"
proof -
  consider "d = 0" | v where "d = wrap64 (- int v)" | v where "d = int v" "\<not> 2 ^ 63 - 1 < v"
    using assms unfolding ParseDuration_def Let_def by (auto simp: bind_result_Inr_iff split: if_splits)
  then show ?thesis
    by cases (auto simp: wrap64_range, auto simp: min_int64_def max_int64_def)
qed

text \<open>Whole numbers of a unit parse to that many units.\<close>

lemma leadingInt_append:
  "leadingInt x s = Some (v, []) \<Longrightarrow> \<forall>c\<in>set s. is_digit c \<Longrightarrow> leadingInt x (s @ t) = leadingInt v t"
  by (induction x s rule: leadingInt.induct) (auto simp: Let_def split: if_splits)

lemma leadingInt_show_nat: "n \<le> 2 ^ 63 \<Longrightarrow> leadingInt 0 (show_nat n) = Some (n, [])"
proof (induction n rule: show_nat.induct)
  case (1 n)
  show ?case
  proof (cases "n < 10")
    case True
    then show ?thesis by (simp add: show_nat.simps [of n])
  next
    case False
    have "leadingInt 0 (show_nat (n div 10)) = Some (n div 10, [])" using 1 False by simp
    then have "leadingInt 0 (show_nat (n div 10) @ [digit_char (n mod 10)]) = leadingInt (n div 10) [digit_char (n mod 10)]"
      by (rule leadingInt_append) (simp add: show_nat_digits)
    moreover have "\<not> 2 ^ 63 div 10 < n div 10" using 1(2) div_le_mono [of n "2 ^ 63" 10] by simp
    ultimately show ?thesis using False 1(2) by (simp add: show_nat.simps [of n] Let_def)
  qed
qed

lemma takeWhile_unit_char:
  "\<forall>c\<in>set u. unit_char c \<Longrightarrow> takeWhile unit_char u = u \<and> dropWhile unit_char u = []"
  by (simp add: takeWhile_eq_all_conv dropWhile_eq_Nil_conv)

lemma unitMap_wf: "list_all (\<lambda>(u, k). list_all unit_char u \<and> u \<noteq> [] \<and> 0 < k \<and> take 1 u \<noteq> ''.'') unitMap"
proof -
  have c: "char_of n \<noteq> CHR ''.''" if "n mod 256 \<noteq> 46" for n :: nat
    using that by (auto dest: arg_cong [where f = "of_char :: char \<Rightarrow> nat"])
  show ?thesis
    using c [of 194] c [of 181] c [of 206] c [of 188] by (simp add: unitMap_def unit_char_def is_digit_def byte_def)
qed

lemma ParseDuration_show_nat:
  assumes "map_of unitMap u = Some k" "int (n * k) \<le> max_int64"
  shows "ParseDuration (show_nat n @ u) = Inr (int (n * k))"
proof -
  have u: "\<forall>c\<in>set u. unit_char c" "u \<noteq> []" "0 < k" "take 1 u \<noteq> ''.''"
    using unitMap_wf map_of_SomeD [OF assms(1)] by (auto simp: list_all_iff)
  have "int (n * k) \<le> int (2 ^ 63 - 1)" using assms(2) by (simp add: max_int64_def)
  then have nk: "n * k \<le> 2 ^ 63 - 1" by (simp only: of_nat_le_iff)
  moreover have "n * 1 \<le> n * k" using u(3) by (intro mult_le_mono2) simp
  ultimately have "n \<le> 2 ^ 63" by linarith
  then have li: "leadingInt 0 (show_nat n @ u) = Some (n, u)"
    using leadingInt_append [OF leadingInt_show_nat, of n u] show_nat_digits u(1,2)
    by (cases u) (auto simp: unit_char_def)
  have hd: "is_digit (hd (show_nat n))" by (rule show_nat_digits [of _ n]) simp
  have dv: "\<not> 2 ^ 63 div k < n" using nk u(3) by (simp add: not_less less_eq_div_iff_mult_less_eq)
  have pu: "parse_unit n 0 1 u = Inr (n * k, [])"
    using assms(1) u(2) dv by (simp add: parse_unit_def Let_def takeWhile_unit_char [OF u(1)])
  have "\<not> unit_char (hd (show_nat n @ u))" using hd by (simp add: unit_char_def)
  then have "parse_component (show_nat n @ u) = Inr (n * k, [])"
    using li u pu by (simp add: parse_component_def)
  then have "parse_components 0 (show_nat n @ u) = Inr (n * k)"
    using nk u(2) by (simp add: parse_components.simps [of 0] parse_components.simps [of _ "[]"] Let_def)
  moreover have "take 1 (show_nat n @ u) = [hd (show_nat n)]" by (cases "show_nat n") simp_all
  moreover have "hd (show_nat n) \<noteq> CHR ''-''" "hd (show_nat n) \<noteq> CHR ''+''"
    using hd by (auto simp: is_digit_def byte_def)
  moreover have "show_nat n @ u \<noteq> ''0''"
    using u(1,2) by (cases "show_nat n") (auto simp: append_eq_Cons_conv unit_char_def is_digit_def byte_def)
  ultimately show ?thesis using nk u(2) by (simp add: ParseDuration_def Let_def)
qed

end
