(* ===== verification/Cron_Parser.thy ===== *)
theory Cron_Parser
  imports Cron_Spec GoDuration
begin

text \<open>
  Package \<^verbatim>\<open>cron\<close>: constant-delay schedules (\<^verbatim>\<open>constant.go\<close>), the top-level parser
  (\<^verbatim>\<open>parser.go\<close>) and the \<^verbatim>\<open>Schedule\<close> interface (\<^verbatim>\<open>cron.go\<close>). The interface value is a
  datatype with one constructor per implementation, and \<open>schedule_next\<close> is the dynamic dispatch
  of \<^verbatim>\<open>Next\<close>. The theory ends with what a printed cron expression means: parsing it and calling
  \<^verbatim>\<open>Next\<close> gives the earliest instant the written fields allow.
\<close>

section \<open>Constant delays\<close>

record ConstantDelaySchedule =
  c_Delay :: duration

text \<open>\<^verbatim>\<open>d % time.Second\<close> is taken of a positive \<open>d\<close> only.\<close>

definition Every :: "duration \<Rightarrow> ConstantDelaySchedule" where
  "Every d =
     (let d = (if d < SecondD then SecondD else d);
          d = d - d mod SecondD
      in \<lparr>c_Delay = d\<rparr>)"

definition ConstantDelay_Next :: "ConstantDelaySchedule \<Rightarrow> time \<Rightarrow> time" where
  "ConstantDelay_Next s t = t + (c_Delay s - Nanosecond t)"

datatype Schedule = SpecSched SpecSchedule | DelaySched ConstantDelaySchedule

definition schedule_next :: "Schedule \<Rightarrow> time \<Rightarrow> time option" where
  "schedule_next sched t =
     (case sched of SpecSched s \<Rightarrow> Next s t | DelaySched d \<Rightarrow> Some (ConstantDelay_Next d t))"

definition parseEvery :: "string \<Rightarrow> cron_error + Schedule" where
  "parseEvery spec =
     (let raw = TrimSpace (TrimPrefix spec ''@every '')
      in case ParseDuration raw of
           Inl e \<Rightarrow> Inl (InvalidEvery raw)
         | Inr d \<Rightarrow> if d \<le> 0 then Inl (NonPositiveEvery d) else Inr (DelaySched (Every d)))"

section \<open>Parsing expressions\<close>

definition descriptors :: "(string, string) gomap" where
  "descriptors =
     [(''@yearly'', ''0 0 0 1 1 *''), (''@annually'', ''0 0 0 1 1 *''), (''@monthly'', ''0 0 0 1 * *''),
      (''@weekly'', ''0 0 0 * * 0''), (''@daily'', ''0 0 0 * * *''), (''@midnight'', ''0 0 0 * * *''),
      (''@hourly'', ''0 0 * * * *'')]"

text \<open>\<^verbatim>\<open>mask &^ (1 << 7) | 1\<close> when bit 7 is set\<close>

definition normalizeDow :: "u64 \<Rightarrow> u64" where
  "normalizeDow m =
     (if m AND push_bit 7 1 \<noteq> 0 then (m AND NOT (push_bit 7 1)) OR 1 else m)"

fun join_fields :: "string list \<Rightarrow> string" where
  "join_fields [] = []"
| "join_fields [f] = f"
| "join_fields (f # fs) = f @ '' '' @ join_fields fs"

definition build_spec :: "string \<Rightarrow> string \<Rightarrow> string \<Rightarrow> string \<Rightarrow> string \<Rightarrow> string \<Rightarrow> location option \<Rightarrow> cron_error + SpecSchedule" where
  "build_spec sec mins hour mday month dow loc =
     bind_result (parseField sec secondsBound) (\<lambda>second.
     bind_result (parseField mins minutesBound) (\<lambda>minute.
     bind_result (parseField hour hoursBound) (\<lambda>hr.
     bind_result (parseField mday domBound) (\<lambda>d.
     bind_result (parseField month monthBound) (\<lambda>m.
     bind_result (parseField dow dowBound) (\<lambda>w.
       Inr \<lparr>s_Second = second, s_Minute = minute, s_Hour = hr, s_Dom = d, s_Month = m,
            s_Dow = normalizeDow w, s_Location = loc\<rparr>))))))"

definition parseFields :: "string list \<Rightarrow> location option \<Rightarrow> cron_error + SpecSchedule" where
  "parseFields flds loc =
     (case flds of
        [mins, hour, mday, month, dow] \<Rightarrow> build_spec ''0'' mins hour mday month dow loc
      | [sec, mins, hour, mday, month, dow] \<Rightarrow> build_spec sec mins hour mday month dow loc
      | _ \<Rightarrow> Inl (FieldCount (length flds) (join_fields flds)))"

definition parse_spec :: "string list \<Rightarrow> location option \<Rightarrow> cron_error + Schedule" where
  "parse_spec flds loc = bind_result (parseFields flds loc) (\<lambda>s. Inr (SpecSched s))"

definition parseDescriptor :: "string \<Rightarrow> location option \<Rightarrow> cron_error + Schedule" where
  "parseDescriptor spec loc =
     (if HasPrefix spec ''@every '' then parseEvery spec
      else case map_of descriptors spec of
        Some expanded \<Rightarrow> parse_spec (Fields expanded) loc
      | None \<Rightarrow> Inl (UnknownDescriptor spec))"

definition ParseInLocation :: "string \<Rightarrow> location option \<Rightarrow> cron_error + Schedule" where
  "ParseInLocation spec loc =
     (let spec = TrimSpace spec
      in if spec = [] then Inl EmptySpec
         else if HasPrefix spec ''@'' then parseDescriptor spec loc
         else parse_spec (Fields spec) loc)"

definition Parse :: "string \<Rightarrow> cron_error + Schedule" where
  "Parse spec = ParseInLocation spec (Some UTC)"

section \<open>What parsing guarantees\<close>

text \<open>A parsed weekday mask has no bit 7, so folding Sunday-is-7 onto Sunday-is-0 never fires.\<close>

lemma normalizeDow_id: "\<not> bit m 7 \<Longrightarrow> normalizeDow m = m"
  using and_push_bit_nonzero [of 7 m] by (simp add: normalizeDow_def and.commute)

lemma normalizeDow_parsed: "parseField f dowBound = Inr m \<Longrightarrow> normalizeDow m = m"
proof (rule normalizeDow_id)
  assume "parseField f dowBound = Inr m"
  moreover have "bounds_ok dowBound" by (simp add: cron_bounds_ok cron_bounds_def)
  ultimately have "mask_upto dowBound m" by (rule parseField_mask [rotated])
  then show "\<not> bit m 7" by (auto simp: mask_upto_def dowBound_def)
qed

definition spec_ok :: "SpecSchedule \<Rightarrow> bool" where
  "spec_ok s \<longleftrightarrow>
     mask_upto secondsBound (s_Second s) \<and> mask_upto minutesBound (s_Minute s) \<and>
     mask_upto hoursBound (s_Hour s) \<and> mask_upto domBound (s_Dom s) \<and>
     mask_upto monthBound (s_Month s) \<and> mask_upto dowBound (s_Dow s)"

lemmas parseField_masks = parseField_mask [OF cron_bounds_ok]

lemma build_spec_ok:
  "build_spec sec mins hour mday month dow loc = Inr s \<Longrightarrow> spec_ok s \<and> s_Location s = loc"
  unfolding build_spec_def spec_ok_def
  by (auto simp: bind_result_Inr_iff normalizeDow_parsed intro!: parseField_masks simp: cron_bounds_def)

lemma build_spec_no_Diverges: "build_spec sec mins hour mday month dow loc \<noteq> Inl Diverges"
  unfolding build_spec_def
  by (auto simp: bind_result_Inl_iff parseField_no_Diverges cron_bounds_ok cron_bounds_def)

lemma parseFields_cases:
  "(\<exists>sec mins hour mday month dow. parseFields flds loc = build_spec sec mins hour mday month dow loc) \<or>
   parseFields flds loc = Inl (FieldCount (length flds) (join_fields flds))"
proof (cases "length flds = 5 \<or> length flds = 6")
  case True
  then consider a b c d e where "flds = [a, b, c, d, e]" | a b c d e f where "flds = [a, b, c, d, e, f]"
    by (auto simp: eval_nat_numeral length_Suc_conv)
  then have "\<exists>sec mins hour mday month dow. parseFields flds loc = build_spec sec mins hour mday month dow loc"
  proof cases
    case (1 a b c d e)
    then have "parseFields flds loc = build_spec ''0'' a b c d e loc" by (simp add: parseFields_def)
    then show ?thesis by blast
  next
    case (2 a b c d e f)
    then have "parseFields flds loc = build_spec a b c d e f loc" by (simp add: parseFields_def)
    then show ?thesis by blast
  qed
  then show ?thesis ..
next
  case False
  then show ?thesis by (auto simp: parseFields_def split: list.split)
qed

lemma parseFields_ok: "parseFields flds loc = Inr s \<Longrightarrow> spec_ok s \<and> s_Location s = loc"
  using parseFields_cases [of flds loc] build_spec_ok by (elim disjE exE) auto

lemma parseFields_no_Diverges: "parseFields flds loc \<noteq> Inl Diverges"
  using parseFields_cases [of flds loc] build_spec_no_Diverges by (elim disjE exE) auto

lemma parse_spec_ok: "parse_spec flds loc = Inr sched \<Longrightarrow> \<exists>s. sched = SpecSched s \<and> spec_ok s \<and> s_Location s = loc"
  using parseFields_ok by (auto simp: parse_spec_def bind_result_Inr_iff)

lemma parse_spec_no_Diverges: "parse_spec flds loc \<noteq> Inl Diverges"
  by (auto simp: parse_spec_def bind_result_Inl_iff parseFields_no_Diverges)

text \<open>The delay of a parsed \<^verbatim>\<open>@every\<close>: whole seconds, at least one.\<close>

definition delay_ok :: "ConstantDelaySchedule \<Rightarrow> bool" where
  "delay_ok c \<longleftrightarrow> SecondD \<le> c_Delay c \<and> c_Delay c mod SecondD = 0"

lemma Every_ok: "delay_ok (Every d)"
proof -
  define e where "e = (if d < SecondD then SecondD else d)"
  have e: "SecondD \<le> e" by (simp add: e_def)
  have "c_Delay (Every d) = SecondD * (e div SecondD)"
    by (simp add: Every_def Let_def e_def [symmetric] minus_mod_eq_mult_div)
  moreover have "1 \<le> e div SecondD" using e by (simp add: SecondD_def)
  ultimately show ?thesis by (simp add: delay_ok_def SecondD_def)
qed

lemma Every_exact: "SecondD \<le> d \<Longrightarrow> c_Delay (Every d) = d div SecondD * SecondD"
  by (simp add: Every_def Let_def minus_mod_eq_mult_div mult.commute)

lemma ConstantDelay_Next_ok:
  assumes "delay_ok c"
  shows "t < ConstantDelay_Next c t" "ConstantDelay_Next c t mod Nanos = 0"
    "ConstantDelay_Next c t \<le> t + c_Delay c" "t + c_Delay c - Nanos < ConstantDelay_Next c t"
proof -
  obtain q where q: "c_Delay c = Nanos * q" using assms by (auto simp: delay_ok_def SecondD_def mod_eq_0_iff_dvd)
  have n: "0 \<le> t mod Nanos" "t mod Nanos < Nanos" by simp_all
  have eq: "ConstantDelay_Next c t = t - t mod Nanos + Nanos * q"
    by (simp add: ConstantDelay_Next_def Nanosecond_def q)
  have "Nanos \<le> Nanos * q" using assms q by (simp add: delay_ok_def SecondD_def)
  then show "t < ConstantDelay_Next c t" using n unfolding eq by linarith
  show "ConstantDelay_Next c t mod Nanos = 0" unfolding eq by (simp add: minus_mod_eq_mult_div)
  show "ConstantDelay_Next c t \<le> t + c_Delay c" "t + c_Delay c - Nanos < ConstantDelay_Next c t"
    using n unfolding eq q by linarith+
qed

definition schedule_ok :: "location option \<Rightarrow> Schedule \<Rightarrow> bool" where
  "schedule_ok loc sched =
     (case sched of SpecSched s \<Rightarrow> spec_ok s \<and> s_Location s = loc | DelaySched c \<Rightarrow> delay_ok c)"

lemma ParseInLocation_ok: "ParseInLocation spec loc = Inr sched \<Longrightarrow> schedule_ok loc sched"
  by (auto simp: ParseInLocation_def parseDescriptor_def parseEvery_def schedule_ok_def Let_def Every_ok
      dest!: parse_spec_ok split: if_splits option.splits sum.splits)

lemma ParseInLocation_no_Diverges: "ParseInLocation spec loc \<noteq> Inl Diverges"
  by (auto simp: ParseInLocation_def parseDescriptor_def parseEvery_def Let_def parse_spec_no_Diverges
      split: option.splits sum.splits)

text \<open>Every schedule from \<^verbatim>\<open>Parse\<close> answers every query, and later than the instant asked about
  unless it answers the zero time.\<close>

lemma Parse_next:
  assumes "Parse spec = Inr sched"
  shows "\<exists>r. schedule_next sched t = Some r \<and> (t < r \<or> r = zero_time)"
proof (cases sched)
  case (SpecSched s)
  then have "s_Location s = Some UTC"
    using ParseInLocation_ok [of spec "Some UTC" sched] assms by (simp add: Parse_def schedule_ok_def)
  then have "loc_of s = minute_zone 0" by (simp add: loc_of_def UTC_minute_zone)
  from Next_minute_zone [OF this, of t] SpecSched show ?thesis
    by (auto simp: schedule_next_def earliest_or_zero_def search_window_def)
next
  case (DelaySched c)
  then have "delay_ok c"
    using ParseInLocation_ok [of spec "Some UTC" sched] assms by (simp add: Parse_def schedule_ok_def)
  then show ?thesis using DelaySched ConstantDelay_Next_ok(1) by (simp add: schedule_next_def)
qed

section \<open>Splitting a printed expression\<close>

definition spec_char :: "char \<Rightarrow> bool" where
  "spec_char c \<longleftrightarrow> 33 \<le> byte c \<and> byte c < 127 \<and> c \<noteq> CHR ''@''"

lemma space_len_spec_char [simp]: "spec_char c \<Longrightarrow> space_len (c # s) = 0"
  by (auto simp: spec_char_def space_len.simps(2))

lemma space_len_space [simp]: "space_len (CHR '' '' # s) = 1"
  by (simp add: space_len.simps(2) byte_def)

lemma fields_from_word: "\<forall>c\<in>set w. spec_char c \<Longrightarrow> fields_from v (w @ s) = fields_from (rev w @ v) s"
  by (induction w arbitrary: v) auto

lemma fields_from_join:
  "ws \<noteq> [] \<Longrightarrow> \<forall>w\<in>set ws. w \<noteq> [] \<and> (\<forall>c\<in>set w. spec_char c) \<Longrightarrow> fields_from [] (join_fields ws) = ws"
proof (induction ws rule: join_fields.induct)
  case (2 w)
  then show ?case using fields_from_word [of w "[]" "[]"] by simp
next
  case (3 w v ws)
  then show ?case using fields_from_word [of w "[]" "CHR '' '' # join_fields (v # ws)"] by simp
qed simp

lemma trim_left_spec_char: "spec_char (hd s) \<Longrightarrow> trim_left s = s"
  by (subst trim_left.simps) (cases s; simp)

lemma spec_char_not_space_end: "spec_char c \<Longrightarrow> space_len (s @ [c]) \<noteq> Suc (length s)"
  by (cases s rule: list.exhaust [case_names Nil Cons])
    (auto simp: space_len.simps(2) spec_char_def take_Cons' nth_append split: if_splits)

lemma trim_right_spec_char:
  assumes "s \<noteq> []" "spec_char (last s)"
  shows "trim_right s = s"
proof -
  have "space_len (drop (length s - Suc k) s) \<noteq> Suc k" if "Suc k \<le> length s" for k
  proof -
    have "drop (length s - Suc k) s = butlast (drop (length s - Suc k) s) @ [last s]"
      using that assms(1) by (metis append_butlast_last_id drop_eq_Nil2 last_drop diff_less length_greater_0_conv not_less zero_less_Suc)
    then show ?thesis
      using spec_char_not_space_end [OF assms(2), of "butlast (drop (length s - Suc k) s)"] that by simp
  qed
  from this [of 0] this [of 1] this [of 2] have "space_suffix_len s = 0"
    by (auto simp: space_suffix_len_def eval_nat_numeral)
  then show ?thesis by (simp add: trim_right.simps [of s])
qed

lemma join_fields_ends:
  "ws \<noteq> [] \<Longrightarrow> \<forall>w\<in>set ws. w \<noteq> [] \<Longrightarrow>
     join_fields ws \<noteq> [] \<and> hd (join_fields ws) = hd (hd ws) \<and> last (join_fields ws) = last (last ws)"
  by (induction ws rule: join_fields.induct) auto

text \<open>A line of fields reaches the field parser unchanged.\<close>

lemma ParseInLocation_join:
  assumes "ws \<noteq> []" "\<forall>w\<in>set ws. w \<noteq> [] \<and> (\<forall>c\<in>set w. spec_char c)"
  shows "ParseInLocation (join_fields ws) loc = parse_spec ws loc"
proof -
  have ends: "join_fields ws \<noteq> []" "spec_char (hd (join_fields ws))" "spec_char (last (join_fields ws))"
    using join_fields_ends [of ws] assms by (metis hd_in_set last_in_set)+
  have "TrimSpace (join_fields ws) = join_fields ws"
    using ends by (simp add: TrimSpace_def trim_left_spec_char trim_right_spec_char)
  moreover have "\<not> HasPrefix (join_fields ws) ''@''"
    using ends(1,2) by (cases "join_fields ws") (auto simp: HasPrefix_def spec_char_def)
  ultimately show ?thesis
    using ends(1) fields_from_join [OF assms] by (simp add: ParseInLocation_def Fields_def)
qed

section \<open>Meaning of a written expression\<close>

text \<open>A written field: at least one term, every term well formed, printable ASCII.\<close>

definition field_wf :: "bounds \<Rightarrow> term_syntax list \<Rightarrow> bool" where
  "field_wf b ts \<longleftrightarrow> ts \<noteq> [] \<and> list_all (term_ok b) ts \<and> list_all spec_char (print_field ts)"

definition field_allows :: "bounds \<Rightarrow> term_syntax list \<Rightarrow> int \<Rightarrow> bool" where
  "field_allows b ts v \<longleftrightarrow> (\<exists>t\<in>set ts. term_denotes b t (nat v))"

definition field_star :: "term_syntax list \<Rightarrow> bool" where
  "field_star ts \<longleftrightarrow> (\<exists>t\<in>set ts. term_star t)"

record expression =
  x_second :: "term_syntax list"
  x_minute :: "term_syntax list"
  x_hour :: "term_syntax list"
  x_dom :: "term_syntax list"
  x_month :: "term_syntax list"
  x_dow :: "term_syntax list"

definition expression_wf :: "expression \<Rightarrow> bool" where
  "expression_wf x \<longleftrightarrow>
     field_wf secondsBound (x_second x) \<and> field_wf minutesBound (x_minute x) \<and> field_wf hoursBound (x_hour x) \<and>
     field_wf domBound (x_dom x) \<and> field_wf monthBound (x_month x) \<and> field_wf dowBound (x_dow x)"

definition print_expression :: "expression \<Rightarrow> string" where
  "print_expression x =
     join_fields (map print_field [x_second x, x_minute x, x_hour x, x_dom x, x_month x, x_dow x])"

definition expression_allows :: "expression \<Rightarrow> location \<Rightarrow> time \<Rightarrow> bool" where
  "expression_allows x loc t \<longleftrightarrow>
     t mod Nanos = 0 \<and> field_allows monthBound (x_month x) (Month loc t) \<and>
     (if field_star (x_dom x) \<or> field_star (x_dow x)
      then field_allows domBound (x_dom x) (Day loc t) \<and> field_allows dowBound (x_dow x) (Weekday loc t)
      else field_allows domBound (x_dom x) (Day loc t) \<or> field_allows dowBound (x_dow x) (Weekday loc t)) \<and>
     field_allows hoursBound (x_hour x) (Hour loc t) \<and> field_allows minutesBound (x_minute x) (Minute loc t) \<and>
     field_allows secondsBound (x_second x) (Second loc t)"

definition mask_denotes :: "bounds \<Rightarrow> term_syntax list \<Rightarrow> u64 \<Rightarrow> bool" where
  "mask_denotes b ts m \<longleftrightarrow> (\<forall>n. bit m n \<longleftrightarrow> (\<exists>t\<in>set ts. term_denotes b t n \<or> (term_star t \<and> n = 63)))"

lemma mask_denotes_allows: "mask_denotes b ts m \<Longrightarrow> v < 63 \<Longrightarrow> bit m (nat v) \<longleftrightarrow> field_allows b ts v"
  by (auto simp: mask_denotes_def field_allows_def)

lemma mask_denotes_star:
  assumes "mask_denotes b ts m" "bounds_ok b" "list_all (term_ok b) ts"
  shows "bit m 63 \<longleftrightarrow> field_star ts"
proof -
  have "\<not> term_denotes b t 63" if "t \<in> set ts" for t
    using that assms(2,3) by (auto simp: term_denotes_def list_all_iff term_ok_def bounds_ok_def)
  then show ?thesis using assms(1) by (auto simp: mask_denotes_def field_star_def)
qed

lemma parseField_written:
  "bounds_ok b \<Longrightarrow> field_wf b ts \<Longrightarrow> \<exists>m. parseField (print_field ts) b = Inr m \<and> mask_denotes b ts m"
  using parseField_print_field [of b ts] by (simp add: field_wf_def mask_denotes_def list_all_iff)

lemma print_field_nonempty: "bounds_ok b \<Longrightarrow> field_wf b ts \<Longrightarrow> print_field ts \<noteq> []"
proof -
  assume b: "bounds_ok b" and ts: "field_wf b ts"
  have "print_range r \<noteq> []" if "range_ok b r" for r
    using that print_token_nonempty [OF b] by (cases r) auto
  then have "print_term t \<noteq> []" if "term_ok b t" for t
    using that by (cases t rule: print_term.cases) (auto simp: term_ok_def)
  then show ?thesis using ts by (cases ts rule: print_field.cases) (auto simp: field_wf_def)
qed

lemma month_length:
  assumes "1 \<le> m" "m \<le> 12"
  shows "days_before_month leap (m + 1) \<le> days_before_month leap m + 31"
proof -
  have "m = 1 \<or> m = 2 \<or> m = 3 \<or> m = 4 \<or> m = 5 \<or> m = 6 \<or> m = 7 \<or> m = 8 \<or> m = 9 \<or> m = 10 \<or> m = 11 \<or> m = 12"
    using assms by arith
  then show ?thesis by (elim disjE) (simp_all add: days_before_month_def)
qed

lemma mod_div_less: "x mod (a * b) div b < a" if "0 < a" "0 < b" for x a b :: int
proof -
  have "x mod (a * b) < a * b" using that by simp
  moreover have "b * (x mod (a * b) div b) \<le> x mod (a * b)"
    using that mult_div_mod_eq [of b "x mod (a * b)"] pos_mod_sign [of b "x mod (a * b)"] by linarith
  ultimately have "b * (x mod (a * b) div b) < b * a" by (simp add: mult.commute)
  then show ?thesis using that by simp
qed

lemma readings_small:
  "Second loc t < 63" "Minute loc t < 63" "Hour loc t < 63" "Day loc t < 63" "Month loc t < 63" "Weekday loc t < 63"
proof -
  show "Minute loc t < 63" "Hour loc t < 63"
    using mod_div_less [of 60 60 "local_secs loc t"] mod_div_less [of 24 3600 "local_secs loc t"]
    by (simp_all add: Minute_def Hour_def)
  show "Second loc t < 63" "Weekday loc t < 63" unfolding Second_def Weekday_def
    by (rule less_trans [OF pos_mod_bound]; simp)+
  show "Month loc t < 63" using month_of_day_range(2) [of "local_day loc t"] by (simp add: Month_def)
  let ?d = "local_day loc t"
  have "mday_of_day ?d \<le> 31"
    using month_of_day_bounds(2) [of ?d] month_length [OF month_of_day_range, of "is_leap (year_of_day ?d)" ?d]
    by (simp add: mday_of_day_eq)
  then show "Day loc t < 63" by (simp add: Day_def)
qed

lemma written_activates:
  assumes "mask_denotes secondsBound (x_second x) (s_Second s)" "mask_denotes minutesBound (x_minute x) (s_Minute s)"
    "mask_denotes hoursBound (x_hour x) (s_Hour s)" "mask_denotes domBound (x_dom x) (s_Dom s)"
    "mask_denotes monthBound (x_month x) (s_Month s)" "mask_denotes dowBound (x_dow x) (s_Dow s)" "expression_wf x"
  shows "activates s loc t \<longleftrightarrow> expression_allows x loc t"
proof -
  have "bit (s_Dom s) 63 \<longleftrightarrow> field_star (x_dom x)" "bit (s_Dow s) 63 \<longleftrightarrow> field_star (x_dow x)"
    using mask_denotes_star [OF assms(4)] mask_denotes_star [OF assms(6)] assms(7)
    by (simp_all add: cron_bounds_ok cron_bounds_def expression_wf_def field_wf_def)
  then show ?thesis
    unfolding activates_def day_allowed_def expression_allows_def
    by (simp add: mask_denotes_allows [OF assms(1)] mask_denotes_allows [OF assms(2)] mask_denotes_allows [OF assms(3)]
        mask_denotes_allows [OF assms(4)] mask_denotes_allows [OF assms(5)] mask_denotes_allows [OF assms(6)] readings_small)
qed

lemma parse_written:
  assumes "expression_wf x"
  shows "\<exists>s. ParseInLocation (print_expression x) loc = Inr (SpecSched s) \<and> s_Location s = loc \<and>
           (\<forall>l t. activates s l t \<longleftrightarrow> expression_allows x l t)"
proof -
  note wf = assms [unfolded expression_wf_def]
  have ok: "bounds_ok secondsBound" "bounds_ok minutesBound" "bounds_ok hoursBound" "bounds_ok domBound"
    "bounds_ok monthBound" "bounds_ok dowBound" by (simp_all add: cron_bounds_ok cron_bounds_def)
  obtain a where a: "parseField (print_field (x_second x)) secondsBound = Inr a" "mask_denotes secondsBound (x_second x) a"
    using parseField_written [OF ok(1)] wf by blast
  obtain b where b: "parseField (print_field (x_minute x)) minutesBound = Inr b" "mask_denotes minutesBound (x_minute x) b"
    using parseField_written [OF ok(2)] wf by blast
  obtain c where c: "parseField (print_field (x_hour x)) hoursBound = Inr c" "mask_denotes hoursBound (x_hour x) c"
    using parseField_written [OF ok(3)] wf by blast
  obtain d where d: "parseField (print_field (x_dom x)) domBound = Inr d" "mask_denotes domBound (x_dom x) d"
    using parseField_written [OF ok(4)] wf by blast
  obtain e where e: "parseField (print_field (x_month x)) monthBound = Inr e" "mask_denotes monthBound (x_month x) e"
    using parseField_written [OF ok(5)] wf by blast
  obtain f where f: "parseField (print_field (x_dow x)) dowBound = Inr f" "mask_denotes dowBound (x_dow x) f"
    using parseField_written [OF ok(6)] wf by blast
  define s where "s = \<lparr>s_Second = a, s_Minute = b, s_Hour = c, s_Dom = d, s_Month = e, s_Dow = f, s_Location = loc\<rparr>"
  let ?ws = "map print_field [x_second x, x_minute x, x_hour x, x_dom x, x_month x, x_dow x]"
  have "\<forall>w\<in>set ?ws. w \<noteq> [] \<and> (\<forall>c\<in>set w. spec_char c)"
    using wf ok print_field_nonempty by (auto simp: field_wf_def list_all_iff)
  then have "ParseInLocation (print_expression x) loc = parse_spec ?ws loc"
    unfolding print_expression_def by (intro ParseInLocation_join) auto
  also have "\<dots> = Inr (SpecSched s)"
    using a(1) b(1) c(1) d(1) e(1) f(1) normalizeDow_parsed [OF f(1)]
    by (simp add: parse_spec_def parseFields_def build_spec_def s_def)
  finally have "ParseInLocation (print_expression x) loc = Inr (SpecSched s)" .
  moreover have "activates s l t \<longleftrightarrow> expression_allows x l t" for l t
    using a(2) b(2) c(2) d(2) e(2) f(2) by (intro written_activates) (simp_all add: s_def assms)
  moreover have "s_Location s = loc" by (simp add: s_def)
  ultimately show ?thesis by blast
qed

section \<open>Delays\<close>

lemma TrimSpace_spec_end: "s \<noteq> [] \<Longrightarrow> space_len s = 0 \<Longrightarrow> spec_char (last s) \<Longrightarrow> TrimSpace s = s"
  by (simp add: TrimSpace_def trim_left.simps [of s] trim_right_spec_char)

lemma parse_every_seconds:
  assumes "1 \<le> n" "int n * Nanos \<le> max_int64"
  shows "ParseInLocation (''@every '' @ show_nat n @ ''s'') loc = Inr (DelaySched \<lparr>c_Delay = int n * Nanos\<rparr>)"
proof -
  define raw where "raw = show_nat n @ ''s''"
  have last: "spec_char (last raw)" "raw \<noteq> []" by (simp_all add: raw_def spec_char_def byte_def)
  have "is_digit (hd (show_nat n))" by (rule show_nat_digits [of _ n]) simp
  moreover have "space_len (c # t) = 0" if "is_digit c" for c t
    using that by (auto simp: is_digit_def space_len.simps(2))
  ultimately have "space_len raw = 0" by (cases "show_nat n") (auto simp: raw_def)
  then have raw: "TrimSpace raw = raw" using last by (intro TrimSpace_spec_end)
  have spec: "TrimSpace (''@every '' @ raw) = ''@every '' @ raw"
    using last by (intro TrimSpace_spec_end) (simp_all add: space_len.simps(2) byte_def)
  have u: "map_of unitMap ''s'' = Some 1000000000"
  proof -
    have "[char_of (0xC2 :: nat), char_of (0xB5 :: nat), CHR ''s''] \<noteq> ''s''" "[char_of (0xCE :: nat), char_of (0xBC :: nat), CHR ''s''] \<noteq> ''s''"
      by auto
    then show ?thesis by (simp add: unitMap_def)
  qed
  have d: "ParseDuration raw = Inr (int n * Nanos)"
    using ParseDuration_show_nat [OF u, of n] assms(2) by (simp add: raw_def)
  have "Every (int n * Nanos) = \<lparr>c_Delay = int n * Nanos\<rparr>"
    using assms(1) by (simp add: Every_def SecondD_def)
  then have "parseEvery (''@every '' @ raw) = Inr (DelaySched \<lparr>c_Delay = int n * Nanos\<rparr>)"
    using assms(1) by (simp add: parseEvery_def TrimPrefix_def HasPrefix_def raw d)
  then show ?thesis
    unfolding raw_def [symmetric] using spec by (simp add: ParseInLocation_def parseDescriptor_def HasPrefix_def)
qed

section \<open>Properties\<close>

text \<open>C1: a written six-field expression means what it says. Parsing it succeeds, and \<^verbatim>\<open>Next\<close> of the
  schedule returns, for every instant and every zone with a fixed offset of whole minutes, the
  earliest later whole second whose calendar reading is allowed by every field (with the OR rule
  for two restricted day fields), or the zero time if there is none within the search window.\<close>

theorem written_expression_next:
  assumes "expression_wf x"
  shows "\<exists>sched r. ParseInLocation (print_expression x) (Some (minute_zone k)) = Inr sched \<and>
           schedule_next sched t = Some r \<and>
           earliest_or_zero (search_window (minute_zone k) t) (expression_allows x (minute_zone k)) r"
proof -
  obtain s where s: "ParseInLocation (print_expression x) (Some (minute_zone k)) = Inr (SpecSched s)"
    "s_Location s = Some (minute_zone k)" "\<And>l t. activates s l t \<longleftrightarrow> expression_allows x l t"
    using parse_written [OF assms] by blast
  then have "loc_of s = minute_zone k" by (simp add: loc_of_def)
  from Next_minute_zone [OF this, of t] obtain r where "Next s t = Some r"
    "earliest_or_zero (search_window (minute_zone k) t) (activates s (minute_zone k)) r" by blast
  moreover have "activates s (minute_zone k) = expression_allows x (minute_zone k)" using s(3) by blast
  ultimately show ?thesis using s(1) by (intro exI [of _ "SpecSched s"]) (auto simp: schedule_next_def)
qed

definition weekdays_at_half_nine :: expression where
  "weekdays_at_half_nine =
     \<lparr>x_second = [(RSingle (VNum 0), None)], x_minute = [(RSingle (VNum 30), None)],
      x_hour = [(RSingle (VNum 9), None)], x_dom = [(RStar, None)], x_month = [(RStar, None)],
      x_dow = [(RSpan (VName ''mon'') (VName ''fri''), None)]\<rparr>"

theorem written_expression_next_witness:
  "\<exists>sched r. ParseInLocation ''0 30 9 * * mon-fri'' (Some UTC) = Inr sched \<and> schedule_next sched 0 = Some r \<and>
     earliest_or_zero (search_window UTC 0) (expression_allows weekdays_at_half_nine UTC) r"
proof -
  have "print_expression weekdays_at_half_nine = ''0 30 9 * * mon-fri''"
    by (simp add: print_expression_def weekdays_at_half_nine_def show_nat.simps digit_char_def char_of_def bit_0)
  moreover have "expression_wf weekdays_at_half_nine"
    by (simp add: expression_wf_def field_wf_def weekdays_at_half_nine_def show_nat.simps digit_char_def char_of_def
        bit_0 term_ok_def bounds_defs dowNames_def step_of_def spec_char_def byte_def ascii_lower_def)
  ultimately show ?thesis
    using written_expression_next [of weekdays_at_half_nine 0 0] by (simp add: UTC_minute_zone)
qed

text \<open>C34: parsing always returns, with an error or with a schedule each of whose masks selects some value of its
  field and none above the bound of the field (a step close to \<open>2 ^ 64\<close> can still select values below it), or whose
  delay is a positive number of whole seconds; such a schedule answers every query, with a later instant or the zero time.\<close>

theorem Parse_total:
  "case Parse spec of
     Inl e \<Rightarrow> e \<noteq> Diverges
   | Inr sched \<Rightarrow> schedule_ok (Some UTC) sched \<and>
       (\<forall>t. \<exists>r. schedule_next sched t = Some r \<and> (t < r \<or> r = zero_time))"
proof (cases "Parse spec")
  case (Inl e)
  then show ?thesis using ParseInLocation_no_Diverges [of spec "Some UTC"] by (auto simp: Parse_def)
next
  case (Inr sched)
  then show ?thesis using ParseInLocation_ok [of spec "Some UTC" sched] Parse_next [OF Inr] by (simp add: Parse_def)
qed

text \<open>\<^verbatim>\<open>@every\<close> with a whole number of seconds gives exactly that delay, and its \<^verbatim>\<open>Next\<close> is the
  whole second that lies one delay after the second of the instant asked about.\<close>

theorem every_seconds_next:
  assumes "1 \<le> n" "int n * Nanos \<le> max_int64"
  shows "\<exists>sched r. Parse (''@every '' @ show_nat n @ ''s'') = Inr sched \<and> schedule_next sched t = Some r \<and>
           t < r \<and> r mod Nanos = 0 \<and> r = t - t mod Nanos + int n * Nanos"
proof -
  let ?c = "\<lparr>c_Delay = int n * Nanos\<rparr>"
  have "delay_ok ?c" using assms(1) by (simp add: delay_ok_def SecondD_def)
  from ConstantDelay_Next_ok [OF this, of t] parse_every_seconds [OF assms, of "Some UTC"] show ?thesis
    by (intro exI [of _ "DelaySched ?c"] exI [of _ "ConstantDelay_Next ?c t"])
      (simp add: Parse_def schedule_next_def ConstantDelay_Next_def Nanosecond_def algebra_simps)
qed

theorem every_seconds_next_witness:
  "\<exists>sched. Parse ''@every 90s'' = Inr sched \<and> schedule_next sched 5000000123 = Some 95000000000"
proof -
  have "''@every '' @ show_nat 90 @ ''s'' = ''@every 90s''"
    by (simp add: show_nat.simps digit_char_def char_of_def bit_0)
  then show ?thesis using every_seconds_next [of 90 5000000123] by (auto simp: max_int64_def)
qed

end
