(* ===== verification/Cron_Limits.thy ===== *)
theory Cron_Limits
  imports Cron_Parser
begin

text \<open>
  Where the cron package departs from its own documentation, on concrete inputs: a step that wraps
  around sets values outside the written range, weekday 7 is rejected although the code folds it
  onto Sunday, the search horizon misses a leap day across a year that is not a leap year, a
  zone that skips midnight makes \<^verbatim>\<open>Next\<close> miss a day, and one with seconds in its offset makes it miss a minute.
\<close>

section \<open>Evaluating the walk\<close>

lemma field_loop_unfold:
  "m t \<Longrightarrow> field_loop m r s w t a = Some (Fall t a)"
  "\<not> m t \<Longrightarrow> w (s (if a then t else r t)) \<Longrightarrow> field_loop m r s w t a = Some (Goto (s (if a then t else r t)) True)"
  "\<not> m t \<Longrightarrow> \<not> w (s (if a then t else r t)) \<Longrightarrow>
     field_loop m r s w t a = field_loop m r s w (s (if a then t else r t)) True"
  by (subst field_loop.simps; simp add: Let_def)+

lemma next_wrap_unfold:
  "Year loc t \<le> yl \<Longrightarrow> walk s loc t a = Some (Goto t' a') \<Longrightarrow> next_wrap s loc yl t a = next_wrap s loc yl t' a'"
  "Year loc t \<le> yl \<Longrightarrow> walk s loc t a = Some (Fall t' a') \<Longrightarrow> next_wrap s loc yl t a = Some t'"
  by (subst next_wrap.simps; simp)+

lemma loop_match:
  "bit (s_Month s) (nat (Month loc t)) \<Longrightarrow> month_loop s loc t a = Some (Fall t a)"
  "day_allowed s loc t \<Longrightarrow> day_loop s loc t a = Some (Fall t a)"
  "bit (s_Hour s) (nat (Hour loc t)) \<Longrightarrow> hour_loop s loc t a = Some (Fall t a)"
  "bit (s_Minute s) (nat (Minute loc t)) \<Longrightarrow> minute_loop s loc t a = Some (Fall t a)"
  "bit (s_Second s) (nat (Second loc t)) \<Longrightarrow> second_loop s loc t a = Some (Fall t a)"
  by (simp_all add: month_loop_def day_loop_def hour_loop_def minute_loop_def second_loop_def
      field_loop_unfold(1) bit_of_nonzero dayMatches_iff)

lemma hour_loop_unfold:
  "\<not> bit (s_Hour s) (nat (Hour loc t)) \<Longrightarrow> Hour loc (t + HourD) = 0 \<Longrightarrow>
     hour_loop s loc t True = Some (Goto (t + HourD) True)"
  "\<not> bit (s_Hour s) (nat (Hour loc t)) \<Longrightarrow> Hour loc (t + HourD) \<noteq> 0 \<Longrightarrow>
     hour_loop s loc t True = hour_loop s loc (t + HourD) True"
  by (simp_all add: hour_loop_def field_loop_unfold(2,3) bit_of_nonzero)

lemma day_loop_unfold:
  "\<not> day_allowed s loc t \<Longrightarrow> Day loc (AddDate loc (Date (Year loc t) (Month loc t) (Day loc t) 0 0 0 0 loc) 0 0 1) \<noteq> 1 \<Longrightarrow>
     day_loop s loc t False = day_loop s loc (AddDate loc (Date (Year loc t) (Month loc t) (Day loc t) 0 0 0 0 loc) 0 0 1) True"
  "\<not> day_allowed s loc t \<Longrightarrow> Day loc (AddDate loc t 0 0 1) \<noteq> 1 \<Longrightarrow>
     day_loop s loc t True = day_loop s loc (AddDate loc t 0 0 1) True"
  by (simp_all add: day_loop_def field_loop_unfold(3) dayMatches_iff)


section \<open>A zone that skips midnight\<close>

text \<open>Offset -3 h, then -2 h from 2018-11-04 03:00 UTC: local midnight of that day does not exist.\<close>

definition spring_forward :: location where
  "spring_forward u = (if u < 63676897200 then - 10800 else - 7200)"

text \<open>\<^verbatim>\<open>0 0 1 4,5 * *\<close> in that zone.\<close>

definition sf_schedule :: SpecSchedule where
  "sf_schedule = \<lparr>s_Second = 1, s_Minute = 1, s_Hour = push_bit 1 1, s_Dom = push_bit 4 1 OR push_bit 5 1,
     s_Month = 8190 OR starBit, s_Dow = 127 OR starBit, s_Location = Some spring_forward\<rparr>"

lemma dst_days:
  "Date (Year spring_forward 63676854001000000000) (Month spring_forward 63676854001000000000) (Day spring_forward 63676854001000000000) 0 0 0 0 spring_forward = 63676810800000000000"
  "AddDate spring_forward 63676810800000000000 0 0 1 = 63676893600000000000"
  "AddDate spring_forward 63676893600000000000 0 0 1 = 63676976400000000000"
  "Day spring_forward 63676893600000000000 = 3" "Day spring_forward 63676976400000000000 = 4"
  by code_simp+

lemma dst_hours:
  "Hour spring_forward 63676976400000000000 = 23" "Hour spring_forward 63676980000000000000 = 0" "Hour spring_forward 63676983600000000000 = 1"
  "63676976400000000000 + HourD = 63676980000000000000" "63676980000000000000 + HourD = 63676983600000000000"
  "\<not> bit (s_Hour sf_schedule) 23" "\<not> bit (s_Hour sf_schedule) 0" "bit (s_Hour sf_schedule) (Suc 0)"
  by code_simp+

lemma dst_matches:
  "\<not> day_allowed sf_schedule spring_forward 63676854001000000000" "\<not> day_allowed sf_schedule spring_forward 63676893600000000000"
  "day_allowed sf_schedule spring_forward 63676976400000000000" "day_allowed sf_schedule spring_forward 63676980000000000000"
  "bit (s_Month sf_schedule) (nat (Month spring_forward 63676854001000000000))" "bit (s_Month sf_schedule) (nat (Month spring_forward 63676980000000000000))"
  "bit (s_Minute sf_schedule) (nat (Minute spring_forward 63676983600000000000))" "bit (s_Second sf_schedule) (nat (Second spring_forward 63676983600000000000))"
  by code_simp+

lemma dst_day_loop: "day_loop sf_schedule spring_forward 63676854001000000000 False = Some (Fall 63676976400000000000 True)"
  by (simp add: day_loop_unfold loop_match dst_days dst_matches)

lemma dst_hour_loop:
  "hour_loop sf_schedule spring_forward 63676976400000000000 True = Some (Goto 63676980000000000000 True)"
  "hour_loop sf_schedule spring_forward 63676980000000000000 True = Some (Fall 63676983600000000000 True)"
  by (simp_all add: hour_loop_unfold loop_match dst_hours)

lemma dst_walk:
  "walk sf_schedule spring_forward 63676854001000000000 False = Some (Goto 63676980000000000000 True)"
  "walk sf_schedule spring_forward 63676980000000000000 True = Some (Fall 63676983600000000000 True)"
  by (simp_all add: walk_def then_walk_def loop_match dst_matches dst_day_loop dst_hour_loop)

text \<open>Across a local midnight that does not exist, \<^verbatim>\<open>Next\<close> skips a whole day: asked on 3 November
  for one o'clock on the 4th or 5th it answers the 5th, although one o'clock on the 4th is an
  activation after the instant asked about.\<close>

theorem Next_skips_day:
  "Next sf_schedule (Date 2018 11 3 12 0 0 0 spring_forward) = Some (Date 2018 11 5 1 0 0 0 spring_forward) \<and>
   activates sf_schedule spring_forward (Date 2018 11 4 1 0 0 0 spring_forward) \<and>
   Date 2018 11 3 12 0 0 0 spring_forward < Date 2018 11 4 1 0 0 0 spring_forward \<and>
   Date 2018 11 4 1 0 0 0 spring_forward < Date 2018 11 5 1 0 0 0 spring_forward"
proof -
  have d: "Date 2018 11 3 12 0 0 0 spring_forward = 63676854000000000000" "Date 2018 11 4 1 0 0 0 spring_forward = 63676897200000000000"
    "Date 2018 11 5 1 0 0 0 spring_forward = 63676983600000000000" by code_simp+
  have y: "Year spring_forward 63676854001000000000 = 2018" "Year spring_forward 63676980000000000000 = 2018"
    "Truncate 63676854000000000000 SecondD + SecondD = 63676854001000000000" by code_simp+
  have "activates sf_schedule spring_forward 63676897200000000000" by code_simp
  moreover have "loc_of sf_schedule = spring_forward" by (simp add: loc_of_def sf_schedule_def)
  ultimately show ?thesis
    unfolding d
    by (simp add: y Next_def maxSearchYears_def next_wrap_unfold(1) [OF _ dst_walk(1)] next_wrap_unfold(2) [OF _ dst_walk(2)])
qed

section \<open>A zone with seconds in its offset\<close>

text \<open>\<^verbatim>\<open>0 1,2 * * * *\<close> in a zone 59 seconds ahead of UTC. \<^verbatim>\<open>Truncate\<close> rounds absolute time, not the reading of the clock.\<close>

definition seconds_zone :: location where
  "seconds_zone u = 59"

definition sz_schedule :: SpecSchedule where
  "sz_schedule = \<lparr>s_Second = 1, s_Minute = push_bit 1 1 OR push_bit 2 1, s_Hour = 16777215 OR starBit, s_Dom = 4294967294 OR starBit,
     s_Month = 8190 OR starBit, s_Dow = 127 OR starBit, s_Location = Some seconds_zone\<rparr>"

lemma sz_readings:
  "Truncate 63839699947000000000 MinuteD + MinuteD = 63839700000000000000" "63839700000000000000 + MinuteD = 63839700060000000000"
  "63839700060000000000 + SecondD = 63839700061000000000"
  "Minute seconds_zone 63839699947000000000 = 0" "Minute seconds_zone 63839700000000000000 = 0" "Minute seconds_zone 63839700060000000000 = 1"
  "Minute seconds_zone 63839700061000000000 = 2" "Second seconds_zone 63839700060000000000 = 59" "Second seconds_zone 63839700061000000000 = 0"
  "\<not> bit (s_Minute sz_schedule) 0" "bit (s_Minute sz_schedule) (Suc 0)" "bit (s_Minute sz_schedule) 2"
  "\<not> bit (s_Second sz_schedule) 59" "bit (s_Second sz_schedule) 0"
  by code_simp+

lemma sz_matches:
  "bit (s_Month sz_schedule) (nat (Month seconds_zone 63839699947000000000))" "bit (s_Month sz_schedule) (nat (Month seconds_zone 63839700000000000000))"
  "bit (s_Month sz_schedule) (nat (Month seconds_zone 63839700061000000000))"
  "day_allowed sz_schedule seconds_zone 63839699947000000000" "day_allowed sz_schedule seconds_zone 63839700000000000000"
  "day_allowed sz_schedule seconds_zone 63839700061000000000"
  "bit (s_Hour sz_schedule) (nat (Hour seconds_zone 63839699947000000000))" "bit (s_Hour sz_schedule) (nat (Hour seconds_zone 63839700000000000000))"
  "bit (s_Hour sz_schedule) (nat (Hour seconds_zone 63839700061000000000))"
  by code_simp+

lemma sz_loops:
  "minute_loop sz_schedule seconds_zone 63839699947000000000 False = Some (Goto 63839700000000000000 True)"
  "minute_loop sz_schedule seconds_zone 63839700000000000000 True = Some (Fall 63839700060000000000 True)"
  "minute_loop sz_schedule seconds_zone 63839700061000000000 True = Some (Fall 63839700061000000000 True)"
  "second_loop sz_schedule seconds_zone 63839700060000000000 True = Some (Goto 63839700061000000000 True)"
  "second_loop sz_schedule seconds_zone 63839700061000000000 True = Some (Fall 63839700061000000000 True)"
  by (simp_all add: minute_loop_def second_loop_def field_loop_unfold bit_of_nonzero sz_readings)

lemma sz_walk:
  "walk sz_schedule seconds_zone 63839699947000000000 False = Some (Goto 63839700000000000000 True)"
  "walk sz_schedule seconds_zone 63839700000000000000 True = Some (Goto 63839700061000000000 True)"
  "walk sz_schedule seconds_zone 63839700061000000000 True = Some (Fall 63839700061000000000 True)"
  by (simp_all add: walk_def then_walk_def loop_match(1-3) sz_matches sz_loops)

text \<open>With seconds in the offset \<^verbatim>\<open>Next\<close> misses activations: asked at 10:00:05 for the starts of minutes 1 and 2 it
  answers 10:02:00, although 10:01:00 is an activation.\<close>

theorem Next_skips_minute:
  "Next sz_schedule (Date 2024 1 1 10 0 5 0 seconds_zone) = Some (Date 2024 1 1 10 2 0 0 seconds_zone) \<and>
   activates sz_schedule seconds_zone (Date 2024 1 1 10 1 0 0 seconds_zone)"
proof -
  have d: "Date 2024 1 1 10 0 5 0 seconds_zone = 63839699946000000000" "Date 2024 1 1 10 1 0 0 seconds_zone = 63839700001000000000"
    "Date 2024 1 1 10 2 0 0 seconds_zone = 63839700061000000000" by code_simp+
  have y: "Year seconds_zone 63839699947000000000 = 2024" "Year seconds_zone 63839700000000000000 = 2024" "Year seconds_zone 63839700061000000000 = 2024"
    "Truncate 63839699946000000000 SecondD + SecondD = 63839699947000000000" by code_simp+
  have "activates sz_schedule seconds_zone 63839700001000000000" by code_simp
  moreover have "loc_of sz_schedule = seconds_zone" by (simp add: loc_of_def sz_schedule_def)
  ultimately show ?thesis
    unfolding d
    by (simp add: y Next_def maxSearchYears_def next_wrap_unfold(1) [OF _ sz_walk(1)] next_wrap_unfold(1) [OF _ sz_walk(2)] next_wrap_unfold(2) [OF _ sz_walk(3)])
qed

section \<open>Fields\<close>

text \<open>A step close to \<open>2 ^ 64\<close> wraps around and walks down, so the field selects values below the
  range it was written with, even day 0, which no bound allows.\<close>

theorem parseField_step_wraps:
  "parseField ''5-10/18446744073709551615'' domBound = Inr 63"
  by (simp add: parseField_def parseTerm_def parse_step_def parse_range_def domBound_def parseValue_def ParseUint_def
      is_digit_def byte_def digit_value_def mask_loop.simps word_le_nat_alt word_less_nat_alt)

text \<open>Weekday 7 is rejected, so the code that folds it onto Sunday is never reached.\<close>

theorem dow_seven_rejected:
  "Parse ''0 0 * * 7'' = Inl (OutOfRange 0 6 ''7'')"
proof -
  have t: "TrimSpace ''0 0 * * 7'' = ''0 0 * * 7''" "Fields ''0 0 * * 7'' = [''0'', ''0'', ''*'', ''*'', ''7'']"
    by code_simp+
  show ?thesis
    by (simp add: Parse_def ParseInLocation_def t HasPrefix_def parse_spec_def parseFields_def build_spec_def bounds_defs
        parseField_def parseTerm_def parse_step_def parse_range_def parseValue_def ParseUint_def
        is_digit_def byte_def digit_value_def mask_loop.simps word_le_nat_alt word_less_nat_alt dowNames_def monthNames_def ascii_lower_def)
qed

section \<open>The search horizon\<close>

text \<open>\<^verbatim>\<open>0 0 0 29 2 *\<close>\<close>

definition leap_day :: SpecSchedule where
  "leap_day = \<lparr>s_Second = 1, s_Minute = 1, s_Hour = 1, s_Dom = push_bit 29 1, s_Month = push_bit 2 1,
     s_Dow = 127 OR starBit, s_Location = None\<rparr>"

lemma leap_day_activates:
  assumes "activates leap_day UTC u"
  shows "Month UTC u = 2" "Day UTC u = 29"
proof -
  have "bit (push_bit 2 1 :: u64) (nat (Month UTC u))" "bit (push_bit 29 1 :: u64) (nat (Day UTC u))"
    using assms by (auto simp: activates_def day_allowed_def leap_day_def starBit_def bit_simps split: if_splits)
  then have "nat (Month UTC u) = 2" "nat (Day UTC u) = 29"
    by (simp_all only: bit_push_bit_iff bit_1_iff) auto
  then show "Month UTC u = 2" "Day UTC u = 29" by auto
qed

lemma feb_29_leap:
  assumes "Month UTC u = 2" "Day UTC u = 29"
  shows "is_leap (Year UTC u)"
  using month_of_day_bounds(2) [of "local_day UTC u"] assms
  by (auto simp: Month_def Day_def Year_def mday_of_day_eq days_before_month_def split: if_splits)

lemma local_day_UTC_mono: "t \<le> u \<Longrightarrow> local_day UTC t \<le> local_day UTC u"
  by (simp add: local_day_def local_secs_def UTC_def zdiv_mono1)

text \<open>The five-year horizon is too short for a leap day across the year 2100: after 1 March 2096
  \<^verbatim>\<open>Next\<close> answers the zero time, \<^verbatim>\<open>never again\<close>, although 29 February 2104 is an activation.\<close>

theorem Next_misses_leap_day:
  "Next leap_day (Date 2096 3 1 0 0 0 0 UTC) = Some zero_time \<and> activates leap_day UTC (Date 2104 2 29 0 0 0 0 UTC)"
proof -
  let ?t = "Date 2096 3 1 0 0 0 0 UTC"
  have t: "Year UTC ?t = 2096" "Year UTC (Truncate ?t SecondD + SecondD) = 2096" "local_day UTC ?t = month_start (12 * 2096 + 2)"
    by code_simp+
  have none: "\<not> activates leap_day UTC u" if w: "search_window UTC ?t u" for u
  proof
    assume "activates leap_day UTC u"
    then have u: "Month UTC u = 2" "Day UTC u = 29" by (rule leap_day_activates)+
    have "?t \<le> u" "Year UTC u \<le> 2101" using w t by (simp_all add: search_window_def maxSearchYears_def)
    then have "2096 \<le> Year UTC u" using year_unit.idx_mono [of ?t u 0] t(1) by (simp add: UTC_minute_zone Year_fixed)
    then have "Year UTC u \<in> {2096, 2097, 2098, 2099, 2100, 2101}" using \<open>Year UTC u \<le> 2101\<close> by auto
    then have "Year UTC u = 2096" using feb_29_leap [OF u] by (auto simp: is_leap_def)
    then have "month_index (local_day UTC u) = 12 * 2096 + 1"
      using u(1) by (simp add: month_index_def Year_def Month_def)
    then have "local_day UTC u < local_day UTC ?t" using month_index_bounds(2) [of "local_day UTC u"] t(3) by simp
    then show False using local_day_UTC_mono [OF \<open>?t \<le> u\<close>] by simp
  qed
  have "loc_of leap_day = minute_zone 0" by (simp add: loc_of_def leap_day_def UTC_minute_zone)
  from Next_minute_zone [OF this, of ?t] none have "Next leap_day ?t = Some zero_time"
    by (auto simp: earliest_or_zero_def UTC_minute_zone)
  moreover have "activates leap_day UTC (Date 2104 2 29 0 0 0 0 UTC)" by code_simp
  ultimately show ?thesis by blast
qed

end
