(* ===== verification/Job.thy ===== *)
theory Job
  imports Prelude GoFloat
begin

text \<open>
  The domain types of \<^verbatim>\<open>src/internal/job\<close>: jobs, retry policies, runs and run states. A
  \<^verbatim>\<open>RunState\<close> is a string in the code (the API and the database hand in any string), so it is one
  here. A \<^verbatim>\<open>*time.Time\<close> is an optional instant. Values are copied on assignment in the model, so
  the deep copy \<^verbatim>\<open>Clone\<close> keeps the fields.
\<close>

section \<open>Run states\<close>

type_synonym RunState = string

definition StatePending :: RunState where "StatePending = ''pending''"
definition StateRunning :: RunState where "StateRunning = ''running''"
definition StateSucceeded :: RunState where "StateSucceeded = ''succeeded''"
definition StateFailed :: RunState where "StateFailed = ''failed''"
definition StateDead :: RunState where "StateDead = ''dead''"
definition StateSkipped :: RunState where "StateSkipped = ''skipped''"

lemmas run_state_defs =
  StatePending_def StateRunning_def StateSucceeded_def StateFailed_def StateDead_def StateSkipped_def

definition terminalStates :: "(RunState, bool) gomap" where
  "terminalStates = [(StateSucceeded, True), (StateDead, True), (StateSkipped, True)]"

definition Valid :: "RunState \<Rightarrow> bool" where
  "Valid s \<longleftrightarrow> s \<in> set [StatePending, StateRunning, StateSucceeded, StateFailed, StateDead, StateSkipped]"

definition Terminal :: "RunState \<Rightarrow> bool" where
  "Terminal s = gomap_get terminalStates s False"

section \<open>Jobs and runs\<close>

record RetryPolicy =
  p_Base :: duration
  p_Max :: duration
  p_Factor :: f64
  p_Jitter :: f64

record Job =
  j_ID :: string
  j_Name :: string
  j_Spec :: string
  j_Command :: "string list"
  j_MaxRetries :: int
  j_Backoff :: RetryPolicy
  j_DependsOn :: "string list"
  j_Timeout :: duration
  j_Enabled :: bool
  j_CreatedAt :: time
  j_UpdatedAt :: time

definition JobClone :: "Job \<Rightarrow> Job" where
  "JobClone j = j\<lparr>j_Command := [] @ j_Command j, j_DependsOn := [] @ j_DependsOn j\<rparr>"

record Run =
  r_ID :: string
  r_JobID :: string
  r_BatchID :: string
  r_State :: RunState
  r_Attempt :: int
  r_ScheduledFor :: time
  r_StartedAt :: "time option"
  r_FinishedAt :: "time option"
  r_LeaseExpiry :: time
  r_Worker :: string
  r_Error :: string
  r_CreatedAt :: time
  r_UpdatedAt :: time

definition RunClone :: "Run \<Rightarrow> Run" where
  "RunClone r = r"

text \<open>The zero values \<^verbatim>\<open>job.Job{}\<close> and \<^verbatim>\<open>job.Run{}\<close>; composite literals update them.\<close>

definition zero_job :: Job where
  "zero_job = \<lparr>j_ID = [], j_Name = [], j_Spec = [], j_Command = [], j_MaxRetries = 0,
     j_Backoff = \<lparr>p_Base = 0, p_Max = 0, p_Factor = Fin 0, p_Jitter = Fin 0\<rparr>, j_DependsOn = [],
     j_Timeout = 0, j_Enabled = False, j_CreatedAt = zero_time, j_UpdatedAt = zero_time\<rparr>"

definition zero_run :: Run where
  "zero_run = \<lparr>r_ID = [], r_JobID = [], r_BatchID = [], r_State = [], r_Attempt = 0,
     r_ScheduledFor = zero_time, r_StartedAt = None, r_FinishedAt = None, r_LeaseExpiry = zero_time,
     r_Worker = [], r_Error = [], r_CreatedAt = zero_time, r_UpdatedAt = zero_time\<rparr>"

section \<open>Lemmas\<close>

lemma JobClone_id [simp]: "JobClone j = j"
  by (simp add: JobClone_def)

lemma RunClone_id [simp]: "RunClone r = r"
  by (simp add: RunClone_def)

lemma run_states_distinct [simp]:
  "distinct [StatePending, StateRunning, StateSucceeded, StateFailed, StateDead, StateSkipped, []]"
  by (simp add: run_state_defs)

lemma run_states_neq [simp]:
  "StatePending \<noteq> StateRunning" "StateRunning \<noteq> StatePending"
  "StatePending \<noteq> StateSucceeded" "StateSucceeded \<noteq> StatePending"
  "StatePending \<noteq> StateFailed" "StateFailed \<noteq> StatePending"
  "StatePending \<noteq> StateDead" "StateDead \<noteq> StatePending"
  "StateRunning \<noteq> StateSucceeded" "StateSucceeded \<noteq> StateRunning"
  "StateRunning \<noteq> StateFailed" "StateFailed \<noteq> StateRunning"
  "StateRunning \<noteq> StateDead" "StateDead \<noteq> StateRunning"
  "StateSucceeded \<noteq> StateFailed" "StateFailed \<noteq> StateSucceeded"
  "StateSucceeded \<noteq> StateDead" "StateDead \<noteq> StateSucceeded"
  "StateFailed \<noteq> StateDead" "StateDead \<noteq> StateFailed"
  "StatePending \<noteq> []" "StateRunning \<noteq> []" "StateSucceeded \<noteq> []"
  by (simp_all add: run_state_defs)

lemma Terminal_iff: "Terminal s \<longleftrightarrow> s \<in> {StateSucceeded, StateDead, StateSkipped}"
  by (simp add: Terminal_def terminalStates_def gomap_get_def)

lemma Terminal_Valid: "Terminal s \<Longrightarrow> Valid s"
  by (auto simp: Terminal_iff Valid_def)

lemma zero_run_sel [simp]:
  "r_ID zero_run = []" "r_JobID zero_run = []" "r_BatchID zero_run = []" "r_State zero_run = []"
  "r_Attempt zero_run = 0" "r_ScheduledFor zero_run = 0" "r_StartedAt zero_run = None"
  "r_FinishedAt zero_run = None" "r_LeaseExpiry zero_run = 0" "r_Worker zero_run = []"
  "r_Error zero_run = []" "r_CreatedAt zero_run = 0" "r_UpdatedAt zero_run = 0"
  by (simp_all add: zero_run_def zero_time_def)

end
