(* ===== verification/Dag.thy ===== *)
theory Dag
  imports Job
begin

text \<open>
  The dependency graph of \<^verbatim>\<open>src/internal/job/dag.go\<close>. The three maps of the code are association
  lists whose order stands for one iteration order of Go's maps; the results are proved to depend
  on the sets of nodes and edges only. Kahn's algorithm is the loop of \<^verbatim>\<open>TopoSort\<close> with its
  in-degree map and sorted queue.
\<close>

section \<open>Definitions\<close>

datatype dag_error = ErrCycle | UnknownDependency string string

record Graph =
  g_nodes :: "(string, bool) gomap"
  g_parents :: "(string, (string, bool) gomap) gomap"
  g_children :: "(string, (string, bool) gomap) gomap"

definition NewGraph :: Graph where
  "NewGraph = \<lparr>g_nodes = [], g_parents = [], g_children = []\<rparr>"

text \<open>\<^verbatim>\<open>if m[id] == nil { m[id] = map[string]bool{} }\<close>\<close>

definition ensure_key :: "string \<Rightarrow> (string, (string, bool) gomap) gomap \<Rightarrow> (string, (string, bool) gomap) gomap" where
  "ensure_key nid m = (if map_of m nid = None then AList.update nid [] m else m)"

definition AddNode :: "string \<Rightarrow> Graph \<Rightarrow> Graph" where
  "AddNode nid g =
     g\<lparr>g_nodes := AList.update nid True (g_nodes g),
       g_parents := ensure_key nid (g_parents g),
       g_children := ensure_key nid (g_children g)\<rparr>"

text \<open>\<^verbatim>\<open>m[a][b] = true\<close>\<close>

definition set_inner :: "string \<Rightarrow> string \<Rightarrow> (string, (string, bool) gomap) gomap \<Rightarrow> (string, (string, bool) gomap) gomap" where
  "set_inner a b m = AList.update a (AList.update b True (gomap_get m a [])) m"

definition AddEdge :: "string \<Rightarrow> string \<Rightarrow> Graph \<Rightarrow> Graph" where
  "AddEdge from to g =
     (let g = AddNode to (AddNode from g)
      in g\<lparr>g_children := set_inner from to (g_children g), g_parents := set_inner to from (g_parents g)\<rparr>)"

definition keys_of :: "(string, bool) gomap \<Rightarrow> string list" where
  "keys_of m = map fst m"

definition Dependencies :: "Graph \<Rightarrow> string \<Rightarrow> string list" where
  "Dependencies g nid = keys_of (gomap_get (g_parents g) nid [])"

definition Dependents :: "Graph \<Rightarrow> string \<Rightarrow> string list" where
  "Dependents g nid = keys_of (gomap_get (g_children g) nid [])"

text \<open>The inner loop of \<^verbatim>\<open>TopoSort\<close>, over the children of the node just emitted.\<close>

fun relax :: "string list \<Rightarrow> (string, int) gomap \<Rightarrow> string list \<Rightarrow> (string, int) gomap \<times> string list" where
  "relax [] indeg queue = (indeg, queue)"
| "relax (child # cs) indeg queue =
     (let d = gomap_get indeg child 0 - 1;
          indeg = AList.update child d indeg
      in relax cs indeg (if d = 0 then queue @ [child] else queue))"

definition positive_count :: "(string, int) gomap \<Rightarrow> nat" where
  "positive_count m = length (filter (\<lambda>(k, d). 0 < d) m)"

lemma positive_count_update:
  "positive_count (AList.update k (gomap_get m k 0 - 1) m) + (if gomap_get m k 0 = 1 then 1 else 0) \<le> positive_count m"
  by (induction m) (auto simp: positive_count_def gomap_get_def split: if_splits)

lemma relax_measure:
  "relax cs indeg queue = (indeg', queue') \<Longrightarrow>
     length queue' + positive_count indeg' \<le> length queue + positive_count indeg"
proof (induction cs indeg queue rule: relax.induct)
  case (2 child cs indeg queue)
  then show ?case
    using positive_count_update [of child indeg] by (fastforce simp: Let_def split: if_splits)
qed simp

function (sequential) topo_loop ::
    "(string, (string, bool) gomap) gomap \<Rightarrow> (string, int) gomap \<Rightarrow> string list \<Rightarrow> string list \<Rightarrow> string list" where
  "topo_loop children indeg queue order =
     (case sort_slice string_less queue of
        [] \<Rightarrow> order
      | n # queue \<Rightarrow>
          let (indeg, queue) = relax (keys_of (gomap_get children n [])) indeg queue
          in topo_loop children indeg queue (order @ [n]))"
  by pat_completeness auto
termination
proof (relation "measure (\<lambda>(_, indeg, queue, _). length queue + positive_count indeg)", simp, clarsimp)
  fix children indeg queue n q indeg' queue'
  assume "sort_slice string_less queue = n # q" "(indeg', queue') = relax (keys_of (gomap_get children n [])) indeg q"
  then show "length queue' + positive_count indeg' < length queue + positive_count indeg"
    using relax_measure [of _ indeg q indeg' queue'] by (metis length_Cons length_sort_slice add_Suc less_Suc_eq_le)
qed

declare topo_loop.simps [simp del]

definition init_indeg :: "Graph \<Rightarrow> (string, int) gomap" where
  "init_indeg g = map (\<lambda>nid. (nid, int (length (gomap_get (g_parents g) nid [])))) (map fst (g_nodes g))"

definition TopoSort :: "Graph \<Rightarrow> dag_error + string list" where
  "TopoSort g =
     (let indeg = init_indeg g;
          queue = map fst (filter (\<lambda>(nid, d). d = 0) indeg);
          order = topo_loop (g_children g) indeg queue []
      in if length order \<noteq> length (g_nodes g) then Inl ErrCycle else Inr order)"

fun add_deps :: "string list \<Rightarrow> Job \<Rightarrow> string list \<Rightarrow> Graph \<Rightarrow> dag_error + Graph" where
  "add_deps known j [] g = Inr g"
| "add_deps known j (dep # deps) g =
     (if dep \<notin> set known then Inl (UnknownDependency (j_ID j) dep)
      else add_deps known j deps (AddEdge dep (j_ID j) g))"

fun add_jobs :: "string list \<Rightarrow> Job list \<Rightarrow> Graph \<Rightarrow> dag_error + Graph" where
  "add_jobs known [] g = Inr g"
| "add_jobs known (j # js) g = bind_result (add_deps known j (j_DependsOn j) g) (add_jobs known js)"

definition BuildGraph :: "Job list \<Rightarrow> dag_error + Graph" where
  "BuildGraph jobs =
     (let g = fold (\<lambda>j. AddNode (j_ID j)) jobs NewGraph;
          known = map j_ID jobs
      in bind_result (add_jobs known jobs g) (\<lambda>g.
         bind_result (TopoSort g) (\<lambda>_. Inr g)))"

section \<open>The graph as sets of nodes and edges\<close>

definition graph_nodes :: "Graph \<Rightarrow> string set" where
  "graph_nodes g = set (map fst (g_nodes g))"

definition graph_edges :: "Graph \<Rightarrow> (string \<times> string) set" where
  "graph_edges g = {(a, b). b \<in> set (Dependents g a)}"

definition graph_ok :: "Graph \<Rightarrow> bool" where
  "graph_ok g \<longleftrightarrow>
     gomap_ok (g_nodes g) \<and>
     (\<forall>v. distinct (Dependencies g v)) \<and> (\<forall>v. distinct (Dependents g v)) \<and>
     (\<forall>a b. b \<in> set (Dependents g a) \<longleftrightarrow> a \<in> set (Dependencies g b)) \<and>
     graph_edges g \<subseteq> graph_nodes g \<times> graph_nodes g"

lemma gomap_get_ensure_key [simp]: "gomap_get (ensure_key n m) v [] = gomap_get m v []"
  by (simp add: ensure_key_def gomap_get_def)

lemma keys_of_update [simp]: "set (keys_of (AList.update k v m)) = insert k (set (keys_of m))"
  by (simp add: keys_of_def dom_update)

lemma distinct_keys_of_update [simp]: "distinct (keys_of m) \<Longrightarrow> distinct (keys_of (AList.update k v m))"
  by (simp add: keys_of_def)

lemma Dependents_AddNode [simp]: "Dependents (AddNode n g) v = Dependents g v"
  by (simp add: Dependents_def AddNode_def)

lemma Dependencies_AddNode [simp]: "Dependencies (AddNode n g) v = Dependencies g v"
  by (simp add: Dependencies_def AddNode_def)

lemma graph_nodes_AddNode [simp]: "graph_nodes (AddNode n g) = insert n (graph_nodes g)"
  by (simp add: graph_nodes_def AddNode_def dom_update)

lemma graph_edges_AddNode [simp]: "graph_edges (AddNode n g) = graph_edges g"
  by (simp add: graph_edges_def)

lemma set_Dependents_AddEdge [simp]:
  "set (Dependents (AddEdge a b g) v) = (if v = a then insert b (set (Dependents g v)) else set (Dependents g v))"
  by (simp add: Dependents_def AddEdge_def AddNode_def set_inner_def Let_def)

lemma set_Dependencies_AddEdge [simp]:
  "set (Dependencies (AddEdge a b g) v) = (if v = b then insert a (set (Dependencies g v)) else set (Dependencies g v))"
  by (simp add: Dependencies_def AddEdge_def AddNode_def set_inner_def Let_def)

lemma distinct_AddEdge [simp]:
  "distinct (Dependents g v) \<Longrightarrow> distinct (Dependents (AddEdge a b g) v)"
  "distinct (Dependencies g v) \<Longrightarrow> distinct (Dependencies (AddEdge a b g) v)"
  by (auto simp: Dependents_def Dependencies_def AddEdge_def AddNode_def set_inner_def Let_def)

lemma graph_nodes_AddEdge [simp]: "graph_nodes (AddEdge a b g) = {a, b} \<union> graph_nodes g"
  by (auto simp: graph_nodes_def AddEdge_def AddNode_def Let_def dom_update)

lemma graph_edges_AddEdge [simp]: "graph_edges (AddEdge a b g) = insert (a, b) (graph_edges g)"
  by (auto simp: graph_edges_def split: if_splits)

lemma graph_ok_NewGraph [simp]: "graph_ok NewGraph" "graph_nodes NewGraph = {}" "graph_edges NewGraph = {}"
  by (simp_all add: graph_ok_def NewGraph_def Dependencies_def Dependents_def keys_of_def graph_edges_def graph_nodes_def)

lemma graph_ok_AddNode: "graph_ok g \<Longrightarrow> graph_ok (AddNode n g)"
  by (auto simp: graph_ok_def) (simp add: AddNode_def)

lemma gomap_ok_nodes_AddEdge: "gomap_ok (g_nodes g) \<Longrightarrow> gomap_ok (g_nodes (AddEdge a b g))"
  by (simp add: AddEdge_def AddNode_def Let_def)

lemma graph_ok_AddEdge: "graph_ok g \<Longrightarrow> graph_ok (AddEdge a b g)"
  unfolding graph_ok_def by (intro conjI allI) (auto simp: gomap_ok_nodes_AddEdge)

lemma finite_graph_nodes [simp]: "finite (graph_nodes g)"
  by (simp add: graph_nodes_def)

section \<open>Kahn's algorithm on sets\<close>

text \<open>The specification: repeatedly emit the least node whose predecessors are all emitted.\<close>

definition ready :: "string set \<Rightarrow> (string \<times> string) set \<Rightarrow> string set \<Rightarrow> string set" where
  "ready N E S = {v \<in> N - S. \<forall>u. (u, v) \<in> E \<longrightarrow> u \<in> S}"

inductive kahn :: "string set \<Rightarrow> (string \<times> string) set \<Rightarrow> string list \<Rightarrow> bool" for N E where
  kahn_empty: "kahn N E []"
| kahn_emit: "kahn N E xs \<Longrightarrow> ready N E (set xs) \<noteq> {} \<Longrightarrow> kahn N E (xs @ [Min (ready N E (set xs))])"

inductive_cases kahn_snocE: "kahn N E (xs @ [x])"

definition precedes :: "'a list \<Rightarrow> 'a \<Rightarrow> 'a \<Rightarrow> bool" where
  "precedes xs a b \<longleftrightarrow> (\<exists>us vs ws. xs = us @ a # vs @ b # ws)"

lemma precedes_snoc: "precedes xs a b \<Longrightarrow> precedes (xs @ [x]) a b"
  unfolding precedes_def by (metis append_Cons append_assoc)

lemma precedes_last: "a \<in> set xs \<Longrightarrow> precedes (xs @ [x]) a x"
  unfolding precedes_def by (metis append_Cons append_assoc in_set_conv_decomp)

lemma finite_ready: "finite N \<Longrightarrow> finite (ready N E S)"
  by (simp add: ready_def)

lemma kahn_sound:
  assumes "kahn N E xs" "finite N"
  shows "distinct xs \<and> set xs \<subseteq> N \<and> (\<forall>a b. (a, b) \<in> E \<and> b \<in> set xs \<longrightarrow> precedes xs a b)"
  using assms(1)
proof induction
  case kahn_empty
  then show ?case by simp
next
  case (kahn_emit xs)
  define m where "m = Min (ready N E (set xs))"
  have "m \<in> ready N E (set xs)"
    unfolding m_def using kahn_emit.hyps(2) finite_ready [OF assms(2)] by (intro Min_in)
  then have m: "m \<in> N" "m \<notin> set xs" "\<And>u. (u, m) \<in> E \<Longrightarrow> u \<in> set xs" by (auto simp: ready_def)
  show ?case
    unfolding m_def [symmetric] using kahn_emit.IH m by (auto intro: precedes_snoc precedes_last)
qed

text \<open>A run that emits every node proves the graph acyclic; a run that is stuck earlier has found
  a set of nodes in which every node has a predecessor, hence a cycle.\<close>

lemma precedes_irrefl: "distinct xs \<Longrightarrow> \<not> precedes xs a a"
  by (auto simp: precedes_def)

lemma precedes_trans:
  assumes "distinct xs" "precedes xs a b" "precedes xs b c"
  shows "precedes xs a c"
proof -
  obtain u v w where 1: "xs = u @ a # v @ b # w" using assms(2) by (auto simp: precedes_def)
  obtain u' v' w' where 2: "xs = u' @ b # v' @ c # w'" using assms(3) by (auto simp: precedes_def)
  have "(u @ a # v) @ b # w = u' @ b # v' @ c # w'" using 1 2 by simp
  then have "w = v' @ c # w'" using assms(1) 1 by (auto simp: append_eq_append_conv2 append_eq_Cons_conv Cons_eq_append_conv)
  then show ?thesis unfolding precedes_def 1 by (metis append.assoc append_Cons)
qed

lemma kahn_acyclic:
  assumes "kahn N E xs" "finite N" "set xs = N" "E \<subseteq> N \<times> N"
  shows "acyclic E"
proof -
  note s = kahn_sound [OF assms(1,2)]
  have "precedes xs a b" if "(a, b) \<in> E\<^sup>+" for a b
    using that
  proof induction
    case (base b)
    then show ?case using s assms(3,4) by auto
  next
    case (step b c)
    then have "precedes xs b c" using s assms(3,4) by auto
    then show ?case using step.IH s precedes_trans by metis
  qed
  then show ?thesis using s precedes_irrefl [of xs] unfolding acyclic_def by blast
qed

lemma stuck_cyclic:
  assumes "finite N" "E \<subseteq> N \<times> N" "S \<subset> N" "ready N E S = {}"
  shows "\<not> acyclic E"
proof
  assume "acyclic E"
  moreover have "finite E" using assms(1,2) finite_subset by blast
  ultimately have "wf E" by (metis finite_acyclic_wf)
  moreover obtain v where "v \<in> N - S" using assms(3) by blast
  ultimately obtain m where "m \<in> N - S" "\<And>u. (u, m) \<in> E \<Longrightarrow> u \<notin> N - S" by (meson wfE_min)
  then have "m \<in> ready N E S" using assms(2) by (auto simp: ready_def)
  then show False using assms(4) by simp
qed

text \<open>The stuck run is unique.\<close>

lemma kahn_prefix:
  assumes "kahn N E ys" "length xs \<le> length ys" "kahn N E xs"
  shows "xs = take (length xs) ys"
  using assms(3,2)
proof (induction)
  case (kahn_emit xs)
  then have xs: "xs = take (length xs) ys" "length xs < length ys" by simp_all
  have "ys ! length xs = Min (ready N E (set (take (length xs) ys)))"
    using assms(1) xs(2)
  proof (induction)
    case (kahn_emit zs)
    then show ?case by (cases "length xs < length zs") (auto simp: nth_append less_Suc_eq)
  qed simp
  then show ?case using xs by (simp add: take_Suc_conv_app_nth)
qed simp

lemma kahn_unique:
  assumes "kahn N E xs" "kahn N E ys" "ready N E (set xs) = {}" "ready N E (set ys) = {}"
  shows "xs = ys"
proof -
  have "length ys \<le> length xs" if "kahn N E xs" "kahn N E ys" "ready N E (set xs) = {}" for xs ys
  proof (rule ccontr)
    assume "\<not> length ys \<le> length xs"
    then have l: "length xs < length ys" by simp
    from that(2) l have "ready N E (set (take (length xs) ys)) \<noteq> {}"
    proof induction
      case (kahn_emit zs)
      then show ?case by (cases "length xs < length zs") (auto simp: less_Suc_eq)
    qed simp
    moreover have "xs = take (length xs) ys" using that(1,2) l by (intro kahn_prefix) auto
    ultimately show False using that(3) by simp
  qed
  then have "length xs = length ys" using assms by (meson antisym)
  then show ?thesis using kahn_prefix [OF assms(2) _ assms(1)] by simp
qed

section \<open>The loop implements the specification\<close>

lemma relax_both:
  "distinct cs \<Longrightarrow>
     gomap_get (fst (relax cs indeg queue)) v 0 = gomap_get indeg v 0 - (if v \<in> set cs then 1 else 0) \<and>
     snd (relax cs indeg queue) = queue @ filter (\<lambda>c. gomap_get indeg c 0 = 1) cs"
proof (induction cs arbitrary: indeg queue)
  case (Cons child cs)
  have "filter (\<lambda>c. gomap_get (AList.update child d indeg) c 0 = 1) cs = filter (\<lambda>c. gomap_get indeg c 0 = 1) cs" for d
    using Cons.prems by (intro filter_cong) auto
  then show ?case using Cons by (simp add: Let_def)
qed simp

lemma relax_result:
  assumes "distinct cs"
  shows "gomap_get (fst (relax cs indeg queue)) v 0 = gomap_get indeg v 0 - (if v \<in> set cs then 1 else 0)"
    and "snd (relax cs indeg queue) = queue @ filter (\<lambda>c. gomap_get indeg c 0 = 1) cs"
  using relax_both [OF assms] by auto

definition kahn_inv :: "string set \<Rightarrow> (string \<times> string) set \<Rightarrow> (string, int) gomap \<Rightarrow> string list \<Rightarrow> string list \<Rightarrow> bool" where
  "kahn_inv N E indeg queue order \<longleftrightarrow>
     kahn N E order \<and> distinct queue \<and> set queue = ready N E (set order) \<and>
     (\<forall>v\<in>N. gomap_get indeg v 0 = int (card {u. (u, v) \<in> E \<and> u \<notin> set order}))"

lemma remaining_preds:
  assumes "finite N" "E \<subseteq> N \<times> N" "n \<notin> set order"
  shows "int (card {u. (u, v) \<in> E \<and> u \<notin> set (order @ [n])}) =
           int (card {u. (u, v) \<in> E \<and> u \<notin> set order}) - (if (n, v) \<in> E then 1 else 0)"
proof -
  let ?P = "{u. (u, v) \<in> E \<and> u \<notin> set order}"
  have fin: "finite ?P" by (rule finite_subset [OF _ assms(1)]) (use assms(2) in auto)
  have "{u. (u, v) \<in> E \<and> u \<notin> set (order @ [n])} = ?P - {n}" by auto
  moreover have "n \<in> ?P \<longleftrightarrow> (n, v) \<in> E" using assms(3) by simp
  moreover have "n \<in> ?P \<Longrightarrow> int (card (?P - {n})) = int (card ?P) - 1"
    using card_Suc_Diff1 [OF fin, of n] by linarith
  moreover have "n \<notin> ?P \<Longrightarrow> ?P - {n} = ?P" by (rule Diff_triv) simp
  ultimately show ?thesis by presburger
qed

lemma ready_iff_card:
  assumes "finite N" "E \<subseteq> N \<times> N" "v \<in> N"
  shows "v \<in> ready N E S \<longleftrightarrow> v \<notin> S \<and> card {u. (u, v) \<in> E \<and> u \<notin> S} = 0"
proof -
  have "finite {u. (u, v) \<in> E \<and> u \<notin> S}" by (rule finite_subset [OF _ assms(1)]) (use assms(2) in auto)
  then show ?thesis using assms(3) by (auto simp: ready_def)
qed

lemma kahn_inv_step:
  assumes "finite N" "E \<subseteq> N \<times> N" "distinct cs" "set cs = {b. (n, b) \<in> E}"
    and inv: "kahn_inv N E indeg queue order" and q: "sort_slice string_less queue = n # q"
  shows "kahn_inv N E (fst (relax cs indeg q)) (snd (relax cs indeg q)) (order @ [n])"
proof -
  let ?R = "ready N E (set order)"
  have mq: "mset queue = add_mset n (mset q)" using q by (metis mset.simps(2) mset_sort_slice)
  then have dq: "distinct (n # q)" and sq: "set queue = insert n (set q)"
    using inv mset_eq_imp_distinct_iff [of queue "n # q"] mset_eq_setD [of queue "n # q"] by (simp_all add: kahn_inv_def)
  have R: "set (n # q) = ?R" using inv sq by (simp add: kahn_inv_def)
  then have n: "n \<in> N" "n \<notin> set order" by (auto simp: ready_def)
  have "sorted (n # q)" using q unfolding sort_strings_eq by (metis sorted_sort)
  then have "Min ?R = n" unfolding R [symmetric] by (intro Min_eqI) auto
  then have k: "kahn N E (order @ [n])"
    using inv kahn_emit [of N E order] R by (auto simp: kahn_inv_def)
  have deg: "gomap_get (fst (relax cs indeg q)) v 0 = int (card {u. (u, v) \<in> E \<and> u \<notin> set (order @ [n])})" if "v \<in> N" for v
    unfolding remaining_preds [OF assms(1,2) n(2)] relax_result(1) [OF assms(3)] assms(4)
    using inv that by (simp add: kahn_inv_def)
  have C: "v \<in> ready N E (set (order @ [n])) \<longleftrightarrow> v \<in> set q \<or> v \<in> set cs \<and> gomap_get indeg v 0 = 1" for v
  proof (cases "v \<in> N")
    case True
    have old: "v \<in> ?R \<longleftrightarrow> v \<notin> set order \<and> gomap_get indeg v 0 = 0"
      using ready_iff_card [OF assms(1,2) True] inv True by (simp add: kahn_inv_def)
    have new: "v \<in> ready N E (set (order @ [n])) \<longleftrightarrow> v \<notin> set (order @ [n]) \<and> gomap_get (fst (relax cs indeg q)) v 0 = 0"
      unfolding ready_iff_card [OF assms(1,2) True] deg [OF True] by simp
    have pos: "v \<in> set cs \<Longrightarrow> gomap_get indeg v 0 \<noteq> 0"
      using relax_result(1) [OF assms(3), of indeg q v] deg [OF True] by auto
    have "v \<in> set cs \<Longrightarrow> v \<notin> set order"
    proof
      assume v: "v \<in> set cs" "v \<in> set order"
      then have "precedes order n v" using kahn_sound [OF _ assms(1)] inv assms(4) unfolding kahn_inv_def by blast
      then show False using n(2) by (auto simp: precedes_def)
    qed
    then show ?thesis
      using R old new pos dq by (auto simp: relax_result(1) [OF assms(3)])
  next
    case False
    then show ?thesis using R assms(2,4) by (auto simp: ready_def)
  qed
  have dis: "set q \<inter> set (filter (\<lambda>c. gomap_get indeg c 0 = 1) cs) = {}"
  proof -
    have "gomap_get indeg c 0 = 0" if "c \<in> set q" for c
    proof -
      have "c \<in> ?R" "c \<in> N" using that R by (auto simp: ready_def)
      then show ?thesis using inv ready_iff_card [OF assms(1,2)] by (simp add: kahn_inv_def)
    qed
    then show ?thesis by force
  qed
  show ?thesis
    unfolding kahn_inv_def using k deg C dq dis assms(3)
    by (auto simp: relax_result(2) [OF assms(3)])
qed

lemma topo_loop_kahn:
  assumes "finite N" "E \<subseteq> N \<times> N"
    and "\<And>a. distinct (keys_of (gomap_get children a []))"
    and "\<And>a. set (keys_of (gomap_get children a [])) = {b. (a, b) \<in> E}"
    and "kahn_inv N E indeg queue order"
  shows "kahn N E (topo_loop children indeg queue order) \<and> ready N E (set (topo_loop children indeg queue order)) = {}"
  using assms(3-5)
proof (induction children indeg queue order rule: topo_loop.induct)
  case (1 children indeg queue order)
  show ?case
  proof (cases "sort_slice string_less queue")
    case Nil
    then have "queue = []" by (metis length_0_conv length_sort_slice)
    then show ?thesis using 1 Nil by (simp add: topo_loop.simps [of children] kahn_inv_def)
  next
    case (Cons n q)
    let ?r = "relax (keys_of (gomap_get children n [])) indeg q"
    have "topo_loop children indeg queue order = topo_loop children (fst ?r) (snd ?r) (order @ [n])"
      by (subst topo_loop.simps) (simp add: Cons split_beta)
    then show ?thesis
      using "1.IH" [OF Cons refl prod.collapse "1.prems"(1,2)] kahn_inv_step [OF assms(1,2) _ _ "1.prems"(3) Cons] "1.prems"
      by simp
  qed
qed

lemma init_indeg_get:
  assumes "graph_ok g" "v \<in> graph_nodes g"
  shows "gomap_get (init_indeg g) v 0 = int (card {u. (u, v) \<in> graph_edges g})"
proof -
  have "map_of (init_indeg g) v = Some (int (length (gomap_get (g_parents g) v [])))"
    using assms by (auto simp: init_indeg_def graph_ok_def graph_nodes_def o_def intro!: map_of_is_SomeI)
  moreover have "{u. (u, v) \<in> graph_edges g} = set (Dependencies g v)"
    using assms(1) by (simp add: graph_edges_def graph_ok_def)
  moreover have "card (set (Dependencies g v)) = length (gomap_get (g_parents g) v [])"
    using assms(1) distinct_card [of "Dependencies g v"] by (simp add: graph_ok_def Dependencies_def keys_of_def)
  ultimately show ?thesis by (simp add: gomap_get_def)
qed

definition init_queue :: "Graph \<Rightarrow> string list" where
  "init_queue g = map fst (filter (\<lambda>(nid, d). d = 0) (init_indeg g))"

lemma init_queue_set:
  assumes "graph_ok g"
  shows "distinct (init_queue g)" "set (init_queue g) = ready (graph_nodes g) (graph_edges g) {}"
proof -
  have d: "distinct (map fst (init_indeg g))"
    using assms by (simp add: init_indeg_def o_def graph_ok_def)
  then show "distinct (init_queue g)"
    unfolding init_queue_def using distinct_map_filter by blast
  have E: "graph_edges g \<subseteq> graph_nodes g \<times> graph_nodes g" using assms by (simp add: graph_ok_def)
  have N: "set (map fst (init_indeg g)) = graph_nodes g" by (simp add: init_indeg_def graph_nodes_def image_image)
  have "v \<in> set (init_queue g) \<longleftrightarrow> v \<in> graph_nodes g \<and> gomap_get (init_indeg g) v 0 = 0" for v
  proof -
    have "v \<in> set (init_queue g) \<longleftrightarrow> map_of (init_indeg g) v = Some 0"
      using d by (force simp: init_queue_def map_of_eq_Some_iff)
    also have "\<dots> \<longleftrightarrow> v \<in> graph_nodes g \<and> gomap_get (init_indeg g) v 0 = 0"
      using N dom_map_of_gomap [of "init_indeg g"] by (cases "map_of (init_indeg g) v") (auto simp: gomap_get_def)
    finally show ?thesis .
  qed
  moreover have "v \<in> ready (graph_nodes g) (graph_edges g) {} \<longleftrightarrow> v \<in> graph_nodes g \<and> gomap_get (init_indeg g) v 0 = 0" for v
    using ready_iff_card [OF finite_graph_nodes E, of v "{}"] init_indeg_get [OF assms, of v]
    by (cases "v \<in> graph_nodes g") (simp, simp add: ready_def)
  ultimately show "set (init_queue g) = ready (graph_nodes g) (graph_edges g) {}" by blast
qed

text \<open>What \<^verbatim>\<open>TopoSort\<close> computes: the stuck run of Kahn's algorithm, if it emits every node.\<close>

lemma TopoSort_kahn:
  assumes "graph_ok g"
  obtains xs where "kahn (graph_nodes g) (graph_edges g) xs"
    "ready (graph_nodes g) (graph_edges g) (set xs) = {}"
    "TopoSort g = (if set xs = graph_nodes g then Inr xs else Inl ErrCycle)"
proof -
  let ?N = "graph_nodes g" and ?E = "graph_edges g"
  define xs where "xs = topo_loop (g_children g) (init_indeg g) (init_queue g) []"
  have E: "?E \<subseteq> ?N \<times> ?N" using assms by (simp add: graph_ok_def)
  have children: "\<And>a. distinct (keys_of (gomap_get (g_children g) a []))"
    "\<And>a. set (keys_of (gomap_get (g_children g) a [])) = {b. (a, b) \<in> ?E}"
    using assms by (auto simp: graph_ok_def Dependents_def graph_edges_def)
  have "kahn_inv ?N ?E (init_indeg g) (init_queue g) []"
    using init_queue_set [OF assms] init_indeg_get [OF assms] by (simp add: kahn_inv_def kahn_empty)
  then have k: "kahn ?N ?E xs" "ready ?N ?E (set xs) = {}"
    unfolding xs_def using topo_loop_kahn [OF finite_graph_nodes E, of "g_children g"] children by blast+
  have "card ?N = length (g_nodes g)"
    using assms distinct_card [of "map fst (g_nodes g)"] by (simp add: graph_ok_def graph_nodes_def)
  moreover have "distinct xs" "set xs \<subseteq> ?N" using kahn_sound [OF k(1)] by simp_all
  ultimately have "length xs = length (g_nodes g) \<longleftrightarrow> set xs = ?N"
    by (metis card_subset_eq distinct_card finite_graph_nodes)
  then have "TopoSort g = (if set xs = ?N then Inr xs else Inl ErrCycle)"
    by (simp add: TopoSort_def Let_def xs_def init_queue_def)
  with k that show thesis by blast
qed

lemma TopoSort_Inr:
  assumes "graph_ok g" "TopoSort g = Inr xs"
  shows "kahn (graph_nodes g) (graph_edges g) xs" "set xs = graph_nodes g"
  using TopoSort_kahn [OF assms(1)] assms(2) by (metis Inl_Inr_False old.sum.inject(2))+

lemma TopoSort_cycle_iff:
  assumes "graph_ok g"
  shows "TopoSort g = Inl ErrCycle \<longleftrightarrow> \<not> acyclic (graph_edges g)"
proof -
  have E: "graph_edges g \<subseteq> graph_nodes g \<times> graph_nodes g" using assms by (simp add: graph_ok_def)
  obtain xs where xs: "kahn (graph_nodes g) (graph_edges g) xs"
    "ready (graph_nodes g) (graph_edges g) (set xs) = {}"
    "TopoSort g = (if set xs = graph_nodes g then Inr xs else Inl ErrCycle)"
    by (rule TopoSort_kahn [OF assms])
  show ?thesis
  proof (cases "set xs = graph_nodes g")
    case True
    then show ?thesis using xs kahn_acyclic [OF xs(1) _ True E] by simp
  next
    case False
    then have "set xs \<subset> graph_nodes g" using kahn_sound [OF xs(1)] by auto
    then show ?thesis using xs False stuck_cyclic [OF _ E] by simp
  qed
qed

section \<open>BuildGraph\<close>

definition dep_edges :: "Job list \<Rightarrow> (string \<times> string) set" where
  "dep_edges jobs = {(d, j_ID j) | d j. j \<in> set jobs \<and> d \<in> set (j_DependsOn j)}"

lemma add_nodes:
  "graph_ok g \<Longrightarrow> graph_ok (fold (\<lambda>j. AddNode (j_ID j)) jobs g) \<and>
     graph_nodes (fold (\<lambda>j. AddNode (j_ID j)) jobs g) = j_ID ` set jobs \<union> graph_nodes g \<and>
     graph_edges (fold (\<lambda>j. AddNode (j_ID j)) jobs g) = graph_edges g"
  by (induction jobs arbitrary: g) (auto simp: graph_ok_AddNode)

lemma add_deps_Inr:
  "add_deps known j deps g = Inr g' \<Longrightarrow> graph_ok g \<Longrightarrow> set known \<subseteq> graph_nodes g \<Longrightarrow> j_ID j \<in> graph_nodes g \<Longrightarrow>
     graph_ok g' \<and> graph_nodes g' = graph_nodes g \<and>
     graph_edges g' = graph_edges g \<union> (\<lambda>d. (d, j_ID j)) ` set deps \<and> set deps \<subseteq> set known"
proof (induction known j deps g rule: add_deps.induct)
  case (2 known j dep deps g)
  then have "graph_nodes (AddEdge dep (j_ID j) g) = graph_nodes g" by (auto split: if_splits)
  with 2 show ?case by (auto split: if_splits simp: graph_ok_AddEdge)
qed auto

lemma add_deps_Inl:
  "add_deps known j deps g = Inl e \<Longrightarrow> \<exists>d\<in>set deps. d \<notin> set known \<and> e = UnknownDependency (j_ID j) d"
  by (induction known j deps g rule: add_deps.induct) (auto split: if_splits)

lemma add_jobs_Inr:
  "add_jobs known js g = Inr g' \<Longrightarrow> graph_ok g \<Longrightarrow> set known \<subseteq> graph_nodes g \<Longrightarrow> j_ID ` set js \<subseteq> set known \<Longrightarrow>
     graph_ok g' \<and> graph_nodes g' = graph_nodes g \<and> graph_edges g' = graph_edges g \<union> dep_edges js \<and>
     (\<forall>j\<in>set js. set (j_DependsOn j) \<subseteq> set known)"
proof (induction js arbitrary: g)
  case Nil
  then show ?case by (simp add: dep_edges_def)
next
  case (Cons j js)
  obtain g1 where g1: "add_deps known j (j_DependsOn j) g = Inr g1" "add_jobs known js g1 = Inr g'"
    using Cons.prems(1) by auto
  have a: "graph_ok g1" "graph_nodes g1 = graph_nodes g"
    "graph_edges g1 = graph_edges g \<union> (\<lambda>d. (d, j_ID j)) ` set (j_DependsOn j)" "set (j_DependsOn j) \<subseteq> set known"
    using add_deps_Inr [OF g1(1)] Cons.prems by auto
  have b: "graph_ok g' \<and> graph_nodes g' = graph_nodes g1 \<and> graph_edges g' = graph_edges g1 \<union> dep_edges js \<and>
      (\<forall>j\<in>set js. set (j_DependsOn j) \<subseteq> set known)"
    using Cons.IH [OF g1(2) a(1)] Cons.prems a(2) by auto
  have "dep_edges (j # js) = (\<lambda>d. (d, j_ID j)) ` set (j_DependsOn j) \<union> dep_edges js"
    by (auto simp: dep_edges_def)
  then show ?case using a b by auto
qed

lemma add_jobs_Inl:
  "add_jobs known js g = Inl e \<Longrightarrow>
     \<exists>j\<in>set js. \<exists>d\<in>set (j_DependsOn j). d \<notin> set known \<and> e = UnknownDependency (j_ID j) d"
  by (induction js arbitrary: g) (auto simp: bind_result_Inl_iff dest: add_deps_Inl)

section \<open>Properties\<close>

text \<open>C29: a successful \<^verbatim>\<open>TopoSort\<close> lists every node of the graph exactly once, each after all of its
  dependencies.\<close>

theorem TopoSort_order:
  assumes "graph_ok g" "TopoSort g = Inr order"
  shows "distinct order \<and> set order = graph_nodes g \<and> graph_edges g \<subseteq> {(a, b). precedes order a b}"
proof -
  note k = TopoSort_Inr [OF assms]
  have "graph_edges g \<subseteq> graph_nodes g \<times> graph_nodes g" using assms(1) by (simp add: graph_ok_def)
  then show ?thesis using kahn_sound [OF k(1)] k(2) by auto
qed

definition two_steps :: Graph where
  "two_steps = AddEdge ''b'' ''a'' (AddNode ''c'' NewGraph)"

theorem TopoSort_order_witness:
  "TopoSort two_steps = Inr [''b'', ''a'', ''c''] \<and> precedes [''b'', ''a'', ''c''] ''b'' ''a''"
proof -
  have ok: "graph_ok two_steps" by (simp add: two_steps_def graph_ok_AddEdge graph_ok_AddNode)
  have t: "TopoSort two_steps = Inr [''b'', ''a'', ''c'']" by code_simp
  have "(''b'', ''a'') \<in> graph_edges two_steps" by (simp add: two_steps_def)
  with TopoSort_order [OF ok t] t show ?thesis by blast
qed

text \<open>C30: \<^verbatim>\<open>TopoSort\<close> fails exactly on graphs with a cycle, and then with \<^verbatim>\<open>ErrCycle\<close>.\<close>

theorem TopoSort_cycle:
  assumes "graph_ok g"
  shows "(if acyclic (graph_edges g) then \<exists>order. TopoSort g = Inr order else TopoSort g = Inl ErrCycle)"
proof (cases "acyclic (graph_edges g)")
  case True
  then have "TopoSort g \<noteq> Inl ErrCycle" using TopoSort_cycle_iff [OF assms] by simp
  then show ?thesis using True TopoSort_kahn [OF assms] by (metis (full_types))
next
  case False
  then show ?thesis using TopoSort_cycle_iff [OF assms] by simp
qed

definition loop_graph :: Graph where
  "loop_graph = AddEdge ''b'' ''a'' (AddEdge ''a'' ''b'' NewGraph)"

theorem TopoSort_cycle_witness: "TopoSort loop_graph = Inl ErrCycle"
proof -
  have "graph_ok loop_graph" by (simp add: loop_graph_def graph_ok_AddEdge)
  moreover have "(''a'', ''a'') \<in> (graph_edges loop_graph)\<^sup>+"
    by (rule trancl.intros(2) [of _ "''b''"]) (auto simp: loop_graph_def)
  then have "\<not> acyclic (graph_edges loop_graph)" by (auto simp: acyclic_def)
  ultimately show ?thesis using TopoSort_cycle [of loop_graph] by simp
qed

text \<open>C31: the order is deterministic: it depends only on the sets of nodes and edges, not on the
  iteration order of the maps, because every step emits the least identifier that is ready.\<close>

theorem TopoSort_deterministic:
  assumes "graph_ok g" "graph_ok h" "graph_nodes g = graph_nodes h" "graph_edges g = graph_edges h"
  shows "TopoSort g = TopoSort h \<and> (TopoSort g = Inl ErrCycle \<or> kahn (graph_nodes g) (graph_edges g) (projr (TopoSort g)))"
proof -
  obtain xs where xs: "kahn (graph_nodes g) (graph_edges g) xs"
    "ready (graph_nodes g) (graph_edges g) (set xs) = {}"
    "TopoSort g = (if set xs = graph_nodes g then Inr xs else Inl ErrCycle)"
    by (rule TopoSort_kahn [OF assms(1)])
  obtain ys where ys: "kahn (graph_nodes g) (graph_edges g) ys"
    "ready (graph_nodes g) (graph_edges g) (set ys) = {}"
    "TopoSort h = (if set ys = graph_nodes g then Inr ys else Inl ErrCycle)"
    by (rule TopoSort_kahn [OF assms(2), folded assms(3,4)])
  have "xs = ys" by (rule kahn_unique [OF xs(1) ys(1) xs(2) ys(2)])
  then show ?thesis using xs ys by simp
qed

definition two_steps' :: Graph where
  "two_steps' = AddNode ''c'' (AddEdge ''b'' ''a'' NewGraph)"

theorem TopoSort_deterministic_witness: "g_nodes two_steps \<noteq> g_nodes two_steps' \<and> TopoSort two_steps = TopoSort two_steps'"
proof -
  have "graph_ok two_steps" "graph_ok two_steps'"
    by (simp_all add: two_steps_def two_steps'_def graph_ok_AddEdge graph_ok_AddNode)
  moreover have "graph_nodes two_steps = graph_nodes two_steps'" "graph_edges two_steps = graph_edges two_steps'"
    by (auto simp: two_steps_def two_steps'_def)
  moreover have "g_nodes two_steps \<noteq> g_nodes two_steps'" by code_simp
  ultimately show ?thesis using TopoSort_deterministic [of two_steps two_steps'] by blast
qed

lemma BuildGraph_spec:
  "case BuildGraph jobs of
     Inr g \<Rightarrow> graph_ok g \<and> graph_nodes g = j_ID ` set jobs \<and> graph_edges g = dep_edges jobs \<and>
              fst ` dep_edges jobs \<subseteq> j_ID ` set jobs \<and> acyclic (dep_edges jobs)
   | Inl ErrCycle \<Rightarrow> fst ` dep_edges jobs \<subseteq> j_ID ` set jobs \<and> \<not> acyclic (dep_edges jobs)
   | Inl (UnknownDependency a d) \<Rightarrow>
       d \<notin> j_ID ` set jobs \<and> (\<exists>j\<in>set jobs. j_ID j = a \<and> d \<in> set (j_DependsOn j))"
proof -
  define g0 where "g0 = fold (\<lambda>j. AddNode (j_ID j)) jobs NewGraph"
  have g0: "graph_ok g0" "graph_nodes g0 = j_ID ` set jobs" "graph_edges g0 = {}"
    using add_nodes [of NewGraph jobs] by (simp_all add: g0_def)
  show ?thesis
  proof (cases "add_jobs (map j_ID jobs) jobs g0")
    case (Inl e)
    then have "BuildGraph jobs = Inl e" by (simp add: BuildGraph_def Let_def g0_def)
    then show ?thesis using add_jobs_Inl [OF Inl] by (auto split: dag_error.splits)
  next
    case (Inr g)
    then have g: "graph_ok g" "graph_nodes g = j_ID ` set jobs" "graph_edges g = dep_edges jobs"
        "\<forall>j\<in>set jobs. set (j_DependsOn j) \<subseteq> j_ID ` set jobs"
      using add_jobs_Inr [OF Inr] g0 by auto
    then have known: "fst ` dep_edges jobs \<subseteq> j_ID ` set jobs" unfolding dep_edges_def by fastforce
    have b: "BuildGraph jobs = bind_result (TopoSort g) (\<lambda>_. Inr g)"
      using Inr by (simp add: BuildGraph_def Let_def g0_def)
    show ?thesis
    proof (cases "TopoSort g")
      case (Inl e)
      then have "e = ErrCycle" using TopoSort_kahn [OF g(1)] by (metis Inl_Inr_False old.sum.inject(1))
      then show ?thesis using Inl b g known TopoSort_cycle_iff [OF g(1)] by simp
    next
      case (Inr order)
      then show ?thesis using b g known TopoSort_cycle_iff [OF g(1)] by simp
    qed
  qed
qed

text \<open>C6: \<^verbatim>\<open>BuildGraph\<close> accepts exactly the job lists whose dependencies are all declared and form no
  cycle; the graph it returns has the jobs as nodes and their dependencies as edges, and its errors
  name an undeclared dependency or report a cycle.\<close>

theorem BuildGraph_correct:
  "case BuildGraph jobs of
     Inr g \<Rightarrow> graph_ok g \<and> graph_nodes g = j_ID ` set jobs \<and> graph_edges g = dep_edges jobs \<and>
              fst ` dep_edges jobs \<subseteq> j_ID ` set jobs \<and> acyclic (dep_edges jobs)
   | Inl ErrCycle \<Rightarrow> fst ` dep_edges jobs \<subseteq> j_ID ` set jobs \<and> \<not> acyclic (dep_edges jobs)
   | Inl (UnknownDependency a d) \<Rightarrow>
       d \<notin> j_ID ` set jobs \<and> (\<exists>j\<in>set jobs. j_ID j = a \<and> d \<in> set (j_DependsOn j))"
  by (rule BuildGraph_spec)

end
