(* ===== verification/Store.thy ===== *)
theory Store
  imports Job
begin

text \<open>
  The persistence contract of \<^verbatim>\<open>src/internal/store/store.go\<close>. The Go interface is a record of
  operations over a store state \<open>'s\<close>; an operation returns its result or an error together with
  the next state. What a caller may rely on is the locale \<open>store_contract\<close>, phrased over an
  abstraction of the state to two finite maps; \<open>reliable_store\<close> adds that operations fail only
  when what they name is absent. The scheduler is proved against these locales, and the in-memory
  store is shown to satisfy them.
\<close>

section \<open>Interface\<close>

datatype store_error = ErrNotFound | Backend string

record RunFilter =
  f_JobID :: string
  f_BatchID :: string
  f_State :: RunState
  f_Limit :: int
  f_Offset :: int

definition zero_filter :: RunFilter where
  "zero_filter = \<lparr>f_JobID = [], f_BatchID = [], f_State = [], f_Limit = 0, f_Offset = 0\<rparr>"

record 's store_ops =
  st_PutJob :: "Job \<Rightarrow> 's \<Rightarrow> (store_error + unit) \<times> 's"
  st_GetJob :: "string \<Rightarrow> 's \<Rightarrow> (store_error + Job) \<times> 's"
  st_ListJobs :: "'s \<Rightarrow> (store_error + Job list) \<times> 's"
  st_DeleteJob :: "string \<Rightarrow> 's \<Rightarrow> (store_error + unit) \<times> 's"
  st_CreateRun :: "Run \<Rightarrow> 's \<Rightarrow> (store_error + unit) \<times> 's"
  st_GetRun :: "string \<Rightarrow> 's \<Rightarrow> (store_error + Run) \<times> 's"
  st_UpdateRun :: "Run \<Rightarrow> 's \<Rightarrow> (store_error + unit) \<times> 's"
  st_ListRuns :: "RunFilter \<Rightarrow> 's \<Rightarrow> (store_error + Run list) \<times> 's"
  st_ClaimDue :: "time \<Rightarrow> string \<Rightarrow> duration \<Rightarrow> int \<Rightarrow> 's \<Rightarrow> (store_error + Run list) \<times> 's"
  st_Close :: "'s \<Rightarrow> (store_error + unit) \<times> 's"

section \<open>What the operations mean\<close>

text \<open>Zero-value fields of a filter are ignored.\<close>

definition run_matches :: "RunFilter \<Rightarrow> Run \<Rightarrow> bool" where
  "run_matches f r \<longleftrightarrow>
     (f_JobID f = [] \<or> r_JobID r = f_JobID f) \<and>
     (f_BatchID f = [] \<or> r_BatchID r = f_BatchID f) \<and>
     (f_State f = [] \<or> r_State r = f_State f)"

text \<open>Newest first; among equal times the larger identifier first.\<close>

definition run_newer :: "Run \<Rightarrow> Run \<Rightarrow> bool" where
  "run_newer a b \<longleftrightarrow>
     (if r_CreatedAt a \<noteq> r_CreatedAt b then r_CreatedAt b < r_CreatedAt a else r_ID b < r_ID a)"

definition page :: "RunFilter \<Rightarrow> 'a list \<Rightarrow> 'a list" where
  "page f xs =
     (let xs = (if 0 < f_Offset f then drop (nat (f_Offset f)) xs else xs)
      in if 0 < f_Limit f then take (nat (f_Limit f)) xs else xs)"

text \<open>Ready to be claimed: pending and due, or running with an expired lease.\<close>

definition claimable :: "time \<Rightarrow> Run \<Rightarrow> bool" where
  "claimable now r \<longleftrightarrow>
     r_State r = StatePending \<and> r_ScheduledFor r \<le> now \<or> r_State r = StateRunning \<and> r_LeaseExpiry r < now"

text \<open>Oldest slot first; among equal slots the smaller identifier first.\<close>

definition due_before :: "Run \<Rightarrow> Run \<Rightarrow> bool" where
  "due_before a b \<longleftrightarrow>
     (if r_ScheduledFor a \<noteq> r_ScheduledFor b then r_ScheduledFor a < r_ScheduledFor b else r_ID a < r_ID b)"

definition claim_run :: "time \<Rightarrow> string \<Rightarrow> duration \<Rightarrow> Run \<Rightarrow> Run" where
  "claim_run now worker lease r =
     r\<lparr>r_State := StateRunning, r_Worker := worker, r_LeaseExpiry := now + lease,
       r_StartedAt := (case r_StartedAt r of None \<Rightarrow> Some now | Some t \<Rightarrow> Some t), r_UpdatedAt := now\<rparr>"

definition claim_limit :: "int \<Rightarrow> 'a list \<Rightarrow> 'a list" where
  "claim_limit limit xs = (if 0 < limit \<and> limit < int (length xs) then take (nat limit) xs else xs)"

interpretation newer_order: slice_order run_newer
  by unfold_locales (auto simp: run_newer_def split: if_splits)

interpretation due_order: slice_order due_before
  by unfold_locales (auto simp: due_before_def split: if_splits)

lemma run_newer_total: "r_ID a \<noteq> r_ID b \<Longrightarrow> run_newer a b \<or> run_newer b a"
  by (auto simp: run_newer_def)

lemma due_before_total: "r_ID a \<noteq> r_ID b \<Longrightarrow> due_before a b \<or> due_before b a"
  by (auto simp: due_before_def)

lemma claim_run_sel [simp]:
  "r_ID (claim_run now w l r) = r_ID r" "r_JobID (claim_run now w l r) = r_JobID r"
  "r_BatchID (claim_run now w l r) = r_BatchID r" "r_State (claim_run now w l r) = StateRunning"
  "r_Attempt (claim_run now w l r) = r_Attempt r" "r_ScheduledFor (claim_run now w l r) = r_ScheduledFor r"
  "r_LeaseExpiry (claim_run now w l r) = now + l" "r_Worker (claim_run now w l r) = w"
  "r_CreatedAt (claim_run now w l r) = r_CreatedAt r" "r_UpdatedAt (claim_run now w l r) = now"
  "r_Error (claim_run now w l r) = r_Error r" "r_FinishedAt (claim_run now w l r) = r_FinishedAt r"
  by (simp_all add: claim_run_def)

lemma claim_run_StartedAt [simp]: "r_StartedAt (claim_run now w l r) \<noteq> None"
  by (simp add: claim_run_def split: option.split)

text \<open>The runs of a finite map that satisfy a test, in an order that separates them.\<close>

definition listing :: "(Run \<Rightarrow> Run \<Rightarrow> bool) \<Rightarrow> (Run \<Rightarrow> bool) \<Rightarrow> (string \<rightharpoonup> Run) \<Rightarrow> Run list \<Rightarrow> bool" where
  "listing lt P m xs \<longleftrightarrow> distinct xs \<and> set xs = {r. r \<in> ran m \<and> P r} \<and> sorted_wrt lt xs"

text \<open>Claiming overwrites the entries of the claimed runs.\<close>

definition overwrite_runs :: "(string \<rightharpoonup> Run) \<Rightarrow> Run list \<Rightarrow> (string \<rightharpoonup> Run)" where
  "overwrite_runs m xs = m ++ map_of (map (\<lambda>r. (r_ID r, r)) xs)"

section \<open>Contract\<close>

locale store_contract =
  fixes ops :: "'s store_ops"
    and inv :: "'s \<Rightarrow> bool"
    and jobs_of :: "'s \<Rightarrow> string \<rightharpoonup> Job"
    and runs_of :: "'s \<Rightarrow> string \<rightharpoonup> Run"
  assumes job_key: "inv s \<Longrightarrow> jobs_of s k = Some j \<Longrightarrow> j_ID j = k"
    and run_key: "inv s \<Longrightarrow> runs_of s k = Some r \<Longrightarrow> r_ID r = k"
    and PutJob_law: "inv s \<Longrightarrow> st_PutJob ops j s = (res_u, s') \<Longrightarrow>
          inv s' \<and> runs_of s' = runs_of s \<and>
          jobs_of s' = (case res_u of Inl e \<Rightarrow> jobs_of s | Inr _ \<Rightarrow> (jobs_of s)(j_ID j \<mapsto> j))"
    and DeleteJob_law: "inv s \<Longrightarrow> st_DeleteJob ops k s = (res_u, s') \<Longrightarrow>
          inv s' \<and> runs_of s' = runs_of s \<and>
          jobs_of s' = (case res_u of Inl e \<Rightarrow> jobs_of s | Inr _ \<Rightarrow> (jobs_of s)(k := None))"
    and GetJob_law: "inv s \<Longrightarrow> st_GetJob ops k s = (res_j, s') \<Longrightarrow>
          inv s' \<and> runs_of s' = runs_of s \<and> jobs_of s' = jobs_of s \<and>
          (case res_j of Inl e \<Rightarrow> e = ErrNotFound \<longrightarrow> jobs_of s k = None | Inr j \<Rightarrow> jobs_of s k = Some j)"
    and ListJobs_law: "inv s \<Longrightarrow> st_ListJobs ops s = (res_js, s') \<Longrightarrow>
          inv s' \<and> runs_of s' = runs_of s \<and> jobs_of s' = jobs_of s \<and>
          (case res_js of Inl e \<Rightarrow> True | Inr js \<Rightarrow> distinct js \<and> set js = ran (jobs_of s))"
    and CreateRun_law: "inv s \<Longrightarrow> st_CreateRun ops r s = (res_u, s') \<Longrightarrow>
          inv s' \<and> jobs_of s' = jobs_of s \<and>
          (case res_u of Inl e \<Rightarrow> runs_of s' = runs_of s
           | Inr _ \<Rightarrow> runs_of s (r_ID r) = None \<longrightarrow> runs_of s' = (runs_of s)(r_ID r \<mapsto> r))"
    and GetRun_law: "inv s \<Longrightarrow> st_GetRun ops k s = (res_r, s') \<Longrightarrow>
          inv s' \<and> runs_of s' = runs_of s \<and> jobs_of s' = jobs_of s \<and>
          (case res_r of Inl e \<Rightarrow> e = ErrNotFound \<longrightarrow> runs_of s k = None | Inr r \<Rightarrow> runs_of s k = Some r)"
    and UpdateRun_law: "inv s \<Longrightarrow> st_UpdateRun ops r s = (res_u, s') \<Longrightarrow>
          inv s' \<and> jobs_of s' = jobs_of s \<and>
          (case res_u of Inl e \<Rightarrow> runs_of s' = runs_of s
           | Inr _ \<Rightarrow> runs_of s (r_ID r) \<noteq> None \<and> runs_of s' = (runs_of s)(r_ID r \<mapsto> r))"
    and ListRuns_law: "inv s \<Longrightarrow> st_ListRuns ops f s = (res_rs, s') \<Longrightarrow>
          inv s' \<and> runs_of s' = runs_of s \<and> jobs_of s' = jobs_of s \<and>
          (case res_rs of Inl e \<Rightarrow> True
           | Inr rs \<Rightarrow> \<exists>xs. listing run_newer (run_matches f) (runs_of s) xs \<and> rs = page f xs)"
    and ClaimDue_law: "inv s \<Longrightarrow> st_ClaimDue ops now w l n s = (res_rs, s') \<Longrightarrow>
          inv s' \<and> jobs_of s' = jobs_of s \<and>
          (case res_rs of Inl e \<Rightarrow> runs_of s' = runs_of s
           | Inr rs \<Rightarrow> \<exists>xs. listing due_before (claimable now) (runs_of s) xs \<and>
               rs = map (claim_run now w l) (claim_limit n xs) \<and> runs_of s' = overwrite_runs (runs_of s) rs)"

text \<open>A store whose operations fail only for a missing entry.\<close>

locale reliable_store = store_contract +
  assumes GetJob_found: "inv s \<Longrightarrow> jobs_of s k = Some j \<Longrightarrow> fst (st_GetJob ops k s) = Inr j"
    and ListJobs_ok: "inv s \<Longrightarrow> \<exists>js. fst (st_ListJobs ops s) = Inr js"
    and CreateRun_ok: "inv s \<Longrightarrow> runs_of s (r_ID r) = None \<Longrightarrow> fst (st_CreateRun ops r s) = Inr ()"
    and UpdateRun_found: "inv s \<Longrightarrow> runs_of s (r_ID r) \<noteq> None \<Longrightarrow> fst (st_UpdateRun ops r s) = Inr ()"
    and ListRuns_ok: "inv s \<Longrightarrow> \<exists>rs. fst (st_ListRuns ops f s) = Inr rs"
    and ClaimDue_ok: "inv s \<Longrightarrow> \<exists>rs. fst (st_ClaimDue ops now w l n s) = Inr rs"

lemma listing_mem: "listing lt P m xs \<Longrightarrow> r \<in> set xs \<longleftrightarrow> r \<in> ran m \<and> P r"
  by (auto simp: listing_def)

lemma page_all: "f_Offset f \<le> 0 \<Longrightarrow> f_Limit f \<le> 0 \<Longrightarrow> page f xs = xs"
  by (simp add: page_def)

lemma map_of_runs:
  "distinct (map r_ID xs) \<Longrightarrow> map_of (map (\<lambda>r. (r_ID r, r)) xs) k = Some r \<longleftrightarrow> r \<in> set xs \<and> r_ID r = k"
  by (subst map_of_eq_Some_iff) (auto simp: o_def)

lemma overwrite_runs_other: "k \<notin> r_ID ` set xs \<Longrightarrow> overwrite_runs m xs k = m k"
  by (auto simp: overwrite_runs_def map_add_def split: option.splits dest!: map_of_SomeD)

lemma overwrite_runs_in: "distinct (map r_ID xs) \<Longrightarrow> r \<in> set xs \<Longrightarrow> overwrite_runs m xs (r_ID r) = Some r"
  by (simp add: overwrite_runs_def map_add_Some_iff map_of_runs)

end
