(* ===== verification/Metrics.thy ===== *)
theory Metrics
  imports Job
begin

text \<open>
  The collectors of \<^verbatim>\<open>src/internal/metrics/metrics.go\<close>. The Prometheus client is not part of the
  repository, so a \<open>Metrics\<close> value is the sequence of calls made on its collectors: every method
  of the wrapper appends the calls it makes, in order. The construction of the collectors takes the
  library's \<^verbatim>\<open>MustRegister\<close>, its empty registry and its default buckets as arguments; every call fits
  the labels its collector was declared with, so that \<^verbatim>\<open>WithLabelValues\<close> does not panic.
\<close>

text \<open>Go's \<^verbatim>\<open>Duration.Seconds\<close>, which divides with truncation towards zero.\<close>

definition Seconds :: "duration \<Rightarrow> f64" where
  "Seconds d =
     (let sec = sgn d * (\<bar>d\<bar> div Nanos); nsec = sgn d * (\<bar>d\<bar> mod Nanos)
      in f64_add (f64_of_int sec) (f64_div_fin (of_int nsec) 1000000000))"

section \<open>Construction\<close>

text \<open>A collector: name, help text, buckets and label names.\<close>

datatype collector =
    CounterVec (collector_name: string) (collector_help: string) (label_names: "string list")
  | HistogramVec (collector_name: string) (collector_help: string) (buckets: "f64 list") (label_names: "string list")
  | Counter (collector_name: string) (collector_help: string)
  | Gauge (collector_name: string) (collector_help: string)
where
    "label_names (Counter n h) = []"
  | "label_names (Gauge n h) = []"

record 'r collectors =
  registry :: 'r
  runsTotal :: collector
  retriesTotal :: collector
  runDuration :: collector
  ticksTotal :: collector
  pendingRuns :: collector
  schedulerLag :: collector

text \<open>\<open>Inl\<close> when \<^verbatim>\<open>MustRegister\<close> panics.\<close>

definition New_metrics :: "('r \<Rightarrow> collector list \<Rightarrow> string + 'r) \<Rightarrow> 'r \<Rightarrow> f64 list \<Rightarrow> string + 'r collectors" where
  "New_metrics must_register reg0 def_buckets =
     (let m = \<lparr>registry = reg0,
            runsTotal = CounterVec ''cronflux_runs_total''
              ''Number of runs that reached a terminal state, by job and state.'' [''job'', ''state''],
            retriesTotal = CounterVec ''cronflux_run_retries_total'' ''Number of run retries scheduled, by job.'' [''job''],
            runDuration = HistogramVec ''cronflux_run_duration_seconds''
              ''Wall-clock duration of run executions, by job.'' def_buckets [''job''],
            ticksTotal = Counter ''cronflux_scheduler_ticks_total'' ''Number of scheduler ticks processed.'',
            pendingRuns = Gauge ''cronflux_pending_runs'' ''Current number of runs waiting to be executed.'',
            schedulerLag = Gauge ''cronflux_scheduler_lag_seconds'' ''Age of the oldest due-but-unclaimed run, in seconds.''\<rparr>
      in case must_register (registry m)
           [runsTotal m, retriesTotal m, runDuration m, ticksTotal m, pendingRuns m, schedulerLag m] of
           Inl panic \<Rightarrow> Inl panic
         | Inr r \<Rightarrow> Inr (m\<lparr>registry := r\<rparr>))"

definition Registry :: "'r collectors \<Rightarrow> 'r" where
  "Registry m = registry m"

section \<open>Operations\<close>

datatype collector_call =
    RunsTotal_Inc string RunState
  | RunDuration_Observe string f64
  | RetriesTotal_Inc string
  | TicksTotal_Inc
  | PendingRuns_Set f64
  | SchedulerLag_Set f64

type_synonym Metrics = "collector_call list"

definition ObserveRun :: "string \<Rightarrow> RunState \<Rightarrow> duration \<Rightarrow> Metrics \<Rightarrow> Metrics" where
  "ObserveRun jobID state dur m = m @ [RunsTotal_Inc jobID state, RunDuration_Observe jobID (Seconds dur)]"

definition IncRetry :: "string \<Rightarrow> Metrics \<Rightarrow> Metrics" where
  "IncRetry jobID m = m @ [RetriesTotal_Inc jobID]"

definition Tick :: "Metrics \<Rightarrow> Metrics" where
  "Tick m = m @ [TicksTotal_Inc]"

definition SetPending :: "int \<Rightarrow> Metrics \<Rightarrow> Metrics" where
  "SetPending n m = m @ [PendingRuns_Set (f64_of_int n)]"

definition SetLag :: "duration \<Rightarrow> Metrics \<Rightarrow> Metrics" where
  "SetLag d m = m @ [SchedulerLag_Set (Seconds d)]"

text \<open>The value of \<^verbatim>\<open>cronflux_runs_total\<close> for a job and a state: how often it was incremented.\<close>

definition runs_total :: "string \<Rightarrow> RunState \<Rightarrow> Metrics \<Rightarrow> nat" where
  "runs_total jobID state m = count_list m (RunsTotal_Inc jobID state)"

section \<open>Calls fit the collectors\<close>

text \<open>The collector a call goes to, and its label values.\<close>

fun target :: "'r collectors \<Rightarrow> collector_call \<Rightarrow> collector \<times> string list" where
  "target m (RunsTotal_Inc jobID state) = (runsTotal m, [jobID, state])"
| "target m (RunDuration_Observe jobID x) = (runDuration m, [jobID])"
| "target m (RetriesTotal_Inc jobID) = (retriesTotal m, [jobID])"
| "target m TicksTotal_Inc = (ticksTotal m, [])"
| "target m (PendingRuns_Set x) = (pendingRuns m, [])"
| "target m (SchedulerLag_Set x) = (schedulerLag m, [])"

theorem labels_fit:
  "New_metrics must_register reg0 def_buckets = Inr m \<Longrightarrow> target m c = (col, vs) \<Longrightarrow> length vs = length (label_names col)"
  by (cases c) (auto simp: New_metrics_def Let_def split: sum.splits)

text \<open>Names that the library accepts.\<close>

definition name_char :: "char \<Rightarrow> bool" where
  "name_char c \<longleftrightarrow> c \<in> set ''abcdefghijklmnopqrstuvwxyzABCDEFGHIJKLMNOPQRSTUVWXYZ_:''"

definition valid_name :: "string \<Rightarrow> bool" where
  "valid_name s \<longleftrightarrow> s \<noteq> [] \<and> name_char (hd s) \<and> list_all (\<lambda>c. name_char c \<or> c \<in> set ''0123456789'') s"

text \<open>With a library that registers collectors with valid and distinct names, \<^verbatim>\<open>New\<close> does not panic and all six
  collectors are registered.\<close>

theorem New_metrics_registers:
  assumes "\<And>cs. distinct (map collector_name cs) \<Longrightarrow> list_all (\<lambda>c. valid_name (collector_name c)) cs \<Longrightarrow>
      \<exists>r. must_register reg0 cs = Inr r \<and> registered r = set cs"
  shows "\<exists>m. New_metrics must_register reg0 def_buckets = Inr m \<and>
    registered (Registry m) = {runsTotal m, retriesTotal m, runDuration m, ticksTotal m, pendingRuns m, schedulerLag m}"
proof -
  define m where "m = projr (New_metrics (\<lambda>r cs. Inr r) reg0 def_buckets)"
  let ?cs = "[runsTotal m, retriesTotal m, runDuration m, ticksTotal m, pendingRuns m, schedulerLag m]"
  have m: "m = projr (New_metrics (\<lambda>r cs. Inr r) reg0 def_buckets)" by (fact m_def)
  have "distinct (map collector_name ?cs)" "list_all (\<lambda>c. valid_name (collector_name c)) ?cs"
    by (simp_all add: m New_metrics_def Let_def valid_name_def name_char_def)
  from assms [OF this] obtain r where r: "must_register reg0 ?cs = Inr r" "registered r = set ?cs" by blast
  have "New_metrics must_register reg0 def_buckets = Inr (m\<lparr>registry := r\<rparr>)"
    using r(1) by (simp add: m New_metrics_def Let_def)
  then show ?thesis using r(2) by (auto simp: Registry_def)
qed

end
