(* ===== verification/Runtime.thy ===== *)
theory Runtime
  imports Store Metrics
begin

text \<open>
  What the scheduler's goroutines share and what they draw from outside. The \<open>world\<close> holds the
  store, the metrics and, for each outside source, how many values have been drawn from it: fresh
  identifiers (\<^verbatim>\<open>newID\<close>), clock readings (\<^verbatim>\<open>clock.Now\<close>), random numbers and executions (as a trace of the calls). The
  \<open>env\<close> fixes the sources as sequences, so a statement about all \<open>env\<close> is a statement about all
  behaviours of the clock, the executor and the random generator.

  A fallible method is an action \<open>'s world \<Rightarrow> (store_error + 'a) \<times> 's world\<close>.
\<close>

record env =
  e_newID :: "nat \<Rightarrow> string"
  e_now :: "nat \<Rightarrow> time"
  e_rand :: "nat \<Rightarrow> f64"
  e_command :: "nat \<Rightarrow> duration option \<Rightarrow> string \<Rightarrow> string list \<Rightarrow> string option"
  e_cancelled :: "nat \<Rightarrow> bool"

record 's world =
  w_store :: 's
  w_metrics :: Metrics
  w_ids :: nat
  w_clock :: nat
  w_rands :: nat
  w_trace :: "(Job \<times> Run) list"

text \<open>The trace lists the calls of the executor, each with the job and the run it was given; the number of calls so
  far picks the next outcome of the \<open>env\<close>.\<close>

abbreviation w_execs :: "'s world \<Rightarrow> nat" where
  "w_execs w \<equiv> length (w_trace w)"

definition ret :: "'a \<Rightarrow> 's world \<Rightarrow> (store_error + 'a) \<times> 's world" where
  "ret a w = (Inr a, w)"

definition bind_act ::
    "('s world \<Rightarrow> (store_error + 'a) \<times> 's world) \<Rightarrow> ('a \<Rightarrow> 's world \<Rightarrow> (store_error + 'b) \<times> 's world) \<Rightarrow>
     's world \<Rightarrow> (store_error + 'b) \<times> 's world" where
  "bind_act m f w = (case m w of (Inl e, w') \<Rightarrow> (Inl e, w') | (Inr a, w') \<Rightarrow> f a w')"

definition call :: "('s \<Rightarrow> (store_error + 'a) \<times> 's) \<Rightarrow> 's world \<Rightarrow> (store_error + 'a) \<times> 's world" where
  "call oper w = (let (res, s) = oper (w_store w) in (res, w\<lparr>w_store := s\<rparr>))"

definition newID :: "env \<Rightarrow> 's world \<Rightarrow> (store_error + string) \<times> 's world" where
  "newID env w = (Inr (e_newID env (w_ids w)), w\<lparr>w_ids := w_ids w + 1\<rparr>)"

definition read_clock :: "env \<Rightarrow> 's world \<Rightarrow> time \<times> 's world" where
  "read_clock env w = (e_now env (w_clock w), w\<lparr>w_clock := w_clock w + 1\<rparr>)"

lemma ret_simps [simp]: "ret a w = (Inr a, w)"
  by (simp add: ret_def)

lemma bind_act_ret [simp]: "bind_act (ret a) f = f a"
  by (simp add: bind_act_def fun_eq_iff)

lemma bind_act_InrE:
  assumes "bind_act m f w = (Inr b, w')"
  obtains a w1 where "m w = (Inr a, w1)" "f a w1 = (Inr b, w')"
  using assms by (auto simp: bind_act_def split: prod.splits sum.splits)

lemma bind_act_Inl: "m w = (Inl e, w1) \<Longrightarrow> bind_act m f w = (Inl e, w1)"
  by (simp add: bind_act_def)

lemma bind_act_Inr: "m w = (Inr a, w1) \<Longrightarrow> bind_act m f w = f a w1"
  by (simp add: bind_act_def)

lemma call_eq: "oper (w_store w) = (res, s) \<Longrightarrow> call oper w = (res, w\<lparr>w_store := s\<rparr>)"
  by (simp add: call_def)

end
