(* ===== verification/Memory.thy ===== *)
theory Memory
  imports Store
begin

text \<open>
  The in-memory store (\<^verbatim>\<open>src/internal/store/memory/memory.go\<close>). Each method holds the mutex from
  its first to its last statement, so a method is one atomic step on the two maps. The maps are
  association lists; their order is the iteration order of one run of the program, and the
  results are shown not to depend on it. The theory ends with the interpretation of the store
  contract and the properties of claiming.
\<close>

section \<open>Definitions\<close>

record MemStore =
  m_jobs :: "(string, Job) gomap"
  m_runs :: "(string, Run) gomap"

definition New :: MemStore where
  "New = \<lparr>m_jobs = [], m_runs = []\<rparr>"

definition PutJob :: "Job \<Rightarrow> MemStore \<Rightarrow> (store_error + unit) \<times> MemStore" where
  "PutJob j s = (Inr (), s\<lparr>m_jobs := AList.update (j_ID j) (JobClone j) (m_jobs s)\<rparr>)"

definition GetJob :: "string \<Rightarrow> MemStore \<Rightarrow> (store_error + Job) \<times> MemStore" where
  "GetJob jid s =
     (case map_of (m_jobs s) jid of
        None \<Rightarrow> (Inl ErrNotFound, s)
      | Some j \<Rightarrow> (Inr (JobClone j), s))"

definition job_before :: "Job \<Rightarrow> Job \<Rightarrow> bool" where
  "job_before a b \<longleftrightarrow> j_ID a < j_ID b"

definition ListJobs :: "MemStore \<Rightarrow> (store_error + Job list) \<times> MemStore" where
  "ListJobs s = (Inr (sort_slice job_before (map (JobClone \<circ> snd) (m_jobs s))), s)"

definition DeleteJob :: "string \<Rightarrow> MemStore \<Rightarrow> (store_error + unit) \<times> MemStore" where
  "DeleteJob jid s =
     (case map_of (m_jobs s) jid of
        None \<Rightarrow> (Inl ErrNotFound, s)
      | Some _ \<Rightarrow> (Inr (), s\<lparr>m_jobs := AList.delete jid (m_jobs s)\<rparr>))"

definition Close :: "MemStore \<Rightarrow> (store_error + unit) \<times> MemStore" where
  "Close s = (Inr (), s)"

definition CreateRun :: "Run \<Rightarrow> MemStore \<Rightarrow> (store_error + unit) \<times> MemStore" where
  "CreateRun r s = (Inr (), s\<lparr>m_runs := AList.update (r_ID r) (RunClone r) (m_runs s)\<rparr>)"

definition GetRun :: "string \<Rightarrow> MemStore \<Rightarrow> (store_error + Run) \<times> MemStore" where
  "GetRun rid s =
     (case map_of (m_runs s) rid of
        None \<Rightarrow> (Inl ErrNotFound, s)
      | Some r \<Rightarrow> (Inr (RunClone r), s))"

definition UpdateRun :: "Run \<Rightarrow> MemStore \<Rightarrow> (store_error + unit) \<times> MemStore" where
  "UpdateRun r s =
     (case map_of (m_runs s) (r_ID r) of
        None \<Rightarrow> (Inl ErrNotFound, s)
      | Some _ \<Rightarrow> (Inr (), s\<lparr>m_runs := AList.update (r_ID r) (RunClone r) (m_runs s)\<rparr>))"

text \<open>The loop that collects the matching runs, with its \<^verbatim>\<open>continue\<close>s.\<close>

fun collect_runs :: "RunFilter \<Rightarrow> Run list \<Rightarrow> Run list" where
  "collect_runs f [] = []"
| "collect_runs f (r # rs) =
     (if f_JobID f \<noteq> [] \<and> r_JobID r \<noteq> f_JobID f then collect_runs f rs
      else if f_BatchID f \<noteq> [] \<and> r_BatchID r \<noteq> f_BatchID f then collect_runs f rs
      else if f_State f \<noteq> [] \<and> r_State r \<noteq> f_State f then collect_runs f rs
      else RunClone r # collect_runs f rs)"

definition ListRuns :: "RunFilter \<Rightarrow> MemStore \<Rightarrow> (store_error + Run list) \<times> MemStore" where
  "ListRuns f s =
     (let out = sort_slice run_newer (collect_runs f (map snd (m_runs s)))
      in if 0 < f_Offset f \<and> int (length out) \<le> f_Offset f then (Inr [], s)
         else let out = (if 0 < f_Offset f then drop (nat (f_Offset f)) out else out)
              in (Inr (if 0 < f_Limit f \<and> f_Limit f < int (length out) then take (nat (f_Limit f)) out else out), s))"

text \<open>The loop that collects the ready runs.\<close>

fun collect_ready :: "time \<Rightarrow> Run list \<Rightarrow> Run list" where
  "collect_ready now [] = []"
| "collect_ready now (r # rs) =
     (if r_State r = StatePending \<and> \<not> now < r_ScheduledFor r then r # collect_ready now rs
      else if r_State r = StateRunning \<and> r_LeaseExpiry r < now then r # collect_ready now rs
      else collect_ready now rs)"

text \<open>The loop that leases them.\<close>

fun lease_runs :: "time \<Rightarrow> string \<Rightarrow> duration \<Rightarrow> Run list \<Rightarrow> (string, Run) gomap \<Rightarrow> Run list \<Rightarrow> Run list \<times> (string, Run) gomap" where
  "lease_runs now worker lease [] runs claimed = (claimed, runs)"
| "lease_runs now worker lease (r # rs) runs claimed =
     (let r = r\<lparr>r_State := StateRunning\<rparr>;
          r = r\<lparr>r_Worker := worker\<rparr>;
          r = r\<lparr>r_LeaseExpiry := now + lease\<rparr>;
          r = (if r_StartedAt r = None then r\<lparr>r_StartedAt := Some now\<rparr> else r);
          r = r\<lparr>r_UpdatedAt := now\<rparr>
      in lease_runs now worker lease rs (AList.update (r_ID r) r runs) (claimed @ [RunClone r]))"

definition ClaimDue :: "time \<Rightarrow> string \<Rightarrow> duration \<Rightarrow> int \<Rightarrow> MemStore \<Rightarrow> (store_error + Run list) \<times> MemStore" where
  "ClaimDue now worker lease limit s =
     (let ready = sort_slice due_before (collect_ready now (map snd (m_runs s)));
          ready = (if 0 < limit \<and> limit < int (length ready) then take (nat limit) ready else ready);
          (claimed, runs) = lease_runs now worker lease ready (m_runs s) []
      in (Inr claimed, s\<lparr>m_runs := runs\<rparr>))"

definition memory_ops :: "MemStore store_ops" where
  "memory_ops = \<lparr>st_PutJob = PutJob, st_GetJob = GetJob, st_ListJobs = ListJobs, st_DeleteJob = DeleteJob,
     st_CreateRun = CreateRun, st_GetRun = GetRun, st_UpdateRun = UpdateRun, st_ListRuns = ListRuns,
     st_ClaimDue = ClaimDue, st_Close = Close\<rparr>"

section \<open>Invariant and abstraction\<close>

definition mem_inv :: "MemStore \<Rightarrow> bool" where
  "mem_inv s \<longleftrightarrow>
     gomap_ok (m_jobs s) \<and> gomap_ok (m_runs s) \<and>
     list_all (\<lambda>(k, j). j_ID j = k) (m_jobs s) \<and> list_all (\<lambda>(k, r). r_ID r = k) (m_runs s)"

definition mem_jobs :: "MemStore \<Rightarrow> string \<rightharpoonup> Job" where
  "mem_jobs s = map_of (m_jobs s)"

definition mem_runs :: "MemStore \<Rightarrow> string \<rightharpoonup> Run" where
  "mem_runs s = map_of (m_runs s)"

lemma list_all_update:
  assumes "list_all P m" "P (k, v)"
  shows "list_all P (AList.update k v m)"
  using assms by (induction m) auto

lemma list_all_delete: "list_all P m \<Longrightarrow> list_all P (AList.delete k m)"
  by (simp add: list_all_iff AList.delete_eq)

lemma mem_inv_New: "mem_inv New"
  by (simp add: mem_inv_def New_def)

lemma collect_runs_eq: "collect_runs f rs = filter (run_matches f) rs"
  by (induction f rs rule: collect_runs.induct) (auto simp: run_matches_def)

lemma collect_ready_eq: "collect_ready now rs = filter (claimable now) rs"
  by (induction now rs rule: collect_ready.induct) (auto simp: claimable_def not_less)

lemma ListRuns_eq:
  "ListRuns f s = (Inr (page f (sort_slice run_newer (filter (run_matches f) (map snd (m_runs s))))), s)"
  by (auto simp: ListRuns_def Let_def page_def collect_runs_eq)

lemma lease_runs_eq:
  "lease_runs now w l rs runs acc =
     (acc @ map (claim_run now w l) rs, fold (\<lambda>r. AList.update (r_ID r) (claim_run now w l r)) rs runs)"
proof (induction rs arbitrary: runs acc)
  case (Cons r rs)
  have "(let r = r\<lparr>r_State := StateRunning\<rparr>; r = r\<lparr>r_Worker := w\<rparr>; r = r\<lparr>r_LeaseExpiry := now + l\<rparr>;
          r = (if r_StartedAt r = None then r\<lparr>r_StartedAt := Some now\<rparr> else r) in r\<lparr>r_UpdatedAt := now\<rparr>)
        = claim_run now w l r"
    by (auto simp: Let_def claim_run_def)
  then show ?case using Cons.IH by (simp add: Let_def)
qed simp

lemma mem_values:
  assumes "mem_inv s"
  shows "distinct (map r_ID (map snd (m_runs s)))" "set (map snd (m_runs s)) = ran (mem_runs s)"
proof -
  have "map r_ID (map snd (m_runs s)) = map fst (m_runs s)"
    using assms by (auto simp: mem_inv_def list_all_iff)
  then show "distinct (map r_ID (map snd (m_runs s)))" using assms by (simp only: mem_inv_def)
  show "set (map snd (m_runs s)) = ran (mem_runs s)"
    using assms gomap_values [of "m_runs s"] by (auto simp: mem_inv_def mem_runs_def ran_def)
qed

lemma strictly_sorted:
  assumes "slice_sorted lt xs" "distinct (map r_ID xs)" "\<And>a b. r_ID a \<noteq> r_ID b \<Longrightarrow> lt a b \<or> lt b a"
  shows "sorted_wrt lt xs"
  using assms(1,2) by (induction xs) (use assms(3) in force)+

lemma listing_sort:
  assumes "mem_inv s" "slice_order lt" "\<And>a b. r_ID a \<noteq> r_ID b \<Longrightarrow> lt a b \<or> lt b a"
  shows "listing lt P (mem_runs s) (sort_slice lt (filter P (map snd (m_runs s))))"
proof -
  let ?xs = "filter P (map snd (m_runs s))"
  have d: "distinct (map r_ID ?xs)" using mem_values(1) [OF assms(1)] distinct_map_filter by blast
  then have "distinct (map r_ID (sort_slice lt ?xs))"
    using distinct_map_mset_cong [of "sort_slice lt ?xs" ?xs r_ID] by simp
  moreover have "slice_sorted lt (sort_slice lt ?xs)" by (rule slice_order.sorted_sort_slice [OF assms(2)])
  ultimately have "sorted_wrt lt (sort_slice lt ?xs)" "distinct (sort_slice lt ?xs)"
    using strictly_sorted assms(3) by (blast, blast dest: distinct_map [THEN iffD1])
  moreover have "set (sort_slice lt ?xs) = {r. r \<in> ran (mem_runs s) \<and> P r}"
    using mem_values(2) [OF assms(1)] by auto
  ultimately show ?thesis by (simp add: listing_def)
qed

lemma mem_keys:
  "mem_inv s \<Longrightarrow> mem_jobs s k = Some j \<Longrightarrow> j_ID j = k"
  "mem_inv s \<Longrightarrow> mem_runs s k = Some r \<Longrightarrow> r_ID r = k"
  by (auto simp: mem_inv_def mem_jobs_def mem_runs_def list_all_iff dest!: map_of_SomeD)

lemma listing_IDs:
  assumes "mem_inv s" "listing lt P (mem_runs s) xs"
  shows "distinct (map r_ID xs)"
proof -
  have "mem_runs s (r_ID x) = Some x" if "x \<in> set xs" for x
    using that assms mem_keys(2) [OF assms(1)] by (fastforce simp: listing_def ran_def)
  then have "inj_on r_ID (set xs)" by (metis inj_onI option.inject)
  then show ?thesis using assms(2) by (simp add: distinct_map listing_def)
qed

lemma fold_update:
  "distinct (map r_ID rs) \<Longrightarrow>
     map_of (fold (\<lambda>r. AList.update (r_ID r) (g r)) rs m) = map_of m ++ map_of (map (\<lambda>r. (r_ID r, g r)) rs)"
proof (induction rs arbitrary: m)
  case (Cons r rs)
  have "map_of (map (\<lambda>r. (r_ID r, g r)) rs) (r_ID r) = None"
    using Cons.prems by (auto simp: map_of_eq_None_iff)
  then show ?case using Cons by (auto simp: fun_eq_iff map_add_def split: option.split)
qed simp

lemma fold_update_inv:
  "gomap_ok m \<Longrightarrow> list_all (\<lambda>(k, r). r_ID r = k) m \<Longrightarrow> \<forall>r\<in>set rs. r_ID (g r) = r_ID r \<Longrightarrow>
     gomap_ok (fold (\<lambda>r. AList.update (r_ID r) (g r)) rs m) \<and>
     list_all (\<lambda>(k, r). r_ID r = k) (fold (\<lambda>r. AList.update (r_ID r) (g r)) rs m)"
  by (induction rs arbitrary: m) (auto simp: list_all_update)

lemma claim_limit_eq:
  "(if 0 < limit \<and> limit < int (length xs) then take (nat limit) xs else xs) = claim_limit limit xs"
  by (simp add: claim_limit_def)

lemma set_claim_limit: "set (claim_limit n xs) \<subseteq> set xs"
  by (auto simp: claim_limit_def dest: in_set_takeD)

lemma distinct_claim_limit: "distinct (map f xs) \<Longrightarrow> distinct (map f (claim_limit n xs))"
  by (simp add: claim_limit_def take_map [symmetric])

lemma ClaimDue_eq:
  assumes "mem_inv s"
  shows "\<exists>xs s'. listing due_before (claimable now) (mem_runs s) xs \<and>
           ClaimDue now w l n s = (Inr (map (claim_run now w l) (claim_limit n xs)), s') \<and>
           mem_inv s' \<and> mem_jobs s' = mem_jobs s \<and>
           mem_runs s' = overwrite_runs (mem_runs s) (map (claim_run now w l) (claim_limit n xs))"
proof -
  define xs where "xs = sort_slice due_before (filter (claimable now) (map snd (m_runs s)))"
  define rs where "rs = claim_limit n xs"
  define runs where "runs = fold (\<lambda>r. AList.update (r_ID r) (claim_run now w l r)) rs (m_runs s)"
  have l: "listing due_before (claimable now) (mem_runs s) xs"
    unfolding xs_def by (rule listing_sort [OF assms due_order.slice_order_axioms due_before_total])
  have "distinct (map r_ID rs)" unfolding rs_def by (rule distinct_claim_limit [OF listing_IDs [OF assms l]])
  then have "map_of runs = overwrite_runs (mem_runs s) (map (claim_run now w l) rs)"
    unfolding runs_def by (simp add: fold_update overwrite_runs_def mem_runs_def o_def)
  moreover have "gomap_ok runs \<and> list_all (\<lambda>(k, r). r_ID r = k) runs"
    unfolding runs_def using assms by (intro fold_update_inv) (auto simp: mem_inv_def)
  moreover have "ClaimDue now w l n s = (Inr (map (claim_run now w l) rs), s\<lparr>m_runs := runs\<rparr>)"
    unfolding ClaimDue_def Let_def collect_ready_eq claim_limit_eq xs_def [symmetric] rs_def [symmetric]
    by (simp add: lease_runs_eq runs_def)
  ultimately show ?thesis
    using l assms by (intro exI [of _ xs] exI [of _ "s\<lparr>m_runs := runs\<rparr>"])
      (auto simp: rs_def mem_inv_def mem_jobs_def mem_runs_def)
qed

lemma ListJobs_set:
  assumes "mem_inv s"
  shows "distinct (sort_slice job_before (map (JobClone \<circ> snd) (m_jobs s)))"
    "set (sort_slice job_before (map (JobClone \<circ> snd) (m_jobs s))) = ran (mem_jobs s)"
proof -
  have "map j_ID (map snd (m_jobs s)) = map fst (m_jobs s)"
    using assms by (auto simp: mem_inv_def list_all_iff)
  then have "distinct (map j_ID (map snd (m_jobs s)))" using assms by (simp only: mem_inv_def)
  then have "distinct (map snd (m_jobs s))" using distinct_map by blast
  then show "distinct (sort_slice job_before (map (JobClone \<circ> snd) (m_jobs s)))" by (simp add: o_def)
  show "set (sort_slice job_before (map (JobClone \<circ> snd) (m_jobs s))) = ran (mem_jobs s)"
    using assms gomap_values [of "m_jobs s"] by (auto simp: o_def mem_inv_def mem_jobs_def ran_def image_iff)
qed

lemma mem_inv_update_job: "mem_inv s \<Longrightarrow> mem_inv (s\<lparr>m_jobs := AList.update (j_ID j) j (m_jobs s)\<rparr>)"
  by (auto simp: mem_inv_def list_all_update)

lemma mem_inv_update_run: "mem_inv s \<Longrightarrow> mem_inv (s\<lparr>m_runs := AList.update (r_ID r) r (m_runs s)\<rparr>)"
  by (auto simp: mem_inv_def list_all_update)

lemma mem_inv_delete_job: "mem_inv s \<Longrightarrow> mem_inv (s\<lparr>m_jobs := AList.delete k (m_jobs s)\<rparr>)"
  by (auto simp: mem_inv_def list_all_delete)

lemmas mem_defs = memory_ops_def PutJob_def GetJob_def ListJobs_def DeleteJob_def CreateRun_def GetRun_def
  UpdateRun_def

interpretation mem: reliable_store memory_ops mem_inv mem_jobs mem_runs
proof unfold_locales
  fix s s' :: MemStore and now w l n res_rs
  assume i: "mem_inv s"
  {
    assume "st_ClaimDue memory_ops now w l n s = (res_rs, s')"
    then show "mem_inv s' \<and> mem_jobs s' = mem_jobs s \<and>
       (case res_rs of Inl e \<Rightarrow> mem_runs s' = mem_runs s
        | Inr rs \<Rightarrow> \<exists>xs. listing due_before (claimable now) (mem_runs s) xs \<and>
            rs = map (claim_run now w l) (claim_limit n xs) \<and> mem_runs s' = overwrite_runs (mem_runs s) rs)"
      using ClaimDue_eq [OF i, of now w l n] by (auto simp: memory_ops_def)
  }
  show "\<exists>rs. fst (st_ClaimDue memory_ops now w l n s) = Inr rs"
    using ClaimDue_eq [OF i, of now w l n] by (auto simp: memory_ops_def)
next
  fix s s' :: MemStore and f res_rs
  assume i: "mem_inv s" and "st_ListRuns memory_ops f s = (res_rs, s')"
  then show "mem_inv s' \<and> mem_runs s' = mem_runs s \<and> mem_jobs s' = mem_jobs s \<and>
       (case res_rs of Inl e \<Rightarrow> True | Inr rs \<Rightarrow> \<exists>xs. listing run_newer (run_matches f) (mem_runs s) xs \<and> rs = page f xs)"
    using listing_sort [OF i newer_order.slice_order_axioms run_newer_total, of "run_matches f"]
    by (auto simp: memory_ops_def ListRuns_eq intro!: exI)
next
  fix s s' :: MemStore and res_js
  assume "mem_inv s" "st_ListJobs memory_ops s = (res_js, s')"
  then show "mem_inv s' \<and> mem_runs s' = mem_runs s \<and> mem_jobs s' = mem_jobs s \<and>
      (case res_js of Inl e \<Rightarrow> True | Inr js \<Rightarrow> distinct js \<and> set js = ran (mem_jobs s))"
    using ListJobs_set [of s] unfolding memory_ops_def ListJobs_def
    by (auto simp del: distinct_sort_slice set_sort_slice)
qed (auto simp: mem_defs ListRuns_eq mem_keys mem_inv_update_job mem_inv_update_run mem_inv_delete_job
    split: option.splits, auto simp: mem_jobs_def mem_runs_def)

section \<open>Properties\<close>

text \<open>C5: the in-memory store implements the store contract: it starts empty, keeps its invariant, and
  every method acts on the abstract maps of jobs and runs as the interface documents, failing only
  for missing entries.\<close>

theorem memory_implements_store:
  "reliable_store memory_ops mem_inv mem_jobs mem_runs \<and> mem_inv New \<and>
   mem_jobs New = Map.empty \<and> mem_runs New = Map.empty"
  by (simp add: mem.reliable_store_axioms mem_inv_New) (simp add: New_def mem_jobs_def mem_runs_def)

lemma ClaimDue_cases:
  assumes "mem_inv s" "ClaimDue now w l n s = (Inr rs, s')"
  obtains xs where "listing due_before (claimable now) (mem_runs s) xs" "rs = map (claim_run now w l) (claim_limit n xs)"
    "mem_inv s'" "mem_runs s' = overwrite_runs (mem_runs s) rs" "distinct (map r_ID rs)"
proof -
  obtain xs where xs: "listing due_before (claimable now) (mem_runs s) xs" "rs = map (claim_run now w l) (claim_limit n xs)"
    "mem_inv s'" "mem_runs s' = overwrite_runs (mem_runs s) rs"
    using ClaimDue_eq [OF assms(1), of now w l n] assms(2) by auto
  moreover have "distinct (map r_ID rs)"
    using distinct_claim_limit [OF listing_IDs [OF assms(1) xs(1)], of n] xs(2) by (simp add: o_def)
  ultimately show thesis using that by blast
qed

lemma due_before_claim: "due_before (claim_run now w l a) (claim_run now w l b) = due_before a b"
  by (simp add: due_before_def)

lemma sorted_wrt_claim_limit:
  assumes "sorted_wrt lt xs" "x \<in> set (claim_limit n xs)" "y \<in> set xs" "y \<notin> set (claim_limit n xs)"
  shows "lt x y"
proof -
  have "claim_limit n xs = take (nat n) xs" "y \<in> set (drop (nat n) xs)"
    using assms(3,4) by (auto simp: claim_limit_def split: if_splits) (metis Un_iff append_take_drop_id set_append)
  then show ?thesis
    using assms(1,2) by (metis append_take_drop_id sorted_wrt_append)
qed

text \<open>C7: what \<^verbatim>\<open>ClaimDue\<close> hands out. Every claimed run was ready, is now leased to the worker until
  the end of the lease, and is stored that way; the runs come oldest slot first, at most the limit
  of them, every other run is untouched, and a ready run is left behind only when the limit is
  used up by runs due before it.\<close>

theorem ClaimDue_leases:
  assumes "mem_inv s" "ClaimDue now w l n s = (Inr rs, s')"
  shows "(\<forall>r\<in>set rs. (\<exists>r0. mem_runs s (r_ID r) = Some r0 \<and> claimable now r0 \<and> r = claim_run now w l r0) \<and>
            mem_runs s' (r_ID r) = Some r) \<and>
         sorted_wrt due_before rs \<and> (0 < n \<longrightarrow> int (length rs) \<le> n) \<and>
         (\<forall>k. k \<notin> r_ID ` set rs \<longrightarrow> mem_runs s' k = mem_runs s k) \<and>
         (\<forall>q. mem_runs s (r_ID q) = Some q \<and> claimable now q \<and> r_ID q \<notin> r_ID ` set rs \<longrightarrow>
            0 < n \<and> int (length rs) = n \<and> (\<forall>r\<in>set rs. due_before r q))"
proof -
  obtain xs where xs: "listing due_before (claimable now) (mem_runs s) xs" "rs = map (claim_run now w l) (claim_limit n xs)"
    "mem_inv s'" "mem_runs s' = overwrite_runs (mem_runs s) rs" "distinct (map r_ID rs)"
    by (rule ClaimDue_cases [OF assms])
  have key: "mem_runs s (r_ID x) = Some x" if "x \<in> set xs" for x
    using that xs(1) mem_keys(2) [OF assms(1)] by (fastforce simp: listing_def ran_def)
  have 1: "(\<exists>r0. mem_runs s (r_ID r) = Some r0 \<and> claimable now r0 \<and> r = claim_run now w l r0) \<and> mem_runs s' (r_ID r) = Some r"
    if "r \<in> set rs" for r
  proof -
    obtain r0 where r0: "r0 \<in> set xs" "r = claim_run now w l r0" using \<open>r \<in> set rs\<close> xs(2) set_claim_limit by fastforce
    then have "claimable now r0" using xs(1) by (auto simp: listing_def)
    moreover have "mem_runs s' (r_ID r) = Some r" unfolding xs(4) by (rule overwrite_runs_in [OF xs(5) that])
    ultimately show ?thesis using key [OF r0(1)] r0(2) by auto
  qed
  have "sorted_wrt due_before (claim_limit n xs)"
    using xs(1) by (auto simp: listing_def claim_limit_def sorted_wrt_take)
  then have 2: "sorted_wrt due_before rs" unfolding xs(2) by (simp add: sorted_wrt_map due_before_claim)
  have 3: "0 < n \<longrightarrow> int (length rs) \<le> n" unfolding xs(2) by (auto simp: claim_limit_def)
  have 4: "k \<notin> r_ID ` set rs \<longrightarrow> mem_runs s' k = mem_runs s k" for k
    unfolding xs(4) using overwrite_runs_other by blast
  have 5: "0 < n \<and> int (length rs) = n \<and> (\<forall>r\<in>set rs. due_before r q)"
    if "mem_runs s (r_ID q) = Some q" "claimable now q" "r_ID q \<notin> r_ID ` set rs" for q
  proof -
    have q: "q \<in> set xs" using that xs(1) by (auto simp: listing_def ran_def)
    moreover have qn: "q \<notin> set (claim_limit n xs)" using that(3) unfolding xs(2) by (auto simp: image_image)
    ultimately have "0 < n \<and> int (length rs) = n" unfolding xs(2) by (auto simp: claim_limit_def split: if_splits)
    moreover have "due_before r q" if "r \<in> set rs" for r
    proof -
      obtain r0 where "r0 \<in> set (claim_limit n xs)" "r = claim_run now w l r0" using \<open>r \<in> set rs\<close> xs(2) by auto
      then show ?thesis
        using sorted_wrt_claim_limit [OF _ _ q qn, of due_before r0] xs(1) by (simp add: listing_def due_before_def)
    qed
    ultimately show ?thesis by blast
  qed
  show ?thesis using 1 2 3 4 5 by blast
qed

text \<open>Two pending runs, due at 5 and at 8, and one still in the future.\<close>

definition pending_run :: "string \<Rightarrow> time \<Rightarrow> Run" where
  "pending_run rid t = zero_run\<lparr>r_ID := rid, r_JobID := ''j'', r_BatchID := ''b'', r_State := StatePending, r_ScheduledFor := t\<rparr>"

definition sample_store :: MemStore where
  "sample_store = \<lparr>m_jobs = [], m_runs = [(''x'', pending_run ''x'' 8), (''y'', pending_run ''y'' 5), (''z'', pending_run ''z'' 90)]\<rparr>"

lemma sample_store_inv: "mem_inv sample_store"
  by code_simp

theorem ClaimDue_leases_witness:
  "mem_inv sample_store \<and>
   (\<exists>rs s'. ClaimDue 10 ''w'' 30 1 sample_store = (Inr rs, s') \<and> map r_ID rs = [''y''] \<and>
      due_before (claim_run 10 ''w'' 30 (pending_run ''y'' 5)) (pending_run ''x'' 8) \<and> mem_runs s' ''x'' = Some (pending_run ''x'' 8))"
proof -
  define rs where "rs = [claim_run 10 ''w'' 30 (pending_run ''y'' 5)]"
  obtain s' where c: "ClaimDue 10 ''w'' 30 1 sample_store = (Inr rs, s')"
  proof -
    have "fst (ClaimDue 10 ''w'' 30 1 sample_store) = Inr rs" unfolding rs_def by code_simp
    then show thesis using that by (cases "ClaimDue 10 ''w'' 30 1 sample_store") auto
  qed
  have x: "mem_runs sample_store ''x'' = Some (pending_run ''x'' 8)" "claimable 10 (pending_run ''x'' 8)"
    "r_ID (pending_run ''x'' 8) = ''x''" "r_ID ` set rs = {''y''}" "map r_ID rs = [''y'']"
    by (simp_all add: sample_store_def mem_runs_def claimable_def pending_run_def rs_def)
  have "\<forall>r\<in>set rs. due_before r (pending_run ''x'' 8)" "mem_runs s' ''x'' = mem_runs sample_store ''x''"
    using ClaimDue_leases [OF sample_store_inv c] x by auto
  then show ?thesis using c x sample_store_inv by (auto simp: rs_def)
qed

text \<open>C36: no run is handed out twice during its lease: a second claim, at any time up to the end of
  the first claim's lease, returns none of the runs of the first.\<close>

theorem ClaimDue_exclusive:
  assumes "mem_inv s" "ClaimDue now w l n s = (Inr rs, s1)" "ClaimDue now2 w2 l2 n2 s1 = (Inr rs2, s2)" "now2 \<le> now + l"
  shows "r_ID ` set rs \<inter> r_ID ` set rs2 = {}"
proof -
  obtain xs where xs: "rs = map (claim_run now w l) (claim_limit n xs)"
    "mem_inv s1" "mem_runs s1 = overwrite_runs (mem_runs s) rs" "distinct (map r_ID rs)"
    by (rule ClaimDue_cases [OF assms(1,2)])
  obtain ys where ys: "listing due_before (claimable now2) (mem_runs s1) ys" "rs2 = map (claim_run now2 w2 l2) (claim_limit n2 ys)"
    by (rule ClaimDue_cases [OF xs(2) assms(3)])
  have False if "r \<in> set rs" "q \<in> set rs2" "r_ID r = r_ID q" for r q
  proof -
    obtain y where y: "y \<in> set ys" "q = claim_run now2 w2 l2 y" using \<open>q \<in> set rs2\<close> ys(2) set_claim_limit by fastforce
    have "mem_runs s1 (r_ID y) = Some y"
      using y(1) ys(1) mem_keys(2) [OF xs(2)] by (fastforce simp: listing_def ran_def)
    moreover have "mem_runs s1 (r_ID r) = Some r" unfolding xs(3) by (rule overwrite_runs_in [OF xs(4) that(1)])
    ultimately have "y = r" using that(3) y(2) by simp
    then have "claimable now2 r" using y(1) ys(1) by (auto simp: listing_def)
    moreover have "r_State r = StateRunning" "r_LeaseExpiry r = now + l" using that(1) xs(1) by auto
    ultimately show False using assms(4) by (simp add: claimable_def)
  qed
  then show ?thesis by blast
qed

theorem ClaimDue_exclusive_witness:
  "r_ID ` set (projr (fst (ClaimDue 10 ''w'' 30 1 sample_store))) \<inter>
   r_ID ` set (projr (fst (ClaimDue 40 ''v'' 30 0 (snd (ClaimDue 10 ''w'' 30 1 sample_store))))) = {}"
proof -
  let ?a = "ClaimDue 10 ''w'' 30 1 sample_store"
  let ?b = "ClaimDue 40 ''v'' 30 0 (snd ?a)"
  have "?a = (Inr (projr (fst ?a)), snd ?a)" "?b = (Inr (projr (fst ?b)), snd ?b)"
    by (auto simp: ClaimDue_def Let_def split_beta)
  then show ?thesis using ClaimDue_exclusive [OF sample_store_inv, of 10 "''w''" 30 1 _ _ 40 "''v''" 30 0] by simp
qed

text \<open>C37: at-least-once delivery: runs that were claimed and never acknowledged are handed out again
  by the first unlimited claim after their lease has expired.\<close>

theorem ClaimDue_redelivers:
  assumes "mem_inv s" "ClaimDue now w l n s = (Inr rs, s1)" "now + l < now2" "n2 \<le> 0"
    "ClaimDue now2 w2 l2 n2 s1 = (Inr rs2, s2)"
  shows "r_ID ` set rs \<subseteq> r_ID ` set rs2"
proof
  fix k assume "k \<in> r_ID ` set rs"
  then obtain r where r: "r \<in> set rs" "k = r_ID r" by blast
  obtain xs where xs: "rs = map (claim_run now w l) (claim_limit n xs)"
    "mem_inv s1" "mem_runs s1 = overwrite_runs (mem_runs s) rs" "distinct (map r_ID rs)"
    by (rule ClaimDue_cases [OF assms(1,2)])
  obtain ys where ys: "listing due_before (claimable now2) (mem_runs s1) ys" "rs2 = map (claim_run now2 w2 l2) (claim_limit n2 ys)"
    by (rule ClaimDue_cases [OF xs(2) assms(5)])
  have "mem_runs s1 (r_ID r) = Some r" unfolding xs(3) by (rule overwrite_runs_in [OF xs(4) r(1)])
  moreover have "claimable now2 r" using r(1) xs(1) assms(3) by (auto simp: claimable_def)
  ultimately have "r \<in> set ys" using ys(1) by (auto simp: listing_def ran_def)
  then have "claim_run now2 w2 l2 r \<in> set rs2" unfolding ys(2) using assms(4) by (simp add: claim_limit_def)
  then show "k \<in> r_ID ` set rs2" using r(2) by (metis claim_run_sel(1) imageI)
qed

theorem ClaimDue_redelivers_witness:
  "{''y''} \<subseteq> r_ID ` set (projr (fst (ClaimDue 41 ''v'' 30 0 (snd (ClaimDue 10 ''w'' 30 1 sample_store)))))"
proof -
  let ?a = "ClaimDue 10 ''w'' 30 1 sample_store"
  let ?b = "ClaimDue 41 ''v'' 30 0 (snd ?a)"
  have "?a = (Inr (projr (fst ?a)), snd ?a)" "?b = (Inr (projr (fst ?b)), snd ?b)"
    by (auto simp: ClaimDue_def Let_def split_beta)
  moreover have "map r_ID (projr (fst ?a)) = [''y'']" by code_simp
  then have "r_ID ` set (projr (fst ?a)) = {''y''}" by (metis list.set(1,2) set_map)
  ultimately show ?thesis
    using ClaimDue_redelivers [OF sample_store_inv, of 10 "''w''" 30 1 "projr (fst ?a)" "snd ?a" 41 0 "''v''" 30] by simp
qed

lemma mem_runs_mset:
  assumes "mem_inv s" "mem_inv t" "mem_runs s = mem_runs t"
  shows "mset (map snd (m_runs s)) = mset (map snd (m_runs t))"
proof -
  have "distinct (map snd (m_runs s))" "distinct (map snd (m_runs t))"
    using mem_values(1) [OF assms(1)] mem_values(1) [OF assms(2)] distinct_map by blast+
  then show ?thesis
    using mem_values(2) [OF assms(1)] mem_values(2) [OF assms(2)] assms(3) by (simp only: set_eq_iff_mset_eq_distinct [symmetric])
qed

lemma sort_runs_perm:
  assumes "mem_inv s" "mem_inv t" "mem_runs s = mem_runs t" "slice_order lt" "\<And>a b. r_ID a \<noteq> r_ID b \<Longrightarrow> lt a b \<or> lt b a"
  shows "sort_slice lt (filter P (map snd (m_runs s))) = sort_slice lt (filter P (map snd (m_runs t)))"
proof (rule sort_slice_perm [OF assms(4)])
  show "mset (filter P (map snd (m_runs s))) = mset (filter P (map snd (m_runs t)))"
    using mem_runs_mset [OF assms(1-3)] by (metis mset_filter)
  fix x y assume "x \<in> set (filter P (map snd (m_runs s)))" "y \<in> set (filter P (map snd (m_runs s)))" "\<not> lt x y" "\<not> lt y x"
  then have "x \<in> ran (mem_runs s)" "y \<in> ran (mem_runs s)" "r_ID x = r_ID y"
    using mem_values(2) [OF assms(1)] assms(5) by auto
  then show "x = y" using mem_keys(2) [OF assms(1)] by (fastforce simp: ran_def)
qed

interpretation job_order: slice_order job_before
  by unfold_locales (auto simp: job_before_def)

lemma sort_jobs_perm:
  assumes "mem_inv s" "mem_inv t" "mem_jobs s = mem_jobs t"
  shows "sort_slice job_before (map (JobClone \<circ> snd) (m_jobs s)) = sort_slice job_before (map (JobClone \<circ> snd) (m_jobs t))"
proof (rule job_order.sort_slice_unique)
  note S = ListJobs_set [OF assms(1)] and T = ListJobs_set [OF assms(2)]
  show "slice_sorted job_before (sort_slice job_before (map (JobClone \<circ> snd) (m_jobs s)))" by (rule job_order.sorted_sort_slice)
  have "set (map (JobClone \<circ> snd) (m_jobs s)) = set (map (JobClone \<circ> snd) (m_jobs t))"
    using S(2) T(2) assms(3) by (simp only: set_sort_slice)
  moreover have "distinct (map (JobClone \<circ> snd) (m_jobs s))" "distinct (map (JobClone \<circ> snd) (m_jobs t))"
    using S(1) T(1) by (simp_all only: distinct_sort_slice)
  ultimately show "mset (sort_slice job_before (map (JobClone \<circ> snd) (m_jobs s))) = mset (map (JobClone \<circ> snd) (m_jobs t))"
    by (simp only: mset_sort_slice set_eq_iff_mset_eq_distinct [symmetric])
  fix x y assume "x \<in> set (map (JobClone \<circ> snd) (m_jobs t))" "y \<in> set (map (JobClone \<circ> snd) (m_jobs t))"
    "\<not> job_before x y" "\<not> job_before y x"
  then have "x \<in> ran (mem_jobs t)" "y \<in> ran (mem_jobs t)" "j_ID x = j_ID y"
    using T(2) by (auto simp: job_before_def)
  then show "x = y" using mem_keys(1) [OF assms(2)] by (fastforce simp: ran_def)
qed

text \<open>Results do not depend on the iteration order of Go's maps: two stores that hold the same
  entries answer every listing and every claim alike.\<close>

theorem memory_order_independent:
  assumes "mem_inv s" "mem_inv t" "mem_jobs s = mem_jobs t" "mem_runs s = mem_runs t"
  shows "fst (ListRuns f s) = fst (ListRuns f t) \<and> fst (ListJobs s) = fst (ListJobs t) \<and>
         fst (ClaimDue now w l n s) = fst (ClaimDue now w l n t)"
proof (intro conjI)
  show "fst (ListRuns f s) = fst (ListRuns f t)"
    using sort_runs_perm [OF assms(1,2,4) newer_order.slice_order_axioms run_newer_total] by (simp add: ListRuns_eq)
  show "fst (ListJobs s) = fst (ListJobs t)"
    using sort_jobs_perm [OF assms(1,2,3)] by (simp add: ListJobs_def)
  show "fst (ClaimDue now w l n s) = fst (ClaimDue now w l n t)"
    using sort_runs_perm [OF assms(1,2,4) due_order.slice_order_axioms due_before_total, of "claimable now"]
    by (simp add: ClaimDue_def Let_def collect_ready_eq lease_runs_eq)
qed

definition sample_store' :: MemStore where
  "sample_store' = \<lparr>m_jobs = [], m_runs = rev (m_runs sample_store)\<rparr>"

theorem memory_order_independent_witness:
  "fst (ClaimDue 10 ''w'' 30 1 sample_store) = fst (ClaimDue 10 ''w'' 30 1 sample_store')"
proof -
  have "mem_inv sample_store'" by code_simp
  moreover have "mem_jobs sample_store = mem_jobs sample_store'" "mem_runs sample_store = mem_runs sample_store'"
    by (auto simp: mem_jobs_def mem_runs_def sample_store_def sample_store'_def)
  ultimately show ?thesis using memory_order_independent [OF sample_store_inv] by blast
qed

text \<open>Paging: an offset and a limit cut exactly that window out of the full listing.\<close>

theorem ListRuns_window:
  "fst (ListRuns (f\<lparr>f_Offset := int a, f_Limit := int (Suc b)\<rparr>) s) =
     Inr (take (Suc b) (drop a (projr (fst (ListRuns (f\<lparr>f_Offset := 0, f_Limit := 0\<rparr>) s)))))"
proof -
  have "run_matches (f\<lparr>f_Offset := x, f_Limit := y\<rparr>) = run_matches f" for x y
    by (simp add: run_matches_def fun_eq_iff)
  then show ?thesis by (simp add: ListRuns_eq page_def nat_add_distrib)
qed

end
