(* ===== verification/Dispatcher.thy ===== *)
theory Dispatcher
  imports Runtime Cron_Parser Memory
begin

text \<open>
  The dispatcher (\<^verbatim>\<open>src/internal/scheduler/dispatcher.go\<close>): it turns elapsed fire times into pending
  runs and advances DAG batches. It is written against the store interface; the lemmas are proved
  once in the locale \<open>store_contract\<close> and instantiated on the in-memory store.
\<close>

section \<open>Definitions\<close>

record dispatcher =
  d_nextFire :: "(string, time) gomap"
  d_parsed :: "(string, Schedule) gomap"

definition newDispatcher :: dispatcher where
  "newDispatcher = \<lparr>d_nextFire = [], d_parsed = []\<rparr>"

fun contains :: "string list \<Rightarrow> string \<Rightarrow> bool" where
  "contains [] want = False"
| "contains (x # xs) want = (if x = want then True else contains xs want)"

fun hasSucceeded :: "Run list \<Rightarrow> bool" where
  "hasSucceeded [] = False"
| "hasSucceeded (r # rs) = (if r_State r = StateSucceeded then True else hasSucceeded rs)"

fun slot_taken :: "Run list \<Rightarrow> time \<Rightarrow> bool" where
  "slot_taken [] fireAt = False"
| "slot_taken (r # rs) fireAt = (if r_ScheduledFor r = fireAt then True else slot_taken rs fireAt)"

definition root_run :: "string \<Rightarrow> string \<Rightarrow> Job \<Rightarrow> time \<Rightarrow> Run" where
  "root_run rid batch j fireAt =
     zero_run\<lparr>r_ID := rid, r_JobID := j_ID j, r_BatchID := batch, r_State := StatePending,
       r_ScheduledFor := fireAt, r_CreatedAt := fireAt, r_UpdatedAt := fireAt\<rparr>"

definition enqueueRoot :: "'s store_ops \<Rightarrow> env \<Rightarrow> Job \<Rightarrow> time \<Rightarrow> 's world \<Rightarrow> (store_error + unit) \<times> 's world" where
  "enqueueRoot ops env j fireAt =
     bind_act (call (st_ListRuns ops (zero_filter\<lparr>f_JobID := j_ID j\<rparr>))) (\<lambda>existing.
       if slot_taken existing fireAt then ret ()
       else bind_act (newID env) (\<lambda>rid.
            bind_act (newID env) (\<lambda>batch.
              call (st_CreateRun ops (root_run rid batch j fireAt)))))"

fun depsSatisfied :: "'s store_ops \<Rightarrow> string list \<Rightarrow> string \<Rightarrow> 's world \<Rightarrow> (store_error + bool) \<times> 's world" where
  "depsSatisfied ops [] batchID = ret True"
| "depsSatisfied ops (dep # deps) batchID =
     bind_act (call (st_ListRuns ops (zero_filter\<lparr>f_JobID := dep, f_BatchID := batchID\<rparr>))) (\<lambda>runs.
       if \<not> hasSucceeded runs then ret False else depsSatisfied ops deps batchID)"

definition dependent_run :: "string \<Rightarrow> string \<Rightarrow> Job \<Rightarrow> time \<Rightarrow> Run" where
  "dependent_run rid batch j now =
     zero_run\<lparr>r_ID := rid, r_JobID := j_ID j, r_BatchID := batch, r_State := StatePending,
       r_ScheduledFor := now, r_CreatedAt := now, r_UpdatedAt := now\<rparr>"

text \<open>The body of the loop of \<^verbatim>\<open>enqueueDependents\<close> for one job that depends on the completed one.\<close>

definition enqueue_dependent :: "'s store_ops \<Rightarrow> env \<Rightarrow> Run \<Rightarrow> time \<Rightarrow> Job \<Rightarrow> 's world \<Rightarrow> (store_error + unit) \<times> 's world" where
  "enqueue_dependent ops env completed now j =
     bind_act (depsSatisfied ops (j_DependsOn j) (r_BatchID completed)) (\<lambda>ready.
       if \<not> ready then ret ()
       else bind_act (call (st_ListRuns ops (zero_filter\<lparr>f_JobID := j_ID j, f_BatchID := r_BatchID completed\<rparr>))) (\<lambda>existing.
         if 0 < length existing then ret ()
         else bind_act (newID env) (\<lambda>rid.
           call (st_CreateRun ops (dependent_run rid (r_BatchID completed) j now)))))"

fun enqueue_all :: "'s store_ops \<Rightarrow> env \<Rightarrow> Run \<Rightarrow> time \<Rightarrow> Job list \<Rightarrow> 's world \<Rightarrow> (store_error + unit) \<times> 's world" where
  "enqueue_all ops env completed now [] = ret ()"
| "enqueue_all ops env completed now (j # js) =
     (if \<not> contains (j_DependsOn j) (r_JobID completed) then enqueue_all ops env completed now js
      else bind_act (enqueue_dependent ops env completed now j) (\<lambda>_. enqueue_all ops env completed now js))"

definition enqueueDependents :: "'s store_ops \<Rightarrow> env \<Rightarrow> Run \<Rightarrow> time \<Rightarrow> 's world \<Rightarrow> (store_error + unit) \<times> 's world" where
  "enqueueDependents ops env completed now =
     bind_act (call (st_ListJobs ops)) (\<lambda>jobs. enqueue_all ops env completed now jobs)"

definition schedule :: "Job \<Rightarrow> dispatcher \<Rightarrow> (cron_error + Schedule) \<times> dispatcher" where
  "schedule j d =
     (case map_of (d_parsed d) (j_ID j) of
        Some s \<Rightarrow> (Inr s, d)
      | None \<Rightarrow>
          (case Parse (j_Spec j) of
             Inl e \<Rightarrow> (Inl e, d)
           | Inr s \<Rightarrow> (Inr s, d\<lparr>d_parsed := AList.update (j_ID j) s (d_parsed d)\<rparr>)))"

text \<open>
  The catch-up loop \<^verbatim>\<open>for !next.After(now)\<close>: \<open>None\<close> when it does not return. Otherwise the error
  that ended it, if any, the number of slots it went through and the next fire time.
\<close>

partial_function (option) fire_loop ::
    "'s store_ops \<Rightarrow> env \<Rightarrow> Schedule \<Rightarrow> Job \<Rightarrow> time \<Rightarrow> time \<Rightarrow> int \<Rightarrow> 's world \<Rightarrow>
     (store_error option \<times> int \<times> time \<times> 's world) option" where
  "fire_loop ops env sched j now next created w =
     (if now < next then Some (None, created, next, w)
      else case enqueueRoot ops env j next w of
        (Inl e, w) \<Rightarrow> Some (Some e, created, next, w)
      | (Inr _, w) \<Rightarrow>
          (case schedule_next sched next of
             None \<Rightarrow> None
           | Some next \<Rightarrow> fire_loop ops env sched j now next (created + 1) w))"

text \<open>The loop over the jobs; Go returns the count together with the error.\<close>

fun dispatch_jobs ::
    "'s store_ops \<Rightarrow> env \<Rightarrow> time \<Rightarrow> Job list \<Rightarrow> int \<Rightarrow> dispatcher \<Rightarrow> 's world \<Rightarrow>
     ((int \<times> store_error option) \<times> dispatcher \<times> 's world) option" where
  "dispatch_jobs ops env now [] created d w = Some ((created, None), d, w)"
| "dispatch_jobs ops env now (j # js) created d w =
     (if \<not> j_Enabled j \<or> j_Spec j = [] then dispatch_jobs ops env now js created d w
      else case schedule j d of
        (Inl e, d) \<Rightarrow> dispatch_jobs ops env now js created d w
      | (Inr sched, d) \<Rightarrow>
          (case map_of (d_nextFire d) (j_ID j) of
             None \<Rightarrow>
               (case schedule_next sched now of
                  None \<Rightarrow> None
                | Some t \<Rightarrow> dispatch_jobs ops env now js created (d\<lparr>d_nextFire := AList.update (j_ID j) t (d_nextFire d)\<rparr>) w)
           | Some next \<Rightarrow>
               (case fire_loop ops env sched j now next created w of
                  None \<Rightarrow> None
                | Some (Some e, created, _, w) \<Rightarrow> Some ((created, Some e), d, w)
                | Some (None, created, next, w) \<Rightarrow>
                    dispatch_jobs ops env now js created (d\<lparr>d_nextFire := AList.update (j_ID j) next (d_nextFire d)\<rparr>) w)))"

definition dispatch ::
    "'s store_ops \<Rightarrow> env \<Rightarrow> time \<Rightarrow> dispatcher \<Rightarrow> 's world \<Rightarrow> ((int \<times> store_error option) \<times> dispatcher \<times> 's world) option" where
  "dispatch ops env now d w =
     (case call (st_ListJobs ops) w of
        (Inl e, w) \<Rightarrow> Some ((0, Some e), d, w)
      | (Inr jobs, w) \<Rightarrow> dispatch_jobs ops env now jobs 0 d w)"

section \<open>Lemmas on the loops\<close>

lemma contains_iff [simp]: "contains xs want \<longleftrightarrow> want \<in> set xs"
  by (induction xs) auto

lemma hasSucceeded_iff: "hasSucceeded rs \<longleftrightarrow> (\<exists>r\<in>set rs. r_State r = StateSucceeded)"
  by (induction rs) auto

lemma slot_taken_iff: "slot_taken rs t \<longleftrightarrow> (\<exists>r\<in>set rs. r_ScheduledFor r = t)"
  by (induction rs) auto

lemma root_run_sel [simp]:
  "r_ID (root_run rid b j t) = rid" "r_JobID (root_run rid b j t) = j_ID j" "r_BatchID (root_run rid b j t) = b"
  "r_State (root_run rid b j t) = StatePending" "r_ScheduledFor (root_run rid b j t) = t"
  "r_Attempt (root_run rid b j t) = 0"
  by (simp_all add: root_run_def)

lemma dependent_run_sel [simp]:
  "r_ID (dependent_run rid b j t) = rid" "r_JobID (dependent_run rid b j t) = j_ID j"
  "r_BatchID (dependent_run rid b j t) = b" "r_State (dependent_run rid b j t) = StatePending"
  "r_ScheduledFor (dependent_run rid b j t) = t" "r_Attempt (dependent_run rid b j t) = 0"
  by (simp_all add: dependent_run_def)

text \<open>A job has a run for a slot; a job has a run, or a succeeded run, in a batch.\<close>

definition has_slot :: "(string \<rightharpoonup> Run) \<Rightarrow> string \<Rightarrow> time \<Rightarrow> bool" where
  "has_slot m jid t \<longleftrightarrow> (\<exists>r\<in>ran m. r_JobID r = jid \<and> r_ScheduledFor r = t)"

definition in_batch :: "(string \<rightharpoonup> Run) \<Rightarrow> string \<Rightarrow> string \<Rightarrow> bool" where
  "in_batch m jid b \<longleftrightarrow> (\<exists>r\<in>ran m. r_JobID r = jid \<and> r_BatchID r = b)"

definition succeeded_in :: "(string \<rightharpoonup> Run) \<Rightarrow> string \<Rightarrow> string \<Rightarrow> bool" where
  "succeeded_in m jid b \<longleftrightarrow> (\<exists>r\<in>ran m. r_JobID r = jid \<and> r_BatchID r = b \<and> r_State r = StateSucceeded)"

lemma ran_fresh: "m k = None \<Longrightarrow> ran (m(k \<mapsto> r)) = insert r (ran m)"
  by (rule ran_map_upd)

section \<open>Chains of additions\<close>

text \<open>What one dependent adds to the runs: one pending run, when all its dependencies have succeeded in
  the batch and it has no run there yet.\<close>

definition dep_step :: "string \<Rightarrow> time \<Rightarrow> Job \<Rightarrow> (string \<rightharpoonup> Run) \<Rightarrow> (string \<rightharpoonup> Run) \<Rightarrow> bool" where
  "dep_step b now j m m' \<longleftrightarrow>
     (if (\<forall>d\<in>set (j_DependsOn j). succeeded_in m d b) \<and> \<not> in_batch m (j_ID j) b
      then \<exists>rid. m rid = None \<and> m' = m(rid \<mapsto> dependent_run rid b j now)
      else m' = m)"

inductive dep_chain :: "string \<Rightarrow> time \<Rightarrow> Job list \<Rightarrow> (string \<rightharpoonup> Run) \<Rightarrow> (string \<rightharpoonup> Run) \<Rightarrow> bool" for b now where
  "dep_chain b now [] m m"
| "dep_step b now j m m1 \<Longrightarrow> dep_chain b now js m1 m' \<Longrightarrow> dep_chain b now (j # js) m m'"

lemma dep_step_cases:
  assumes "dep_step b now j m m'"
  obtains "m' = m" "\<not> (\<forall>d\<in>set (j_DependsOn j). succeeded_in m d b) \<or> in_batch m (j_ID j) b"
  | rid where "m rid = None" "m' = m(rid \<mapsto> dependent_run rid b j now)"
      "\<forall>d\<in>set (j_DependsOn j). succeeded_in m d b" "\<not> in_batch m (j_ID j) b"
  using assms by (auto simp: dep_step_def split: if_splits)

lemma dep_step_succeeded: "dep_step b now j m m' \<Longrightarrow> succeeded_in m' d b' \<longleftrightarrow> succeeded_in m d b'"
  by (erule dep_step_cases) (auto simp: succeeded_in_def ran_fresh)

lemma dep_step_in_batch: "dep_step b now j m m' \<Longrightarrow> in_batch m k b' \<Longrightarrow> in_batch m' k b'"
  by (erule dep_step_cases) (auto simp: in_batch_def ran_fresh)

lemma dep_chain_keeps:
  "dep_chain b now js m m' \<Longrightarrow>
     m \<subseteq>\<^sub>m m' \<and> (\<forall>d b'. succeeded_in m' d b' \<longleftrightarrow> succeeded_in m d b') \<and> (\<forall>k b'. in_batch m k b' \<longrightarrow> in_batch m' k b')"
proof (induction rule: dep_chain.induct)
  case (2 j m m1 js m')
  have "m \<subseteq>\<^sub>m m1" using 2(1) by (rule dep_step_cases) (auto simp: map_le_def)
  then show ?case using 2 dep_step_succeeded [OF 2(1)] dep_step_in_batch [OF 2(1)] by (auto intro: map_le_trans)
qed simp

lemma dep_chain_new:
  "dep_chain b now js m m' \<Longrightarrow> m k = None \<Longrightarrow> m' k = Some r \<Longrightarrow>
     \<exists>j\<in>set js. r = dependent_run k b j now \<and> (\<forall>d\<in>set (j_DependsOn j). succeeded_in m d b) \<and> \<not> in_batch m (j_ID j) b"
proof (induction rule: dep_chain.induct)
  case (2 j m m1 js m')
  from 2(1) show ?case
  proof (rule dep_step_cases)
    assume "m1 = m"
    then show ?thesis using 2 by auto
  next
    fix rid assume rid: "m rid = None" "m1 = m(rid \<mapsto> dependent_run rid b j now)"
      "\<forall>d\<in>set (j_DependsOn j). succeeded_in m d b" "\<not> in_batch m (j_ID j) b"
    show ?thesis
    proof (cases "k = rid")
      case True
      then have "m' k = Some (dependent_run k b j now)"
        using dep_chain_keeps [OF 2(2)] rid(2) by (auto simp: map_le_def dom_def)
      then show ?thesis using rid 2(5) by auto
    next
      case False
      then have "m1 k = None" using 2(4) rid(2) by simp
      then obtain j' where j': "j' \<in> set js" "r = dependent_run k b j' now" "\<forall>d\<in>set (j_DependsOn j'). succeeded_in m1 d b"
          "\<not> in_batch m1 (j_ID j') b"
        using 2(3,5) by blast
      then have "\<forall>d\<in>set (j_DependsOn j'). succeeded_in m d b" "\<not> in_batch m (j_ID j') b"
        using dep_step_succeeded [OF 2(1)] dep_step_in_batch [OF 2(1)] by auto
      then show ?thesis using j' by auto
    qed
  qed
qed simp

lemma dep_chain_complete:
  "dep_chain b now js m m' \<Longrightarrow> j \<in> set js \<Longrightarrow> \<forall>d\<in>set (j_DependsOn j). succeeded_in m d b \<Longrightarrow> in_batch m' (j_ID j) b"
proof (induction rule: dep_chain.induct)
  case (2 i m m1 js m')
  show ?case
  proof (cases "j = i")
    case True
    from 2(1) have "in_batch m1 (j_ID j) b"
      by (rule dep_step_cases) (use 2(5) True in \<open>auto simp: in_batch_def ran_fresh\<close>)
    then show ?thesis using dep_chain_keeps [OF 2(2)] by blast
  next
    case False
    then show ?thesis using 2 dep_step_succeeded [OF 2(1)] by auto
  qed
qed simp

lemma dep_chain_once:
  "dep_chain b now js m m' \<Longrightarrow> m k = None \<Longrightarrow> m l = None \<Longrightarrow> m' k = Some r \<Longrightarrow> m' l = Some q \<Longrightarrow>
     r_JobID r = r_JobID q \<Longrightarrow> k = l"
proof (induction rule: dep_chain.induct)
  case (2 j m m1 js m')
  from 2(1) show ?case
  proof (rule dep_step_cases)
    assume "m1 = m"
    then show ?thesis using 2 by auto
  next
    fix rid assume rid: "m rid = None" "m1 = m(rid \<mapsto> dependent_run rid b j now)"
    have first: "m' rid = Some (dependent_run rid b j now)"
      using dep_chain_keeps [OF 2(2)] rid(2) by (auto simp: map_le_def dom_def)
    have later: "r_JobID x \<noteq> j_ID j" if "m' i = Some x" "m i = None" "i \<noteq> rid" for i x
    proof -
      have "m1 i = None" using that rid(2) by simp
      from dep_chain_new [OF 2(2) this that(1)] obtain j' where
        "x = dependent_run i b j' now" "\<not> in_batch m1 (j_ID j') b" by blast
      then have "\<not> in_batch m1 (r_JobID x) b" by simp
      moreover have "in_batch m1 (j_ID j) b" using rid by (auto simp: in_batch_def ran_fresh)
      ultimately show ?thesis by metis
    qed
    show ?thesis
    proof (cases "k = rid \<or> l = rid")
      case True
      then show ?thesis
      proof
        assume "k = rid"
        then show ?thesis using first later [OF 2(7,5)] 2(6,8) by (cases "l = rid") auto
      next
        assume "l = rid"
        then show ?thesis using first later [OF 2(6,4)] 2(7,8) by (cases "k = rid") auto
      qed
    next
      case False
      then show ?thesis using 2 rid(2) by auto
    qed
  qed
qed simp

text \<open>The same for fire times: one root run per slot that has no run of the job yet.\<close>

definition root_step :: "Job \<Rightarrow> time \<Rightarrow> (string \<rightharpoonup> Run) \<Rightarrow> (string \<rightharpoonup> Run) \<Rightarrow> bool" where
  "root_step j t m m' \<longleftrightarrow>
     (if has_slot m (j_ID j) t then m' = m
      else \<exists>rid batch. m rid = None \<and> m' = m(rid \<mapsto> root_run rid batch j t))"

inductive root_chain :: "Job \<Rightarrow> time list \<Rightarrow> (string \<rightharpoonup> Run) \<Rightarrow> (string \<rightharpoonup> Run) \<Rightarrow> bool" for j where
  "root_chain j [] m m"
| "root_step j t m m1 \<Longrightarrow> root_chain j ts m1 m' \<Longrightarrow> root_chain j (t # ts) m m'"

lemma root_step_cases:
  assumes "root_step j t m m'"
  obtains "m' = m" "has_slot m (j_ID j) t"
  | rid batch where "m rid = None" "m' = m(rid \<mapsto> root_run rid batch j t)" "\<not> has_slot m (j_ID j) t"
  using assms by (auto simp: root_step_def split: if_splits)

lemma root_step_keeps:
  assumes "root_step j t m m'"
  shows "m \<subseteq>\<^sub>m m'" "has_slot m k u \<Longrightarrow> has_slot m' k u" "has_slot m' (j_ID j) t"
  using assms by (rule root_step_cases; auto simp: map_le_def has_slot_def ran_fresh)+

lemma root_chain_keeps:
  "root_chain j ts m m' \<Longrightarrow> m \<subseteq>\<^sub>m m' \<and> (\<forall>k u. has_slot m k u \<longrightarrow> has_slot m' k u) \<and> (\<forall>t\<in>set ts. has_slot m' (j_ID j) t)"
proof (induction rule: root_chain.induct)
  case (2 t m m1 ts m')
  then show ?case using root_step_keeps [OF 2(1)] by (auto intro: map_le_trans)
qed simp

lemma root_chain_new:
  "root_chain j ts m m' \<Longrightarrow> m k = None \<Longrightarrow> m' k = Some r \<Longrightarrow>
     \<exists>t\<in>set ts. \<exists>batch. r = root_run k batch j t \<and> \<not> has_slot m (j_ID j) t"
proof (induction rule: root_chain.induct)
  case (2 t m m1 ts m')
  show ?case
  proof (cases "m1 k")
    case None
    then show ?thesis using 2(3,5) root_step_keeps(2) [OF 2(1)] by auto
  next
    case (Some q)
    then have "m' k = Some q" using root_chain_keeps [OF 2(2)] by (auto simp: map_le_def dom_def)
    moreover from 2(1) have "\<exists>batch. q = root_run k batch j t \<and> \<not> has_slot m (j_ID j) t"
      by (rule root_step_cases) (use Some 2(4) in \<open>auto split: if_splits\<close>)
    ultimately show ?thesis using 2(5) by auto
  qed
qed simp

lemma root_chain_once:
  "root_chain j ts m m' \<Longrightarrow> m k = None \<Longrightarrow> m l = None \<Longrightarrow> m' k = Some r \<Longrightarrow> m' l = Some q \<Longrightarrow>
     r_ScheduledFor r = r_ScheduledFor q \<Longrightarrow> k = l"
proof (induction rule: root_chain.induct)
  case (2 t m m1 ts m')
  have new: "i = i'" if "m1 i = Some x" "m1 i' = Some y" "m i = None" "m i' = None" for i i' x y
    using 2(1) by (rule root_step_cases) (use that in \<open>auto split: if_splits\<close>)
  have clash: False if "m1 i = Some x" "m i = None" "m1 i' = None" "m' i' = Some y" "m' i = Some x'"
      "r_ScheduledFor x' = r_ScheduledFor y" for i i' x x' y
  proof -
    have "x' = x" using that(1,5) root_chain_keeps [OF 2(2)] by (auto simp: map_le_def dom_def)
    moreover have "r_ScheduledFor x = t" using 2(1) by (rule root_step_cases) (use that in \<open>auto split: if_splits\<close>)
    moreover have "\<not> has_slot m1 (j_ID j) (r_ScheduledFor y)"
      using root_chain_new [OF 2(2) that(3,4)] by auto
    ultimately show False using that(6) root_step_keeps(3) [OF 2(1)] by simp
  qed
  show ?case
  proof (cases "m1 k"; cases "m1 l")
    assume "m1 k = None" "m1 l = None"
    then show ?thesis using 2 by blast
  next
    fix a assume "m1 k = None" "m1 l = Some a"
    then show ?thesis using clash [of l a k r q] 2 by auto
  next
    fix a assume "m1 k = Some a" "m1 l = None"
    then show ?thesis using clash [of k a l q r] 2 by auto
  next
    fix a b assume "m1 k = Some a" "m1 l = Some b"
    then show ?thesis using new 2(4,5) by blast
  qed
qed simp

text \<open>The consecutive answers of a schedule, starting at \<open>t\<close>.\<close>

inductive fire_times :: "Schedule \<Rightarrow> time \<Rightarrow> time list \<Rightarrow> time \<Rightarrow> bool" for sched where
  "fire_times sched t [] t"
| "schedule_next sched t = Some t1 \<Longrightarrow> fire_times sched t1 ts t' \<Longrightarrow> fire_times sched t (t # ts) t'"

text \<open>Induction over the iterations of a catch-up loop that returns.\<close>

lemma fire_loop_induct [consumes 1, case_names Done Error Step]:
  assumes "fire_loop ops env sched j now next created w = Some res"
    and "\<And>next created w. now < next \<Longrightarrow> P next created w (None, created, next, w)"
    and "\<And>next created w e w'. next \<le> now \<Longrightarrow> enqueueRoot ops env j next w = (Inl e, w') \<Longrightarrow>
           P next created w (Some e, created, next, w')"
    and "\<And>next created w u w' t res. next \<le> now \<Longrightarrow> enqueueRoot ops env j next w = (Inr u, w') \<Longrightarrow>
           schedule_next sched next = Some t \<Longrightarrow> P t (created + 1) w' res \<Longrightarrow> P next created w res"
  shows "P next created w res"
proof -
  define Q where "Q ops' env' sched' j' now' nx cr v y \<longleftrightarrow>
    (ops' = ops \<and> env' = env \<and> sched' = sched \<and> j' = j \<and> now' = now \<longrightarrow> P nx cr v y)"
    for ops' env' sched' j' now' nx cr v y
  have "Q ops env sched j now next created w res"
  proof (rule fire_loop.raw_induct [OF _ assms(1), where P = Q])
    fix fl ops' env' sched' j' now' and "next" created w y
    assume IH: "\<And>ops' env' sched' j' now' next created w y.
        fl ops' env' sched' j' now' next created w = Some y \<Longrightarrow> Q ops' env' sched' j' now' next created w y"
      and body: "(if now' < next then Some (None, created, next, w)
        else case enqueueRoot ops' env' j' next w of (Inl e, w) \<Rightarrow> Some (Some e, created, next, w)
          | (Inr _, w) \<Rightarrow> (case schedule_next sched' next of None \<Rightarrow> None
              | Some next \<Rightarrow> fl ops' env' sched' j' now' next (created + 1) w)) = Some y"
    show "Q ops' env' sched' j' now' next created w y"
      unfolding Q_def
    proof
      assume eq: "ops' = ops \<and> env' = env \<and> sched' = sched \<and> j' = j \<and> now' = now"
      consider "now < next" "y = (None, created, next, w)"
        | e w' where "\<not> now < next" "enqueueRoot ops env j next w = (Inl e, w')" "y = (Some e, created, next, w')"
        | u w' t where "\<not> now < next" "enqueueRoot ops env j next w = (Inr u, w')" "schedule_next sched next = Some t"
            "fl ops env sched j now t (created + 1) w' = Some y"
        using body eq by (auto split: if_splits prod.splits sum.splits option.splits)
      then show "P next created w y"
      proof cases
        case 1
        then show ?thesis using assms(2) by simp
      next
        case 2
        then show ?thesis using assms(3) by simp
      next
        case 3
        then show ?thesis using assms(4) IH [OF 3(4)] unfolding Q_def by simp
      qed
    qed
  qed
  then show ?thesis by (simp add: Q_def)
qed

section \<open>The dispatcher against the store contract\<close>

context store_contract
begin

definition world_ok :: "env \<Rightarrow> 's world \<Rightarrow> bool" where
  "world_ok env w \<longleftrightarrow> inv (w_store w) \<and> inj (e_newID env) \<and> (\<forall>i\<ge>w_ids w. runs_of (w_store w) (e_newID env i) = None)"

definition same_data :: "'s world \<Rightarrow> 's world \<Rightarrow> bool" where
  "same_data w w' \<longleftrightarrow> runs_of (w_store w') = runs_of (w_store w) \<and> jobs_of (w_store w') = jobs_of (w_store w)"

lemma same_data_refl [simp]: "same_data w w"
  by (simp add: same_data_def)

lemma same_data_trans: "same_data a b \<Longrightarrow> same_data b c \<Longrightarrow> same_data a c"
  by (simp add: same_data_def)

lemma call_ListRuns:
  assumes "world_ok env w" "call (st_ListRuns ops f) w = (res, w')"
  shows "world_ok env w'" "same_data w w'"
    "res = Inr rs \<Longrightarrow> f_Offset f \<le> 0 \<Longrightarrow> f_Limit f \<le> 0 \<Longrightarrow>
       set rs = {r. r \<in> ran (runs_of (w_store w)) \<and> run_matches f r}"
proof -
  obtain s where s: "st_ListRuns ops f (w_store w) = (res, s)" "w' = w\<lparr>w_store := s\<rparr>"
    using assms(2) by (auto simp: call_def split: prod.splits)
  note law = ListRuns_law [OF _ s(1)]
  show "world_ok env w'" "same_data w w'" using assms(1) law s(2) by (auto simp: world_ok_def same_data_def)
  show "set rs = {r. r \<in> ran (runs_of (w_store w)) \<and> run_matches f r}"
    if "res = Inr rs" "f_Offset f \<le> 0" "f_Limit f \<le> 0"
    using assms(1) law that by (auto simp: world_ok_def page_all listing_def)
qed

lemma call_ListJobs:
  assumes "world_ok env w" "call (st_ListJobs ops) w = (res, w')"
  shows "world_ok env w'" "same_data w w'" "res = Inr js \<Longrightarrow> set js = ran (jobs_of (w_store w))"
proof -
  obtain s where s: "st_ListJobs ops (w_store w) = (res, s)" "w' = w\<lparr>w_store := s\<rparr>"
    using assms(2) by (auto simp: call_def split: prod.splits)
  note law = ListJobs_law [OF _ s(1)]
  show "world_ok env w'" "same_data w w'" using assms(1) law s(2) by (auto simp: world_ok_def same_data_def)
  show "set js = ran (jobs_of (w_store w))" if "res = Inr js"
    using assms(1) law that by (auto simp: world_ok_def)
qed

text \<open>Creating a run under an identifier drawn earlier and not used yet.\<close>

lemma call_CreateRun:
  assumes "world_ok env w" "r_ID r = e_newID env i" "i < w_ids w" "runs_of (w_store w) (r_ID r) = None"
    "call (st_CreateRun ops r) w = (res, w')"
  shows "world_ok env w'" "jobs_of (w_store w') = jobs_of (w_store w)" "w_ids w' = w_ids w"
    "runs_of (w_store w') = (case res of Inl e \<Rightarrow> runs_of (w_store w) | Inr _ \<Rightarrow> (runs_of (w_store w))(r_ID r \<mapsto> r))"
proof -
  obtain s where s: "st_CreateRun ops r (w_store w) = (res, s)" "w' = w\<lparr>w_store := s\<rparr>"
    using assms(5) by (auto simp: call_def split: prod.splits)
  note law = CreateRun_law [OF _ s(1)]
  show runs: "runs_of (w_store w') = (case res of Inl e \<Rightarrow> runs_of (w_store w) | Inr _ \<Rightarrow> (runs_of (w_store w))(r_ID r \<mapsto> r))"
    using assms(1,4) law s(2) by (auto simp: world_ok_def split: sum.splits)
  show "jobs_of (w_store w') = jobs_of (w_store w)" "w_ids w' = w_ids w"
    using assms(1) law s(2) by (auto simp: world_ok_def)
  have "e_newID env k \<noteq> e_newID env i" if "w_ids w \<le> k" for k
    using assms(1,3) that by (auto simp: world_ok_def dest: injD)
  then show "world_ok env w'"
    using assms(1,2,3) law s(2) runs by (auto simp: world_ok_def split: sum.splits)
qed

lemma newID_eq: "newID env w = (Inr (e_newID env (w_ids w)), w\<lparr>w_ids := w_ids w + 1\<rparr>)"
  by (simp add: newID_def)

lemma world_ok_newID: "world_ok env w \<Longrightarrow> world_ok env (w\<lparr>w_ids := w_ids w + n\<rparr>)"
  by (simp add: world_ok_def)

lemma newID_unused: "world_ok env w \<Longrightarrow> runs_of (w_store w) (e_newID env (w_ids w)) = None"
  by (simp add: world_ok_def)

text \<open>\<^verbatim>\<open>enqueueRoot\<close> either finds the slot taken and changes nothing or adds one root run.\<close>

lemma enqueueRoot_spec:
  assumes "world_ok env w" "j_ID j \<noteq> []" "enqueueRoot ops env j t w = (res, w')"
  shows "world_ok env w' \<and> jobs_of (w_store w') = jobs_of (w_store w) \<and>
    (case res of
       Inl e \<Rightarrow> runs_of (w_store w') = runs_of (w_store w)
     | Inr _ \<Rightarrow>
         if has_slot (runs_of (w_store w)) (j_ID j) t then runs_of (w_store w') = runs_of (w_store w)
         else \<exists>rid batch. runs_of (w_store w) rid = None \<and>
                runs_of (w_store w') = (runs_of (w_store w))(rid \<mapsto> root_run rid batch j t))"
proof -
  let ?f = "zero_filter\<lparr>f_JobID := j_ID j\<rparr>"
  obtain r1 w1 where c1: "call (st_ListRuns ops ?f) w = (r1, w1)" by fastforce
  note l = call_ListRuns [OF assms(1) c1]
  show ?thesis
  proof (cases r1)
    case (Inl e)
    then have "res = Inl e" "w' = w1" using assms(3) c1 by (auto simp: enqueueRoot_def bind_act_def)
    then show ?thesis using l(1,2) by (simp add: same_data_def)
  next
    case (Inr rs)
    have rs: "set rs = {r. r \<in> ran (runs_of (w_store w)) \<and> r_JobID r = j_ID j}"
      using l(3) [OF Inr] assms(2) by (simp add: zero_filter_def run_matches_def)
    then have taken: "slot_taken rs t \<longleftrightarrow> has_slot (runs_of (w_store w)) (j_ID j) t"
      by (auto simp: slot_taken_iff has_slot_def)
    show ?thesis
    proof (cases "slot_taken rs t")
      case True
      then have "res = Inr ()" "w' = w1" using assms(3) c1 Inr by (auto simp: enqueueRoot_def bind_act_def)
      then show ?thesis using l(1,2) True taken by (simp add: same_data_def)
    next
      case False
      define n where "n = w_ids w1"
      define r where "r = root_run (e_newID env n) (e_newID env (n + 1)) j t"
      define w2 where "w2 = w1\<lparr>w_ids := n + 2\<rparr>"
      have "call (st_CreateRun ops r) w2 = (res, w')"
        using assms(3) c1 Inr False by (simp add: enqueueRoot_def bind_act_def newID_def r_def w2_def n_def)
      moreover have w2: "world_ok env w2" "w_store w2 = w_store w1" "n < w_ids w2"
        using world_ok_newID [OF l(1), of 2] by (simp_all add: w2_def n_def)
      moreover have "runs_of (w_store w1) (e_newID env n) = None" using newID_unused [OF l(1)] by (simp add: n_def)
      ultimately have "world_ok env w'" "jobs_of (w_store w') = jobs_of (w_store w1)"
        "runs_of (w_store w') = (case res of Inl e \<Rightarrow> runs_of (w_store w1) | Inr _ \<Rightarrow> (runs_of (w_store w1))(e_newID env n \<mapsto> r))"
        using call_CreateRun [of env w2 r n res w'] by (auto simp: w2 r_def split: sum.splits)
      then show ?thesis
        using l(2) False taken newID_unused [OF l(1)] unfolding r_def n_def same_data_def
        by (auto split: sum.splits)
    qed
  qed
qed

text \<open>\<^verbatim>\<open>depsSatisfied\<close> answers whether every dependency has a succeeded run in the batch.\<close>

lemma depsSatisfied_spec:
  "world_ok env w \<Longrightarrow> [] \<notin> set deps \<Longrightarrow> b \<noteq> [] \<Longrightarrow> depsSatisfied ops deps b w = (res, w') \<Longrightarrow>
     world_ok env w' \<and> same_data w w' \<and>
     (\<forall>ok. res = Inr ok \<longrightarrow> (ok \<longleftrightarrow> (\<forall>d\<in>set deps. succeeded_in (runs_of (w_store w)) d b)))"
proof (induction deps arbitrary: w)
  case Nil
  then show ?case by auto
next
  case (Cons d deps)
  let ?f = "zero_filter\<lparr>f_JobID := d, f_BatchID := b\<rparr>"
  obtain r1 w1 where c1: "call (st_ListRuns ops ?f) w = (r1, w1)" by fastforce
  note l = call_ListRuns [OF Cons.prems(1) c1]
  show ?case
  proof (cases r1)
    case (Inl e)
    then have "res = Inl e" "w' = w1" using Cons.prems(4) c1 by (auto simp: bind_act_def)
    then show ?thesis using l(1,2) by simp
  next
    case (Inr rs)
    have "set rs = {r. r \<in> ran (runs_of (w_store w)) \<and> r_JobID r = d \<and> r_BatchID r = b}"
      using l(3) [OF Inr] Cons.prems(2,3) by (auto simp: zero_filter_def run_matches_def)
    then have succ: "hasSucceeded rs \<longleftrightarrow> succeeded_in (runs_of (w_store w)) d b"
      by (auto simp: hasSucceeded_iff succeeded_in_def)
    show ?thesis
    proof (cases "hasSucceeded rs")
      case True
      then have "depsSatisfied ops deps b w1 = (res, w')" using Cons.prems(4) c1 Inr by (simp add: bind_act_def)
      from Cons.IH [OF l(1) _ _ this] Cons.prems(2,3) show ?thesis
        using l(2) True succ by (auto simp: same_data_def)
    next
      case False
      then have "res = Inr False" "w' = w1" using Cons.prems(4) c1 Inr by (auto simp: bind_act_def)
      then show ?thesis using l(1,2) False succ by auto
    qed
  qed
qed

lemma enqueue_dependent_spec:
  assumes "world_ok env w" "j_ID j \<noteq> []" "[] \<notin> set (j_DependsOn j)" "r_BatchID c \<noteq> []"
    "enqueue_dependent ops env c now j w = (res, w')"
  shows "world_ok env w' \<and> jobs_of (w_store w') = jobs_of (w_store w) \<and>
    (case res of
       Inl e \<Rightarrow> runs_of (w_store w') = runs_of (w_store w)
     | Inr _ \<Rightarrow> dep_step (r_BatchID c) now j (runs_of (w_store w)) (runs_of (w_store w')))"
proof -
  let ?b = "r_BatchID c" and ?m = "runs_of (w_store w)"
  obtain r1 w1 where c1: "depsSatisfied ops (j_DependsOn j) ?b w = (r1, w1)" by fastforce
  note d = depsSatisfied_spec [OF assms(1,3,4) c1]
  let ?f = "zero_filter\<lparr>f_JobID := j_ID j, f_BatchID := ?b\<rparr>"
  obtain r2 w2 where c2: "call (st_ListRuns ops ?f) w1 = (r2, w2)" by fastforce
  note l = call_ListRuns [OF conjunct1 [OF d] c2]
  consider e where "r1 = Inl e" | "r1 = Inr False" | e where "r1 = Inr True" "r2 = Inl e" | rs where "r1 = Inr True" "r2 = Inr rs"
    by (cases r1; cases r2) auto
  then show ?thesis
  proof cases
    case 1
    then have "res = Inl e" "w' = w1" using assms(5) c1 by (auto simp: enqueue_dependent_def bind_act_def)
    then show ?thesis using d by (simp add: same_data_def)
  next
    case 2
    then have "res = Inr ()" "w' = w1" using assms(5) c1 by (auto simp: enqueue_dependent_def bind_act_def)
    then show ?thesis using d 2 by (auto simp: same_data_def dep_step_def)
  next
    case 3
    then have "res = Inl e" "w' = w2" using assms(5) c1 c2 by (auto simp: enqueue_dependent_def bind_act_def)
    then show ?thesis using d l by (simp add: same_data_def)
  next
    case 4
    have "set rs = {r. r \<in> ran ?m \<and> r_JobID r = j_ID j \<and> r_BatchID r = ?b}"
      using l(3) [OF 4(2)] assms(2,4) d by (simp add: zero_filter_def run_matches_def same_data_def)
    then have "in_batch ?m (j_ID j) ?b \<longleftrightarrow> (\<exists>r. r \<in> set rs)" by (auto simp: in_batch_def)
    then have ex: "rs = [] \<longleftrightarrow> \<not> in_batch ?m (j_ID j) ?b" by (cases rs) auto
    have deps: "\<forall>x\<in>set (j_DependsOn j). succeeded_in ?m x ?b" using d 4(1) by blast
    have same: "same_data w w2" using d l(2) by (auto simp: same_data_def)
    show ?thesis
    proof (cases "rs = []")
      case False
      then have "res = Inr ()" "w' = w2" using assms(5) c1 c2 4 by (auto simp: enqueue_dependent_def bind_act_def)
      then show ?thesis using l(1) same False ex by (simp add: same_data_def dep_step_def)
    next
      case True
      define n where "n = w_ids w2"
      define r where "r = dependent_run (e_newID env n) ?b j now"
      define w3 where "w3 = w2\<lparr>w_ids := n + 1\<rparr>"
      have "call (st_CreateRun ops r) w3 = (res, w')"
        using assms(5) c1 c2 4 True by (simp add: enqueue_dependent_def bind_act_def newID_def r_def w3_def n_def)
      moreover have w3: "world_ok env w3" "w_store w3 = w_store w2" "n < w_ids w3"
        using world_ok_newID [OF l(1), of 1] by (simp_all add: w3_def n_def)
      moreover have n: "runs_of (w_store w2) (e_newID env n) = None" using newID_unused [OF l(1)] by (simp add: n_def)
      ultimately have "world_ok env w'" "jobs_of (w_store w') = jobs_of (w_store w2)"
        "runs_of (w_store w') = (case res of Inl e \<Rightarrow> runs_of (w_store w2) | Inr _ \<Rightarrow> (runs_of (w_store w2))(e_newID env n \<mapsto> r))"
        using call_CreateRun [of env w3 r n res w'] by (auto simp: w3 r_def split: sum.splits)
      then show ?thesis
        using same True ex deps n unfolding r_def same_data_def dep_step_def by (auto split: sum.splits)
    qed
  qed
qed

text \<open>The loop over the jobs: a chain of such steps, over all jobs unless an error ends it.\<close>

lemma enqueue_all_spec:
  "world_ok env w \<Longrightarrow> \<forall>j\<in>set js. j_ID j \<noteq> [] \<and> [] \<notin> set (j_DependsOn j) \<Longrightarrow> r_BatchID c \<noteq> [] \<Longrightarrow>
     enqueue_all ops env c now js w = (res, w') \<Longrightarrow>
     world_ok env w' \<and> jobs_of (w_store w') = jobs_of (w_store w) \<and>
     (\<exists>ks. set ks \<subseteq> set js \<and> (\<forall>u. res = Inr u \<longrightarrow> ks = filter (\<lambda>j. r_JobID c \<in> set (j_DependsOn j)) js) \<and>
        (\<forall>j\<in>set ks. r_JobID c \<in> set (j_DependsOn j)) \<and>
        dep_chain (r_BatchID c) now ks (runs_of (w_store w)) (runs_of (w_store w')))"
proof (induction js arbitrary: w)
  case Nil
  then show ?case by (auto intro: dep_chain.intros exI [of _ "[]"])
next
  case (Cons j js)
  have pre: "\<forall>j\<in>set js. j_ID j \<noteq> [] \<and> [] \<notin> set (j_DependsOn j)"
    and j: "j_ID j \<noteq> []" "[] \<notin> set (j_DependsOn j)" using Cons.prems(2) by simp_all
  show ?case
  proof (cases "r_JobID c \<in> set (j_DependsOn j)")
    case False
    then have "enqueue_all ops env c now js w = (res, w')" using Cons.prems(4) by simp
    from Cons.IH [OF Cons.prems(1) pre Cons.prems(3) this] obtain ks where
      ks: "world_ok env w'" "jobs_of (w_store w') = jobs_of (w_store w)" "set ks \<subseteq> set js"
      "\<forall>u. res = Inr u \<longrightarrow> ks = filter (\<lambda>j. r_JobID c \<in> set (j_DependsOn j)) js"
      "\<forall>j\<in>set ks. r_JobID c \<in> set (j_DependsOn j)"
      "dep_chain (r_BatchID c) now ks (runs_of (w_store w)) (runs_of (w_store w'))" by blast
    have "\<forall>u. res = Inr u \<longrightarrow> ks = filter (\<lambda>j. r_JobID c \<in> set (j_DependsOn j)) (j # js)" using ks(4) False by simp
    moreover have "set ks \<subseteq> set (j # js)" using ks(3) by auto
    ultimately show ?thesis using ks(1,2,5,6) by blast
  next
    case True
    obtain r1 w1 where c1: "enqueue_dependent ops env c now j w = (r1, w1)" by fastforce
    have sp: "world_ok env w1" "jobs_of (w_store w1) = jobs_of (w_store w)"
      "case r1 of Inl e \<Rightarrow> runs_of (w_store w1) = runs_of (w_store w)
       | Inr _ \<Rightarrow> dep_step (r_BatchID c) now j (runs_of (w_store w)) (runs_of (w_store w1))"
      using enqueue_dependent_spec [OF Cons.prems(1) j Cons.prems(3) c1] by blast+
    show ?thesis
    proof (cases r1)
      case (Inl e)
      then have "res = Inl e" "w' = w1" using Cons.prems(4) c1 True by (auto simp: bind_act_def)
      then show ?thesis using sp Inl by (auto intro!: exI [of _ "[]"] dep_chain.intros)
    next
      case (Inr u)
      then have "enqueue_all ops env c now js w1 = (res, w')" using Cons.prems(4) c1 True by (simp add: bind_act_def)
      from Cons.IH [OF sp(1) pre Cons.prems(3) this] obtain ks where
        ks: "world_ok env w'" "jobs_of (w_store w') = jobs_of (w_store w1)" "set ks \<subseteq> set js"
        "\<forall>u. res = Inr u \<longrightarrow> ks = filter (\<lambda>j. r_JobID c \<in> set (j_DependsOn j)) js"
        "\<forall>j\<in>set ks. r_JobID c \<in> set (j_DependsOn j)"
        "dep_chain (r_BatchID c) now ks (runs_of (w_store w1)) (runs_of (w_store w'))" by blast
      have "dep_chain (r_BatchID c) now (j # ks) (runs_of (w_store w)) (runs_of (w_store w'))"
        using sp(3) Inr ks(6) dep_chain.intros(2) by auto
      moreover have "\<forall>u. res = Inr u \<longrightarrow> j # ks = filter (\<lambda>j. r_JobID c \<in> set (j_DependsOn j)) (j # js)"
        using ks(4) True by simp
      moreover have "set (j # ks) \<subseteq> set (j # js)" using ks(3) by auto
      moreover have "\<forall>i\<in>set (j # ks). r_JobID c \<in> set (j_DependsOn i)" using ks(5) True by simp
      moreover have "jobs_of (w_store w') = jobs_of (w_store w)" using ks(2) sp(2) by simp
      ultimately show ?thesis using ks(1) by blast
    qed
  qed
qed

lemma enqueueRoot_step:
  assumes "world_ok env w" "j_ID j \<noteq> []" "enqueueRoot ops env j t w = (Inr u, w')"
  shows "world_ok env w'" "jobs_of (w_store w') = jobs_of (w_store w)"
    "root_step j t (runs_of (w_store w)) (runs_of (w_store w'))"
  using enqueueRoot_spec [OF assms] by (auto simp: root_step_def)

text \<open>When the catch-up loop returns, it has gone through the fire times up to \<open>now\<close>, one root run per
  slot; an error ends it early.\<close>

lemma fire_loop_spec:
  assumes "fire_loop ops env sched j now next created w = Some res"
  shows "world_ok env w \<Longrightarrow> j_ID j \<noteq> [] \<Longrightarrow>
    (case res of (err, created', next', w') \<Rightarrow>
       world_ok env w' \<and> jobs_of (w_store w') = jobs_of (w_store w) \<and> (err = None \<longrightarrow> now < next') \<and>
       (\<exists>ts. fire_times sched next ts next' \<and> (\<forall>t\<in>set ts. t \<le> now) \<and> created' = created + int (length ts) \<and>
          root_chain j ts (runs_of (w_store w)) (runs_of (w_store w'))))"
  using assms
proof (induction rule: fire_loop_induct)
  case (Done nx created w)
  then show ?case by (auto intro!: exI [of _ "[]"] fire_times.intros root_chain.intros)
next
  case (Error nx created w e w')
  then show ?case
    using enqueueRoot_spec [OF Error.prems Error.hyps(2)]
    by (auto intro!: exI [of _ "[]"] fire_times.intros root_chain.intros)
next
  case (Step nx created w u w1 t res)
  note e = enqueueRoot_step [OF Step.prems Step.hyps(2)]
  obtain err created' next' w' where res: "res = (err, created', next', w')" by (cases res) auto
  from Step.IH [OF e(1) Step.prems(2)] res obtain ts where
    ts: "world_ok env w'" "jobs_of (w_store w') = jobs_of (w_store w1)" "err = None \<longrightarrow> now < next'"
    "fire_times sched t ts next'" "\<forall>t\<in>set ts. t \<le> now" "created' = created + 1 + int (length ts)"
    "root_chain j ts (runs_of (w_store w1)) (runs_of (w_store w'))" by auto
  have "fire_times sched nx (nx # ts) next'" using Step.hyps(3) ts(4) by (rule fire_times.intros)
  moreover have "root_chain j (nx # ts) (runs_of (w_store w)) (runs_of (w_store w'))"
    using e(3) ts(7) by (rule root_chain.intros)
  ultimately show ?case
    using ts e(2) Step.hyps(1) res by (auto intro!: exI [of _ "nx # ts"])
qed

end

section \<open>On a reliable store nothing fails\<close>

context reliable_store
begin

lemma call_ListRuns_ok: "world_ok env w \<Longrightarrow> \<exists>rs w'. call (st_ListRuns ops f) w = (Inr rs, w')"
  using ListRuns_ok [of "w_store w" f] by (fastforce simp: call_def world_ok_def split: prod.split)

lemma call_ListJobs_ok: "world_ok env w \<Longrightarrow> \<exists>js w'. call (st_ListJobs ops) w = (Inr js, w')"
  using ListJobs_ok [of "w_store w"] by (fastforce simp: call_def world_ok_def split: prod.split)

lemma call_CreateRun_ok:
  "world_ok env w \<Longrightarrow> runs_of (w_store w) (r_ID r) = None \<Longrightarrow> \<exists>w'. call (st_CreateRun ops r) w = (Inr (), w')"
  using CreateRun_ok [of "w_store w" r] by (fastforce simp: call_def world_ok_def split: prod.split)

lemma enqueueRoot_ok:
  assumes "world_ok env w"
  shows "\<exists>w'. enqueueRoot ops env j t w = (Inr (), w')"
proof -
  let ?f = "zero_filter\<lparr>f_JobID := j_ID j\<rparr>"
  obtain rs w1 where c1: "call (st_ListRuns ops ?f) w = (Inr rs, w1)" using call_ListRuns_ok [OF assms] by blast
  note ok = call_ListRuns(1) [OF assms c1]
  define w2 where "w2 = w1\<lparr>w_ids := w_ids w1 + 2\<rparr>"
  define r where "r = root_run (e_newID env (w_ids w1)) (e_newID env (w_ids w1 + 1)) j t"
  have "world_ok env w2" using world_ok_newID [OF ok, of 2] by (simp add: w2_def)
  moreover have "runs_of (w_store w2) (r_ID r) = None" using newID_unused [OF ok] by (simp add: w2_def r_def)
  ultimately obtain w' where "call (st_CreateRun ops r) w2 = (Inr (), w')" using call_CreateRun_ok by blast
  then show ?thesis
    using c1 by (cases "slot_taken rs t") (auto simp: enqueueRoot_def bind_act_def newID_def w2_def r_def)
qed

lemma depsSatisfied_ok:
  "world_ok env w \<Longrightarrow> \<exists>ok w'. depsSatisfied ops deps b w = (Inr ok, w') \<and> world_ok env w'"
proof (induction deps arbitrary: w)
  case (Cons d deps)
  let ?f = "zero_filter\<lparr>f_JobID := d, f_BatchID := b\<rparr>"
  obtain rs w1 where c1: "call (st_ListRuns ops ?f) w = (Inr rs, w1)" using call_ListRuns_ok [OF Cons.prems] by blast
  note ok = call_ListRuns(1) [OF Cons.prems c1]
  show ?case using c1 Cons.IH [OF ok] ok by (cases "hasSucceeded rs") (auto simp: bind_act_def)
qed auto

lemma enqueue_dependent_ok:
  assumes "world_ok env w"
  shows "\<exists>w'. enqueue_dependent ops env c now j w = (Inr (), w')"
proof -
  let ?b = "r_BatchID c"
  obtain ok w1 where c1: "depsSatisfied ops (j_DependsOn j) ?b w = (Inr ok, w1)" "world_ok env w1"
    using depsSatisfied_ok [OF assms] by blast
  let ?f = "zero_filter\<lparr>f_JobID := j_ID j, f_BatchID := ?b\<rparr>"
  obtain rs w2 where c2: "call (st_ListRuns ops ?f) w1 = (Inr rs, w2)" using call_ListRuns_ok [OF c1(2)] by blast
  note ok2 = call_ListRuns(1) [OF c1(2) c2]
  define w3 where "w3 = w2\<lparr>w_ids := w_ids w2 + 1\<rparr>"
  define r where "r = dependent_run (e_newID env (w_ids w2)) ?b j now"
  have "world_ok env w3" using world_ok_newID [OF ok2, of 1] by (simp add: w3_def)
  moreover have "runs_of (w_store w3) (r_ID r) = None" using newID_unused [OF ok2] by (simp add: w3_def r_def)
  ultimately obtain w' where "call (st_CreateRun ops r) w3 = (Inr (), w')" using call_CreateRun_ok by blast
  then show ?thesis
    using c1(1) c2 by (cases ok; cases rs) (auto simp: enqueue_dependent_def bind_act_def newID_def w3_def r_def)
qed

lemma enqueue_all_ok:
  "world_ok env w \<Longrightarrow> \<forall>j\<in>set js. j_ID j \<noteq> [] \<and> [] \<notin> set (j_DependsOn j) \<Longrightarrow> r_BatchID c \<noteq> [] \<Longrightarrow>
     \<exists>w'. enqueue_all ops env c now js w = (Inr (), w')"
proof (induction js arbitrary: w)
  case (Cons j js)
  obtain w1 where w1: "enqueue_dependent ops env c now j w = (Inr (), w1)" using enqueue_dependent_ok [OF Cons.prems(1)] by blast
  have "world_ok env w1" using enqueue_dependent_spec [OF Cons.prems(1) _ _ Cons.prems(3) w1] Cons.prems(2) by simp
  then show ?case using Cons.IH Cons.prems w1 by (auto simp: bind_act_def)
qed simp

text \<open>For a constant delay the catch-up loop returns.\<close>

lemma fire_loop_delay:
  assumes "delay_ok d" "j_ID j \<noteq> []"
  shows "world_ok env w \<Longrightarrow> \<exists>n t w'. fire_loop ops env (DelaySched d) j now next created w = Some (None, n, t, w')"
proof (induction "nat (now + 1 - next)" arbitrary: "next" created w rule: less_induct)
  case less
  show ?case
  proof (cases "now < next")
    case True
    then show ?thesis by (simp add: fire_loop.simps)
  next
    case False
    obtain w1 where w1: "enqueueRoot ops env j next w = (Inr (), w1)" using enqueueRoot_ok [OF less.prems] by blast
    have ok: "world_ok env w1" using enqueueRoot_spec [OF less.prems assms(2) w1] by simp
    have "next < ConstantDelay_Next d next" using ConstantDelay_Next_ok(1) [OF assms(1)] .
    then have "nat (now + 1 - ConstantDelay_Next d next) < nat (now + 1 - next)" using False by simp
    from less.hyps [OF this ok, of "created + 1"] show ?thesis
      using False w1 by (subst fire_loop.simps) (simp add: schedule_next_def)
  qed
qed

end

section \<open>Properties\<close>

definition mem_world_ok :: "env \<Rightarrow> MemStore world \<Rightarrow> bool" where
  "mem_world_ok env w \<longleftrightarrow>
     mem_inv (w_store w) \<and> inj (e_newID env) \<and> (\<forall>i\<ge>w_ids w. mem_runs (w_store w) (e_newID env i) = None)"

lemma mem_world_ok_eq: "mem.world_ok = mem_world_ok"
  by (simp add: fun_eq_iff mem.world_ok_def mem_world_ok_def)

lemmas mem_enqueueRoot_spec = mem.enqueueRoot_spec [unfolded mem_world_ok_eq]
lemmas mem_enqueueRoot_step = mem.enqueueRoot_step [unfolded mem_world_ok_eq]
lemmas mem_enqueueRoot_ok = mem.enqueueRoot_ok [unfolded mem_world_ok_eq]
lemmas mem_fire_loop_spec = mem.fire_loop_spec [unfolded mem_world_ok_eq]
lemmas mem_fire_loop_delay = mem.fire_loop_delay [unfolded mem_world_ok_eq]

text \<open>A world to instantiate the properties on: decimal identifiers, a clock that ticks in seconds, an
  executor that always succeeds, and one job.\<close>

definition sample_env :: env where
  "sample_env = \<lparr>e_newID = show_nat, e_now = (\<lambda>n. 1000000000 * int n), e_rand = (\<lambda>_. Fin 0),
     e_command = (\<lambda>_ _ _ _. None), e_cancelled = (\<lambda>_. False)\<rparr>"

definition sample_job :: Job where
  "sample_job = zero_job\<lparr>j_ID := ''j'', j_Spec := ''@every 1s'', j_Enabled := True\<rparr>"

definition sample_world :: "MemStore world" where
  "sample_world = \<lparr>w_store = \<lparr>m_jobs = [(''j'', sample_job)], m_runs = []\<rparr>, w_metrics = [], w_ids = 0,
     w_clock = 0, w_rands = 0, w_trace = []\<rparr>"

lemma sample_world_ok: "mem_world_ok sample_env sample_world"
proof -
  have "inj show_nat" by (rule injI) (rule show_nat_inj)
  then show ?thesis
    by (simp add: mem_world_ok_def sample_env_def sample_world_def mem_inv_def sample_job_def mem_runs_def)
qed

text \<open>C35: materialising a fire time is idempotent: the first call leaves the job with a run for the
  slot, adding at most one, and repeating the call changes no run.\<close>

theorem enqueueRoot_idempotent:
  assumes "mem_world_ok env w" "j_ID j \<noteq> []"
  shows "\<exists>w1 w2. enqueueRoot memory_ops env j t w = (Inr (), w1) \<and> enqueueRoot memory_ops env j t w1 = (Inr (), w2) \<and>
           root_step j t (mem_runs (w_store w)) (mem_runs (w_store w1)) \<and>
           has_slot (mem_runs (w_store w1)) (j_ID j) t \<and> mem_runs (w_store w2) = mem_runs (w_store w1)"
proof -
  obtain w1 where w1: "enqueueRoot memory_ops env j t w = (Inr (), w1)" using mem_enqueueRoot_ok [OF assms(1)] by blast
  note s1 = mem_enqueueRoot_step [OF assms w1]
  obtain w2 where w2: "enqueueRoot memory_ops env j t w1 = (Inr (), w2)" using mem_enqueueRoot_ok [OF s1(1)] by blast
  note s2 = mem_enqueueRoot_step [OF s1(1) assms(2) w2]
  have slot: "has_slot (mem_runs (w_store w1)) (j_ID j) t" by (rule root_step_keeps(3) [OF s1(3)])
  then have "mem_runs (w_store w2) = mem_runs (w_store w1)" using s2(3) by (simp add: root_step_def)
  then show ?thesis using w1 w2 s1(3) slot by blast
qed

theorem enqueueRoot_idempotent_witness:
  "\<exists>w1. enqueueRoot memory_ops sample_env sample_job 5 sample_world = (Inr (), w1) \<and> has_slot (mem_runs (w_store w1)) ''j'' 5"
  using enqueueRoot_idempotent [OF sample_world_ok, of sample_job 5] by (auto simp: sample_job_def)

text \<open>C8: when the catch-up loop of \<^verbatim>\<open>dispatch\<close> returns without error, it has gone through the
  consecutive answers of the schedule up to now and stopped at the first one after it. Every one of
  those slots then has a run of the job, no run is lost, and the runs added are root runs of slots
  that had none, at most one per slot.\<close>

theorem catch_up_slots:
  assumes "mem_world_ok env w" "j_ID j \<noteq> []"
    "fire_loop memory_ops env sched j now next created w = Some (None, n, next', w')"
  shows "\<exists>ts. fire_times sched next ts next' \<and> list_all (\<lambda>t. t \<le> now) ts \<and> now < next' \<and> n = created + int (length ts) \<and>
           list_all (has_slot (mem_runs (w_store w')) (j_ID j)) ts \<and> mem_runs (w_store w) \<subseteq>\<^sub>m mem_runs (w_store w') \<and>
           (\<forall>k r. mem_runs (w_store w) k = None \<and> mem_runs (w_store w') k = Some r \<longrightarrow>
              (\<exists>t batch. t \<in> set ts \<and> r = root_run k batch j t \<and> \<not> has_slot (mem_runs (w_store w)) (j_ID j) t)) \<and>
           (\<forall>k l r q. mem_runs (w_store w) k = None \<and> mem_runs (w_store w) l = None \<and> mem_runs (w_store w') k = Some r \<and>
              mem_runs (w_store w') l = Some q \<and> r_ScheduledFor r = r_ScheduledFor q \<longrightarrow> k = l)"
proof -
  obtain ts where ts: "now < next'" "fire_times sched next ts next'" "\<forall>t\<in>set ts. t \<le> now" "n = created + int (length ts)"
    "root_chain j ts (mem_runs (w_store w)) (mem_runs (w_store w'))"
    using mem_fire_loop_spec [OF assms(3,1,2)] by auto
  show ?thesis
    using ts root_chain_keeps [OF ts(5)] root_chain_new [OF ts(5)] root_chain_once [OF ts(5)]
    by (intro exI [of _ ts]) (simp add: list_all_iff, blast)
qed

text \<open>For \<^verbatim>\<open>@every\<close> schedules the catch-up loop always returns, however far behind it is.\<close>

theorem catch_up_terminates:
  assumes "mem_world_ok env w" "j_ID j \<noteq> []" "delay_ok d"
  shows "\<exists>n next' w'. fire_loop memory_ops env (DelaySched d) j now next created w = Some (None, n, next', w')"
  using mem_fire_loop_delay [OF assms(3,2,1)] by blast

theorem catch_up_terminates_witness:
  "\<exists>n next' w'. fire_loop memory_ops sample_env (DelaySched (Every 1)) sample_job 3000000000 0 0 sample_world = Some (None, n, next', w')"
  using catch_up_terminates [OF sample_world_ok, of sample_job "Every 1" 3000000000 0 0] by (simp add: sample_job_def Every_ok)

theorem catch_up_slots_witness:
  "\<exists>n next' w' ts. fire_loop memory_ops sample_env (DelaySched (Every 1)) sample_job 3000000000 0 0 sample_world = Some (None, n, next', w') \<and>
     fire_times (DelaySched (Every 1)) 0 ts next' \<and> 3000000000 < next' \<and> n = int (length ts)"
proof -
  have j: "j_ID sample_job \<noteq> []" by (simp add: sample_job_def)
  obtain n next' w' where f: "fire_loop memory_ops sample_env (DelaySched (Every 1)) sample_job 3000000000 0 0 sample_world = Some (None, n, next', w')"
    using mem_fire_loop_delay [OF Every_ok j sample_world_ok] by blast
  from catch_up_slots [OF sample_world_ok j f] f show ?thesis by auto
qed

text \<open>The jobs of a store have names, and so have their dependencies.\<close>

definition jobs_named :: "MemStore \<Rightarrow> bool" where
  "jobs_named s \<longleftrightarrow> (\<forall>j\<in>ran (mem_jobs s). j_ID j \<noteq> [] \<and> [] \<notin> set (j_DependsOn j))"

lemma mem_enqueueDependents:
  assumes "mem_world_ok env w" "jobs_named (w_store w)" "r_BatchID c \<noteq> []"
  obtains ks w' where "enqueueDependents memory_ops env c now w = (Inr (), w')" "mem_world_ok env w'"
    "mem_jobs (w_store w') = mem_jobs (w_store w)"
    "set ks = {j \<in> ran (mem_jobs (w_store w)). r_JobID c \<in> set (j_DependsOn j)}"
    "dep_chain (r_BatchID c) now ks (mem_runs (w_store w)) (mem_runs (w_store w'))"
proof -
  obtain js w1 where c1: "call (st_ListJobs memory_ops) w = (Inr js, w1)"
    using mem.call_ListJobs_ok [unfolded mem_world_ok_eq, OF assms(1)] by blast
  note l = mem.call_ListJobs [unfolded mem_world_ok_eq, OF assms(1) c1]
  have js: "set js = ran (mem_jobs (w_store w))" by (rule l(3)) simp
  then have named: "\<forall>j\<in>set js. j_ID j \<noteq> [] \<and> [] \<notin> set (j_DependsOn j)" using assms(2) by (simp add: jobs_named_def)
  obtain w' where a: "enqueue_all memory_ops env c now js w1 = (Inr (), w')"
    using mem.enqueue_all_ok [unfolded mem_world_ok_eq, OF l(1) named assms(3)] by blast
  from mem.enqueue_all_spec [unfolded mem_world_ok_eq, OF l(1) named assms(3) a] obtain ks where
    ks: "mem_world_ok env w'" "mem_jobs (w_store w') = mem_jobs (w_store w1)"
      "ks = filter (\<lambda>j. r_JobID c \<in> set (j_DependsOn j)) js"
      "dep_chain (r_BatchID c) now ks (mem_runs (w_store w1)) (mem_runs (w_store w'))" by blast
  have e: "enqueueDependents memory_ops env c now w = (Inr (), w')" using c1 a by (simp add: enqueueDependents_def bind_act_def)
  show thesis
  proof (rule that [OF e ks(1)])
    show "mem_jobs (w_store w') = mem_jobs (w_store w)" using ks(2) l(2) by (simp add: mem.same_data_def)
    show "set ks = {j \<in> ran (mem_jobs (w_store w)). r_JobID c \<in> set (j_DependsOn j)}" using ks(3) js by auto
    show "dep_chain (r_BatchID c) now ks (mem_runs (w_store w)) (mem_runs (w_store w'))"
      using ks(4) l(2) by (simp add: mem.same_data_def)
  qed
qed

text \<open>C2: advancing a batch. After \<^verbatim>\<open>enqueueDependents\<close>, every job that depends on the completed one and
  whose dependencies have all succeeded in the batch has a run in the batch. The runs added are
  pending runs of exactly such jobs that had none in the batch, at most one per job, and no run is
  lost or changed.\<close>

theorem enqueueDependents_correct:
  assumes "mem_world_ok env w" "jobs_named (w_store w)" "r_BatchID c \<noteq> []"
  shows "\<exists>w'. enqueueDependents memory_ops env c now w = (Inr (), w') \<and> mem_runs (w_store w) \<subseteq>\<^sub>m mem_runs (w_store w') \<and>
    (\<forall>j \<in> ran (mem_jobs (w_store w)). r_JobID c \<in> set (j_DependsOn j) \<and>
       (\<forall>d\<in>set (j_DependsOn j). succeeded_in (mem_runs (w_store w)) d (r_BatchID c)) \<longrightarrow>
       in_batch (mem_runs (w_store w')) (j_ID j) (r_BatchID c)) \<and>
    (\<forall>k r. mem_runs (w_store w) k = None \<and> mem_runs (w_store w') k = Some r \<longrightarrow>
       (\<exists>j \<in> ran (mem_jobs (w_store w)). r = dependent_run k (r_BatchID c) j now \<and> r_JobID c \<in> set (j_DependsOn j) \<and>
          (\<forall>d\<in>set (j_DependsOn j). succeeded_in (mem_runs (w_store w)) d (r_BatchID c)) \<and>
          \<not> in_batch (mem_runs (w_store w)) (j_ID j) (r_BatchID c))) \<and>
    (\<forall>k l r q. mem_runs (w_store w) k = None \<and> mem_runs (w_store w) l = None \<and> mem_runs (w_store w') k = Some r \<and>
       mem_runs (w_store w') l = Some q \<and> r_JobID r = r_JobID q \<longrightarrow> k = l)"
proof -
  obtain ks w' where k: "enqueueDependents memory_ops env c now w = (Inr (), w')"
    "set ks = {j \<in> ran (mem_jobs (w_store w)). r_JobID c \<in> set (j_DependsOn j)}"
    "dep_chain (r_BatchID c) now ks (mem_runs (w_store w)) (mem_runs (w_store w'))"
    by (rule mem_enqueueDependents [OF assms])
  show ?thesis
  proof (intro exI conjI)
    show "enqueueDependents memory_ops env c now w = (Inr (), w')" by (rule k(1))
    show "mem_runs (w_store w) \<subseteq>\<^sub>m mem_runs (w_store w')" using dep_chain_keeps [OF k(3)] by blast
    show "\<forall>j \<in> ran (mem_jobs (w_store w)). r_JobID c \<in> set (j_DependsOn j) \<and>
       (\<forall>d\<in>set (j_DependsOn j). succeeded_in (mem_runs (w_store w)) d (r_BatchID c)) \<longrightarrow>
       in_batch (mem_runs (w_store w')) (j_ID j) (r_BatchID c)"
      using dep_chain_complete [OF k(3)] k(2) by blast
    show "\<forall>k r. mem_runs (w_store w) k = None \<and> mem_runs (w_store w') k = Some r \<longrightarrow>
       (\<exists>j \<in> ran (mem_jobs (w_store w)). r = dependent_run k (r_BatchID c) j now \<and> r_JobID c \<in> set (j_DependsOn j) \<and>
          (\<forall>d\<in>set (j_DependsOn j). succeeded_in (mem_runs (w_store w)) d (r_BatchID c)) \<and>
          \<not> in_batch (mem_runs (w_store w)) (j_ID j) (r_BatchID c))"
      using dep_chain_new [OF k(3)] k(2) by blast
    show "\<forall>k l r q. mem_runs (w_store w) k = None \<and> mem_runs (w_store w) l = None \<and> mem_runs (w_store w') k = Some r \<and>
       mem_runs (w_store w') l = Some q \<and> r_JobID r = r_JobID q \<longrightarrow> k = l"
      using dep_chain_once [OF k(3)] by blast
  qed
qed

text \<open>Job \<open>b\<close> depends on \<open>a\<close>, and \<open>a\<close> has succeeded in batch \<open>x\<close>.\<close>

definition done_run :: Run where
  "done_run = zero_run\<lparr>r_ID := ''ra'', r_JobID := ''a'', r_BatchID := ''x'', r_State := StateSucceeded\<rparr>"

definition dag_world :: "MemStore world" where
  "dag_world = sample_world\<lparr>w_store :=
     \<lparr>m_jobs = [(''a'', zero_job\<lparr>j_ID := ''a''\<rparr>), (''b'', zero_job\<lparr>j_ID := ''b'', j_DependsOn := [''a'']\<rparr>)],
      m_runs = [(''ra'', done_run)]\<rparr>\<rparr>"

lemma show_nat_not_ra: "show_nat i \<noteq> ''ra''"
  using show_nat_digits [of "CHR ''r''" i] by (auto simp: is_digit_def byte_def)

theorem enqueueDependents_correct_witness:
  "\<exists>w'. enqueueDependents memory_ops sample_env done_run 7 dag_world = (Inr (), w') \<and> in_batch (mem_runs (w_store w')) ''b'' ''x''"
proof -
  have "mem_world_ok sample_env dag_world"
    using sample_world_ok show_nat_not_ra
    by (auto simp: mem_world_ok_def dag_world_def sample_env_def mem_inv_def mem_runs_def done_run_def zero_job_def)
  moreover have named: "jobs_named (w_store dag_world)" "r_BatchID done_run \<noteq> []"
    by (auto simp: jobs_named_def dag_world_def mem_jobs_def ran_def done_run_def zero_job_def split: if_splits)
  ultimately obtain w' where w': "enqueueDependents memory_ops sample_env done_run 7 dag_world = (Inr (), w')"
    "\<forall>j \<in> ran (mem_jobs (w_store dag_world)). r_JobID done_run \<in> set (j_DependsOn j) \<and>
       (\<forall>d\<in>set (j_DependsOn j). succeeded_in (mem_runs (w_store dag_world)) d (r_BatchID done_run)) \<longrightarrow>
       in_batch (mem_runs (w_store w')) (j_ID j) (r_BatchID done_run)"
    using enqueueDependents_correct [of sample_env dag_world done_run 7] by blast
  have "mem_jobs (w_store dag_world) ''b'' = Some (zero_job\<lparr>j_ID := ''b'', j_DependsOn := [''a'']\<rparr>)"
    by (simp add: dag_world_def mem_jobs_def)
  then have "zero_job\<lparr>j_ID := ''b'', j_DependsOn := [''a'']\<rparr> \<in> ran (mem_jobs (w_store dag_world))" by (rule ranI)
  moreover have "done_run \<in> ran (mem_runs (w_store dag_world))"
    by (rule ranI [of _ "''ra''"]) (simp add: dag_world_def mem_runs_def)
  then have "succeeded_in (mem_runs (w_store dag_world)) ''a'' ''x''"
    by (auto simp: succeeded_in_def done_run_def intro!: bexI [of _ done_run])
  ultimately have "in_batch (mem_runs (w_store w')) ''b'' ''x''"
    using w'(2) by (fastforce simp: done_run_def)
  then show ?thesis using w'(1) by blast
qed

end
