(* ===== verification/Backoff.thy ===== *)
theory Backoff
  imports GoFloat
begin

text \<open>
  The package \<^verbatim>\<open>backoff\<close> (\<^verbatim>\<open>src/backoff/backoff.go\<close>): the delay before a retry. A delay is a
  \<^verbatim>\<open>time.Duration\<close> in nanoseconds; the one call of \<^verbatim>\<open>rand.Float64\<close> is a parameter of the delay,
  used only when there is jitter.
\<close>

section \<open>Definitions\<close>

definition defaultBase :: duration where
  "defaultBase = 100000000"

definition defaultFactor :: f64 where
  "defaultFactor = Fin 2"

record Exponential =
  e_Base :: duration
  e_Max :: duration
  e_Factor :: f64
  e_Jitter :: f64

definition base_of :: "Exponential \<Rightarrow> duration" where
  "base_of e = (if e_Base e \<le> 0 then defaultBase else e_Base e)"

definition factor_of :: "Exponential \<Rightarrow> f64" where
  "factor_of e = (if f64_le (e_Factor e) (Fin 1) then defaultFactor else e_Factor e)"

definition jittered :: "f64 \<Rightarrow> f64 \<Rightarrow> f64 \<Rightarrow> f64" where
  "jittered rand j d =
     (if f64_less (Fin 0) j
      then let j = (if f64_less (Fin 1) j then Fin 1 else j)
           in f64_add (f64_mul d (f64_sub (Fin 1) j)) (f64_mul (f64_mul rand d) j)
      else d)"

definition Delay :: "f64 \<Rightarrow> Exponential \<Rightarrow> int \<Rightarrow> duration" where
  "Delay rand e attempt =
     (let attempt = (if attempt < 0 then 0 else attempt);
          d = f64_mul (f64_of_int (base_of e)) (Pow (factor_of e) (nat attempt));
          d = (if 0 < e_Max e \<and> f64_less (f64_of_int (e_Max e)) d then f64_of_int (e_Max e) else d);
          d = jittered rand (e_Jitter e) d
      in if f64_le (f64_of_int max_int64) d then max_int64 else f64_to_int64 d)"

section \<open>Lemmas\<close>

lemma base_of_pos: "0 < base_of e"
  by (simp add: base_of_def defaultBase_def)

lemma base_of_le: "e_Base e \<le> max_int64 \<Longrightarrow> base_of e \<le> max_int64"
  by (simp add: base_of_def defaultBase_def max_int64_def)

lemma f64_of_int_max_int64: "f64_of_int max_int64 = Fin (2 ^ 63)"
proof -
  have e: "exponent (of_int max_int64) = 62"
    by (rule exponent_eqI) (simp_all add: pow2_def max_int64_def)
  then have u: "ulp_exponent (of_int max_int64) = 10" by (simp add: ulp_exponent_def max_int64_def)
  have "\<lfloor>9223372036854775807 / 1024 :: rat\<rfloor> = 9007199254740991" by (simp add: floor_eq_iff)
  then have q: "round_half_even (9223372036854775807 / 1024) = 9007199254740992"
    by (simp add: round_half_even_def Let_def)
  have r: "round64 (of_int max_int64) = 2 ^ 63"
    unfolding round64_def u by (simp add: pow2_def max_int64_def q)
  have "\<not> pow2 1024 \<le> 2 ^ 63" "\<not> 2 ^ 63 \<le> - pow2 1024"
    using pow2_strict_mono [of 63 1024] pow2_pos [of 1024] by (auto simp: pow2_def [of 63])
  then show ?thesis by (simp add: f64_of_int_def to_f64_def r Let_def)
qed

lemma f64_of_int_pos:
  assumes "0 < n" "n \<le> max_int64"
  shows "\<exists>x>0. f64_of_int n = Fin x"
proof -
  have 1: "round64 1 = 1" using round64_int [of 1] by simp
  have "1 \<le> (of_int n :: rat)" using assms(1) by linarith
  then have lo: "1 \<le> round64 (of_int n)" using round64_ge [of 1 "of_int n"] 1 by simp
  have "(of_int n :: rat) \<le> of_int (2 ^ 63)" using assms(2) by (simp only: of_int_le_iff) (simp add: max_int64_def)
  then have "(of_int n :: rat) \<le> pow2 63" by (simp add: pow2_def)
  then have "round64 (of_int n) \<le> pow2 63" using assms(1) by (intro round64_le) (auto simp: round64_pow2)
  then have "round64 (of_int n) < pow2 1024" using pow2_strict_mono [of 63 1024] by simp
  moreover have "\<not> round64 (of_int n) \<le> - pow2 1024" using lo pow2_pos [of 1024] by linarith
  ultimately show ?thesis using lo by (intro exI [of _ "round64 (of_int n)"]) (auto simp: f64_of_int_def to_f64_def Let_def)
qed

text \<open>Before the cap the delay is a non-negative number or infinity.\<close>

definition nonneg64 :: "f64 \<Rightarrow> bool" where
  "nonneg64 d = (case d of Fin x \<Rightarrow> 0 \<le> x | PosInf \<Rightarrow> True | _ \<Rightarrow> False)"

lemma to_f64_nonneg64: "0 \<le> x \<Longrightarrow> nonneg64 (to_f64 x)"
  by (rule to_f64_nonneg [of x]) (auto simp: nonneg64_def)

lemma factor_of_cases:
  assumes "e_Factor e \<noteq> NaN"
  obtains "factor_of e = PosInf" | a where "factor_of e = Fin a" "1 < a"
proof (cases "f64_le (e_Factor e) (Fin 1)")
  case True
  then show thesis using that(2) [of 2] by (simp add: factor_of_def defaultFactor_def)
next
  case False
  then show thesis using that assms by (cases "e_Factor e") (auto simp: factor_of_def)
qed

lemma Pow_factor_nonneg:
  assumes "e_Factor e \<noteq> NaN"
  shows "nonneg64 (Pow (factor_of e) n)"
  using assms
proof (rule factor_of_cases)
  assume "factor_of e = PosInf"
  then show ?thesis by (simp add: Pow_def Let_def nonneg64_def)
next
  fix a assume "factor_of e = Fin a" "1 < a"
  then show ?thesis using Pow_nonneg [of a n] by (auto simp: nonneg64_def)
qed

lemma uncapped_nonneg:
  assumes "e_Factor e \<noteq> NaN" "e_Base e \<le> max_int64"
  shows "nonneg64 (f64_mul (f64_of_int (base_of e)) (Pow (factor_of e) n))"
proof -
  obtain b where b: "0 < b" "f64_of_int (base_of e) = Fin b"
    using f64_of_int_pos base_of_pos base_of_le assms(2) by metis
  show ?thesis
    using Pow_factor_nonneg [OF assms(1), of n] b
    by (cases "Pow (factor_of e) n") (auto simp: nonneg64_def inf_sign_def intro!: to_f64_nonneg64 [unfolded nonneg64_def])
qed

text \<open>Up to \<open>2 ^ 50\<close> nanoseconds (13 days) a rounding moves a value by less than \<open>9 / 64\<close>.\<close>

lemma round64_abs_error:
  assumes "0 \<le> x" "x \<le> 2 ^ 50 + 1"
  shows "round64 x \<le> x + 9 / 64"
proof -
  have "pow2 (- 1075) \<le> pow2 (- 53)" by (rule pow2_mono) simp
  moreover have "x * pow2 (- 53) \<le> (2 ^ 50 + 1) * pow2 (- 53)"
    using assms(2) by (intro mult_right_mono) (auto simp: less_imp_le)
  ultimately have "x * pow2 (- 53) + pow2 (- 1075) \<le> (2 ^ 50 + 1) * pow2 (- 53) + pow2 (- 53)" by (intro add_mono)
  also have "\<dots> \<le> 9 / 64" by (simp add: pow2_def)
  finally show ?thesis using round64_error(1) [OF assms(1)] by linarith
qed

lemma round64_unit_error:
  assumes "0 \<le> x" "x \<le> 1"
  shows "round64 x \<le> x + pow2 (- 52)" "round64 x \<le> 1"
proof -
  have "pow2 (- 1075) \<le> pow2 (- 53)" by (rule pow2_mono) simp
  moreover have "x * pow2 (- 53) \<le> 1 * pow2 (- 53)"
    using assms(2) by (intro mult_right_mono) (auto simp: less_imp_le)
  moreover have "pow2 (- 52) = 2 * pow2 (- 53)" using pow2_add [of 1 "- 53"] by (simp add: pow2_def [of 1])
  ultimately show "round64 x \<le> x + pow2 (- 52)" using round64_error(1) [OF assms(1)] by linarith
  show "round64 x \<le> 1" using round64_le [of x 1] round64_int [of 1] assms by simp
qed

lemma to_f64_mid:
  assumes "0 \<le> x" "x \<le> 2 ^ 50 + 1"
  shows "to_f64 x = Fin (round64 x)"
proof -
  have "round64 x \<le> x + 9 / 64" using assms by (rule round64_abs_error)
  then have "round64 x < 2 ^ 53" using assms(2) by simp
  then have "\<not> pow2 1024 \<le> round64 x" using pow2_1024_big by linarith
  with assms(1) show ?thesis by (auto elim: to_f64_nonneg)
qed

lemma jittered_bounds:
  assumes d: "0 \<le> d" "d \<le> 2 ^ 50" and r: "0 \<le> r" "r \<le> 1"
  shows "\<exists>y. jittered (Fin r) j (Fin d) = Fin y \<and> 0 \<le> y \<and> y < d + 1"
proof (cases "f64_less (Fin 0) j")
  case False
  then show ?thesis using d by (simp add: jittered_def)
next
  case True
  define j1 where "j1 = (if f64_less (Fin 1) j then Fin 1 else j)"
  obtain q where q: "j1 = Fin q" "0 < q" "q \<le> 1"
  proof (cases j)
    case (Fin x)
    then show ?thesis using True that [of "min 1 x"] by (auto simp: j1_def min_def)
  qed (use True that [of 1] in \<open>auto simp: j1_def\<close>)
  define s where "s = round64 (1 - q)"
  define A where "A = round64 (d * s)"
  define B1 where "B1 = round64 (r * d)"
  define B where "B = round64 (B1 * q)"
  have s: "0 \<le> s" "s \<le> 1" "s \<le> 1 - q + pow2 (- 52)"
    using q round64_unit_error [of "1 - q"] by (auto simp: s_def round64_nonneg)
  have ds: "0 \<le> d * s" "d * s \<le> d" using d s mult_left_mono [of s 1 d] by auto
  have "d * s \<le> d * (1 - q + pow2 (- 52))" using s(3) d(1) by (rule mult_left_mono)
  moreover have "d * pow2 (- 52) \<le> 1 / 4"
    using mult_right_mono [OF d(2), of "pow2 (- 52)"] by (simp add: pow2_def)
  ultimately have ds2: "d * s \<le> d - d * q + 1 / 4" by (simp add: algebra_simps)
  have A: "0 \<le> A" "A \<le> d - d * q + 1 / 4 + 9 / 64"
    using ds ds2 d round64_abs_error [of "d * s"] by (auto simp: A_def round64_nonneg)
  have rd: "0 \<le> r * d" "r * d \<le> d" using d r mult_right_mono [of r 1 d] by auto
  have B1: "0 \<le> B1" "B1 \<le> d + 9 / 64"
    using rd d round64_abs_error [of "r * d"] by (auto simp: B1_def round64_nonneg)
  have "B1 * q \<le> (d + 9 / 64) * q" using B1(2) q(2) by (intro mult_right_mono) auto
  then have Bq: "0 \<le> B1 * q" "B1 * q \<le> d * q + 9 / 64" using B1 q by (auto simp: algebra_simps)
  have dq: "0 \<le> d * q" "d * q \<le> d" using d q mult_left_mono [of q 1 d] by auto
  have B: "0 \<le> B" "B \<le> d * q + 18 / 64"
    using Bq dq d round64_abs_error [of "B1 * q"] by (auto simp: B_def round64_nonneg)
  have AB: "0 \<le> A + B" "A + B \<le> d + 43 / 64" using A B by auto
  have y: "0 \<le> round64 (A + B)" "round64 (A + B) < d + 1"
    using AB d round64_abs_error [of "A + B"] by (auto simp: round64_nonneg)
  have "f64_sub (Fin 1) (Fin q) = Fin s"
    using q to_f64_mid [of "1 - q"] by (simp add: f64_sub_def s_def)
  moreover have "f64_mul (Fin d) (Fin s) = Fin A" using ds d to_f64_mid [of "d * s"] by (simp add: A_def)
  moreover have "f64_mul (Fin r) (Fin d) = Fin B1" using rd d to_f64_mid [of "r * d"] by (simp add: B1_def)
  moreover have "f64_mul (Fin B1) (Fin q) = Fin B" using Bq dq d to_f64_mid [of "B1 * q"] by (simp add: B_def)
  moreover have "f64_add (Fin A) (Fin B) = Fin (round64 (A + B))" using AB d to_f64_mid [of "A + B"] by simp
  ultimately have "jittered (Fin r) j (Fin d) = Fin (round64 (A + B))"
    using True q(1) by (simp only: jittered_def Let_def j1_def [symmetric] if_True)
  then show ?thesis using y by blast
qed

lemma f64_to_int64_bounds:
  assumes "0 \<le> y" "y < of_int m + 1" "m \<le> 2 ^ 50"
  shows "0 \<le> f64_to_int64 (Fin y)" "f64_to_int64 (Fin y) \<le> m"
proof -
  define n where "n = \<lfloor>y\<rfloor>"
  have n: "0 \<le> n" "n \<le> m" using assms(1,2) by (auto simp: n_def floor_le_iff)
  then have "min_int64 \<le> n" "n \<le> max_int64" using assms(3) by (simp_all add: min_int64_def max_int64_def)
  then have "f64_to_int64 (Fin y) = n"
    using assms(1) by (simp only: f64_to_int64.simps Let_def n_def [symmetric] if_True simp_thms)
  then show "0 \<le> f64_to_int64 (Fin y)" "f64_to_int64 (Fin y) \<le> m" using n by simp_all
qed

lemma capped_bounds:
  assumes "nonneg64 d" "0 < m" "m \<le> 2 ^ 50"
  shows "\<exists>x. (if 0 < m \<and> f64_less (f64_of_int m) d then f64_of_int m else d) = Fin x \<and> 0 \<le> x \<and> x \<le> of_int m"
  using assms f64_of_int_small [of m] by (cases d) (auto simp: nonneg64_def not_less)

lemma Delay_in_cap:
  assumes "0 < e_Max e" "e_Max e \<le> 2 ^ 50" "e_Base e \<le> max_int64" "e_Factor e \<noteq> NaN" "0 \<le> r" "r \<le> 1"
  shows "0 \<le> Delay (Fin r) e attempt \<and> Delay (Fin r) e attempt \<le> e_Max e"
proof -
  define d where "d = f64_mul (f64_of_int (base_of e)) (Pow (factor_of e) (nat (if attempt < 0 then 0 else attempt)))"
  obtain x where x: "(if 0 < e_Max e \<and> f64_less (f64_of_int (e_Max e)) d then f64_of_int (e_Max e) else d) = Fin x"
    "0 \<le> x" "x \<le> of_int (e_Max e)"
    using capped_bounds [of d "e_Max e"] uncapped_nonneg [of e] assms(1-4) unfolding d_def by blast
  have "(of_int (e_Max e) :: rat) \<le> of_int (2 ^ 50)" using assms(2) by (simp only: of_int_le_iff)
  then have x50: "x \<le> 2 ^ 50" using x(3) by simp
  obtain y where y: "jittered (Fin r) (e_Jitter e) (Fin x) = Fin y" "0 \<le> y" "y < x + 1"
    using jittered_bounds [OF x(2) x50 assms(5,6)] by blast
  have "\<not> f64_le (f64_of_int max_int64) (Fin y)" using y(3) x50 by (simp add: f64_of_int_max_int64)
  then have "Delay (Fin r) e attempt = f64_to_int64 (Fin y)"
    by (simp only: Delay_def Let_def d_def [symmetric] x(1) y(1) if_False)
  then show ?thesis using f64_to_int64_bounds [of y "e_Max e"] y x assms(2) by simp
qed

text \<open>Without jitter and with factor two the arithmetic is exact.\<close>

lemma round64_scaled: "\<bar>m\<bar> \<le> 2 ^ 53 \<Longrightarrow> 0 \<le> m \<Longrightarrow> round64 (of_int m * 2 ^ n) = of_int m * 2 ^ n"
proof (cases "m = 2 ^ 53")
  case True
  then show ?thesis using round64_pow2 [of "int n + 53"] by (simp add: pow2_def nat_add_distrib power_add algebra_simps)
next
  case False
  moreover assume "\<bar>m\<bar> \<le> 2 ^ 53" "0 \<le> m"
  ultimately show ?thesis using round64_small [of m "int n"] by (simp add: pow2_def)
qed

lemma to_f64_scaled:
  assumes "0 < m" "m \<le> 2 ^ 53"
  shows "to_f64 (of_int m * 2 ^ n) = (if of_int m * 2 ^ n < pow2 1024 then Fin (of_int m * 2 ^ n) else PosInf)"
proof -
  have "0 \<le> (of_int m :: rat) * 2 ^ n" using assms(1) by simp
  then have "\<not> of_int m * 2 ^ n \<le> - pow2 1024" using pow2_pos [of 1024] by linarith
  then show ?thesis using assms round64_scaled [of m n] by (auto simp: to_f64_def Let_def)
qed

lemma doubled:
  assumes "0 < m" "m \<le> 2 ^ 53" "n \<le> 2 ^ 53"
  shows "f64_mul (f64_of_int m) (Pow (Fin 2) n) =
           (if of_int m * 2 ^ n < pow2 1024 then Fin (of_int m * 2 ^ n) else PosInf)"
proof (cases "n < 1024")
  case True
  then show ?thesis using assms by (simp add: Pow_2 f64_of_int_small to_f64_scaled)
next
  case False
  then have "pow2 1024 \<le> 2 ^ n" using power_increasing [of 1024 n "2::rat"] by (simp add: pow2_def)
  also have "\<dots> \<le> of_int m * 2 ^ n" using assms(1) by simp
  finally have "\<not> of_int m * 2 ^ n < pow2 1024" by simp
  then show ?thesis using False assms by (simp add: Pow_2 f64_of_int_small inf_sign_def)
qed

lemma f64_to_int64_of_int: "0 \<le> n \<Longrightarrow> n \<le> max_int64 \<Longrightarrow> f64_to_int64 (Fin (of_int n)) = n"
  by (simp add: min_int64_def)

text \<open>The saturating conversion of an exact integer.\<close>

lemma saturate_of_int:
  assumes "0 \<le> n"
  shows "(if f64_le (f64_of_int max_int64) (Fin (of_int n)) then max_int64 else f64_to_int64 (Fin (of_int n)))
           = min max_int64 n"
proof -
  have "(2 ^ 63 :: rat) \<le> of_int n \<longleftrightarrow> (of_int (2 ^ 63) :: rat) \<le> of_int n" by simp
  also have "\<dots> \<longleftrightarrow> 2 ^ 63 \<le> n" by (simp only: of_int_le_iff)
  also have "\<dots> \<longleftrightarrow> max_int64 < n" by (auto simp: max_int64_def)
  finally have "f64_le (f64_of_int max_int64) (Fin (of_int n)) \<longleftrightarrow> max_int64 < n"
    by (simp only: f64_of_int_max_int64 f64_le.simps)
  then show ?thesis using assms f64_to_int64_of_int [of n] by (auto simp: min_def simp del: f64_to_int64.simps)
qed

lemma huge_delay: "\<not> of_int n < pow2 1024 \<Longrightarrow> max_int64 < n"
proof -
  assume "\<not> of_int n < pow2 1024"
  moreover have "of_int (2 ^ 63) < pow2 1024" using pow2_strict_mono [of 63 1024] by (simp add: pow2_def [of 63])
  ultimately have "(of_int (2 ^ 63) :: rat) < of_int n" by linarith
  then have "2 ^ 63 < n" by (simp only: of_int_less_iff)
  then show ?thesis by (simp add: max_int64_def)
qed

lemma doubling:
  assumes "factor_of e = Fin 2" "\<not> f64_less (Fin 0) (e_Jitter e)" "base_of e \<le> 2 ^ 53" "e_Max e \<le> 2 ^ 53"
    "attempt \<le> 2 ^ 53"
  shows "Delay rand e attempt =
           min (if 0 < e_Max e then e_Max e else max_int64) (base_of e * 2 ^ nat attempt)"
proof -
  define n where "n = nat attempt"
  define N where "N = base_of e * 2 ^ n"
  have N: "0 \<le> N" using base_of_pos [of e] by (simp add: N_def less_imp_le)
  have "nat (if attempt < 0 then 0 else attempt) = n" "n \<le> 2 ^ 53" using assms(5) by (auto simp: n_def)
  then have d: "f64_mul (f64_of_int (base_of e)) (Pow (factor_of e) (nat (if attempt < 0 then 0 else attempt)))
       = (if of_int N < pow2 1024 then Fin (of_int N) else PosInf)"
    using doubled [of "base_of e" n] base_of_pos [of e] assms(1,3) by (simp add: N_def)
  have j: "jittered rand (e_Jitter e) x = x" for x using assms(2) by (simp add: jittered_def)
  show ?thesis
  proof (cases "0 < e_Max e")
    case True
    then have M: "f64_of_int (e_Max e) = Fin (of_int (e_Max e))" "e_Max e \<le> max_int64"
      using assms(4) by (auto simp: f64_of_int_small max_int64_def)
    define D where "D = (if of_int N < pow2 1024 then Fin (of_int N) else PosInf)"
    have "(if 0 < e_Max e \<and> f64_less (f64_of_int (e_Max e)) D then f64_of_int (e_Max e) else D) = Fin (of_int (min (e_Max e) N))"
      using True M huge_delay [of N] by (cases "of_int N < pow2 1024") (auto simp: D_def min_def)
    then have "Delay rand e attempt = min max_int64 (min (e_Max e) N)"
      unfolding Delay_def Let_def d D_def [symmetric] j
      by (subst saturate_of_int [symmetric]) (use True N in simp_all)
    then show ?thesis using True M by (simp add: N_def n_def)
  next
    case False
    show ?thesis
    proof (cases "of_int N < pow2 1024")
      case True
      then show ?thesis
        using False N saturate_of_int [of N] by (auto simp: Delay_def Let_def d j N_def [symmetric] n_def [symmetric] simp del: f64_to_int64.simps split: if_splits)
    next
      case huge: False
      then show ?thesis
        using False huge_delay [OF huge]
        by (simp add: Delay_def Let_def d j N_def [symmetric] n_def [symmetric] f64_of_int_max_int64)
    qed
  qed
qed

section \<open>Properties\<close>

text \<open>C38: a delay never exceeds the cap and is never negative, whatever the attempt, the jitter
  and the random number; for caps up to \<open>2 ^ 50\<close> nanoseconds (13 days), where a rounding of the
  jitter arithmetic cannot reach a whole nanosecond.\<close>

theorem Delay_bounds:
  assumes "0 < e_Max e" "e_Max e \<le> 2 ^ 50" "e_Base e \<le> max_int64" "e_Factor e \<noteq> NaN" "0 \<le> r" "r \<le> 1"
  shows "0 \<le> Delay (Fin r) e attempt \<and> Delay (Fin r) e attempt \<le> e_Max e"
  using assms by (rule Delay_in_cap)

definition sample_policy :: Exponential where
  "sample_policy = \<lparr>e_Base = 1500, e_Max = 1000000, e_Factor = Fin 3, e_Jitter = Fin (1 / 2)\<rparr>"

theorem Delay_bounds_witness:
  "0 \<le> Delay (Fin (1 / 4)) sample_policy 7 \<and> Delay (Fin (1 / 4)) sample_policy 7 \<le> 1000000"
  using Delay_bounds [of sample_policy "1 / 4" 7] by (simp add: sample_policy_def max_int64_def)

text \<open>C39: without jitter and with the default factor, the delay of every attempt is exactly the
  base doubled once per attempt, capped at \<open>Max\<close> when it is set and saturated at the largest
  duration when it is not (base, cap and attempt number up to \<open>2 ^ 53\<close>, up to which integers are exact in \<^verbatim>\<open>float64\<close>).\<close>

theorem Delay_doubles:
  assumes "factor_of e = Fin 2" "\<not> f64_less (Fin 0) (e_Jitter e)" "base_of e \<le> 2 ^ 53" "e_Max e \<le> 2 ^ 53"
    "attempt \<le> 2 ^ 53"
  shows "Delay rand e attempt =
           min (if 0 < e_Max e then e_Max e else max_int64) (base_of e * 2 ^ nat attempt)"
  using assms by (rule doubling)

theorem Delay_doubles_witness:
  "Delay (Fin 0) \<lparr>e_Base = 0, e_Max = 60000000000, e_Factor = Fin 0, e_Jitter = Fin 0\<rparr> 5 = 3200000000"
  using Delay_doubles [of "\<lparr>e_Base = 0, e_Max = 60000000000, e_Factor = Fin 0, e_Jitter = Fin 0\<rparr>" 5 "Fin 0"]
  by (simp add: factor_of_def base_of_def defaultFactor_def defaultBase_def)

text \<open>With full jitter and no cap, a delay that overflows to infinity becomes
  \<open>Inf * 0\<close>, which is not a number, slips past the saturation test and is converted to the
  smallest \<^verbatim>\<open>int64\<close>: the delay is negative, contrary to the comment that it can never overflow.\<close>

theorem Delay_jitter_overflow:
  "Delay (Fin r) \<lparr>e_Base = 0, e_Max = 0, e_Factor = Fin 2, e_Jitter = Fin 1\<rparr> 2000 = min_int64"
proof -
  have "\<not> 100000000 * 2 ^ 2000 < pow2 1024"
  proof -
    have "pow2 1024 \<le> 2 ^ 2000" using pow2_mono [of 1024 2000] by (simp add: pow2_def [of 2000])
    also have "\<dots> \<le> 100000000 * (2 ^ 2000 :: rat)" by simp
    finally show ?thesis by (simp only: not_less)
  qed
  then have "f64_mul (f64_of_int 100000000) (Pow (Fin 2) 2000) = PosInf"
    using doubled [of 100000000 2000] by simp
  moreover have "f64_sub (Fin 1) (Fin 1) = Fin 0" by (simp add: f64_sub_def to_f64_def Let_def not_le)
  ultimately show ?thesis
    by (simp add: Delay_def base_of_def factor_of_def defaultBase_def jittered_def Let_def f64_of_int_max_int64)
qed

end
