(* ===== verification/Worker.thy ===== *)
theory Worker
  imports Dispatcher Backoff
begin

text \<open>
  The executors (\<^verbatim>\<open>src/internal/scheduler/executors.go\<close>) and the worker that processes one claimed
  run (\<^verbatim>\<open>src/internal/scheduler/worker.go\<close>). What a custom executor or a subprocess answers is
  drawn from outside: \<open>Some msg\<close> is a non-nil error with that message. Contexts enter in the two
  ways the code uses them: the timeout handed to the executor, and whether the parent context is
  done once the execution is over.
\<close>

section \<open>Executors\<close>

datatype Executor =
    ExecutorFunc "nat \<Rightarrow> duration option \<Rightarrow> Job \<Rightarrow> Run \<Rightarrow> string option"
  | NoopExecutor
  | ShellExecutor

definition Execute :: "env \<Rightarrow> Executor \<Rightarrow> duration option \<Rightarrow> Job \<Rightarrow> Run \<Rightarrow> nat \<Rightarrow> string option" where
  "Execute env ex timeout j r n =
     (case ex of
        ExecutorFunc f \<Rightarrow> f n timeout j r
      | NoopExecutor \<Rightarrow> None
      | ShellExecutor \<Rightarrow>
          (if length (j_Command j) = 0 then None
           else e_command env n timeout (j_Command j ! 0) (drop 1 (j_Command j))))"

section \<open>The worker\<close>

definition backoffFor :: "RetryPolicy \<Rightarrow> Exponential" where
  "backoffFor p = \<lparr>e_Base = p_Base p, e_Max = p_Max p, e_Factor = p_Factor p, e_Jitter = p_Jitter p\<rparr>"

text \<open>A random number is drawn only when there is jitter.\<close>

definition draw_delay :: "env \<Rightarrow> Exponential \<Rightarrow> int \<Rightarrow> 's world \<Rightarrow> duration \<times> 's world" where
  "draw_delay env e attempt w =
     (if f64_less (Fin 0) (e_Jitter e)
      then (Delay (e_rand env (w_rands w)) e attempt, w\<lparr>w_rands := w_rands w + 1\<rparr>)
      else (Delay (Fin 0) e attempt, w))"

definition retry_run :: "string \<Rightarrow> Run \<Rightarrow> time \<Rightarrow> duration \<Rightarrow> Run" where
  "retry_run rid failed t delay =
     zero_run\<lparr>r_ID := rid, r_JobID := r_JobID failed, r_BatchID := r_BatchID failed, r_State := StatePending,
       r_Attempt := wrap64 (r_Attempt failed + 1), r_ScheduledFor := t + delay, r_CreatedAt := t, r_UpdatedAt := t\<rparr>"

definition scheduleRetry :: "'s store_ops \<Rightarrow> env \<Rightarrow> Job \<Rightarrow> Run \<Rightarrow> time \<Rightarrow> 's world \<Rightarrow> (store_error + unit) \<times> 's world" where
  "scheduleRetry ops env j failed t w =
     (let (delay, w) = draw_delay env (backoffFor (j_Backoff j)) (r_Attempt failed) w
      in bind_act (newID env) (\<lambda>rid. call (st_CreateRun ops (retry_run rid failed t delay))) w)"

definition on_metrics :: "(Metrics \<Rightarrow> Metrics) \<Rightarrow> 's world \<Rightarrow> 's world" where
  "on_metrics f w = w\<lparr>w_metrics := f (w_metrics w)\<rparr>"

definition error_of :: "store_error + unit \<Rightarrow> store_error option" where
  "error_of res = (case res of Inl e \<Rightarrow> Some e | Inr _ \<Rightarrow> None)"

text \<open>The part of \<^verbatim>\<open>process\<close> after a successful execution, and the part after a failed one.\<close>

definition finish_ok :: "'s store_ops \<Rightarrow> Job \<Rightarrow> Run \<Rightarrow> duration \<Rightarrow> 's world \<Rightarrow> (Run \<times> store_error option) \<times> 's world" where
  "finish_ok ops j r dur w =
     (let r = r\<lparr>r_State := StateSucceeded, r_Error := []\<rparr>;
          w = on_metrics (ObserveRun (j_ID j) (r_State r) dur) w;
          (res, w) = call (st_UpdateRun ops r) w
      in ((r, error_of res), w))"

definition finish_failed ::
    "'s store_ops \<Rightarrow> env \<Rightarrow> Job \<Rightarrow> Run \<Rightarrow> string \<Rightarrow> time \<Rightarrow> duration \<Rightarrow> 's world \<Rightarrow> (Run \<times> store_error option) \<times> 's world" where
  "finish_failed ops env j r msg finish dur w =
     (let r = r\<lparr>r_Error := msg\<rparr>
      in if r_Attempt r < j_MaxRetries j then
           let r = r\<lparr>r_State := StateFailed\<rparr>
           in case call (st_UpdateRun ops r) w of
                (Inl e, w) \<Rightarrow> ((r, Some e), w)
              | (Inr _, w) \<Rightarrow>
                  (case scheduleRetry ops env j r finish w of
                     (Inl e, w) \<Rightarrow> ((r, Some e), w)
                   | (Inr _, w) \<Rightarrow>
                       ((r, None), on_metrics (IncRetry (j_ID j)) (on_metrics (ObserveRun (j_ID j) StateFailed dur) w)))
         else
           let r = r\<lparr>r_State := StateDead\<rparr>;
               w = on_metrics (ObserveRun (j_ID j) StateDead dur) w;
               (res, w) = call (st_UpdateRun ops r) w
           in ((r, error_of res), w))"

definition timeout_of :: "Job \<Rightarrow> duration option" where
  "timeout_of j = (if 0 < j_Timeout j then Some (j_Timeout j) else None)"

definition process :: "'s store_ops \<Rightarrow> env \<Rightarrow> Executor \<Rightarrow> Run \<Rightarrow> 's world \<Rightarrow> (Run \<times> store_error option) \<times> 's world" where
  "process ops env ex r w =
     (case call (st_GetJob ops (r_JobID r)) w of
        (Inl e, w) \<Rightarrow> ((r, Some e), w)
      | (Inr j, w) \<Rightarrow>
          (let timeout = timeout_of j;
               (start, w) = read_clock env w;
               n = w_execs w;
               execErr = Execute env ex timeout j r n;
               w = w\<lparr>w_trace := w_trace w @ [(j, r)]\<rparr>
           in if e_cancelled env n then ((r, None), w)
              else let (finish, w) = read_clock env w;
                       dur = Sub finish start;
                       r = r\<lparr>r_FinishedAt := Some finish, r_UpdatedAt := finish\<rparr>
                   in case execErr of
                        None \<Rightarrow> finish_ok ops j r dur w
                      | Some msg \<Rightarrow> finish_failed ops env j r msg finish dur w))"

section \<open>What processing does to the runs\<close>

definition finished :: "Run \<Rightarrow> time \<Rightarrow> RunState \<Rightarrow> string \<Rightarrow> Run" where
  "finished r t s msg = r\<lparr>r_FinishedAt := Some t, r_UpdatedAt := t, r_Error := msg, r_State := s\<rparr>"

lemma finished_sel [simp]:
  "r_ID (finished r t s msg) = r_ID r" "r_JobID (finished r t s msg) = r_JobID r" "r_BatchID (finished r t s msg) = r_BatchID r"
  "r_State (finished r t s msg) = s" "r_Attempt (finished r t s msg) = r_Attempt r"
  "r_ScheduledFor (finished r t s msg) = r_ScheduledFor r"
  by (simp_all add: finished_def)

lemma finished_fold:
  "r\<lparr>r_FinishedAt := Some t, r_UpdatedAt := t, r_State := s, r_Error := msg\<rparr> = finished r t s msg"
  "r\<lparr>r_FinishedAt := Some t, r_UpdatedAt := t, r_Error := msg, r_State := s\<rparr> = finished r t s msg"
  by (cases r, simp add: finished_def)+

lemma retry_run_sel [simp]:
  "r_ID (retry_run rid r t d) = rid" "r_JobID (retry_run rid r t d) = r_JobID r" "r_BatchID (retry_run rid r t d) = r_BatchID r"
  "r_State (retry_run rid r t d) = StatePending" "r_Attempt (retry_run rid r t d) = wrap64 (r_Attempt r + 1)"
  "r_ScheduledFor (retry_run rid r t d) = t + d"
  by (simp_all add: retry_run_def)

lemma retry_run_finished [simp]: "retry_run rid (finished r u s msg) t d = retry_run rid r t d"
  by (simp add: retry_run_def)

text \<open>
  The outcomes of processing a run, as changes of the stored runs. \<open>Kept\<close> covers a missing job, a
  failing store and a shutdown, \<open>Unretried\<close> a store that fails between the two writes of a retry.
\<close>

inductive process_step :: "Job option \<Rightarrow> Run \<Rightarrow> (string \<rightharpoonup> Run) \<Rightarrow> (string \<rightharpoonup> Run) \<Rightarrow> bool" for oj r m where
  Kept: "process_step oj r m m"
| Succeeded: "oj = Some j \<Longrightarrow> m (r_ID r) \<noteq> None \<Longrightarrow> process_step oj r m (m(r_ID r \<mapsto> finished r t StateSucceeded []))"
| Dead: "oj = Some j \<Longrightarrow> m (r_ID r) \<noteq> None \<Longrightarrow> j_MaxRetries j \<le> r_Attempt r \<Longrightarrow>
    process_step oj r m (m(r_ID r \<mapsto> finished r t StateDead msg))"
| Unretried: "oj = Some j \<Longrightarrow> m (r_ID r) \<noteq> None \<Longrightarrow> r_Attempt r < j_MaxRetries j \<Longrightarrow>
    process_step oj r m (m(r_ID r \<mapsto> finished r t StateFailed msg))"
| Retried: "oj = Some j \<Longrightarrow> m (r_ID r) \<noteq> None \<Longrightarrow> r_Attempt r < j_MaxRetries j \<Longrightarrow> m rid = None \<Longrightarrow>
    process_step oj r m (m(r_ID r \<mapsto> finished r t StateFailed msg, rid \<mapsto> retry_run rid r t d))"

lemma not_succeeded [simp]: "StateDead \<noteq> StateSucceeded" "StateFailed \<noteq> StateSucceeded"
  by (simp_all add: run_state_defs)

lemma on_metrics_sel [simp]:
  "w_store (on_metrics f w) = w_store w" "w_ids (on_metrics f w) = w_ids w" "w_clock (on_metrics f w) = w_clock w"
  "w_trace (on_metrics f w) = w_trace w" "w_rands (on_metrics f w) = w_rands w" "w_metrics (on_metrics f w) = f (w_metrics w)"
  by (simp_all add: on_metrics_def)

lemma draw_delay_sel:
  assumes "draw_delay env e a w = (d, w')"
  shows "w_store w' = w_store w" "w_ids w' = w_ids w" "w_metrics w' = w_metrics w" "w_clock w' = w_clock w" "w_trace w' = w_trace w"
    "\<exists>x. d = Delay x e a"
  using assms by (auto simp: draw_delay_def split: if_splits)

text \<open>The branches of \<^verbatim>\<open>process\<close> as equations.\<close>

lemma finish_ok_eq:
  "finish_ok ops j (r\<lparr>r_FinishedAt := Some t, r_UpdatedAt := t\<rparr>) dur w =
     (let (res, w) = call (st_UpdateRun ops (finished r t StateSucceeded [])) (on_metrics (ObserveRun (j_ID j) StateSucceeded dur) w)
      in ((finished r t StateSucceeded [], error_of res), w))"
  by (simp add: finish_ok_def finished_fold Let_def)

lemma finish_failed_retry:
  "r_Attempt r < j_MaxRetries j \<Longrightarrow>
   finish_failed ops env j (r\<lparr>r_FinishedAt := Some t, r_UpdatedAt := t\<rparr>) msg t dur w =
     (case call (st_UpdateRun ops (finished r t StateFailed msg)) w of
        (Inl e, w) \<Rightarrow> ((finished r t StateFailed msg, Some e), w)
      | (Inr _, w) \<Rightarrow>
          (case scheduleRetry ops env j (finished r t StateFailed msg) t w of
             (Inl e, w) \<Rightarrow> ((finished r t StateFailed msg, Some e), w)
           | (Inr _, w) \<Rightarrow> ((finished r t StateFailed msg, None),
               on_metrics (IncRetry (j_ID j)) (on_metrics (ObserveRun (j_ID j) StateFailed dur) w))))"
  by (simp add: finish_failed_def finished_fold Let_def)

lemma finish_failed_dead:
  "\<not> r_Attempt r < j_MaxRetries j \<Longrightarrow>
   finish_failed ops env j (r\<lparr>r_FinishedAt := Some t, r_UpdatedAt := t\<rparr>) msg t dur w =
     (let (res, w) = call (st_UpdateRun ops (finished r t StateDead msg)) (on_metrics (ObserveRun (j_ID j) StateDead dur) w)
      in ((finished r t StateDead msg, error_of res), w))"
  by (simp add: finish_failed_def finished_fold Let_def)

lemma process_found:
  assumes "call (st_GetJob ops (r_JobID r)) w = (Inr j, w1)"
  shows "process ops env ex r w =
     (let start = e_now env (w_clock w1); finish = e_now env (w_clock w1 + 1);
          w2 = w1\<lparr>w_clock := w_clock w1 + 1, w_trace := w_trace w1 @ [(j, r)]\<rparr>;
          w3 = w1\<lparr>w_trace := w_trace w1 @ [(j, r)], w_clock := w_clock w1 + 2\<rparr>
      in if e_cancelled env (w_execs w1) then ((r, None), w2)
         else case Execute env ex (timeout_of j) j r (w_execs w1) of
                None \<Rightarrow> finish_ok ops j (r\<lparr>r_FinishedAt := Some finish, r_UpdatedAt := finish\<rparr>) (Sub finish start) w3
              | Some msg \<Rightarrow> finish_failed ops env j (r\<lparr>r_FinishedAt := Some finish, r_UpdatedAt := finish\<rparr>) msg finish (Sub finish start) w3)"
  using assms by (simp add: process_def read_clock_def Let_def)

text \<open>The four ways through \<^verbatim>\<open>process\<close>.\<close>

lemma process_cases:
  assumes "process ops env ex r w = (res, w')"
  obtains (Missing) e where "call (st_GetJob ops (r_JobID r)) w = (Inl e, w')"
  | (Cancelled) j w1 where "call (st_GetJob ops (r_JobID r)) w = (Inr j, w1)" "e_cancelled env (w_execs w1)"
      "w' = w1\<lparr>w_clock := w_clock w1 + 1, w_trace := w_trace w1 @ [(j, r)]\<rparr>"
  | (Success) j w1 t dur where "call (st_GetJob ops (r_JobID r)) w = (Inr j, w1)" "\<not> e_cancelled env (w_execs w1)"
      "Execute env ex (timeout_of j) j r (w_execs w1) = None"
      "finish_ok ops j (r\<lparr>r_FinishedAt := Some t, r_UpdatedAt := t\<rparr>) dur
         (w1\<lparr>w_trace := w_trace w1 @ [(j, r)], w_clock := w_clock w1 + 2\<rparr>) = (res, w')"
  | (Failure) j w1 t dur msg where "call (st_GetJob ops (r_JobID r)) w = (Inr j, w1)"
      "finish_failed ops env j (r\<lparr>r_FinishedAt := Some t, r_UpdatedAt := t\<rparr>) msg t dur
         (w1\<lparr>w_trace := w_trace w1 @ [(j, r)], w_clock := w_clock w1 + 2\<rparr>) = (res, w')"
proof -
  obtain g w1 where g: "call (st_GetJob ops (r_JobID r)) w = (g, w1)" by fastforce
  show thesis
  proof (cases g)
    case (Inl e)
    then have "w1 = w'" using assms g by (simp add: process_def)
    then show thesis using Missing g Inl by simp
  next
    case (Inr j)
    note call = g [unfolded Inr]
    note out = assms [unfolded process_found [where ops = ops, OF call] Let_def]
    show thesis
    proof (cases "e_cancelled env (w_execs w1)")
      case True
      show thesis using out [unfolded if_P [OF True]] by (intro Cancelled [OF call True]) simp
    next
      case False
      note out = out [unfolded if_not_P [OF False]]
      show thesis
      proof (cases "Execute env ex (timeout_of j) j r (w_execs w1)")
        case None
        show thesis by (rule Success [OF call False None out [unfolded None option.case]])
      next
        case (Some msg)
        show thesis by (rule Failure [OF call out [unfolded Some option.case]])
      qed
    qed
  qed
qed

context store_contract
begin

lemma world_ok_cong:
  "w_store w' = w_store w \<Longrightarrow> w_ids w' = w_ids w \<Longrightarrow> world_ok env w' = world_ok env w"
  by (simp add: world_ok_def)

lemma call_GetJob:
  assumes "world_ok env w" "call (st_GetJob ops k) w = (res, w')"
  shows "world_ok env w'" "same_data w w'" "res = Inr j \<Longrightarrow> jobs_of (w_store w) k = Some j"
    "w_clock w' = w_clock w" "w_trace w' = w_trace w" "w_ids w' = w_ids w" "w_metrics w' = w_metrics w" "w_rands w' = w_rands w"
proof -
  obtain s where s: "st_GetJob ops k (w_store w) = (res, s)" "w' = w\<lparr>w_store := s\<rparr>"
    using assms(2) by (auto simp: call_def split: prod.splits)
  note law = GetJob_law [OF _ s(1)]
  show "world_ok env w'" "same_data w w'" using assms(1) law s(2) by (auto simp: world_ok_def same_data_def)
  show "jobs_of (w_store w) k = Some j" if "res = Inr j"
    using assms(1) law that by (auto simp: world_ok_def)
qed (use assms(2) in \<open>auto simp: call_def split: prod.splits\<close>)

lemma call_UpdateRun:
  assumes "world_ok env w" "call (st_UpdateRun ops r) w = (res, w')"
  shows "world_ok env w'" "jobs_of (w_store w') = jobs_of (w_store w)"
    "case res of Inl e \<Rightarrow> runs_of (w_store w') = runs_of (w_store w)
     | Inr _ \<Rightarrow> runs_of (w_store w) (r_ID r) \<noteq> None \<and> runs_of (w_store w') = (runs_of (w_store w))(r_ID r \<mapsto> r)"
    "w_clock w' = w_clock w" "w_trace w' = w_trace w" "w_ids w' = w_ids w" "w_metrics w' = w_metrics w" "w_rands w' = w_rands w"
proof -
  obtain s where s: "st_UpdateRun ops r (w_store w) = (res, s)" "w' = w\<lparr>w_store := s\<rparr>"
    using assms(2) by (auto simp: call_def split: prod.splits)
  note law = UpdateRun_law [OF _ s(1)]
  show "jobs_of (w_store w') = jobs_of (w_store w)"
    "case res of Inl e \<Rightarrow> runs_of (w_store w') = runs_of (w_store w)
     | Inr _ \<Rightarrow> runs_of (w_store w) (r_ID r) \<noteq> None \<and> runs_of (w_store w') = (runs_of (w_store w))(r_ID r \<mapsto> r)"
    using assms(1) law s(2) by (simp_all add: world_ok_def split: sum.splits)
  show "world_ok env w'" using assms(1) law s(2) by (auto simp: world_ok_def split: sum.splits)
qed (use assms(2) in \<open>auto simp: call_def split: prod.splits\<close>)

lemma scheduleRetry_spec:
  assumes "world_ok env w" "scheduleRetry ops env j r t w = (res, w')"
  shows "world_ok env w'" "jobs_of (w_store w') = jobs_of (w_store w)"
    "case res of Inl e \<Rightarrow> runs_of (w_store w') = runs_of (w_store w)
     | Inr _ \<Rightarrow> \<exists>x rid. runs_of (w_store w) rid = None \<and>
         runs_of (w_store w') = (runs_of (w_store w))(rid \<mapsto> retry_run rid r t (Delay x (backoffFor (j_Backoff j)) (r_Attempt r)))"
proof -
  obtain d w1 where d: "draw_delay env (backoffFor (j_Backoff j)) (r_Attempt r) w = (d, w1)" by fastforce
  note ds = draw_delay_sel [OF d]
  define rid where "rid = e_newID env (w_ids w1)"
  define w2 where "w2 = w1\<lparr>w_ids := w_ids w1 + 1\<rparr>"
  have c: "call (st_CreateRun ops (retry_run rid r t d)) w2 = (res, w')"
    using assms(2) d by (simp add: scheduleRetry_def bind_act_def newID_def rid_def w2_def)
  have ok1: "world_ok env w1" using assms(1) world_ok_cong [of w1 w] ds by simp
  have ok: "world_ok env w2" using world_ok_newID [OF ok1, of 1] by (simp add: w2_def)
  have un: "runs_of (w_store w2) rid = None" using newID_unused [OF ok1] by (simp add: w2_def rid_def)
  note cr = call_CreateRun [OF ok _ _ _ c, of "w_ids w1"]
  show "world_ok env w'" "jobs_of (w_store w') = jobs_of (w_store w)"
    using cr(1,2) un by (simp_all add: rid_def w2_def ds)
  show "case res of Inl e \<Rightarrow> runs_of (w_store w') = runs_of (w_store w)
     | Inr _ \<Rightarrow> \<exists>x rid. runs_of (w_store w) rid = None \<and>
         runs_of (w_store w') = (runs_of (w_store w))(rid \<mapsto> retry_run rid r t (Delay x (backoffFor (j_Backoff j)) (r_Attempt r)))"
    using cr(4) un ds by (auto simp: rid_def w2_def split: sum.splits)
qed

lemma finish_ok_spec:
  assumes "world_ok env w" "finish_ok ops j (r\<lparr>r_FinishedAt := Some t, r_UpdatedAt := t\<rparr>) dur w = ((r', err), w')"
  shows "world_ok env w' \<and> jobs_of (w_store w') = jobs_of (w_store w) \<and> r' = finished r t StateSucceeded [] \<and>
    process_step (Some j) r (runs_of (w_store w)) (runs_of (w_store w'))"
proof -
  let ?w1 = "on_metrics (ObserveRun (j_ID j) StateSucceeded dur) w"
  obtain res w2 where u: "call (st_UpdateRun ops (finished r t StateSucceeded [])) ?w1 = (res, w2)" by fastforce
  have r': "r' = finished r t StateSucceeded []" "w' = w2" using assms(2) u by (simp_all add: finish_ok_eq)
  have "world_ok env ?w1" using assms(1) world_ok_cong [of ?w1 w] by simp
  from call_UpdateRun [OF this u] show ?thesis
    using r' by (auto split: sum.splits intro: process_step.intros)
qed

lemma finish_failed_spec:
  assumes "world_ok env w" "finish_failed ops env j (r\<lparr>r_FinishedAt := Some t, r_UpdatedAt := t\<rparr>) msg t dur w = ((r', err), w')"
  shows "world_ok env w' \<and> jobs_of (w_store w') = jobs_of (w_store w) \<and> r_State r' \<noteq> StateSucceeded \<and>
    process_step (Some j) r (runs_of (w_store w)) (runs_of (w_store w')) \<and>
    (\<forall>q. runs_of (w_store w') (r_ID r) = Some q \<and> r_State q = StateSucceeded \<longrightarrow> runs_of (w_store w) (r_ID r) = Some q)"
proof (cases "r_Attempt r < j_MaxRetries j")
  case True
  obtain res w1 where u: "call (st_UpdateRun ops (finished r t StateFailed msg)) w = (res, w1)" by fastforce
  note us = call_UpdateRun [OF assms(1) u]
  note eq = finish_failed_retry [where ops = ops and env = env, OF True] and out = assms(2)
  show ?thesis
  proof (cases res)
    case (Inl e)
    then have "w' = w1" "r' = finished r t StateFailed msg" using out u by (simp_all add: eq)
    then show ?thesis using us Inl by (auto intro: process_step.intros)
  next
    case (Inr a)
    obtain res2 w2 where s: "scheduleRetry ops env j (finished r t StateFailed msg) t w1 = (res2, w2)" by fastforce
    note ss = scheduleRetry_spec [OF us(1) s]
    have upd: "runs_of (w_store w) (r_ID r) \<noteq> None" "runs_of (w_store w1) = (runs_of (w_store w))(r_ID r \<mapsto> finished r t StateFailed msg)"
      using us(3) Inr by simp_all
    have w': "w_store w' = w_store w2" "w_ids w' = w_ids w2" "r' = finished r t StateFailed msg"
      using out u s Inr by (auto simp: eq split: sum.splits)
    have "process_step (Some j) r (runs_of (w_store w)) (runs_of (w_store w2)) \<and>
        runs_of (w_store w2) (r_ID r) = Some (finished r t StateFailed msg)"
    proof (cases res2)
      case (Inl e)
      then show ?thesis using ss(3) upd True by (auto intro: process_step.Unretried)
    next
      case (Inr b)
      then obtain x rid where "runs_of (w_store w1) rid = None"
        "runs_of (w_store w2) = (runs_of (w_store w1))(rid \<mapsto> retry_run rid r t (Delay x (backoffFor (j_Backoff j)) (r_Attempt r)))"
        using ss(3) by auto
      then show ?thesis using upd True by (auto intro!: process_step.Retried split: if_splits)
    qed
    moreover have "world_ok env w'" using ss(1) w' world_ok_cong by blast
    ultimately show ?thesis using ss(2) us(2) w' by auto
  qed
next
  case False
  let ?w1 = "on_metrics (ObserveRun (j_ID j) StateDead dur) w"
  obtain res w2 where u: "call (st_UpdateRun ops (finished r t StateDead msg)) ?w1 = (res, w2)" by fastforce
  have r': "r' = finished r t StateDead msg" "w' = w2" using assms(2) u False by (simp_all add: finish_failed_dead)
  have "world_ok env ?w1" using assms(1) world_ok_cong [of ?w1 w] by simp
  from call_UpdateRun [OF this u] show ?thesis
    using r' False by (auto split: sum.splits intro: process_step.intros)
qed

text \<open>Whatever happens in \<^verbatim>\<open>process\<close>, the stored runs change by one of the outcomes.\<close>

lemma process_spec:
  assumes "world_ok env w" "process ops env ex r w = ((r', err), w')"
  shows "world_ok env w' \<and> jobs_of (w_store w') = jobs_of (w_store w) \<and>
    process_step (jobs_of (w_store w) (r_JobID r)) r (runs_of (w_store w)) (runs_of (w_store w'))"
  using assms(2)
proof (cases rule: process_cases)
  case (Missing e)
  then show ?thesis using call_GetJob(1,2) [OF assms(1)] by (auto simp: same_data_def intro: process_step.intros)
next
  case (Cancelled j w1)
  then show ?thesis using call_GetJob(1,2) [OF assms(1)] by (auto simp: same_data_def world_ok_def intro: process_step.intros)
next
  case (Success j w1 t dur)
  note gs = call_GetJob [OF assms(1) Success(1)]
  have "world_ok env (w1\<lparr>w_trace := w_trace w1 @ [(j, r)], w_clock := w_clock w1 + 2\<rparr>)" using gs(1) by (simp add: world_ok_def)
  from finish_ok_spec [OF this Success(4)] show ?thesis using gs(2,3) by (simp add: same_data_def)
next
  case (Failure j w1 t dur msg)
  note gs = call_GetJob [OF assms(1) Failure(1)]
  have "world_ok env (w1\<lparr>w_trace := w_trace w1 @ [(j, r)], w_clock := w_clock w1 + 2\<rparr>)" using gs(1) by (simp add: world_ok_def)
  from finish_failed_spec [OF this Failure(2)] show ?thesis using gs(2,3) by (simp add: same_data_def)
qed

end

context reliable_store
begin

lemma call_GetJob_found:
  "world_ok env w \<Longrightarrow> jobs_of (w_store w) k = Some j \<Longrightarrow> \<exists>w'. call (st_GetJob ops k) w = (Inr j, w')"
  using GetJob_found [of "w_store w" k j] by (fastforce simp: call_def world_ok_def split: prod.split)

lemma call_UpdateRun_found:
  "world_ok env w \<Longrightarrow> runs_of (w_store w) (r_ID r) \<noteq> None \<Longrightarrow> \<exists>w'. call (st_UpdateRun ops r) w = (Inr (), w')"
  using UpdateRun_found [of "w_store w" r] by (fastforce simp: call_def world_ok_def split: prod.split)

lemma scheduleRetry_ok:
  assumes "world_ok env w"
  shows "\<exists>w'. scheduleRetry ops env j r t w = (Inr (), w') \<and> w_metrics w' = w_metrics w"
proof -
  obtain d w1 where d: "draw_delay env (backoffFor (j_Backoff j)) (r_Attempt r) w = (d, w1)" by fastforce
  note ds = draw_delay_sel [OF d]
  define rid where "rid = e_newID env (w_ids w1)"
  define w2 where "w2 = w1\<lparr>w_ids := w_ids w1 + 1\<rparr>"
  have "world_ok env w2" "runs_of (w_store w2) (r_ID (retry_run rid r t d)) = None"
    using assms ds newID_unused [OF assms] by (simp_all add: world_ok_def w2_def rid_def)
  then obtain w' where "call (st_CreateRun ops (retry_run rid r t d)) w2 = (Inr (), w')" using call_CreateRun_ok by blast
  moreover from this have "w_metrics w' = w_metrics w2" by (auto simp: call_def split: prod.splits)
  ultimately show ?thesis
    using d ds by (auto simp: scheduleRetry_def bind_act_def newID_def rid_def w2_def)
qed

lemma process_exact:
  assumes "world_ok env w" "runs_of (w_store w) (r_ID r) \<noteq> None" "jobs_of (w_store w) (r_JobID r) = Some j"
  shows "\<exists>w'. let m = runs_of (w_store w); start = e_now env (w_clock w); finish = e_now env (w_clock w + 1); dur = Sub finish start
    in if e_cancelled env (w_execs w)
       then process ops env ex r w = ((r, None), w') \<and> runs_of (w_store w') = m \<and> w_metrics w' = w_metrics w
       else case Execute env ex (timeout_of j) j r (w_execs w) of
         None \<Rightarrow>
           process ops env ex r w = ((finished r finish StateSucceeded [], None), w') \<and>
           runs_of (w_store w') = m(r_ID r \<mapsto> finished r finish StateSucceeded []) \<and>
           w_metrics w' = ObserveRun (j_ID j) StateSucceeded dur (w_metrics w)
       | Some msg \<Rightarrow>
           if r_Attempt r < j_MaxRetries j
           then process ops env ex r w = ((finished r finish StateFailed msg, None), w') \<and>
             w_metrics w' = IncRetry (j_ID j) (ObserveRun (j_ID j) StateFailed dur (w_metrics w)) \<and>
             (\<exists>rid x. m rid = None \<and> runs_of (w_store w') = m(r_ID r \<mapsto> finished r finish StateFailed msg,
                rid \<mapsto> retry_run rid r finish (Delay x (backoffFor (j_Backoff j)) (r_Attempt r))))
           else process ops env ex r w = ((finished r finish StateDead msg, None), w') \<and>
             runs_of (w_store w') = m(r_ID r \<mapsto> finished r finish StateDead msg) \<and>
             w_metrics w' = ObserveRun (j_ID j) StateDead dur (w_metrics w)"
proof -
  obtain w1 where g: "call (st_GetJob ops (r_JobID r)) w = (Inr j, w1)" using call_GetJob_found [OF assms(1,3)] by blast
  note gs = call_GetJob [OF assms(1) g]
  have data: "runs_of (w_store w1) = runs_of (w_store w)" using gs(2) by (simp add: same_data_def)
  define start where "start = e_now env (w_clock w)"
  define t where "t = e_now env (w_clock w + 1)"
  define w2 where "w2 = w1\<lparr>w_clock := w_clock w + 1, w_trace := w_trace w @ [(j, r)]\<rparr>"
  define w3 where "w3 = w1\<lparr>w_trace := w_trace w @ [(j, r)], w_clock := w_clock w + 2\<rparr>"
  have eq: "process ops env ex r w =
      (if e_cancelled env (w_execs w) then ((r, None), w2)
       else case Execute env ex (timeout_of j) j r (w_execs w) of
              None \<Rightarrow> finish_ok ops j (r\<lparr>r_FinishedAt := Some t, r_UpdatedAt := t\<rparr>) (Sub t start) w3
            | Some msg \<Rightarrow> finish_failed ops env j (r\<lparr>r_FinishedAt := Some t, r_UpdatedAt := t\<rparr>) msg t (Sub t start) w3)"
    using process_found [where ops = ops, OF g, of env ex] unfolding Let_def w2_def w3_def t_def start_def gs(4,5) .
  have w2: "w_store w2 = w_store w1" "w_metrics w2 = w_metrics w" using gs(7) by (simp_all add: w2_def)
  have w3: "world_ok env w3" "runs_of (w_store w3) = runs_of (w_store w)" "w_metrics w3 = w_metrics w"
    using gs(1,7) data by (simp_all add: w3_def world_ok_def)
  have upd: "\<exists>w'. call (st_UpdateRun ops q) v = (Inr (), w') \<and> world_ok env w' \<and> w_metrics w' = w_metrics v \<and>
      runs_of (w_store w') = (runs_of (w_store w))(r_ID r \<mapsto> q)"
    if v: "world_ok env v" "r_ID q = r_ID r" "w_store v = w_store w3" for q v
  proof -
    have "runs_of (w_store v) (r_ID q) \<noteq> None" using v assms(2) w3(2) by simp
    then obtain w' where c: "call (st_UpdateRun ops q) v = (Inr (), w')" using call_UpdateRun_found [OF v(1)] by blast
    from call_UpdateRun [OF v(1) c] show ?thesis using c v(2,3) w3(2) by auto
  qed
  have obs: "world_ok env (on_metrics f w3)" "w_store (on_metrics f w3) = w_store w3" for f
    using w3(1) by (simp_all add: world_ok_def)
  show ?thesis
  proof (cases "e_cancelled env (w_execs w)")
    case True
    then show ?thesis using w2 data by (simp add: eq Let_def)
  next
    case False
    show ?thesis
    proof (cases "Execute env ex (timeout_of j) j r (w_execs w)")
      case None
      show ?thesis
        using upd [where v = "on_metrics (ObserveRun (j_ID j) StateSucceeded (Sub t start)) w3" and q = "finished r t StateSucceeded []", OF obs(1) finished_sel(1) obs(2)] w3(3)
        unfolding Let_def t_def [symmetric] start_def [symmetric]
        by (auto simp: eq False None finish_ok_eq error_of_def)
    next
      case (Some msg)
      show ?thesis
      proof (cases "r_Attempt r < j_MaxRetries j")
        case True
        let ?q = "finished r t StateFailed msg"
        obtain w4 where w4: "call (st_UpdateRun ops ?q) w3 = (Inr (), w4)" "world_ok env w4" "w_metrics w4 = w_metrics w3"
            "runs_of (w_store w4) = (runs_of (w_store w))(r_ID r \<mapsto> ?q)"
          using upd [where v = w3 and q = ?q, OF w3(1) finished_sel(1) refl] by auto
        obtain w5 where w5: "scheduleRetry ops env j ?q t w4 = (Inr (), w5)" "w_metrics w5 = w_metrics w4"
          using scheduleRetry_ok [OF w4(2)] by blast
        obtain rid x where rid: "runs_of (w_store w4) rid = None"
          "runs_of (w_store w5) = (runs_of (w_store w4))(rid \<mapsto> retry_run rid r t (Delay x (backoffFor (j_Backoff j)) (r_Attempt r)))"
          using scheduleRetry_spec(3) [OF w4(2) w5(1)] by auto
        have "runs_of (w_store w) rid = None" using rid(1) w4(4) by (simp split: if_splits)
        then show ?thesis
          using rid(2) w4 w5 w3(3)
          unfolding Let_def t_def [symmetric] start_def [symmetric]
          by (auto simp: eq False Some True finish_failed_retry)
      next
        case dead: False
        show ?thesis
          using upd [where v = "on_metrics (ObserveRun (j_ID j) StateDead (Sub t start)) w3" and q = "finished r t StateDead msg", OF obs(1) finished_sel(1) obs(2)] w3(3)
          unfolding Let_def t_def [symmetric] start_def [symmetric]
          by (auto simp: eq False Some dead finish_failed_dead error_of_def)
      qed
    qed
  qed
qed

end

section \<open>Properties\<close>

lemmas mem_process_exact = mem.process_exact [unfolded mem_world_ok_eq]
lemmas mem_process_spec = mem.process_spec [unfolded mem_world_ok_eq]

text \<open>The calls of \<^verbatim>\<open>process\<close> on the in-memory store.\<close>

definition put_run :: "Run \<Rightarrow> MemStore world \<Rightarrow> MemStore world" where
  "put_run q w = w\<lparr>w_store := (w_store w)\<lparr>m_runs := AList.update (r_ID q) q (m_runs (w_store w))\<rparr>\<rparr>"

lemma put_run_sel [simp]:
  "mem_runs (w_store (put_run q w)) = (mem_runs (w_store w))(r_ID q \<mapsto> q)" "mem_jobs (w_store (put_run q w)) = mem_jobs (w_store w)"
  "w_metrics (put_run q w) = w_metrics w" "w_ids (put_run q w) = w_ids w" "w_rands (put_run q w) = w_rands w"
  by (simp_all add: put_run_def mem_runs_def mem_jobs_def update_conv')

lemma mem_calls:
  "call (st_GetJob memory_ops k) w = (case mem_jobs (w_store w) k of None \<Rightarrow> Inl ErrNotFound | Some j \<Rightarrow> Inr j, w)"
  "call (st_UpdateRun memory_ops q) w = (if mem_runs (w_store w) (r_ID q) = None then (Inl ErrNotFound, w) else (Inr (), put_run q w))"
  "call (st_CreateRun memory_ops q) w = (Inr (), put_run q w)"
  by (auto simp: call_def memory_ops_def GetJob_def UpdateRun_def CreateRun_def mem_jobs_def mem_runs_def put_run_def split: option.split)

lemma mem_scheduleRetry:
  "scheduleRetry memory_ops env j r t w =
     (let p = j_Backoff j; jitter = f64_less (Fin 0) (p_Jitter p); rid = e_newID env (w_ids w);
          delay = Delay (if jitter then e_rand env (w_rands w) else Fin 0) (backoffFor p) (r_Attempt r)
      in (Inr (), put_run (retry_run rid r t delay) (w\<lparr>w_rands := w_rands w + (if jitter then 1 else 0), w_ids := w_ids w + 1\<rparr>)))"
  by (simp add: scheduleRetry_def draw_delay_def backoffFor_def bind_act_def newID_def mem_calls Let_def)

text \<open>C9: the outcome of processing a claimed run on the in-memory store, for every clock, executor and random source.
  When the job is gone the run is left alone and the error is returned. During a shutdown nothing is
  recorded. Otherwise a successful execution is recorded as succeeded; a failed one as failed, together with one run
  under a fresh identifier for the next attempt, pending, in the same batch and due the backoff delay of this attempt
  after the finish, while retries are left; and as dead when they are spent. No other run and no job changes,
  and the metrics count exactly that outcome. When the run itself is gone from the store nothing is
  recorded and no retry is made, and the error is returned; successes and deaths are counted all the same.\<close>

theorem process_outcome:
  assumes "mem_world_ok env w"
  shows "\<exists>w'. let m = mem_runs (w_store w); gone = (m (r_ID r) = None); start = e_now env (w_clock w); finish = e_now env (w_clock w + 1);
      counted = (\<lambda>j s. ObserveRun (j_ID j) s (Sub finish start) (w_metrics w));
      err = (if gone then Some ErrNotFound else None); recorded = (\<lambda>q. if gone then m else m(r_ID r \<mapsto> q))
    in mem_jobs (w_store w') = mem_jobs (w_store w) \<and>
      (case mem_jobs (w_store w) (r_JobID r) of
         None \<Rightarrow> process memory_ops env ex r w = ((r, Some ErrNotFound), w') \<and> mem_runs (w_store w') = m \<and> w_metrics w' = w_metrics w
       | Some j \<Rightarrow>
           if e_cancelled env (w_execs w)
           then process memory_ops env ex r w = ((r, None), w') \<and> mem_runs (w_store w') = m \<and> w_metrics w' = w_metrics w
           else case Execute env ex (timeout_of j) j r (w_execs w) of
             None \<Rightarrow>
               process memory_ops env ex r w = ((finished r finish StateSucceeded [], err), w') \<and>
               mem_runs (w_store w') = recorded (finished r finish StateSucceeded []) \<and> w_metrics w' = counted j StateSucceeded
           | Some msg \<Rightarrow>
               if j_MaxRetries j \<le> r_Attempt r
               then process memory_ops env ex r w = ((finished r finish StateDead msg, err), w') \<and>
                 mem_runs (w_store w') = recorded (finished r finish StateDead msg) \<and> w_metrics w' = counted j StateDead
               else process memory_ops env ex r w = ((finished r finish StateFailed msg, err), w') \<and>
                 (if gone then mem_runs (w_store w') = m \<and> w_metrics w' = w_metrics w
                  else w_metrics w' = IncRetry (j_ID j) (counted j StateFailed) \<and>
                    (\<exists>rid. m rid = None \<and> mem_runs (w_store w') = m(r_ID r \<mapsto> finished r finish StateFailed msg,
                       rid \<mapsto> \<lparr>r_ID = rid, r_JobID = r_JobID r, r_BatchID = r_BatchID r, r_State = StatePending,
                         r_Attempt = wrap64 (r_Attempt r + 1),
                         r_ScheduledFor = finish + Delay (if f64_less (Fin 0) (p_Jitter (j_Backoff j)) then e_rand env (w_rands w) else Fin 0)
                            \<lparr>e_Base = p_Base (j_Backoff j), e_Max = p_Max (j_Backoff j), e_Factor = p_Factor (j_Backoff j),
                             e_Jitter = p_Jitter (j_Backoff j)\<rparr> (r_Attempt r),
                         r_StartedAt = None, r_FinishedAt = None, r_LeaseExpiry = zero_time, r_Worker = [], r_Error = [],
                         r_CreatedAt = finish, r_UpdatedAt = finish\<rparr>))))"
proof (cases "mem_jobs (w_store w) (r_JobID r)")
  case None
  then show ?thesis by (simp add: process_def mem_calls)
next
  case (Some j)
  have fresh: "mem_runs (w_store w) (e_newID env (w_ids w)) = None" using assms by (simp add: mem_world_ok_def)
  have found: "call (st_GetJob memory_ops (r_JobID r)) w = (Inr j, w)" using Some by (simp add: mem_calls)
  note eqs = process_found [where ops = memory_ops, OF found] Some mem_calls error_of_def Let_def
  show ?thesis
  proof (cases "e_cancelled env (w_execs w)")
    case True
    then show ?thesis by (simp add: eqs)
  next
    case run: False
    consider "Execute env ex (timeout_of j) j r (w_execs w) = None"
      | msg where "Execute env ex (timeout_of j) j r (w_execs w) = Some msg" "r_Attempt r < j_MaxRetries j"
      | msg where "Execute env ex (timeout_of j) j r (w_execs w) = Some msg" "\<not> r_Attempt r < j_MaxRetries j" by blast
    then show ?thesis
    proof cases
      case 1
      then show ?thesis using run by (cases "mem_runs (w_store w) (r_ID r)") (simp_all add: eqs finish_ok_eq)
    next
      case (2 msg)
      then show ?thesis using run fresh
        by (cases "mem_runs (w_store w) (r_ID r)")
          (auto simp: eqs finish_failed_retry mem_scheduleRetry retry_run_def backoffFor_def zero_run_def intro!: exI [of _ "e_newID env (w_ids w)"])
    next
      case (3 msg)
      then show ?thesis using run by (cases "mem_runs (w_store w) (r_ID r)") (simp_all add: eqs finish_failed_dead)
    qed
  qed
qed

text \<open>A claimed first attempt of a job with one retry.\<close>

definition flaky_run :: Run where
  "flaky_run = zero_run\<lparr>r_ID := ''ra'', r_JobID := ''a'', r_BatchID := ''x'', r_State := StateRunning, r_StartedAt := Some 1\<rparr>"

definition flaky_world :: "MemStore world" where
  "flaky_world = sample_world\<lparr>w_store :=
     \<lparr>m_jobs = [(''a'', zero_job\<lparr>j_ID := ''a'', j_MaxRetries := 1\<rparr>)], m_runs = [(''ra'', flaky_run)]\<rparr>\<rparr>"

lemma flaky_world_ok: "mem_world_ok sample_env flaky_world"
  using sample_world_ok show_nat_not_ra
  by (auto simp: mem_world_ok_def flaky_world_def sample_env_def mem_inv_def mem_runs_def flaky_run_def zero_job_def)

theorem process_outcome_witness:
  "\<exists>w' rid. process memory_ops sample_env (ExecutorFunc (\<lambda>_ _ _ _. Some ''boom'')) flaky_run flaky_world =
     ((finished flaky_run 1000000000 StateFailed ''boom'', None), w') \<and>
     map_option r_ScheduledFor (mem_runs (w_store w') rid) = Some 1100000000 \<and> map_option r_Attempt (mem_runs (w_store w') rid) = Some 1"
proof -
  let ?ex = "ExecutorFunc (\<lambda>_ _ _ _. Some ''boom'')" and ?j = "zero_job\<lparr>j_ID := ''a'', j_MaxRetries := 1\<rparr>"
  have run: "mem_runs (w_store flaky_world) (r_ID flaky_run) = Some flaky_run"
    and job: "mem_jobs (w_store flaky_world) (r_JobID flaky_run) = Some ?j"
    by (simp_all add: flaky_world_def flaky_run_def mem_runs_def mem_jobs_def)
  have ev: "Execute sample_env ?ex t ?j flaky_run n = Some ''boom''" "\<not> e_cancelled sample_env n"
    "\<not> j_MaxRetries ?j \<le> r_Attempt flaky_run" "e_now sample_env (w_clock flaky_world + 1) = 1000000000" for t n
    by (simp_all add: Execute_def sample_env_def flaky_run_def flaky_world_def sample_world_def zero_run_def)
  have delay: "Delay (Fin 0) \<lparr>e_Base = 0, e_Max = 0, e_Factor = Fin 0, e_Jitter = Fin 0\<rparr> 0 = 100000000"
    by (subst doubling) (simp_all add: factor_of_def base_of_def defaultFactor_def defaultBase_def max_int64_def)
  have policy: "j_Backoff ?j = \<lparr>p_Base = 0, p_Max = 0, p_Factor = Fin 0, p_Jitter = Fin 0\<rparr>" "r_Attempt flaky_run = 0" "\<not> f64_less (Fin 0) (Fin 0)"
    by (simp_all add: zero_job_def flaky_run_def zero_run_def)
  from process_outcome [OF flaky_world_ok, of flaky_run ?ex]
  obtain w' rid q where
    "process memory_ops sample_env ?ex flaky_run flaky_world = ((finished flaky_run 1000000000 StateFailed ''boom'', None), w')"
    "mem_runs (w_store w') = (mem_runs (w_store flaky_world))(r_ID flaky_run \<mapsto> finished flaky_run 1000000000 StateFailed ''boom'', rid \<mapsto> q)"
    "r_ScheduledFor q = 1100000000" "r_Attempt q = wrap64 1"
    unfolding Let_def ev(4) job option.case ev(1) if_not_P [OF ev(2)] if_not_P [OF ev(3)] run by (auto simp: policy delay)
  then show ?thesis by (intro exI [of _ w'] exI [of _ rid]) (simp add: wrap64_def)
qed

end
