(* ===== verification/Clock.thy ===== *)
theory Clock
  imports Prelude
begin

text \<open>
  The clocks of \<^verbatim>\<open>src/internal/clock/clock.go\<close>. A \<open>Clock\<close> is what its \<^verbatim>\<open>Now\<close> answers, call by call.
  The mock clock is a state with three operations, each of which holds the mutex for its whole
  body; \<open>mock_reads\<close> gives the answers of a sequence of calls on it.
\<close>

type_synonym Clock = "nat \<Rightarrow> time"

definition Real_Now :: "(nat \<Rightarrow> time) \<Rightarrow> Clock" where
  "Real_Now system = system"

definition FromFunc :: "(nat \<Rightarrow> time) \<Rightarrow> Clock" where
  "FromFunc f = (\<lambda>n. f n)"

record Mock =
  k_t :: time

definition NewMock :: "time \<Rightarrow> Mock" where
  "NewMock t = \<lparr>k_t = t\<rparr>"

definition Mock_Now :: "Mock \<Rightarrow> time" where
  "Mock_Now m = k_t m"

definition Mock_Set :: "time \<Rightarrow> Mock \<Rightarrow> Mock" where
  "Mock_Set t m = m\<lparr>k_t := t\<rparr>"

definition Mock_Advance :: "duration \<Rightarrow> Mock \<Rightarrow> Mock" where
  "Mock_Advance d m = m\<lparr>k_t := k_t m + d\<rparr>"

text \<open>A test drives the mock by a sequence of operations.\<close>

datatype mock_call = CallNow | CallSet time | CallAdvance duration

fun mock_reads :: "mock_call list \<Rightarrow> Mock \<Rightarrow> time list" where
  "mock_reads [] m = []"
| "mock_reads (CallNow # cs) m = Mock_Now m # mock_reads cs m"
| "mock_reads (CallSet t # cs) m = mock_reads cs (Mock_Set t m)"
| "mock_reads (CallAdvance d # cs) m = mock_reads cs (Mock_Advance d m)"

fun moves_forward :: "mock_call \<Rightarrow> bool" where
  "moves_forward CallNow = True"
| "moves_forward (CallSet t) = False"
| "moves_forward (CallAdvance d) = (0 \<le> d)"

lemma mock_reads_ge: "list_all moves_forward cs \<Longrightarrow> t \<in> set (mock_reads cs m) \<Longrightarrow> k_t m \<le> t"
proof (induction cs arbitrary: m)
  case (Cons c cs)
  then show ?case by (cases c) (force simp: Mock_Now_def Mock_Advance_def)+
qed simp

text \<open>A mock that is only advanced never goes back.\<close>

lemma mock_reads_sorted: "list_all moves_forward cs \<Longrightarrow> sorted (mock_reads cs m)"
proof (induction cs arbitrary: m)
  case (Cons c cs)
  then show ?case by (cases c) (auto simp: Mock_Now_def dest: mock_reads_ge)
qed simp

end
