(* ===== verification/Scheduler.thy ===== *)
theory Scheduler
  imports Worker Clock
begin

text \<open>
  The scheduler (\<^verbatim>\<open>src/internal/scheduler/scheduler.go\<close>): options and their defaults, one scheduling
  pass (\<^verbatim>\<open>step\<close>), the loop of \<^verbatim>\<open>Run\<close>, manual triggering and the backlog gauges. Here \<^verbatim>\<open>drain\<close> runs the
  goroutines of the claimed runs one after the other, which is what happens with one worker; the
  theory \<open>Pool\<close> treats every interleaving of them.
\<close>

section \<open>Construction\<close>

text \<open>What the process gets from outside: random bytes (\<^verbatim>\<open>None\<close> when reading them fails), the formatted
  time used in that case, the system clock, and the remaining sources.\<close>

record system =
  sys_bytes :: "nat \<Rightarrow> 8 word list option"
  sys_stamp :: "nat \<Rightarrow> 8 word list"
  sys_now :: "nat \<Rightarrow> time"
  sys_rand :: "nat \<Rightarrow> f64"
  sys_command :: "nat \<Rightarrow> duration option \<Rightarrow> string \<Rightarrow> string list \<Rightarrow> string option"
  sys_cancelled :: "nat \<Rightarrow> bool"

definition defaultID :: "system \<Rightarrow> nat \<Rightarrow> string" where
  "defaultID sys n =
     (case sys_bytes sys n of
        None \<Rightarrow> EncodeToString (sys_stamp sys n)
      | Some b \<Rightarrow> EncodeToString b)"

record Options =
  o_Executor :: "Executor option"
  o_TickInterval :: duration
  o_Workers :: int
  o_Lease :: duration
  o_NewID :: "(nat \<Rightarrow> string) option"
  o_Clock :: "Clock option"
  o_Now :: "(nat \<Rightarrow> time) option"

record Scheduler =
  s_exec :: Executor
  s_disp :: dispatcher
  s_tick :: duration
  s_workers :: int
  s_lease :: duration
  s_env :: env

definition NewScheduler :: "system \<Rightarrow> Options \<Rightarrow> Scheduler" where
  "NewScheduler sys opts =
     (let tick = (if o_TickInterval opts \<le> 0 then SecondD else o_TickInterval opts);
          workers = (if o_Workers opts < 1 then 4 else o_Workers opts);
          lease = (if o_Lease opts \<le> 0 then 30 * SecondD else o_Lease opts);
          newID = (case o_NewID opts of None \<Rightarrow> defaultID sys | Some f \<Rightarrow> f);
          ex = (case o_Executor opts of None \<Rightarrow> NoopExecutor | Some e \<Rightarrow> e);
          clk = (case o_Clock opts of
                   Some c \<Rightarrow> c
                 | None \<Rightarrow> (case o_Now opts of Some f \<Rightarrow> FromFunc f | None \<Rightarrow> Real_Now (sys_now sys)))
      in \<lparr>s_exec = ex, s_disp = newDispatcher, s_tick = tick, s_workers = workers, s_lease = lease,
          s_env = \<lparr>e_newID = newID, e_now = clk, e_rand = sys_rand sys, e_command = sys_command sys,
            e_cancelled = sys_cancelled sys\<rparr>\<rparr>)"

section \<open>One scheduling pass\<close>

definition drain_limit :: "int \<Rightarrow> int" where
  "drain_limit workers = min (wrap64 (workers * 4)) 256"

text \<open>The body of a worker goroutine. Errors are logged and dropped.\<close>

definition work :: "'s store_ops \<Rightarrow> env \<Rightarrow> Executor \<Rightarrow> Run \<Rightarrow> 's world \<Rightarrow> 's world" where
  "work ops env ex run w =
     (case process ops env ex run w of
        ((result, Some e), w) \<Rightarrow> w
      | ((result, None), w) \<Rightarrow>
          (if r_State result = StateSucceeded then
             let (now, w) = read_clock env w
             in snd (enqueueDependents ops env result now w)
           else w))"

fun work_all :: "'s store_ops \<Rightarrow> env \<Rightarrow> Executor \<Rightarrow> Run list \<Rightarrow> 's world \<Rightarrow> 's world" where
  "work_all ops env ex [] w = w"
| "work_all ops env ex (r # rs) w = work_all ops env ex rs (work ops env ex r w)"

text \<open>Claiming: the identifier of the claiming worker is drawn first.\<close>

definition claim_batch :: "'s store_ops \<Rightarrow> Scheduler \<Rightarrow> time \<Rightarrow> 's world \<Rightarrow> (store_error + Run list) \<times> 's world" where
  "claim_batch ops s now =
     bind_act (newID (s_env s)) (\<lambda>wid. call (st_ClaimDue ops now wid (s_lease s) (drain_limit (s_workers s))))"

definition drain :: "'s store_ops \<Rightarrow> Scheduler \<Rightarrow> time \<Rightarrow> 's world \<Rightarrow> 's world" where
  "drain ops s now w =
     (case claim_batch ops s now w of
        (Inl e, w) \<Rightarrow> w
      | (Inr claimed, w) \<Rightarrow> if length claimed = 0 then w else work_all ops (s_env s) (s_exec s) claimed w)"

fun oldest_loop :: "time \<Rightarrow> Run list \<Rightarrow> time \<Rightarrow> time" where
  "oldest_loop now [] oldest = oldest"
| "oldest_loop now (r # rs) oldest =
     (if now < r_ScheduledFor r then oldest_loop now rs oldest
      else if IsZero oldest \<or> r_ScheduledFor r < oldest then oldest_loop now rs (r_ScheduledFor r)
      else oldest_loop now rs oldest)"

definition publishBacklog :: "'s store_ops \<Rightarrow> time \<Rightarrow> 's world \<Rightarrow> 's world" where
  "publishBacklog ops now w =
     (case call (st_ListRuns ops (zero_filter\<lparr>f_State := StatePending\<rparr>)) w of
        (Inl e, w) \<Rightarrow> w
      | (Inr pending, w) \<Rightarrow>
          (let w = on_metrics (SetPending (int (length pending))) w;
               oldest = oldest_loop now pending zero_time
           in if IsZero oldest then on_metrics (SetLag 0) w
              else on_metrics (SetLag (Sub now oldest)) w))"

text \<open>\<open>None\<close> when \<^verbatim>\<open>dispatch\<close> does not return.\<close>

definition step :: "'s store_ops \<Rightarrow> time \<Rightarrow> Scheduler \<Rightarrow> 's world \<Rightarrow> (Scheduler \<times> 's world) option" where
  "step ops now s w =
     (let w = on_metrics Tick w
      in case dispatch ops (s_env s) now (s_disp s) w of
           None \<Rightarrow> None
         | Some (_, d, w) \<Rightarrow>
             (let s = s\<lparr>s_disp := d\<rparr>
              in Some (s, publishBacklog ops now (drain ops s now w))))"

section \<open>Run and Trigger\<close>

text \<open>What the \<^verbatim>\<open>select\<close> of \<^verbatim>\<open>Run\<close> can receive. The loop returns nil at the first \<open>CtxDone\<close>; at the end of
  the list it is still waiting.\<close>

datatype event = CtxDone | TickerC

datatype ('s) run_result = Returned Scheduler "'s world" | Waiting Scheduler "'s world" | Stuck

fun Run_loop :: "'s store_ops \<Rightarrow> event list \<Rightarrow> Scheduler \<Rightarrow> 's world \<Rightarrow> 's run_result" where
  "Run_loop ops [] s w = Waiting s w"
| "Run_loop ops (CtxDone # evs) s w = Returned s w"
| "Run_loop ops (TickerC # evs) s w =
     (let (now, w) = read_clock (s_env s) w
      in case step ops now s w of
           None \<Rightarrow> Stuck
         | Some (s, w) \<Rightarrow> Run_loop ops evs s w)"

definition triggered_run :: "string \<Rightarrow> string \<Rightarrow> Job \<Rightarrow> time \<Rightarrow> Run" where
  "triggered_run rid batch j now =
     zero_run\<lparr>r_ID := rid, r_JobID := j_ID j, r_BatchID := batch, r_State := StatePending,
       r_ScheduledFor := now, r_CreatedAt := now, r_UpdatedAt := now\<rparr>"

definition Trigger :: "'s store_ops \<Rightarrow> env \<Rightarrow> string \<Rightarrow> 's world \<Rightarrow> (store_error + Run) \<times> 's world" where
  "Trigger ops env jobID =
     bind_act (call (st_GetJob ops jobID)) (\<lambda>j w.
       let (now, w) = read_clock env w
       in bind_act (newID env) (\<lambda>rid. bind_act (newID env) (\<lambda>batch.
            let run = triggered_run rid batch j now
            in bind_act (call (st_CreateRun ops run)) (\<lambda>_. ret run))) w)"

section \<open>Backlog\<close>

lemma oldest_loop_nonzero:
  assumes "zero_time < oldest" "\<forall>r\<in>set rs. zero_time < r_ScheduledFor r"
  shows "oldest_loop now rs oldest = Min (insert oldest (r_ScheduledFor ` {r \<in> set rs. r_ScheduledFor r \<le> now}))"
  using assms
proof (induction rs arbitrary: oldest)
  case (Cons r rs)
  have set: "{q \<in> set (r # rs). r_ScheduledFor q \<le> now} =
      (if r_ScheduledFor r \<le> now then insert r {q \<in> set rs. r_ScheduledFor q \<le> now} else {q \<in> set rs. r_ScheduledFor q \<le> now})"
    by auto
  have min: "Min (insert x (insert y A)) = Min (insert (min x y) A)" if "finite A" for x y :: int and A
    using that by (cases "A = {}") (simp_all add: min.assoc)
  have "oldest_loop now (r # rs) oldest = oldest_loop now rs (if now < r_ScheduledFor r then oldest else min oldest (r_ScheduledFor r))"
    using Cons.prems(1) by (auto simp: IsZero_def min_def)
  also have "\<dots> = Min (insert (if now < r_ScheduledFor r then oldest else min oldest (r_ScheduledFor r))
      (r_ScheduledFor ` {q \<in> set rs. r_ScheduledFor q \<le> now}))"
    using Cons.prems by (intro Cons.IH) auto
  finally show ?case unfolding set by (cases "now < r_ScheduledFor r") (simp_all add: min del: Min_insert)
qed simp

lemma oldest_loop_Min:
  assumes "\<forall>r\<in>set rs. zero_time < r_ScheduledFor r"
  shows "oldest_loop now rs zero_time =
    (if \<exists>r\<in>set rs. r_ScheduledFor r \<le> now then Min (r_ScheduledFor ` {r \<in> set rs. r_ScheduledFor r \<le> now}) else zero_time)"
  using assms
proof (induction rs)
  case (Cons r rs)
  show ?case
  proof (cases "now < r_ScheduledFor r")
    case True
    then have "{q \<in> set (r # rs). r_ScheduledFor q \<le> now} = {q \<in> set rs. r_ScheduledFor q \<le> now}" by auto
    then show ?thesis using Cons True by auto
  next
    case False
    then have "{q \<in> set (r # rs). r_ScheduledFor q \<le> now} = insert r {q \<in> set rs. r_ScheduledFor q \<le> now}" by auto
    then show ?thesis using Cons.prems False oldest_loop_nonzero [of "r_ScheduledFor r" rs now] by (auto simp: IsZero_def)
  qed
qed simp

text \<open>The lag of a set of pending runs: how long the oldest due one has waited.\<close>

definition lag :: "time \<Rightarrow> Run set \<Rightarrow> duration" where
  "lag now R =
     (let due = {r \<in> R. r_ScheduledFor r \<le> now}
      in if due = {} then 0 else Sub now (Min (r_ScheduledFor ` due)))"

definition pending_runs :: "(string \<rightharpoonup> Run) \<Rightarrow> Run set" where
  "pending_runs m = {r \<in> ran m. r_State r = StatePending}"

context reliable_store
begin

lemma publishBacklog_exact:
  assumes "world_ok env w" "\<forall>r\<in>pending_runs (runs_of (w_store w)). zero_time < r_ScheduledFor r"
  shows "w_metrics (publishBacklog ops now w) =
    SetLag (lag now (pending_runs (runs_of (w_store w))))
      (SetPending (int (card (pending_runs (runs_of (w_store w))))) (w_metrics w))"
proof -
  let ?f = "zero_filter\<lparr>f_State := StatePending\<rparr>" and ?P = "pending_runs (runs_of (w_store w))"
  obtain rs w1 where c: "call (st_ListRuns ops ?f) w = (Inr rs, w1)" using call_ListRuns_ok [OF assms(1)] by blast
  then obtain s where s: "st_ListRuns ops ?f (w_store w) = (Inr rs, s)" "w1 = w\<lparr>w_store := s\<rparr>"
    by (auto simp: call_def split: prod.splits)
  have "inv (w_store w)" using assms(1) by (simp add: world_ok_def)
  from ListRuns_law [OF this s(1)] have "listing run_newer (run_matches ?f) (runs_of (w_store w)) rs"
    by (auto simp: page_all zero_filter_def)
  then have rs: "distinct rs" "set rs = ?P"
    by (auto simp: listing_def run_matches_def zero_filter_def pending_runs_def run_state_defs)
  then have len: "length rs = card ?P" by (metis distinct_card)
  have old: "oldest_loop now rs zero_time = (if {r \<in> ?P. r_ScheduledFor r \<le> now} = {} then zero_time
      else Min (r_ScheduledFor ` {r \<in> ?P. r_ScheduledFor r \<le> now}))"
    using oldest_loop_Min [of rs now] assms(2) rs(2) by auto
  have nz: "\<not> IsZero (Min (r_ScheduledFor ` {r \<in> ?P. r_ScheduledFor r \<le> now}))" if "{r \<in> ?P. r_ScheduledFor r \<le> now} \<noteq> {}"
  proof -
    have "finite ?P" using rs(2) by (metis List.finite_set)
    then have "Min (r_ScheduledFor ` {r \<in> ?P. r_ScheduledFor r \<le> now}) \<in> r_ScheduledFor ` {r \<in> ?P. r_ScheduledFor r \<le> now}"
      using that by (intro Min_in) auto
    then show ?thesis using assms(2) by (auto simp: IsZero_def)
  qed
  show ?thesis
  proof (cases "{r \<in> ?P. r_ScheduledFor r \<le> now} = {}")
    case True
    then show ?thesis using c s(2) old len by (simp add: publishBacklog_def Let_def lag_def IsZero_def)
  next
    case False
    note old = old [unfolded if_not_P [OF False]]
    have "lag now ?P = Sub now (oldest_loop now rs zero_time)" unfolding lag_def Let_def if_not_P [OF False] old ..
    then show ?thesis using c s(2) len nz [OF False, folded old] by (simp add: publishBacklog_def Let_def)
  qed
qed

lemma Trigger_exact:
  assumes "world_ok env w" "jobs_of (w_store w) k = Some j"
  shows "\<exists>w' rid batch. let now = e_now env (w_clock w); r = triggered_run rid batch j now in
    Trigger ops env k w = (Inr r, w') \<and> world_ok env w' \<and> runs_of (w_store w) rid = None \<and>
    runs_of (w_store w') = (runs_of (w_store w))(rid \<mapsto> r)"
proof -
  obtain w1 where g: "call (st_GetJob ops k) w = (Inr j, w1)" using call_GetJob_found [OF assms] by blast
  note gs = call_GetJob [OF assms(1) g]
  define w2 where "w2 = w1\<lparr>w_clock := w_clock w1 + 1, w_ids := w_ids w1 + 2\<rparr>"
  define rid where "rid = e_newID env (w_ids w1)"
  define batch where "batch = e_newID env (w_ids w1 + 1)"
  define r where "r = triggered_run rid batch j (e_now env (w_clock w))"
  have ok: "world_ok env w2" using gs(1) by (simp add: w2_def world_ok_def)
  have fresh: "runs_of (w_store w) rid = None" "runs_of (w_store w2) = runs_of (w_store w)"
    using newID_unused [OF gs(1)] gs(2) by (simp_all add: rid_def w2_def same_data_def)
  have id: "r_ID r = rid" by (simp add: r_def triggered_run_def)
  obtain w' where c: "call (st_CreateRun ops r) w2 = (Inr (), w')"
    using call_CreateRun_ok [OF ok, of r] fresh by (auto simp: r_def triggered_run_def)
  note cr = call_CreateRun [OF ok _ _ _ c, of "w_ids w1"]
  have "Trigger ops env k w = (Inr r, w')"
    using g c gs(4) by (simp add: Trigger_def bind_act_def read_clock_def newID_def Let_def r_def rid_def batch_def w2_def)
  moreover have "world_ok env w'" "runs_of (w_store w') = (runs_of (w_store w))(rid \<mapsto> r)"
    using cr fresh id by (simp_all add: rid_def w2_def)
  ultimately show ?thesis using fresh(1) unfolding r_def Let_def by blast
qed

end

section \<open>Properties\<close>

lemmas mem_Trigger_exact = mem.Trigger_exact [unfolded mem_world_ok_eq]
lemmas mem_publishBacklog_exact = mem.publishBacklog_exact [unfolded mem_world_ok_eq]

text \<open>C28: triggering a stored job creates exactly one run: a fresh pending first attempt of that job, due at
  once, so that the next claim at or after that time may take it. Triggering an unknown job answers
  \<^verbatim>\<open>ErrNotFound\<close> and creates nothing.\<close>

theorem Trigger_creates:
  assumes "mem_world_ok env w"
  shows "case mem_jobs (w_store w) k of
      None \<Rightarrow> \<exists>w'. Trigger memory_ops env k w = (Inl ErrNotFound, w') \<and> w_store w' = w_store w
    | Some j \<Rightarrow> \<exists>w' rid batch. let now = e_now env (w_clock w); r = triggered_run rid batch j now in
        Trigger memory_ops env k w = (Inr r, w') \<and> mem_runs (w_store w) rid = None \<and>
        mem_runs (w_store w') = (mem_runs (w_store w))(rid \<mapsto> r) \<and> (\<forall>t\<ge>now. claimable t r)"
proof (cases "mem_jobs (w_store w) k")
  case None
  then show ?thesis by (simp add: Trigger_def bind_act_def call_def memory_ops_def GetJob_def mem_jobs_def)
next
  case (Some j)
  have "claimable t (triggered_run rid batch j now)" if "now \<le> t" for t now rid batch
    using that by (simp add: claimable_def triggered_run_def)
  then show ?thesis using mem_Trigger_exact [OF assms Some] Some unfolding Let_def by auto
qed

theorem Trigger_creates_witness:
  "\<exists>w' rid batch. Trigger memory_ops sample_env ''j'' sample_world = (Inr (triggered_run rid batch sample_job 0), w')"
  using Trigger_creates [OF sample_world_ok, of "''j''"]
  by (auto simp: Let_def mem_jobs_def sample_world_def sample_env_def)

text \<open>The gauges published after a pass are the number of pending runs and the time the oldest due
  one has been waiting, 0 if none is due (for pending runs scheduled after the zero time).\<close>

theorem publishBacklog_gauges:
  assumes "mem_world_ok env w" "\<forall>r\<in>pending_runs (mem_runs (w_store w)). zero_time < r_ScheduledFor r"
  shows "w_metrics (publishBacklog memory_ops now w) =
    SetLag (lag now (pending_runs (mem_runs (w_store w))))
      (SetPending (int (card (pending_runs (mem_runs (w_store w))))) (w_metrics w))"
  using assms by (rule mem_publishBacklog_exact)

theorem publishBacklog_gauges_witness:
  "w_metrics (publishBacklog memory_ops 7 sample_world) = [PendingRuns_Set (f64_of_int 0), SchedulerLag_Set (Seconds 0)]"
proof -
  have none: "pending_runs (mem_runs (w_store sample_world)) = {}"
    by (simp add: pending_runs_def mem_runs_def sample_world_def)
  then show ?thesis
    using publishBacklog_gauges [OF sample_world_ok, of 7] by (simp add: lag_def SetLag_def SetPending_def sample_world_def)
qed

end
