(* ===== verification/Frames.thy ===== *)
theory Frames
  imports Scheduler
begin

text \<open>
  What the actions of the dispatcher and the worker leave alone. A frame is a reflexive and transitive
  relation between worlds that holds across a store call, a draw of an identifier or of a random
  number and an update of the metrics; it then holds across everything that is built from these, and
  the loops of the dispatcher keep whatever their body keeps. The clock is one frame, the trace of
  the executor with the count of identifiers is another.
\<close>

definition frames :: "('s world \<Rightarrow> 's world \<Rightarrow> bool) \<Rightarrow> ('s world \<Rightarrow> 'a \<times> 's world) \<Rightarrow> bool" where
  "frames R act \<longleftrightarrow> (\<forall>w. R w (snd (act w)))"

lemma framesI: "(\<And>w a w'. act w = (a, w') \<Longrightarrow> R w w') \<Longrightarrow> frames R act"
  by (simp add: frames_def) (metis prod.collapse)

lemma framesD: "frames R act \<Longrightarrow> act w = (a, w') \<Longrightarrow> R w w'"
  unfolding frames_def by (metis snd_conv)

locale frame =
  fixes R :: "'s world \<Rightarrow> 's world \<Rightarrow> bool"
  assumes refl: "R w w"
    and trans: "R w v \<Longrightarrow> R v u \<Longrightarrow> R w u"
    and on_store: "R w (w\<lparr>w_store := s\<rparr>)"
    and on_ids: "R w (w\<lparr>w_ids := w_ids w + 1\<rparr>)"
    and on_rands: "R w (w\<lparr>w_rands := w_rands w + 1\<rparr>)"
    and on_metrics: "R w (on_metrics f w)"
begin

lemma frames_ret: "frames R (ret a)" "frames R (Pair b)"
  by (simp_all add: frames_def refl)

lemma frames_call: "frames R (call f)"
  by (simp add: frames_def call_def on_store split: prod.split)

lemma frames_newID: "frames R (newID env)"
  using on_ids by (simp add: frames_def newID_def)

lemma frames_bind:
  assumes "frames R a" "\<And>x. frames R (f x)"
  shows "frames R (bind_act a f)"
proof (rule framesI)
  fix w b w' assume eq: "bind_act a f w = (b, w')"
  obtain r w1 where a: "a w = (r, w1)" by fastforce
  note first = framesD [OF assms(1) a]
  show "R w w'"
  proof (cases r)
    case (Inl e)
    then show ?thesis using a eq first by (simp add: bind_act_def)
  next
    case (Inr x)
    then have "f x w1 = (b, w')" using a eq by (simp add: bind_act_def)
    then show ?thesis using first framesD [OF assms(2)] trans by blast
  qed
qed

lemmas frames_intros = frames_bind frames_ret frames_call frames_newID

lemma frames_deps: "frames R (depsSatisfied ops deps b)"
  by (induction deps) (auto intro!: frames_intros)

lemma frames_enqueue: "frames R (enqueueDependents ops env c now)"
proof -
  have one: "frames R (enqueue_dependent ops env c now j)" for j
    unfolding enqueue_dependent_def by (intro frames_bind frames_deps) (auto intro!: frames_intros)
  have "frames R (enqueue_all ops env c now js)" for js
    by (induction js) (auto intro!: frames_intros one)
  then show ?thesis unfolding enqueueDependents_def by (intro frames_intros)
qed

lemma frames_claim: "frames R (claim_batch ops s now)"
  unfolding claim_batch_def by (intro frames_intros)

lemma frames_retry: "frames R (scheduleRetry ops env j r t)"
proof (rule framesI)
  fix w a w' assume eq: "scheduleRetry ops env j r t w = (a, w')"
  obtain d w1 where d: "draw_delay env (backoffFor (j_Backoff j)) (r_Attempt r) w = (d, w1)" by fastforce
  then have "R w w1" using on_rands refl by (auto simp: draw_delay_def split: if_splits)
  moreover have "frames R (bind_act (newID env) (\<lambda>rid. call (st_CreateRun ops (retry_run rid r t d))))" by (intro frames_intros)
  then have "R w1 w'" using eq d by (auto simp: scheduleRetry_def dest: framesD)
  ultimately show "R w w'" by (rule trans)
qed

lemma frames_finish_ok: "frames R (finish_ok ops j r dur)"
proof (rule framesI)
  fix w a w' assume eq: "finish_ok ops j r dur w = (a, w')"
  let ?w = "on_metrics (ObserveRun (j_ID j) StateSucceeded dur) w"
  obtain res where "call (st_UpdateRun ops (r\<lparr>r_State := StateSucceeded, r_Error := []\<rparr>)) ?w = (res, w')"
    using eq by (auto simp: finish_ok_def Let_def split: prod.splits)
  then show "R w w'" using framesD [OF frames_call] on_metrics trans by metis
qed

lemma frames_finish_failed: "frames R (finish_failed ops env j r msg t dur)"
proof (rule framesI)
  fix w a w' assume eq: "finish_failed ops env j r msg t dur w = (a, w')"
  show "R w w'"
  proof (cases "r_Attempt r < j_MaxRetries j")
    case True
    obtain res w1 where u: "call (st_UpdateRun ops (r\<lparr>r_Error := msg, r_State := StateFailed\<rparr>)) w = (res, w1)" by fastforce
    obtain res2 w2 where s: "scheduleRetry ops env j (r\<lparr>r_Error := msg, r_State := StateFailed\<rparr>) t w1 = (res2, w2)" by fastforce
    have "w' = w1 \<or> w' = w2 \<or> w' = on_metrics (IncRetry (j_ID j)) (on_metrics (ObserveRun (j_ID j) StateFailed dur) w2)"
      using eq u s True by (auto simp: finish_failed_def Let_def split: sum.splits)
    then show ?thesis using framesD [OF frames_call u] framesD [OF frames_retry s] on_metrics trans by metis
  next
    case False
    let ?w = "on_metrics (ObserveRun (j_ID j) StateDead dur) w"
    obtain res where "call (st_UpdateRun ops (r\<lparr>r_Error := msg, r_State := StateDead\<rparr>)) ?w = (res, w')"
      using eq False by (auto simp: finish_failed_def Let_def split: prod.splits)
    then show ?thesis using framesD [OF frames_call] on_metrics trans by metis
  qed
qed

lemma frames_publish: "R w (publishBacklog ops now w)"
proof -
  obtain res w1 where c: "call (st_ListRuns ops (zero_filter\<lparr>f_State := StatePending\<rparr>)) w = (res, w1)" by fastforce
  then have w1: "R w w1" by (rule framesD [OF frames_call])
  then have "R w (on_metrics f (on_metrics g w1))" for f g using on_metrics trans by blast
  then show ?thesis using w1 by (cases res) (simp_all add: publishBacklog_def c Let_def)
qed

lemmas call_frame = framesD [OF frames_call]
lemmas enqueue_frame = framesD [OF frames_enqueue]
lemmas claim_frame = framesD [OF frames_claim]
lemmas finish_ok_frame = framesD [OF frames_finish_ok]
lemmas finish_failed_frame = framesD [OF frames_finish_failed]

end

interpretation clock: frame "\<lambda>w w'. w_clock w' = w_clock w"
  by unfold_locales simp_all

interpretation trace: frame "\<lambda>w w'. w_trace w' = w_trace w \<and> w_ids w \<le> w_ids w'"
  by unfold_locales auto

section \<open>Loops keep what their bodies keep\<close>

lemma fire_loop_keeps:
  assumes "fire_loop ops env sched j now next created w = Some res"
    and "\<And>w t u w'. P w \<Longrightarrow> enqueueRoot ops env j t w = (u, w') \<Longrightarrow> P w'"
  shows "P w \<Longrightarrow> P (snd (snd (snd res)))"
  using assms(1) by (induction rule: fire_loop_induct) (auto dest: assms(2))

lemma dispatch_jobs_keeps:
  assumes "\<And>j w t u w'. j \<in> set js \<Longrightarrow> P w \<Longrightarrow> enqueueRoot ops env j t w = (u, w') \<Longrightarrow> P w'"
  shows "dispatch_jobs ops env now js created d w = Some (res, d', w') \<Longrightarrow> P w \<Longrightarrow> P w'"
  using assms
proof (induction js arbitrary: created d w)
  case (Cons j js)
  have IH: "dispatch_jobs ops env now js created d w = Some (res, d', w') \<Longrightarrow> P w \<Longrightarrow> P w'" for created d w
    using Cons.IH Cons.prems(3) by (meson list.set_intros(2))
  have body: "P w \<Longrightarrow> enqueueRoot ops env j t w = (u, w') \<Longrightarrow> P w'" for w t u w'
    using Cons.prems(3) by (meson list.set_intros(1))
  have loop: "fire_loop ops env sched j now nx c w = Some x \<Longrightarrow> P (snd (snd (snd x)))" for sched nx c x
    using fire_loop_keeps [of ops env sched j now nx c w x P] body Cons.prems(2) by blast
  show ?case
    using Cons.prems(1,2) IH loop by (fastforce split: if_splits prod.splits sum.splits option.splits)
qed simp

end
