(* ===== verification/Lifecycle.thy ===== *)
theory Lifecycle
  imports Frames
begin

text \<open>
  The life of a run as an abstract state machine on the stored runs, and the proof that a pass of
  the scheduler is a sequence of its steps, over every store that keeps the contract. The
  properties of the machine (finished runs stay as they are, attempts stay within the retries of
  the job) are proved once by rule induction and hold of the scheduler.
\<close>

section \<open>The machine\<close>

text \<open>A fresh pending run, at attempt 0, of a stored job.\<close>

definition fresh_run :: "Run \<Rightarrow> bool" where
  "fresh_run r \<longleftrightarrow> r_State r = StatePending \<and> r_Attempt r = 0 \<and> r_StartedAt r = None \<and> r_FinishedAt r = None \<and> r_Error r = []"

lemma fresh_runs [simp]:
  "fresh_run (root_run rid b j t)" "fresh_run (dependent_run rid b j t)" "fresh_run (triggered_run rid b j t)"
  by (simp_all add: fresh_run_def root_run_def dependent_run_def triggered_run_def zero_run_def)

inductive enqueue :: "(string \<rightharpoonup> Job) \<Rightarrow> (string \<rightharpoonup> Run) \<Rightarrow> (string \<rightharpoonup> Run) \<Rightarrow> bool" for J where
  "m (r_ID r) = None \<Longrightarrow> fresh_run r \<Longrightarrow> J (r_JobID r) = Some j \<Longrightarrow>
     enqueue J m (m(r_ID r \<mapsto> r))"

inductive lifecycle :: "(string \<rightharpoonup> Job) \<Rightarrow> (string \<rightharpoonup> Run) \<Rightarrow> (string \<rightharpoonup> Run) \<Rightarrow> bool" for J where
  Enqueue: "enqueue J m m' \<Longrightarrow> lifecycle J m m'"
| Claim: "m (r_ID r) = Some r \<Longrightarrow> claimable now r \<Longrightarrow> lifecycle J m (m(r_ID r \<mapsto> claim_run now w l r))"
| Process: "m (r_ID r) = Some r \<Longrightarrow> r_State r = StateRunning \<Longrightarrow> process_step (J (r_JobID r)) r m m' \<Longrightarrow> lifecycle J m m'"

inductive_cases enqueueE: "enqueue J m m'"
inductive_cases lifecycleE: "lifecycle J m m'"
inductive_cases process_stepE: "process_step oj r m m'"

lemma enqueue_le: "enqueue J m m' \<Longrightarrow> m \<subseteq>\<^sub>m m'"
  by (erule enqueueE) (auto simp: map_le_def)

lemma enqueues_le: "(enqueue J)\<^sup>*\<^sup>* m m' \<Longrightarrow> m \<subseteq>\<^sub>m m'"
  by (induction rule: rtranclp_induct) (auto dest: enqueue_le intro: map_le_trans)

lemma enqueues_lifecycle: "(enqueue J)\<^sup>*\<^sup>* m m' \<Longrightarrow> (lifecycle J)\<^sup>*\<^sup>* m m'"
  by (erule rtranclp_mono [THEN predicate2D, rotated]) (auto intro: lifecycle.Enqueue)

lemma map_le_Some: "m \<subseteq>\<^sub>m m' \<Longrightarrow> m k = Some r \<Longrightarrow> m' k = Some r"
  by (metis domI map_le_def)

text \<open>Processing a run touches no other run.\<close>

lemma process_step_other: "process_step oj r m m' \<Longrightarrow> m k = Some q \<Longrightarrow> k \<noteq> r_ID r \<Longrightarrow> m' k = Some q"
  by (erule process_stepE) auto

section \<open>Invariants of the machine\<close>

definition unfinished :: "Run \<Rightarrow> bool" where
  "unfinished r \<longleftrightarrow> r_State r = StatePending \<or> r_State r = StateRunning"

definition identity :: "Run \<Rightarrow> string \<times> string \<times> string \<times> int" where
  "identity r = (r_ID r, r_JobID r, r_BatchID r, r_Attempt r)"

text \<open>Runs are never lost, keep their identity, and once finished keep everything.\<close>

definition evolves :: "(string \<rightharpoonup> Run) \<Rightarrow> (string \<rightharpoonup> Run) \<Rightarrow> bool" where
  "evolves m m' \<longleftrightarrow>
     (\<forall>k r. m k = Some r \<longrightarrow> (\<exists>r'. m' k = Some r' \<and> identity r' = identity r \<and> (\<not> unfinished r \<longrightarrow> r' = r)))"

lemma evolves_refl [simp]: "evolves m m"
  by (simp add: evolves_def)

lemma evolves_trans: "evolves a b \<Longrightarrow> evolves b c \<Longrightarrow> evolves a c"
  unfolding evolves_def by metis

lemma evolves_upd:
  "m k = Some r \<Longrightarrow> unfinished r \<Longrightarrow> identity r' = identity r \<Longrightarrow> evolves m (m(k \<mapsto> r'))"
  by (simp add: evolves_def)

lemma evolves_add: "m k = None \<Longrightarrow> evolves m (m(k \<mapsto> r))"
  by (auto simp: evolves_def)

lemma identity_claim [simp]: "identity (claim_run now w l r) = identity r"
  by (simp add: identity_def)

lemma identity_finished [simp]: "identity (finished r t s msg) = identity r"
  by (simp add: identity_def)

lemma claimable_unfinished: "claimable now r \<Longrightarrow> unfinished r"
  by (auto simp: claimable_def unfinished_def)

lemma process_step_evolves:
  assumes "process_step oj r m m'" "m (r_ID r) = Some r" "unfinished r"
  shows "evolves m m'"
  using assms(1)
proof (rule process_stepE)
  fix j rid t msg d
  assume *: "m rid = None" "m' = m(r_ID r \<mapsto> finished r t StateFailed msg, rid \<mapsto> retry_run rid r t d)"
  have "evolves m (m(r_ID r \<mapsto> finished r t StateFailed msg))" using assms by (simp add: evolves_upd)
  moreover have "evolves (m(r_ID r \<mapsto> finished r t StateFailed msg)) m'"
    unfolding *(2) using *(1) assms(2) by (intro evolves_add) auto
  ultimately show ?thesis by (rule evolves_trans)
qed (use assms in \<open>auto intro!: evolves_upd\<close>)

lemma lifecycle_evolves:
  assumes "lifecycle J m m'"
  shows "evolves m m'"
  using assms
proof cases
  case Enqueue
  then show ?thesis by (auto elim!: enqueueE intro: evolves_add)
next
  case (Claim r now w l)
  then show ?thesis by (auto intro: evolves_upd claimable_unfinished)
next
  case (Process r)
  then show ?thesis by (auto dest: process_step_evolves simp: unfinished_def)
qed

lemma lifecycles_evolve: "(lifecycle J)\<^sup>*\<^sup>* m m' \<Longrightarrow> evolves m m'"
  by (induction rule: rtranclp_induct) (auto dest: lifecycle_evolves intro: evolves_trans)

text \<open>Attempts count up from 0 and end at the retries of the job.\<close>

definition attempts_ok :: "(string \<rightharpoonup> Job) \<Rightarrow> (string \<rightharpoonup> Run) \<Rightarrow> bool" where
  "attempts_ok J m \<longleftrightarrow>
     (\<forall>r\<in>ran m. 0 \<le> r_Attempt r \<and> (\<forall>j. J (r_JobID r) = Some j \<longrightarrow> r_Attempt r \<le> max 0 (j_MaxRetries j)))"

text \<open>\<^verbatim>\<open>MaxRetries\<close> is a 64-bit integer.\<close>

definition retries_ok :: "(string \<rightharpoonup> Job) \<Rightarrow> bool" where
  "retries_ok J \<longleftrightarrow> (\<forall>j\<in>ran J. j_MaxRetries j \<le> max_int64)"

lemma attempts_ok_upd:
  "attempts_ok J m \<Longrightarrow> m k = Some r \<Longrightarrow> r_JobID r' = r_JobID r \<Longrightarrow> r_Attempt r' = r_Attempt r \<Longrightarrow> attempts_ok J (m(k \<mapsto> r'))"
  by (auto simp: attempts_ok_def ran_def split: if_splits)

lemma attempts_ok_add:
  "attempts_ok J m \<Longrightarrow> 0 \<le> r_Attempt r \<Longrightarrow> (\<forall>j. J (r_JobID r) = Some j \<longrightarrow> r_Attempt r \<le> max 0 (j_MaxRetries j)) \<Longrightarrow>
     attempts_ok J (m(k \<mapsto> r))"
  by (auto simp: attempts_ok_def ran_def split: if_splits)

lemma next_attempt:
  assumes "retries_ok J" "J k = Some j" "0 \<le> a" "a < j_MaxRetries j"
  shows "wrap64 (a + 1) = a + 1"
  using assms by (auto simp: retries_ok_def max_int64_def wrap64_def ran_def)

lemma lifecycle_attempts:
  assumes "lifecycle J m m'" "retries_ok J" "attempts_ok J m"
  shows "attempts_ok J m'"
  using assms(1)
proof cases
  case Enqueue
  then show ?thesis using assms(3) by (auto simp: fresh_run_def elim!: enqueueE intro: attempts_ok_add)
next
  case (Claim r now w l)
  then show ?thesis using assms(3) by (auto intro: attempts_ok_upd)
next
  case (Process r)
  have a: "0 \<le> r_Attempt r" using assms(3) Process(1) by (auto simp: attempts_ok_def ran_def)
  have upd: "attempts_ok J (m(r_ID r \<mapsto> finished r t s msg))" for t s msg
    using assms(3) Process(1) by (auto intro: attempts_ok_upd)
  from Process(3) show ?thesis
  proof (rule process_stepE)
    fix j rid t msg d
    assume *: "J (r_JobID r) = Some j" "r_Attempt r < j_MaxRetries j"
      "m' = m(r_ID r \<mapsto> finished r t StateFailed msg, rid \<mapsto> retry_run rid r t d)"
    show ?thesis
      unfolding *(3) using *(1,2) a next_attempt [OF assms(2) *(1) a *(2)] by (intro attempts_ok_add upd) auto
  qed (use upd assms(3) in auto)
qed

lemma lifecycles_attempts:
  "(lifecycle J)\<^sup>*\<^sup>* m m' \<Longrightarrow> retries_ok J \<Longrightarrow> attempts_ok J m \<Longrightarrow> attempts_ok J m'"
  by (induction rule: rtranclp_induct) (auto dest: lifecycle_attempts)

text \<open>What the state of a run says about its other fields.\<close>

definition run_typed :: "Run \<Rightarrow> bool" where
  "run_typed r \<longleftrightarrow>
     (if r_State r = StatePending then r_StartedAt r = None \<and> r_FinishedAt r = None \<and> r_Error r = []
      else if r_State r = StateRunning then r_StartedAt r \<noteq> None \<and> r_FinishedAt r = None \<and> r_Error r = []
      else if r_State r = StateSucceeded then r_StartedAt r \<noteq> None \<and> r_FinishedAt r \<noteq> None \<and> r_Error r = []
      else (r_State r = StateFailed \<or> r_State r = StateDead) \<and> r_StartedAt r \<noteq> None \<and> r_FinishedAt r \<noteq> None)"

definition runs_typed :: "(string \<rightharpoonup> Run) \<Rightarrow> bool" where
  "runs_typed m \<longleftrightarrow> (\<forall>r\<in>ran m. run_typed r)"

lemma typed_fresh: "fresh_run r \<Longrightarrow> run_typed r"
  by (simp add: fresh_run_def run_typed_def)

lemma typed_retry: "run_typed (retry_run rid r t d)"
  by (simp add: run_typed_def retry_run_def zero_run_def)

lemma typed_claim: "run_typed r \<Longrightarrow> claimable now r \<Longrightarrow> run_typed (claim_run now w l r)"
  by (auto simp: run_typed_def claimable_def claim_run_def run_state_defs split: if_splits option.split)

lemma typed_finished:
  assumes "run_typed r" "r_State r = StateRunning"
  shows "run_typed (finished r t StateSucceeded [])" "run_typed (finished r t StateDead msg)" "run_typed (finished r t StateFailed msg)"
  using assms by (simp_all add: run_typed_def finished_def run_state_defs)

lemma runs_typed_upd: "runs_typed m \<Longrightarrow> run_typed r \<Longrightarrow> runs_typed (m(k \<mapsto> r))"
  by (auto simp: runs_typed_def ran_def)

lemma lifecycle_typed:
  assumes "lifecycle J m m'" "runs_typed m"
  shows "runs_typed m'"
proof -
  have get: "run_typed r" if "m k = Some r" for k r using assms(2) that by (auto simp: runs_typed_def ran_def)
  from assms(1) show ?thesis
  proof cases
    case Enqueue
    then show ?thesis using assms(2) by (auto elim!: enqueueE intro: runs_typed_upd typed_fresh)
  next
    case (Claim r now w l)
    then show ?thesis using assms(2) get by (auto intro!: runs_typed_upd typed_claim)
  next
    case (Process r)
    note fin = typed_finished [OF get [OF Process(1)] Process(2)]
    from Process(3) show ?thesis by (rule process_stepE) (use assms(2) fin in \<open>auto intro!: runs_typed_upd typed_retry\<close>)
  qed
qed

lemma lifecycles_typed: "(lifecycle J)\<^sup>*\<^sup>* m m' \<Longrightarrow> runs_typed m \<Longrightarrow> runs_typed m'"
  by (induction rule: rtranclp_induct) (auto dest: lifecycle_typed)

section \<open>Claiming as a sequence of steps\<close>

lemma overwrite_runs_Cons:
  "r_ID r \<notin> r_ID ` set rs \<Longrightarrow> overwrite_runs m (r # rs) = overwrite_runs (m(r_ID r \<mapsto> r)) rs"
  by (simp add: overwrite_runs_def map_add_upd_left dom_map_of_conv_image_fst image_image)

lemma claims_lifecycle:
  "distinct (map r_ID xs) \<Longrightarrow> (\<forall>r\<in>set xs. m (r_ID r) = Some r \<and> claimable now r) \<Longrightarrow>
     (lifecycle J)\<^sup>*\<^sup>* m (overwrite_runs m (map (claim_run now w l) xs))"
proof (induction xs arbitrary: m)
  case Nil
  then show ?case by (simp add: overwrite_runs_def)
next
  case (Cons r xs)
  let ?m = "m(r_ID r \<mapsto> claim_run now w l r)"
  have "lifecycle J m ?m" using Cons.prems(2) by (auto intro: lifecycle.Claim)
  moreover have "(lifecycle J)\<^sup>*\<^sup>* ?m (overwrite_runs ?m (map (claim_run now w l) xs))"
  proof (rule Cons.IH)
    show "distinct (map r_ID xs)" using Cons.prems(1) by simp
    have "r_ID r \<notin> r_ID ` set xs" using Cons.prems(1) by simp
    then have "r_ID q \<noteq> r_ID r" if "q \<in> set xs" for q using imageI [OF that, of r_ID] by metis
    then show "\<forall>q\<in>set xs. ?m (r_ID q) = Some q \<and> claimable now q" using Cons.prems(2) by simp
  qed
  moreover have "overwrite_runs m (map (claim_run now w l) (r # xs)) = overwrite_runs ?m (map (claim_run now w l) xs)"
    using Cons.prems(1) overwrite_runs_Cons [of "claim_run now w l r" "map (claim_run now w l) xs" m]
    by (simp add: image_image)
  ultimately show ?case by (simp add: converse_rtranclp_into_rtranclp)
qed

section \<open>The scheduler takes steps of the machine\<close>

context store_contract
begin

text \<open>An action that only enqueues, with rules that follow the structure of the code.\<close>

definition adds :: "env \<Rightarrow> (string \<rightharpoonup> Job) \<Rightarrow> ('s world \<Rightarrow> 'a \<times> 's world) \<Rightarrow> bool" where
  "adds env J act \<longleftrightarrow>
     (\<forall>w a w'. world_ok env w \<longrightarrow> jobs_of (w_store w) = J \<longrightarrow> act w = (a, w') \<longrightarrow>
        world_ok env w' \<and> jobs_of (w_store w') = J \<and> (enqueue J)\<^sup>*\<^sup>* (runs_of (w_store w)) (runs_of (w_store w')))"

lemma addsD:
  assumes "adds env J act" "world_ok env w" "jobs_of (w_store w) = J" "act w = (a, w')"
  shows "world_ok env w'" "jobs_of (w_store w') = J" "(enqueue J)\<^sup>*\<^sup>* (runs_of (w_store w)) (runs_of (w_store w'))"
  using assms unfolding adds_def by blast+

lemma adds_ret: "adds env J (ret a)"
  by (simp add: adds_def)

lemma adds_Pair: "adds env J (Pair (Inr a))"
  by (simp add: adds_def)

lemma adds_bind:
  assumes "adds env J act" "\<And>a. adds env J (f a)"
  shows "adds env J (bind_act act f)"
  unfolding adds_def
proof (intro allI impI)
  fix w b w' assume pre: "world_ok env w" "jobs_of (w_store w) = J" "bind_act act f w = (b, w')"
  obtain r1 w1 where c: "act w = (r1, w1)" by fastforce
  note a = addsD [OF assms(1) pre(1,2) c]
  show "world_ok env w' \<and> jobs_of (w_store w') = J \<and> (enqueue J)\<^sup>*\<^sup>* (runs_of (w_store w)) (runs_of (w_store w'))"
  proof (cases r1)
    case (Inl e)
    then show ?thesis using a pre(3) c by (simp add: bind_act_def)
  next
    case (Inr x)
    then have "f x w1 = (b, w')" using pre(3) c by (simp add: bind_act_def)
    from addsD [OF assms(2) a(1,2) this] a(3) show ?thesis by auto
  qed
qed

lemma adds_if: "adds env J a \<Longrightarrow> adds env J b \<Longrightarrow> adds env J (if c then a else b)"
  by simp

lemma adds_ListRuns: "adds env J (call (st_ListRuns ops f))"
  unfolding adds_def using call_ListRuns(1,2) by (fastforce simp: same_data_def)

lemma adds_ListJobs:
  assumes "\<And>js. \<forall>j\<in>set js. J (j_ID j) = Some j \<Longrightarrow> adds env J (f js)"
  shows "adds env J (bind_act (call (st_ListJobs ops)) f)"
  unfolding adds_def
proof (intro allI impI)
  fix w b w' assume pre: "world_ok env w" "jobs_of (w_store w) = J" "bind_act (call (st_ListJobs ops)) f w = (b, w')"
  obtain r1 w1 where c: "call (st_ListJobs ops) w = (r1, w1)" by fastforce
  note l = call_ListJobs [OF pre(1) c]
  have same: "runs_of (w_store w1) = runs_of (w_store w)" "jobs_of (w_store w1) = J"
    using l(2) pre(2) by (simp_all add: same_data_def)
  show "world_ok env w' \<and> jobs_of (w_store w') = J \<and> (enqueue J)\<^sup>*\<^sup>* (runs_of (w_store w)) (runs_of (w_store w'))"
  proof (cases r1)
    case (Inl e)
    then show ?thesis using pre(3) c l(1) same by (simp add: bind_act_def)
  next
    case (Inr js)
    then have "\<forall>j\<in>set js. J (j_ID j) = Some j"
      using l(3) pre(1,2) job_key by (fastforce simp: ran_def world_ok_def)
    moreover have "f js w1 = (b, w')" using pre(3) c Inr by (simp add: bind_act_def)
    ultimately show ?thesis using addsD [OF assms l(1) same(2)] same(1) by metis
  qed
qed

text \<open>Drawing a fresh identifier and creating a run under it.\<close>

lemma create_fresh:
  assumes "world_ok env w" "jobs_of (w_store w) = J" "r_ID r = e_newID env (w_ids w)" "fresh_run r"
    "J (r_JobID r) = Some j" "call (st_CreateRun ops r) (w\<lparr>w_ids := w_ids w + Suc n\<rparr>) = (b, w')"
  shows "world_ok env w' \<and> jobs_of (w_store w') = J \<and> (enqueue J)\<^sup>*\<^sup>* (runs_of (w_store w)) (runs_of (w_store w'))"
proof -
  have none: "runs_of (w_store w) (r_ID r) = None" using newID_unused [OF assms(1)] by (simp add: assms(3))
  note cr = call_CreateRun [OF world_ok_newID [OF assms(1)] _ _ _ assms(6), of "w_ids w"]
  have "world_ok env w'" "jobs_of (w_store w') = J"
    "runs_of (w_store w') = (case b of Inl e \<Rightarrow> runs_of (w_store w) | Inr _ \<Rightarrow> (runs_of (w_store w))(r_ID r \<mapsto> r))"
    using cr none assms(2,3) by (simp_all split: sum.split)
  moreover have "enqueue J (runs_of (w_store w)) ((runs_of (w_store w))(r_ID r \<mapsto> r))"
    using none assms(4,5) by (auto intro!: enqueue.intros)
  ultimately show ?thesis by (auto split: sum.splits)
qed

lemma adds_create:
  assumes "\<And>rid. r_ID (F rid) = rid" "\<And>rid. fresh_run (F rid)"
    "\<And>rid. J (r_JobID (F rid)) = Some j"
  shows "adds env J (bind_act (newID env) (\<lambda>rid. call (st_CreateRun ops (F rid))))"
  unfolding adds_def
  by (intro allI impI, rule create_fresh [where r = "F (e_newID env (w_ids w))" and n = 0 for w])
     (auto simp: assms bind_act_def newID_def)

lemma adds_create_batch:
  assumes "\<And>rid b. r_ID (F rid b) = rid" "\<And>rid b. fresh_run (F rid b)"
    "\<And>rid b. J (r_JobID (F rid b)) = Some j"
  shows "adds env J (bind_act (newID env) (\<lambda>rid. bind_act (newID env) (\<lambda>b. call (st_CreateRun ops (F rid b)))))"
  unfolding adds_def
  by (intro allI impI, rule create_fresh [where r = "F (e_newID env (w_ids w)) (e_newID env (Suc (w_ids w)))" and n = 1 for w])
     (auto simp: assms bind_act_def newID_def)

lemma adds_enqueueRoot: "J (j_ID j) = Some j \<Longrightarrow> adds env J (enqueueRoot ops env j t)"
  unfolding enqueueRoot_def by (intro adds_bind adds_ListRuns adds_if adds_ret adds_create_batch) auto

lemma adds_depsSatisfied: "adds env J (depsSatisfied ops deps b)"
  by (induction deps) (auto intro!: adds_bind adds_ListRuns adds_Pair adds_ret)

lemma adds_enqueue_dependent: "J (j_ID j) = Some j \<Longrightarrow> adds env J (enqueue_dependent ops env c now j)"
  unfolding enqueue_dependent_def
  by (intro adds_bind adds_depsSatisfied adds_ListRuns adds_if adds_ret adds_create) auto

lemma adds_enqueue_all: "\<forall>j\<in>set js. J (j_ID j) = Some j \<Longrightarrow> adds env J (enqueue_all ops env c now js)"
  by (induction js) (auto intro!: adds_bind adds_Pair adds_ret adds_enqueue_dependent)

lemma adds_enqueueDependents: "adds env J (enqueueDependents ops env c now)"
  unfolding enqueueDependents_def by (intro adds_ListJobs adds_enqueue_all)

lemma dispatch_jobs_adds:
  assumes "\<forall>j\<in>set js. J (j_ID j) = Some j" "world_ok env w" "jobs_of (w_store w) = J"
    and "dispatch_jobs ops env now js created d w = Some (res, d', w')"
  shows "world_ok env w' \<and> jobs_of (w_store w') = J \<and> (enqueue J)\<^sup>*\<^sup>* (runs_of (w_store w)) (runs_of (w_store w'))"
proof (rule dispatch_jobs_keeps [where P = "\<lambda>v. world_ok env v \<and> jobs_of (w_store v) = J \<and> (enqueue J)\<^sup>*\<^sup>* (runs_of (w_store w)) (runs_of (w_store v))",
      OF _ assms(4)])
  fix j v t u v' assume j: "j \<in> set js" and e: "enqueueRoot ops env j t v = (u, v')"
    and v: "world_ok env v \<and> jobs_of (w_store v) = J \<and> (enqueue J)\<^sup>*\<^sup>* (runs_of (w_store w)) (runs_of (w_store v))"
  have "adds env J (enqueueRoot ops env j t)" using assms(1) j by (intro adds_enqueueRoot) blast
  from addsD [OF this _ _ e] v show "world_ok env v' \<and> jobs_of (w_store v') = J \<and> (enqueue J)\<^sup>*\<^sup>* (runs_of (w_store w)) (runs_of (w_store v'))"
    by auto
qed (use assms(2,3) in simp)

lemma dispatch_adds:
  assumes "world_ok env w" "dispatch ops env now d w = Some (res, d', w')"
  shows "world_ok env w'" "jobs_of (w_store w') = jobs_of (w_store w)"
    "(enqueue (jobs_of (w_store w)))\<^sup>*\<^sup>* (runs_of (w_store w)) (runs_of (w_store w'))"
proof -
  obtain r1 w1 where c: "call (st_ListJobs ops) w = (r1, w1)" by fastforce
  note l = call_ListJobs [OF assms(1) c]
  have same: "runs_of (w_store w1) = runs_of (w_store w)" "jobs_of (w_store w1) = jobs_of (w_store w)"
    using l(2) by (simp_all add: same_data_def)
  have "world_ok env w' \<and> jobs_of (w_store w') = jobs_of (w_store w) \<and>
      (enqueue (jobs_of (w_store w)))\<^sup>*\<^sup>* (runs_of (w_store w)) (runs_of (w_store w'))"
  proof (cases r1)
    case (Inl e)
    then show ?thesis using assms(2) c l(1) same by (simp add: dispatch_def)
  next
    case (Inr js)
    have "\<forall>j\<in>set js. jobs_of (w_store w) (j_ID j) = Some j"
      using l(3) [OF Inr] assms(1) job_key by (fastforce simp: ran_def world_ok_def)
    moreover have "dispatch_jobs ops env now js 0 d w1 = Some (res, d', w')" using assms(2) c Inr by (simp add: dispatch_def)
    ultimately show ?thesis using dispatch_jobs_adds [OF _ l(1) same(2)] same(1) by metis
  qed
  then show "world_ok env w'" "jobs_of (w_store w') = jobs_of (w_store w)"
    "(enqueue (jobs_of (w_store w)))\<^sup>*\<^sup>* (runs_of (w_store w)) (runs_of (w_store w'))" by blast+
qed

text \<open>A worker goroutine processes its own run and adds dependents; the other runs stay as they are.\<close>

lemma work_spec:
  assumes "world_ok env w" "runs_of (w_store w) (r_ID r) = Some r" "r_State r = StateRunning"
  shows "world_ok env (work ops env ex r w)" "jobs_of (w_store (work ops env ex r w)) = jobs_of (w_store w)"
    "(lifecycle (jobs_of (w_store w)))\<^sup>*\<^sup>* (runs_of (w_store w)) (runs_of (w_store (work ops env ex r w)))"
    "runs_of (w_store w) k = Some q \<Longrightarrow> k \<noteq> r_ID r \<Longrightarrow> runs_of (w_store (work ops env ex r w)) k = Some q"
proof -
  let ?J = "jobs_of (w_store w)" and ?m = "runs_of (w_store w)"
  obtain result err w1 where p: "process ops env ex r w = ((result, err), w1)" by (metis surj_pair)
  have sp: "world_ok env w1" "jobs_of (w_store w1) = ?J" "process_step (?J (r_JobID r)) r ?m (runs_of (w_store w1))"
    using process_spec [OF assms(1) p] by blast+
  have first: "(lifecycle ?J)\<^sup>*\<^sup>* ?m (runs_of (w_store w1))"
    using lifecycle.Process [where m = ?m and J = ?J, OF assms(2,3) sp(3)] by blast
  have "world_ok env (work ops env ex r w) \<and> jobs_of (w_store (work ops env ex r w)) = ?J \<and>
      (enqueue ?J)\<^sup>*\<^sup>* (runs_of (w_store w1)) (runs_of (w_store (work ops env ex r w)))"
  proof (cases "err = None \<and> r_State result = StateSucceeded")
    case True
    define w2 where "w2 = w1\<lparr>w_clock := w_clock w1 + 1\<rparr>"
    obtain u w3 where e: "enqueueDependents ops env result (e_now env (w_clock w1)) w2 = (u, w3)" by fastforce
    have w2: "world_ok env w2" "w_store w2 = w_store w1" using sp(1) by (simp_all add: w2_def world_ok_def)
    have "work ops env ex r w = w3" using p True e by (simp add: work_def read_clock_def w2_def)
    then show ?thesis using addsD [OF adds_enqueueDependents w2(1) _ e, of ?J] w2(2) sp(2) by simp
  next
    case False
    then have "work ops env ex r w = w1" using p by (auto simp: work_def split: option.splits)
    then show ?thesis using sp by simp
  qed
  then have all: "world_ok env (work ops env ex r w)" "jobs_of (w_store (work ops env ex r w)) = ?J"
    "(enqueue ?J)\<^sup>*\<^sup>* (runs_of (w_store w1)) (runs_of (w_store (work ops env ex r w)))" by blast+
  show "world_ok env (work ops env ex r w)" "jobs_of (w_store (work ops env ex r w)) = ?J" using all by blast+
  show "(lifecycle ?J)\<^sup>*\<^sup>* ?m (runs_of (w_store (work ops env ex r w)))"
    using first enqueues_lifecycle [OF all(3)] by (rule rtranclp_trans)
  show "runs_of (w_store (work ops env ex r w)) k = Some q" if "?m k = Some q" "k \<noteq> r_ID r"
    using process_step_other [OF sp(3) that] enqueues_le [OF all(3)] by (rule map_le_Some [rotated])
qed

lemma work_all_spec:
  "world_ok env w \<Longrightarrow> distinct (map r_ID rs) \<Longrightarrow>
   \<forall>r\<in>set rs. runs_of (w_store w) (r_ID r) = Some r \<and> r_State r = StateRunning \<Longrightarrow>
     world_ok env (work_all ops env ex rs w) \<and> jobs_of (w_store (work_all ops env ex rs w)) = jobs_of (w_store w) \<and>
     (lifecycle (jobs_of (w_store w)))\<^sup>*\<^sup>* (runs_of (w_store w)) (runs_of (w_store (work_all ops env ex rs w)))"
proof (induction rs arbitrary: w)
  case (Cons r rs)
  let ?w = "work ops env ex r w"
  have r: "runs_of (w_store w) (r_ID r) = Some r" "r_State r = StateRunning" using Cons.prems(3) by simp_all
  note wk = work_spec [OF Cons.prems(1) r, where ex = ex]
  have "r_ID r \<notin> r_ID ` set rs" "distinct (map r_ID rs)" using Cons.prems(2) by simp_all
  then have "r_ID q \<noteq> r_ID r" if "q \<in> set rs" for q using imageI [OF that, of r_ID] by metis
  then have "\<forall>q\<in>set rs. runs_of (w_store ?w) (r_ID q) = Some q \<and> r_State q = StateRunning"
    using Cons.prems(3) wk(4) by simp
  from Cons.IH [OF wk(1) \<open>distinct (map r_ID rs)\<close> this] show ?case using wk(2,3) by auto
qed simp

lemma call_ClaimDue:
  assumes "world_ok env w" "call (st_ClaimDue ops now wid l n) w = (res, w')"
  shows "world_ok env w'" "jobs_of (w_store w') = jobs_of (w_store w)"
    "(lifecycle J)\<^sup>*\<^sup>* (runs_of (w_store w)) (runs_of (w_store w'))"
    "res = Inr rs \<Longrightarrow> distinct (map r_ID rs) \<and>
       (\<forall>r\<in>set rs. runs_of (w_store w') (r_ID r) = Some r \<and> r_State r = StateRunning)"
proof -
  obtain s where s: "st_ClaimDue ops now wid l n (w_store w) = (res, s)" "w' = w\<lparr>w_store := s\<rparr>"
    using assms(2) by (auto simp: call_def split: prod.splits)
  have i: "inv (w_store w)" using assms(1) by (simp add: world_ok_def)
  note law = ClaimDue_law [OF i s(1)]
  show "jobs_of (w_store w') = jobs_of (w_store w)" using law s(2) by simp
  have "world_ok env w' \<and> (lifecycle J)\<^sup>*\<^sup>* (runs_of (w_store w)) (runs_of (w_store w')) \<and>
      (\<forall>rs. res = Inr rs \<longrightarrow> distinct (map r_ID rs) \<and>
         (\<forall>r\<in>set rs. runs_of (w_store w') (r_ID r) = Some r \<and> r_State r = StateRunning))"
  proof (cases res)
    case (Inl e)
    then show ?thesis using law s(2) assms(1) by (simp add: world_ok_def)
  next
    case (Inr rs)
    then obtain xs where xs: "listing due_before (claimable now) (runs_of (w_store w)) xs"
      "rs = map (claim_run now wid l) (claim_limit n xs)" "runs_of s = overwrite_runs (runs_of (w_store w)) rs" "inv s"
      using law by auto
    define ys where "ys = claim_limit n xs"
    have sub: "set ys \<subseteq> set xs" "distinct ys"
      using xs(1) by (auto simp: ys_def claim_limit_def listing_def dest: in_set_takeD)
    have ys: "runs_of (w_store w) (r_ID r) = Some r \<and> claimable now r" if "r \<in> set ys" for r
      using that sub(1) xs(1) run_key [OF i] by (force simp: listing_def ran_def)
    have "inj_on r_ID (set ys)" using ys by (metis inj_onI option.inject)
    then have dist: "distinct (map r_ID ys)" using sub(2) by (simp add: distinct_map)
    have rs: "rs = map (claim_run now wid l) ys" "map r_ID rs = map r_ID ys" by (simp_all add: xs(2) ys_def)
    have life: "(lifecycle J)\<^sup>*\<^sup>* (runs_of (w_store w)) (runs_of s)"
      using claims_lifecycle [OF dist, of "runs_of (w_store w)" now J wid l] ys by (simp add: xs(3) rs)
    have stored: "runs_of s (r_ID r) = Some r" if "r \<in> set rs" for r
      using overwrite_runs_in [of rs r] dist that by (simp add: xs(3) rs(2))
    have "runs_of s (e_newID env i) = None" if "w_ids w \<le> i" for i
    proof -
      have "runs_of (w_store w) (e_newID env i) = None" using assms(1) that by (simp add: world_ok_def)
      moreover from this have "e_newID env i \<notin> r_ID ` set rs"
        using ys rs(1) by (auto simp: image_iff)
      ultimately show ?thesis by (simp add: xs(3) overwrite_runs_other)
    qed
    then have "world_ok env w'" using assms(1) xs(4) s(2) by (simp add: world_ok_def)
    then show ?thesis using life stored dist s(2) Inr rs by (auto simp: o_def)
  qed
  then show "world_ok env w'" "(lifecycle J)\<^sup>*\<^sup>* (runs_of (w_store w)) (runs_of (w_store w'))"
    "res = Inr rs \<Longrightarrow> distinct (map r_ID rs) \<and>
       (\<forall>r\<in>set rs. runs_of (w_store w') (r_ID r) = Some r \<and> r_State r = StateRunning)" by blast+
qed

lemma claim_batch_spec:
  assumes "world_ok (s_env s) w" "claim_batch ops s now w = (res, w')"
  shows "world_ok (s_env s) w'" "jobs_of (w_store w') = jobs_of (w_store w)"
    "(lifecycle J)\<^sup>*\<^sup>* (runs_of (w_store w)) (runs_of (w_store w'))"
    "res = Inr rs \<Longrightarrow> distinct (map r_ID rs) \<and>
       (\<forall>r\<in>set rs. runs_of (w_store w') (r_ID r) = Some r \<and> r_State r = StateRunning)"
proof -
  let ?w = "w\<lparr>w_ids := w_ids w + 1\<rparr>"
  have c: "call (st_ClaimDue ops now (e_newID (s_env s) (w_ids w)) (s_lease s) (drain_limit (s_workers s))) ?w = (res, w')"
    using assms(2) by (simp add: claim_batch_def bind_act_def newID_def)
  note cl = call_ClaimDue [OF world_ok_newID [OF assms(1)] c]
  show "world_ok (s_env s) w'" "jobs_of (w_store w') = jobs_of (w_store w)"
    "(lifecycle J)\<^sup>*\<^sup>* (runs_of (w_store w)) (runs_of (w_store w'))" using cl(1-3) by simp_all
  show "distinct (map r_ID rs) \<and> (\<forall>r\<in>set rs. runs_of (w_store w') (r_ID r) = Some r \<and> r_State r = StateRunning)"
    if "res = Inr rs" using cl(4) [OF that] .
qed

lemma drain_spec:
  assumes "world_ok (s_env s) w"
  shows "world_ok (s_env s) (drain ops s now w) \<and> jobs_of (w_store (drain ops s now w)) = jobs_of (w_store w) \<and>
    (lifecycle (jobs_of (w_store w)))\<^sup>*\<^sup>* (runs_of (w_store w)) (runs_of (w_store (drain ops s now w)))"
proof -
  obtain res w1 where c: "claim_batch ops s now w = (res, w1)" by fastforce
  note cb = claim_batch_spec [OF assms c]
  show ?thesis
  proof (cases res)
    case (Inl e)
    then show ?thesis using c cb(1-3) by (simp add: drain_def)
  next
    case (Inr rs)
    then have "drain ops s now w = work_all ops (s_env s) (s_exec s) rs w1" using c by (simp add: drain_def)
    then show ?thesis using work_all_spec [OF cb(1), of rs "s_exec s"] cb(2,4) cb(3) [of "jobs_of (w_store w)"] Inr by auto
  qed
qed

lemma publishBacklog_spec:
  assumes "world_ok env w"
  shows "world_ok env (publishBacklog ops now w) \<and> same_data w (publishBacklog ops now w)"
proof -
  obtain res w1 where c: "call (st_ListRuns ops (zero_filter\<lparr>f_State := StatePending\<rparr>)) w = (res, w1)" by fastforce
  from call_ListRuns(1,2) [OF assms c] show ?thesis
    by (cases res) (simp_all add: publishBacklog_def c Let_def world_ok_def same_data_def)
qed

lemma step_spec:
  assumes "world_ok (s_env s) w" "step ops now s w = Some (s', w')"
  shows "world_ok (s_env s) w' \<and> s_env s' = s_env s \<and> jobs_of (w_store w') = jobs_of (w_store w) \<and>
    (lifecycle (jobs_of (w_store w)))\<^sup>*\<^sup>* (runs_of (w_store w)) (runs_of (w_store w'))"
proof -
  let ?w = "on_metrics Tick w"
  have ok: "world_ok (s_env s) ?w" using assms(1) by (simp add: world_ok_def)
  obtain res d w1 where d: "dispatch ops (s_env s) now (s_disp s) ?w = Some (res, d, w1)"
    "s' = s\<lparr>s_disp := d\<rparr>" "w' = publishBacklog ops now (drain ops s' now w1)"
    using assms(2) by (auto simp: step_def Let_def split: option.splits)
  note da = dispatch_adds [OF ok d(1)]
  have env: "s_env s' = s_env s" by (simp add: d(2))
  have dr: "world_ok (s_env s) (drain ops s' now w1)" "jobs_of (w_store (drain ops s' now w1)) = jobs_of (w_store w1)"
    "(lifecycle (jobs_of (w_store w1)))\<^sup>*\<^sup>* (runs_of (w_store w1)) (runs_of (w_store (drain ops s' now w1)))"
    using drain_spec [of s' w1 now] da(1) env by simp_all
  have pb: "world_ok (s_env s) w'" "same_data (drain ops s' now w1) w'"
    using publishBacklog_spec [OF dr(1)] d(3) by simp_all
  have "(lifecycle (jobs_of (w_store w)))\<^sup>*\<^sup>* (runs_of (w_store w)) (runs_of (w_store w1))"
    using enqueues_lifecycle [OF da(3)] by simp
  then show ?thesis using pb dr(2,3) da(2) env by (auto simp: same_data_def intro: rtranclp_trans)
qed

lemma adds_Trigger: "adds env J (Trigger ops env k)"
  unfolding adds_def
proof (intro allI impI)
  fix w b w' assume pre: "world_ok env w" "jobs_of (w_store w) = J" "Trigger ops env k w = (b, w')"
  obtain r1 w1 where c: "call (st_GetJob ops k) w = (r1, w1)" by fastforce
  note g = call_GetJob [OF pre(1) c]
  have same: "runs_of (w_store w1) = runs_of (w_store w)" "jobs_of (w_store w1) = J"
    using g(2) pre(2) by (simp_all add: same_data_def)
  show "world_ok env w' \<and> jobs_of (w_store w') = J \<and> (enqueue J)\<^sup>*\<^sup>* (runs_of (w_store w)) (runs_of (w_store w'))"
  proof (cases r1)
    case (Inl e)
    then show ?thesis using pre(3) c g(1) same by (simp add: Trigger_def bind_act_def)
  next
    case (Inr j)
    then have j: "J (j_ID j) = Some j" using g(3) pre(1,2) job_key by (auto simp: world_ok_def)
    define w2 where "w2 = w1\<lparr>w_clock := w_clock w1 + 1\<rparr>"
    define r where "r = triggered_run (e_newID env (w_ids w2)) (e_newID env (Suc (w_ids w2))) j (e_now env (w_clock w1))"
    obtain x where "call (st_CreateRun ops r) (w2\<lparr>w_ids := w_ids w2 + Suc 1\<rparr>) = (x, w')"
      using pre(3) c Inr
      by (auto simp: Trigger_def bind_act_def read_clock_def newID_def w2_def r_def Let_def split: prod.splits sum.splits)
    moreover have "world_ok env w2" "jobs_of (w_store w2) = J" "runs_of (w_store w2) = runs_of (w_store w)"
      using g(1) same by (simp_all add: w2_def world_ok_def)
    moreover have "fresh_run r" "r_ID r = e_newID env (w_ids w2)" "r_JobID r = j_ID j"
      unfolding r_def by (simp_all add: triggered_run_def fresh_run_def zero_run_def)
    ultimately show ?thesis using create_fresh [of env w2 J r j 1 x w'] j by simp
  qed
qed

end

section \<open>Reachable states\<close>

text \<open>What one scheduler process does to a store: passes at any time, and triggers and readings of the clock in
  between.\<close>

inductive reaches :: "'s store_ops \<Rightarrow> Scheduler \<Rightarrow> 's world \<Rightarrow> Scheduler \<Rightarrow> 's world \<Rightarrow> bool" for ops s w where
  Start: "reaches ops s w s w"
| Pass: "reaches ops s w s1 w1 \<Longrightarrow> step ops now s1 w1 = Some (s2, w2) \<Longrightarrow> reaches ops s w s2 w2"
| Triggered: "reaches ops s w s1 w1 \<Longrightarrow> Trigger ops (s_env s1) k w1 = (res, w2) \<Longrightarrow> reaches ops s w s1 w2"
| Read: "reaches ops s w s1 w1 \<Longrightarrow> reaches ops s w s1 (w1\<lparr>w_clock := c\<rparr>)"

context store_contract
begin

lemma reaches_spec:
  assumes "reaches ops s w s' w'" "world_ok (s_env s) w"
  shows "world_ok (s_env s) w' \<and> s_env s' = s_env s \<and> jobs_of (w_store w') = jobs_of (w_store w) \<and>
    (lifecycle (jobs_of (w_store w)))\<^sup>*\<^sup>* (runs_of (w_store w)) (runs_of (w_store w'))"
  using assms
proof (induction rule: reaches.induct)
  case (Pass s1 w1 now s2 w2)
  then have ok: "world_ok (s_env s1) w1" by simp
  from step_spec [OF ok Pass.hyps(2)] Pass show ?case by (auto intro: rtranclp_trans)
next
  case (Triggered s1 w1 k res w2)
  then have ok: "world_ok (s_env s1) w1" by simp
  from addsD [OF adds_Trigger ok refl Triggered.hyps(2)] Triggered show ?case
    by (auto intro: rtranclp_trans dest!: enqueues_lifecycle)
qed (simp_all add: world_ok_def)

end

text \<open>The loop of \<^verbatim>\<open>Run\<close> only reaches such states.\<close>

lemma reaches_trans: "reaches ops s1 w1 s2 w2 \<Longrightarrow> reaches ops s w s1 w1 \<Longrightarrow> reaches ops s w s2 w2"
  by (induction rule: reaches.induct) (auto intro: reaches.intros)

lemma Run_loop_reaches: "Run_loop ops evs s w = Waiting s' w' \<or> Run_loop ops evs s w = Returned s' w' \<Longrightarrow> reaches ops s w s' w'"
proof (induction ops evs s w rule: Run_loop.induct)
  case (3 ops evs s w)
  let ?w = "w\<lparr>w_clock := w_clock w + 1\<rparr>"
  obtain s1 w1 where st: "step ops (e_now (s_env s) (w_clock w)) s ?w = Some (s1, w1)"
    using 3(2) by (auto simp: read_clock_def split: option.splits)
  then have "reaches ops s w s1 w1" by (blast intro: reaches.intros)
  moreover have "reaches ops s1 w1 s' w'" using 3(1) [OF _ refl st refl] 3(2) st by (simp add: read_clock_def)
  ultimately show ?case by (rule reaches_trans [rotated])
qed (auto intro: reaches.intros)

section \<open>Properties\<close>

text \<open>A scheduler to instantiate the properties on; its pass over \<open>flaky_world\<close> finds no job to fire and
  redelivers the run whose lease has expired.\<close>

definition sample_scheduler :: Scheduler where
  "sample_scheduler = \<lparr>s_exec = ExecutorFunc (\<lambda>_ _ _ _. Some ''boom''), s_disp = newDispatcher, s_tick = SecondD, s_workers = 1,
     s_lease = 30 * SecondD, s_env = sample_env\<rparr>"

lemma sample_scheduler_env [simp]: "s_env sample_scheduler = sample_env"
  by (simp add: sample_scheduler_def)

lemma flaky_pass: "\<exists>s' w'. step memory_ops 5 sample_scheduler flaky_world = Some (s', w')"
  by (simp add: step_def Let_def dispatch_def call_def memory_ops_def ListJobs_def flaky_world_def sample_world_def zero_job_def)

lemma flaky_data:
  "mem_runs (w_store flaky_world) ''ra'' = Some flaky_run"
  "retries_ok (mem_jobs (w_store flaky_world))"
  "attempts_ok (mem_jobs (w_store flaky_world)) (mem_runs (w_store flaky_world))"
  by (auto simp: flaky_world_def mem_runs_def mem_jobs_def retries_ok_def attempts_ok_def ran_def max_int64_def
      flaky_run_def zero_run_def split: if_splits)

lemmas mem_step_spec = mem.step_spec [unfolded mem_world_ok_eq]
lemmas mem_reaches_spec = mem.reaches_spec [unfolded mem_world_ok_eq]

text \<open>C10: a scheduling pass that processes its claimed runs one after the other refines the life cycle of runs: whatever it does
  to the stored runs is a sequence of enqueueing fresh pending runs of stored jobs, claiming claimable runs, and recording
  one of the outcomes of a claimed run. The jobs are left alone.\<close>

theorem step_refines_lifecycle:
  assumes "mem_world_ok (s_env s) w" "step memory_ops now s w = Some (s', w')"
  shows "(lifecycle (mem_jobs (w_store w)))\<^sup>*\<^sup>* (mem_runs (w_store w)) (mem_runs (w_store w')) \<and>
         mem_jobs (w_store w') = mem_jobs (w_store w) \<and> mem_world_ok (s_env s') w'"
  using mem_step_spec [OF assms] by metis

text \<open>C11: along any sequence of triggers and passes, each processing its claimed runs one after the other, no run is lost, every
  run keeps its job, batch and attempt, and a run that has succeeded, failed or died stays exactly as it was recorded.\<close>

theorem finished_runs_final:
  assumes "mem_world_ok (s_env s) w" "reaches memory_ops s w s' w'" "mem_runs (w_store w) k = Some r"
  shows "\<exists>r'. mem_runs (w_store w') k = Some r' \<and> identity r' = identity r \<and>
    (r_State r \<noteq> StatePending \<and> r_State r \<noteq> StateRunning \<longrightarrow> r' = r)"
proof -
  have "evolves (mem_runs (w_store w)) (mem_runs (w_store w'))"
    using mem_reaches_spec [OF assms(2,1)] lifecycles_evolve by blast
  then show ?thesis using assms(3) by (auto simp: evolves_def unfinished_def)
qed

text \<open>C12: attempts are bounded: if it holds at the start, then along any sequence of triggers and passes, each processing its
  claimed runs one after the other, every run has an attempt number between 0 and the retries of its job.\<close>

theorem attempts_bounded:
  assumes "mem_world_ok (s_env s) w" "reaches memory_ops s w s' w'" "retries_ok (mem_jobs (w_store w))"
    "attempts_ok (mem_jobs (w_store w)) (mem_runs (w_store w))" "mem_runs (w_store w') k = Some r"
    "mem_jobs (w_store w') (r_JobID r) = Some j"
  shows "0 \<le> r_Attempt r \<and> r_Attempt r \<le> max 0 (j_MaxRetries j)"
proof -
  have "attempts_ok (mem_jobs (w_store w)) (mem_runs (w_store w'))" "mem_jobs (w_store w') = mem_jobs (w_store w)"
    using mem_reaches_spec [OF assms(2,1)] lifecycles_attempts assms(3,4) by blast+
  then show ?thesis using assms(5,6) by (auto simp: attempts_ok_def ran_def)
qed

theorem step_refines_lifecycle_witness:
  "\<exists>s' w'. step memory_ops 5 sample_scheduler flaky_world = Some (s', w') \<and> mem_jobs (w_store w') = mem_jobs (w_store flaky_world)"
proof -
  obtain s' w' where st: "step memory_ops 5 sample_scheduler flaky_world = Some (s', w')" using flaky_pass by blast
  then show ?thesis using step_refines_lifecycle [OF _ st] flaky_world_ok by auto
qed

theorem finished_runs_final_witness:
  "\<exists>s' w' r'. step memory_ops 5 sample_scheduler flaky_world = Some (s', w') \<and>
     mem_runs (w_store w') ''ra'' = Some r' \<and> identity r' = identity flaky_run"
proof -
  obtain s' w' where st: "step memory_ops 5 sample_scheduler flaky_world = Some (s', w')" using flaky_pass by blast
  have "reaches memory_ops sample_scheduler flaky_world s' w'" using st by (auto intro: reaches.intros)
  then show ?thesis using finished_runs_final [of sample_scheduler flaky_world s' w' "''ra''"] st flaky_world_ok flaky_data(1) by auto
qed

theorem attempts_bounded_witness:
  "\<exists>s' w' r. step memory_ops 5 sample_scheduler flaky_world = Some (s', w') \<and> mem_runs (w_store w') ''ra'' = Some r \<and>
     0 \<le> r_Attempt r \<and> r_Attempt r \<le> 1"
proof -
  obtain s' w' where st: "step memory_ops 5 sample_scheduler flaky_world = Some (s', w')" using flaky_pass by blast
  have re: "reaches memory_ops sample_scheduler flaky_world s' w'" using st by (auto intro: reaches.intros)
  have sp: "mem_jobs (w_store w') = mem_jobs (w_store flaky_world)" "evolves (mem_runs (w_store flaky_world)) (mem_runs (w_store w'))"
    using mem_reaches_spec [OF re] flaky_world_ok lifecycles_evolve by auto
  obtain r where r: "mem_runs (w_store w') ''ra'' = Some r" "identity r = identity flaky_run"
    using sp(2) flaky_data(1) unfolding evolves_def by blast
  have "mem_jobs (w_store w') (r_JobID r) = Some (zero_job\<lparr>j_ID := ''a'', j_MaxRetries := 1\<rparr>)"
    using r(2) sp(1) by (simp add: identity_def flaky_run_def flaky_world_def mem_jobs_def)
  then show ?thesis
    using attempts_bounded [OF _ re flaky_data(2,3) r(1)] flaky_world_ok st r(1) by auto
qed

end
