(* ===== verification/Pipeline.thy ===== *)
theory Pipeline
  imports Lifecycle
begin

text \<open>
  Whole batches over the in-memory store: dispatcher, store, worker and scheduler together. In every
  reachable state a job whose dependencies have all succeeded in a batch has a run in that batch, so
  no dependent is forgotten; and if executions succeed and the clock advances, the loop of \<^verbatim>\<open>Run\<close> executes
  everything downstream of a triggered job. The second is a descent: every pass with a claimable run
  lowers a measure of the batch.
\<close>

section \<open>No dependent is forgotten\<close>

definition advanced :: "(string \<rightharpoonup> Job) \<Rightarrow> (string \<rightharpoonup> Run) \<Rightarrow> bool" where
  "advanced J m \<longleftrightarrow>
     (\<forall>j\<in>ran J. \<forall>b. b \<noteq> [] \<and> j_DependsOn j \<noteq> [] \<and> (\<forall>d\<in>set (j_DependsOn j). succeeded_in m d b) \<longrightarrow> in_batch m (j_ID j) b)"

lemma advanced_keep:
  assumes "advanced J m" "\<And>d b. b \<noteq> [] \<Longrightarrow> succeeded_in m' d b \<Longrightarrow> succeeded_in m d b" "\<And>k b. in_batch m k b \<Longrightarrow> in_batch m' k b"
  shows "advanced J m'"
  using assms unfolding advanced_def by metis

lemma in_batch_evolves: "evolves m m' \<Longrightarrow> in_batch m k b \<Longrightarrow> in_batch m' k b"
  by (fastforce simp: evolves_def in_batch_def ran_def identity_def)

text \<open>Enqueueing and claiming leave alone what has succeeded.\<close>

lemma succeeded_add: "m k = None \<Longrightarrow> r_State r \<noteq> StateSucceeded \<Longrightarrow> succeeded_in (m(k \<mapsto> r)) d b = succeeded_in m d b"
  by (auto simp: succeeded_in_def ran_fresh)

lemma succeeded_upd:
  assumes "m k = Some q" "r_State q \<noteq> StateSucceeded" "succeeded_in (m(k \<mapsto> r)) d b"
  shows "succeeded_in m d b \<or> d = r_JobID r \<and> b = r_BatchID r \<and> r_State r = StateSucceeded"
  using assms(3) by (auto simp: succeeded_in_def ran_def split: if_splits)

lemma enqueue_succeeded: "enqueue J m m' \<Longrightarrow> succeeded_in m' d b = succeeded_in m d b"
  by (erule enqueueE) (simp add: succeeded_add fresh_run_def run_state_defs)

lemma enqueues_succeeded: "(enqueue J)\<^sup>*\<^sup>* m m' \<Longrightarrow> succeeded_in m' d b = succeeded_in m d b"
  by (induction rule: rtranclp_induct) (auto simp: enqueue_succeeded)

lemma enqueues_advanced: "(enqueue I)\<^sup>*\<^sup>* m m' \<Longrightarrow> advanced J m \<Longrightarrow> advanced J m'"
  by (erule advanced_keep) (blast dest: enqueues_succeeded in_batch_evolves [OF lifecycles_evolve [OF enqueues_lifecycle]])+

text \<open>Without jobs, the life cycle can only claim.\<close>

lemma claims_only:
  assumes "lifecycle Map.empty m m'"
  obtains "m' = m" | r now w l where "m (r_ID r) = Some r" "claimable now r" "m' = m(r_ID r \<mapsto> claim_run now w l r)"
  using assms by cases (auto elim: enqueueE process_stepE)

lemma claims_succeeded: "(lifecycle Map.empty)\<^sup>*\<^sup>* m m' \<Longrightarrow> succeeded_in m' d b \<Longrightarrow> succeeded_in m d b"
proof (induction rule: rtranclp_induct)
  case (step y z)
  from step(2) have "succeeded_in z d b \<Longrightarrow> succeeded_in y d b"
  proof (rule claims_only)
    fix r now w l assume r: "y (r_ID r) = Some r" "claimable now r" "z = y(r_ID r \<mapsto> claim_run now w l r)"
    assume "succeeded_in z d b"
    moreover have "r_State r \<noteq> StateSucceeded" using r(2) by (auto simp: claimable_def run_state_defs)
    ultimately show "succeeded_in y d b" using succeeded_upd [of y "r_ID r" r "claim_run now w l r" d b] r(1,3) by (auto simp: run_state_defs)
  qed simp
  then show ?case using step by blast
qed simp

lemma claims_advanced: "(lifecycle Map.empty)\<^sup>*\<^sup>* m m' \<Longrightarrow> advanced J m \<Longrightarrow> advanced J m'"
  by (erule advanced_keep) (blast dest: claims_succeeded in_batch_evolves [OF lifecycles_evolve])+

text \<open>A success, followed by the chain of its dependents.\<close>

lemma success_advanced:
  assumes "advanced J m" "m (r_ID r) = Some r" "r_State r = StateRunning" "r_BatchID r \<noteq> []"
    and "dep_chain (r_BatchID r) now ks (m(r_ID r \<mapsto> finished r t StateSucceeded [])) m'"
    and "set ks = {j \<in> ran J. r_JobID r \<in> set (j_DependsOn j)}"
  shows "advanced J m'"
  unfolding advanced_def
proof (intro ballI allI impI)
  let ?m = "m(r_ID r \<mapsto> finished r t StateSucceeded [])"
  note keep = dep_chain_keeps [OF assms(5)]
  fix j b assume j: "j \<in> ran J" and b: "b \<noteq> [] \<and> j_DependsOn j \<noteq> [] \<and> (\<forall>d\<in>set (j_DependsOn j). succeeded_in m' d b)"
  then have deps: "\<forall>d\<in>set (j_DependsOn j). succeeded_in ?m d b" using keep by blast
  show "in_batch m' (j_ID j) b"
  proof (cases "\<forall>d\<in>set (j_DependsOn j). succeeded_in m d b")
    case True
    then have "in_batch m (j_ID j) b" using assms(1) j b by (simp add: advanced_def)
    then have "in_batch ?m (j_ID j) b" using assms(2,3) by (auto intro!: in_batch_evolves [of m] evolves_upd simp: unfinished_def)
    then show ?thesis using keep by blast
  next
    case False
    then obtain d where d: "d \<in> set (j_DependsOn j)" "\<not> succeeded_in m d b" by blast
    then have "d = r_JobID r" "b = r_BatchID r"
      using succeeded_upd [of m "r_ID r", OF assms(2)] deps assms(3) by (fastforce simp: run_state_defs)+
    then show ?thesis using dep_chain_complete [OF assms(5), of j] d(1) j deps assms(6) by blast
  qed
qed

text \<open>What a worker goroutine does to the in-memory store: nothing that counts as a success, or a success followed
  by the chain of its dependents.\<close>

lemmas mem_adds_enqueueDependents = mem.addsD [OF mem.adds_enqueueDependents, unfolded mem_world_ok_eq]
lemmas mem_work_spec = mem.work_spec [unfolded mem_world_ok_eq]

lemma work_success:
  assumes ok: "mem_world_ok env w" and r: "mem_runs (w_store w) (r_ID r) = Some r"
    and j: "mem_jobs (w_store w) (r_JobID r) = Some j" "jobs_named (w_store w)"
    and ex: "Execute env ex (timeout_of j) j r (w_execs w) = None" "\<not> e_cancelled env (w_execs w)"
  obtains ks now t where "set ks = {i \<in> ran (mem_jobs (w_store w)). r_JobID r \<in> set (j_DependsOn i)}"
    "r_BatchID r \<noteq> [] \<longrightarrow> dep_chain (r_BatchID r) now ks ((mem_runs (w_store w))(r_ID r \<mapsto> finished r t StateSucceeded []))
       (mem_runs (w_store (work memory_ops env ex r w)))"
    "(enqueue (mem_jobs (w_store w)))\<^sup>*\<^sup>* ((mem_runs (w_store w))(r_ID r \<mapsto> finished r t StateSucceeded []))
       (mem_runs (w_store (work memory_ops env ex r w)))"
proof -
  define t where "t = e_now env (w_clock w + 1)"
  let ?fin = "finished r t StateSucceeded []" and ?J = "mem_jobs (w_store w)"
  have none: "mem_runs (w_store w) (r_ID r) \<noteq> None" using r by simp
  obtain w1 where p: "process memory_ops env ex r w = ((?fin, None), w1)"
    "mem_runs (w_store w1) = (mem_runs (w_store w))(r_ID r \<mapsto> ?fin)"
    using mem_process_exact [OF ok none j(1), of ex] unfolding Let_def if_not_P [OF ex(2)] ex(1) option.case t_def [symmetric] by blast
  have sp: "mem_world_ok env w1" "mem_jobs (w_store w1) = ?J" using mem_process_spec [OF ok p(1)] by blast+
  define w2 where "w2 = w1\<lparr>w_clock := w_clock w1 + 1\<rparr>"
  define now where "now = e_now env (w_clock w1)"
  have w2: "mem_world_ok env w2" "w_store w2 = w_store w1" using sp(1) by (simp_all add: w2_def mem_world_ok_def)
  obtain u w3 where e: "enqueueDependents memory_ops env ?fin now w2 = (u, w3)" by fastforce
  have work: "work memory_ops env ex r w = w3" using p(1) e by (simp add: work_def read_clock_def w2_def now_def)
  have named: "jobs_named (w_store w2)" using j(2) sp(2) w2(2) by (simp add: jobs_named_def)
  have enq: "(enqueue ?J)\<^sup>*\<^sup>* (mem_runs (w_store w1)) (mem_runs (w_store w3))"
    using mem_adds_enqueueDependents(3) [OF w2(1) _ e, of ?J] sp(2) w2(2) by simp
  show thesis
  proof (cases "r_BatchID r = []")
    case True
    have "finite {i \<in> ran ?J. r_JobID r \<in> set (j_DependsOn i)}" by (simp add: mem_jobs_def finite_ran finite_dom_map_of)
    then obtain ks where "set ks = {i \<in> ran ?J. r_JobID r \<in> set (j_DependsOn i)}" using finite_list by blast
    then show thesis using that [of ks now t] True enq p(2) work by simp
  next
    case False
    then have "r_BatchID ?fin \<noteq> []" by simp
    then obtain ks w' where
      "enqueueDependents memory_ops env ?fin now w2 = (Inr (), w')"
      "set ks = {i \<in> ran (mem_jobs (w_store w2)). r_JobID ?fin \<in> set (j_DependsOn i)}"
      "dep_chain (r_BatchID ?fin) now ks (mem_runs (w_store w2)) (mem_runs (w_store w'))"
      by (rule mem_enqueueDependents [OF w2(1) named])
    then show thesis using that [of ks now t] e enq p(2) work sp(2) w2(2) by simp
  qed
qed

lemma work_failure:
  assumes ok: "mem_world_ok env w" and r: "mem_runs (w_store w) (r_ID r) = Some r" "r_State r = StateRunning"
    and fail: "\<And>j. mem_jobs (w_store w) (r_JobID r) = Some j \<Longrightarrow>
      e_cancelled env (w_execs w) \<or> Execute env ex (timeout_of j) j r (w_execs w) \<noteq> None"
    and s: "succeeded_in (mem_runs (w_store (work memory_ops env ex r w))) d b"
  shows "succeeded_in (mem_runs (w_store w)) d b"
proof (cases "mem_jobs (w_store w) (r_JobID r)")
  case None
  obtain res err w1 where p: "process memory_ops env ex r w = ((res, err), w1)" by (metis surj_pair)
  have "process_step None r (mem_runs (w_store w)) (mem_runs (w_store w1))" using mem_process_spec [OF ok p] None by simp
  then have "mem_runs (w_store w1) = mem_runs (w_store w)" by (auto elim: process_stepE)
  moreover have "work memory_ops env ex r w = w1"
    using p None by (auto simp: work_def process_def call_def memory_ops_def GetJob_def mem_jobs_def)
  ultimately show ?thesis using s by simp
next
  case (Some j)
  let ?m = "mem_runs (w_store w)"
  have none: "?m (r_ID r) \<noteq> None" using r by simp
  note exact = mem_process_exact [OF ok none Some, of ex]
  have upd: "succeeded_in (?m(r_ID r \<mapsto> finished r t st msg)) d b \<Longrightarrow> succeeded_in ?m d b" if "st \<noteq> StateSucceeded" for t st msg
    using succeeded_upd [of ?m "r_ID r" r "finished r t st msg" d b] r that by (auto simp: run_state_defs)
  show ?thesis
  proof (cases "e_cancelled env (w_execs w)")
    case True
    then obtain w1 where "process memory_ops env ex r w = ((r, None), w1)" "mem_runs (w_store w1) = ?m"
      using exact unfolding Let_def if_P [OF True] by blast
    then show ?thesis using s r(2) by (simp add: work_def run_state_defs)
  next
    case False
    then obtain msg where msg: "Execute env ex (timeout_of j) j r (w_execs w) = Some msg" using fail [OF Some] by auto
    note ex = exact [unfolded Let_def if_not_P [OF False] msg option.case]
    show ?thesis
    proof (cases "r_Attempt r < j_MaxRetries j")
      case True
      obtain w1 rid t d' where p: "process memory_ops env ex r w = ((finished r t StateFailed msg, None), w1)" "?m rid = None"
        "mem_runs (w_store w1) = ?m(r_ID r \<mapsto> finished r t StateFailed msg, rid \<mapsto> retry_run rid r t d')"
        using ex [unfolded if_P [OF True]] by blast
      then have "work memory_ops env ex r w = w1" "(?m(r_ID r \<mapsto> finished r t StateFailed msg)) rid = None"
        using none by (auto simp: work_def)
      then have "succeeded_in (?m(r_ID r \<mapsto> finished r t StateFailed msg)) d b"
        using s p(3) succeeded_add [of "?m(r_ID r \<mapsto> finished r t StateFailed msg)" rid "retry_run rid r t d'"]
        by (simp add: run_state_defs)
      then show ?thesis using upd [of StateFailed] by simp
    next
      case nt: False
      obtain w1 t where "process memory_ops env ex r w = ((finished r t StateDead msg, None), w1)"
        "mem_runs (w_store w1) = ?m(r_ID r \<mapsto> finished r t StateDead msg)"
        using ex [unfolded if_not_P [OF nt]] by blast
      then have "succeeded_in (?m(r_ID r \<mapsto> finished r t StateDead msg)) d b" using s by (simp add: work_def)
      then show ?thesis using upd [of StateDead] by simp
    qed
  qed
qed

lemma work_advanced:
  assumes "mem_world_ok env w" "jobs_named (w_store w)" "mem_runs (w_store w) (r_ID r) = Some r" "r_State r = StateRunning"
    "advanced (mem_jobs (w_store w)) (mem_runs (w_store w))"
  shows "advanced (mem_jobs (w_store w)) (mem_runs (w_store (work memory_ops env ex r w)))"
proof (cases "\<exists>j. mem_jobs (w_store w) (r_JobID r) = Some j \<and> \<not> e_cancelled env (w_execs w) \<and>
    Execute env ex (timeout_of j) j r (w_execs w) = None")
  case False
  have "evolves (mem_runs (w_store w)) (mem_runs (w_store (work memory_ops env ex r w)))"
    by (rule lifecycles_evolve [OF mem_work_spec(3) [OF assms(1,3,4)]])
  moreover have "succeeded_in (mem_runs (w_store w)) d b"
    if "succeeded_in (mem_runs (w_store (work memory_ops env ex r w))) d b" for d b
    by (rule work_failure [OF assms(1,3,4) _ that]) (use False in auto)
  ultimately show ?thesis using assms(5) by (blast intro: advanced_keep in_batch_evolves)
next
  case True
  let ?J = "mem_jobs (w_store w)" and ?m = "mem_runs (w_store w)"
  obtain j where j: "?J (r_JobID r) = Some j" "Execute env ex (timeout_of j) j r (w_execs w) = None" "\<not> e_cancelled env (w_execs w)"
    using True by blast
  obtain ks now t where ks: "set ks = {i \<in> ran ?J. r_JobID r \<in> set (j_DependsOn i)}"
    "r_BatchID r \<noteq> [] \<longrightarrow> dep_chain (r_BatchID r) now ks (?m(r_ID r \<mapsto> finished r t StateSucceeded []))
       (mem_runs (w_store (work memory_ops env ex r w)))"
    "(enqueue ?J)\<^sup>*\<^sup>* (?m(r_ID r \<mapsto> finished r t StateSucceeded [])) (mem_runs (w_store (work memory_ops env ex r w)))"
    by (rule work_success [OF assms(1,3) j(1) assms(2) j(2,3)])
  show ?thesis
  proof (cases "r_BatchID r = []")
    case True
    have "advanced ?J (?m(r_ID r \<mapsto> finished r t StateSucceeded []))"
    proof (rule advanced_keep [OF assms(5)])
      show "succeeded_in ?m d b" if "b \<noteq> []" "succeeded_in (?m(r_ID r \<mapsto> finished r t StateSucceeded [])) d b" for d b
        using succeeded_upd [of ?m "r_ID r" r "finished r t StateSucceeded []" d b] assms(3,4) that True by (auto simp: run_state_defs)
      show "in_batch (?m(r_ID r \<mapsto> finished r t StateSucceeded [])) k b" if "in_batch ?m k b" for k b
        using assms(3,4) that by (auto intro!: in_batch_evolves [of ?m] evolves_upd simp: unfinished_def)
    qed
    then show ?thesis using enqueues_advanced [OF ks(3)] by simp
  next
    case False
    then show ?thesis using success_advanced [OF assms(5,3,4) False _ ks(1)] ks(2) by simp
  qed
qed

text \<open>A property of the store that every worker goroutine keeps is kept by all of them in a row.\<close>

lemma work_all_keeps:
  assumes "\<And>w r. mem_world_ok env w \<Longrightarrow> mem_jobs (w_store w) = J \<Longrightarrow> mem_runs (w_store w) (r_ID r) = Some r \<Longrightarrow>
      r_State r = StateRunning \<Longrightarrow> P w \<Longrightarrow> P (work memory_ops env ex r w)"
  shows "mem_world_ok env w \<Longrightarrow> mem_jobs (w_store w) = J \<Longrightarrow> distinct (map r_ID rs) \<Longrightarrow>
    \<forall>r\<in>set rs. mem_runs (w_store w) (r_ID r) = Some r \<and> r_State r = StateRunning \<Longrightarrow> P w \<Longrightarrow> P (work_all memory_ops env ex rs w)"
proof (induction rs arbitrary: w)
  case (Cons r rs)
  let ?w = "work memory_ops env ex r w"
  have r: "mem_runs (w_store w) (r_ID r) = Some r" "r_State r = StateRunning" using Cons.prems(4) by simp_all
  note wk = mem_work_spec [OF Cons.prems(1) r, where ex = ex]
  have "r_ID r \<notin> r_ID ` set rs" "distinct (map r_ID rs)" using Cons.prems(3) by simp_all
  then have "r_ID q \<noteq> r_ID r" if "q \<in> set rs" for q using imageI [OF that, of r_ID] by metis
  then have "\<forall>q\<in>set rs. mem_runs (w_store ?w) (r_ID q) = Some q \<and> r_State q = StateRunning" using Cons.prems(4) wk(4) by simp
  from Cons.IH [OF wk(1) _ \<open>distinct (map r_ID rs)\<close> this] show ?case
    using assms [OF Cons.prems(1,2) r Cons.prems(5)] wk(2) Cons.prems(2) by simp
qed simp

lemmas mem_claim_batch_spec = mem.claim_batch_spec [unfolded mem_world_ok_eq]
lemmas mem_dispatch_adds = mem.dispatch_adds [unfolded mem_world_ok_eq]
lemmas mem_publishBacklog_spec = mem.publishBacklog_spec [unfolded mem_world_ok_eq]

lemma drain_advanced:
  assumes "mem_world_ok (s_env s) w" "jobs_named (w_store w)" "advanced (mem_jobs (w_store w)) (mem_runs (w_store w))"
  shows "advanced (mem_jobs (w_store w)) (mem_runs (w_store (drain memory_ops s now w)))"
proof -
  let ?J = "mem_jobs (w_store w)"
  obtain res w1 where c: "claim_batch memory_ops s now w = (res, w1)" by fastforce
  note cb = mem_claim_batch_spec [OF assms(1) c]
  have adv: "advanced ?J (mem_runs (w_store w1))" by (rule claims_advanced [OF cb(3) assms(3)])
  show ?thesis
  proof (cases res)
    case (Inl e)
    then show ?thesis using c adv by (simp add: drain_def)
  next
    case (Inr rs)
    have "advanced ?J (mem_runs (w_store (work_all memory_ops (s_env s) (s_exec s) rs w1)))"
    proof (rule work_all_keeps [where J = ?J])
      fix w' r assume "mem_world_ok (s_env s) w'" "mem_jobs (w_store w') = ?J" "mem_runs (w_store w') (r_ID r) = Some r"
        "r_State r = StateRunning" "advanced ?J (mem_runs (w_store w'))"
      then show "advanced ?J (mem_runs (w_store (work memory_ops (s_env s) (s_exec s) r w')))"
        using work_advanced [of "s_env s" w' r "s_exec s"] assms(2) by (simp add: jobs_named_def)
    qed (use cb(1,2) cb(4) [OF Inr] adv in auto)
    then show ?thesis using c Inr adv by (simp add: drain_def)
  qed
qed

lemma step_advanced:
  assumes "mem_world_ok (s_env s) w" "jobs_named (w_store w)" "advanced (mem_jobs (w_store w)) (mem_runs (w_store w))"
    "step memory_ops now s w = Some (s', w')"
  shows "advanced (mem_jobs (w_store w)) (mem_runs (w_store w'))"
proof -
  let ?w = "on_metrics Tick w"
  have ok: "mem_world_ok (s_env s) ?w" using assms(1) by (simp add: mem_world_ok_def)
  obtain res d w1 where d: "dispatch memory_ops (s_env s) now (s_disp s) ?w = Some (res, d, w1)"
    "s' = s\<lparr>s_disp := d\<rparr>" "w' = publishBacklog memory_ops now (drain memory_ops s' now w1)"
    using assms(4) by (auto simp: step_def Let_def split: option.splits)
  note da = mem_dispatch_adds [OF ok d(1)]
  have "advanced (mem_jobs (w_store w)) (mem_runs (w_store w1))" using enqueues_advanced [OF da(3)] assms(3) by simp
  then have "advanced (mem_jobs (w_store w)) (mem_runs (w_store (drain memory_ops s' now w1)))"
    using drain_advanced [of s' w1 now] da(1,2) assms(2) d(2) by (simp add: jobs_named_def)
  moreover have "mem_world_ok (s_env s') (drain memory_ops s' now w1)"
    using mem.drain_spec [unfolded mem_world_ok_eq, of s' w1 now] da(1) d(2) by simp
  ultimately show ?thesis using mem_publishBacklog_spec d(3) by (metis mem.same_data_def)
qed

lemma reaches_advanced:
  assumes "reaches memory_ops s w s' w'" "mem_world_ok (s_env s) w" "jobs_named (w_store w)"
    "advanced (mem_jobs (w_store w)) (mem_runs (w_store w))"
  shows "advanced (mem_jobs (w_store w')) (mem_runs (w_store w'))"
  using assms(1)
proof (induction rule: reaches.induct)
  case (Pass s1 w1 now s2 w2)
  note sp = mem_reaches_spec [OF Pass.hyps(1) assms(2)]
  then have ok: "mem_world_ok (s_env s1) w1" "jobs_named (w_store w1)" using assms(3) by (simp_all add: jobs_named_def)
  from step_advanced [OF ok Pass.IH Pass.hyps(2)] mem_step_spec [OF ok(1) Pass.hyps(2)] show ?case by metis
next
  case (Triggered s1 w1 k res w2)
  note sp = mem_reaches_spec [OF Triggered.hyps(1) assms(2)]
  then have ok: "mem_world_ok (s_env s1) w1" by simp
  from mem.addsD [OF mem.adds_Trigger, unfolded mem_world_ok_eq, OF ok refl Triggered.hyps(2)] Triggered.IH show ?case
    using enqueues_advanced by metis
qed (use assms(4) in simp_all)

section \<open>What is left to do\<close>

text \<open>Batches \<open>B\<close> without failures: every run belongs to one of them and to a stored job, and is unfinished or has
  succeeded.\<close>

definition pipeline :: "(string \<rightharpoonup> Job) \<Rightarrow> string set \<Rightarrow> (string \<rightharpoonup> Run) \<Rightarrow> bool" where
  "pipeline J B m \<longleftrightarrow> finite B \<and> [] \<notin> B \<and> finite (dom J) \<and> finite (dom m) \<and> (\<forall>k j. J k = Some j \<longrightarrow> j_ID j = k) \<and>
     (\<forall>k r. m k = Some r \<longrightarrow> r_ID r = k \<and> r_BatchID r \<in> B \<and> J (r_JobID r) \<noteq> None \<and> (unfinished r \<or> r_State r = StateSucceeded))"

text \<open>The measure: places in batches that a job may still get a run for, which weigh two, and unfinished runs.\<close>

definition places :: "(string \<rightharpoonup> Job) \<Rightarrow> string set \<Rightarrow> (string \<rightharpoonup> Run) \<Rightarrow> (string \<times> string) set" where
  "places J B m = {(k, b) \<in> dom J \<times> B. \<not> in_batch m k b}"

definition busy :: "(string \<rightharpoonup> Run) \<Rightarrow> string set" where
  "busy m = {k. \<exists>r. m k = Some r \<and> unfinished r}"

definition work_left :: "(string \<rightharpoonup> Job) \<Rightarrow> string set \<Rightarrow> (string \<rightharpoonup> Run) \<Rightarrow> nat" where
  "work_left J B m = 2 * card (places J B m) + card (busy m)"

lemma pipeline_finite: "pipeline J B m \<Longrightarrow> finite (places J B m) \<and> finite (busy m)"
  by (auto simp: pipeline_def places_def busy_def dom_def intro: finite_subset [of _ "dom J \<times> B"] finite_subset [of _ "dom m"])

lemma pipelineD:
  assumes "pipeline J B m" "m k = Some r"
  shows "r_ID r = k" "r_BatchID r \<in> B" "J (r_JobID r) \<noteq> None" "unfinished r \<or> r_State r = StateSucceeded"
  using assms unfolding pipeline_def by blast+

lemma pipeline_upd:
  assumes "pipeline J B m" "r_ID r = k" "r_BatchID r \<in> B" "J (r_JobID r) \<noteq> None" "unfinished r \<or> r_State r = StateSucceeded"
  shows "pipeline J B (m(k \<mapsto> r))"
  using assms by (auto simp: pipeline_def)

lemma places_mono: "(\<And>k b. in_batch m k b \<Longrightarrow> in_batch m' k b) \<Longrightarrow> places J B m' \<subseteq> places J B m"
  by (auto simp: places_def)

text \<open>Claiming changes nothing; a success lowers the measure; a dependent costs no more than its place.\<close>

lemma same_identity_left:
  assumes "pipeline J B m" "m k = Some r" "identity r' = identity r" "unfinished r" "unfinished r'"
  shows "pipeline J B (m(k \<mapsto> r')) \<and> work_left J B (m(k \<mapsto> r')) = work_left J B m"
proof -
  have i: "r_ID r' = r_ID r" "r_JobID r' = r_JobID r" "r_BatchID r' = r_BatchID r" using assms(3) by (simp_all add: identity_def)
  have "pipeline J B (m(k \<mapsto> r'))" using assms(5) i pipelineD [OF assms(1,2)] by (intro pipeline_upd [OF assms(1)]) simp_all
  moreover have "evolves m (m(k \<mapsto> r'))" using assms(2-4) by (simp add: evolves_upd)
  moreover have "evolves (m(k \<mapsto> r')) ((m(k \<mapsto> r'))(k \<mapsto> r))" using assms(3,5) by (intro evolves_upd [where r = r']) simp_all
  then have "evolves (m(k \<mapsto> r')) m" using assms(2) by (simp add: fun_upd_idem)
  ultimately have "in_batch (m(k \<mapsto> r')) a b = in_batch m a b" for a b using in_batch_evolves by blast
  then have "places J B (m(k \<mapsto> r')) = places J B m" by (simp add: places_def)
  moreover have "busy (m(k \<mapsto> r')) = busy m" using assms(2,4,5) by (auto simp: busy_def)
  ultimately show ?thesis using \<open>pipeline J B (m(k \<mapsto> r'))\<close> by (simp add: work_left_def)
qed

lemma claims_left:
  "(lifecycle Map.empty)\<^sup>*\<^sup>* m m' \<Longrightarrow> pipeline J B m \<Longrightarrow> pipeline J B m' \<and> work_left J B m' = work_left J B m"
proof (induction rule: rtranclp_induct)
  case (step y z)
  from step(2) show ?case
  proof (rule claims_only)
    fix r now w l assume r: "y (r_ID r) = Some r" "claimable now r" "z = y(r_ID r \<mapsto> claim_run now w l r)"
    have "unfinished r" "unfinished (claim_run now w l r)" using claimable_unfinished [OF r(2)] by (simp_all add: unfinished_def)
    then show ?thesis using same_identity_left [of J B y "r_ID r" r "claim_run now w l r"] r(1,3) step by (simp del: fun_upd_apply)
  qed (use step in simp)
qed simp

lemma success_left:
  assumes "pipeline J B m" "m (r_ID r) = Some r" "unfinished r"
  shows "pipeline J B (m(r_ID r \<mapsto> finished r t StateSucceeded []))"
    "work_left J B (m(r_ID r \<mapsto> finished r t StateSucceeded [])) < work_left J B m"
proof -
  let ?m = "m(r_ID r \<mapsto> finished r t StateSucceeded [])"
  show "pipeline J B ?m" using pipelineD [OF assms(1,2)] by (intro pipeline_upd [OF assms(1)]) simp_all
  have "evolves m ?m" using assms(2,3) by (simp add: evolves_upd)
  then have "in_batch ?m a b" if "in_batch m a b" for a b using that by (rule in_batch_evolves)
  then have "card (places J B ?m) \<le> card (places J B m)"
    using pipeline_finite [OF assms(1)] by (intro card_mono places_mono) auto
  moreover have "busy ?m = busy m - {r_ID r}" by (auto simp: busy_def unfinished_def run_state_defs)
  moreover have "r_ID r \<in> busy m" using assms(2,3) by (simp add: busy_def)
  ultimately show "work_left J B ?m < work_left J B m"
    using pipeline_finite [OF assms(1)] card_Diff1_less [of "busy m" "r_ID r"] by (simp add: work_left_def)
qed

lemma dep_step_left:
  assumes "pipeline J B m" "dep_step b now j m m'" "b \<in> B" "J (j_ID j) = Some j"
  shows "pipeline J B m' \<and> work_left J B m' \<le> work_left J B m"
  using assms(2)
proof (rule dep_step_cases)
  fix rid assume rid: "m rid = None" "m' = m(rid \<mapsto> dependent_run rid b j now)" "\<not> in_batch m (j_ID j) b"
  have pipe: "pipeline J B m'" using assms rid(2) by (auto intro!: pipeline_upd simp: unfinished_def)
  have "in_batch m' x y \<longleftrightarrow> in_batch m x y \<or> x = j_ID j \<and> y = b" for x y
    using rid(1,2) by (auto simp: in_batch_def ran_fresh)
  then have "places J B m' = places J B m - {(j_ID j, b)}" by (auto simp: places_def)
  moreover have "(j_ID j, b) \<in> places J B m" using rid(3) assms(3,4) by (auto simp: places_def)
  moreover have "busy m' = insert rid (busy m)" using rid(1,2) by (auto simp: busy_def unfinished_def)
  ultimately show ?thesis
    using pipeline_finite [OF assms(1)] pipe card_Diff1_less [of "places J B m" "(j_ID j, b)"] card_insert_le_m1 [of "Suc (card (busy m))" "busy m" rid]
    by (auto simp: work_left_def card_insert_if)
qed (use assms in simp)

lemma dep_chain_left:
  "dep_chain b now js m m' \<Longrightarrow> pipeline J B m \<Longrightarrow> b \<in> B \<Longrightarrow> \<forall>j\<in>set js. J (j_ID j) = Some j \<Longrightarrow>
     pipeline J B m' \<and> work_left J B m' \<le> work_left J B m"
proof (induction rule: dep_chain.induct)
  case (2 j m m1 js m')
  then show ?case using dep_step_left [OF 2(4,1)] by fastforce
qed simp

section \<open>One pass\<close>

text \<open>The setting of the progress theorem: executions succeed, and no job fires by itself.\<close>

definition all_succeed :: "env \<Rightarrow> Executor \<Rightarrow> bool" where
  "all_succeed env ex \<longleftrightarrow> (\<forall>timeout j r n. Execute env ex timeout j r n = None) \<and> (\<forall>n. \<not> e_cancelled env n)"

definition quiet :: "MemStore \<Rightarrow> bool" where
  "quiet s \<longleftrightarrow> jobs_named s \<and> (\<forall>j\<in>ran (mem_jobs s). \<not> j_Enabled j \<or> j_Spec j = [])"

lemma job_keys: "pipeline J B m \<Longrightarrow> j \<in> ran J \<Longrightarrow> J (j_ID j) = Some j"
  by (auto simp: pipeline_def ran_def)

lemma work_left_less:
  assumes ok: "mem_world_ok env w" "quiet (w_store w)" "all_succeed env ex"
    and r: "mem_runs (w_store w) (r_ID r) = Some r" "r_State r = StateRunning" and p: "pipeline (mem_jobs (w_store w)) B (mem_runs (w_store w))"
  shows "pipeline (mem_jobs (w_store w)) B (mem_runs (w_store (work memory_ops env ex r w)))"
    "work_left (mem_jobs (w_store w)) B (mem_runs (w_store (work memory_ops env ex r w))) <
     work_left (mem_jobs (w_store w)) B (mem_runs (w_store w))"
    "\<exists>r'. mem_runs (w_store (work memory_ops env ex r w)) (r_ID r) = Some r' \<and> r_State r' = StateSucceeded"
proof -
  let ?J = "mem_jobs (w_store w)" and ?m = "mem_runs (w_store w)" and ?m' = "mem_runs (w_store (work memory_ops env ex r w))"
  note rp = pipelineD [OF p r(1)]
  obtain j where j: "?J (r_JobID r) = Some j" using rp(3) by blast
  have ex: "Execute env ex (timeout_of j) j r (w_execs w) = None" "\<not> e_cancelled env (w_execs w)" "jobs_named (w_store w)"
    using ok(2,3) by (simp_all add: all_succeed_def quiet_def)
  obtain ks now t where ks: "set ks = {i \<in> ran ?J. r_JobID r \<in> set (j_DependsOn i)}"
    "r_BatchID r \<noteq> [] \<longrightarrow> dep_chain (r_BatchID r) now ks (?m(r_ID r \<mapsto> finished r t StateSucceeded [])) ?m'"
    "(enqueue ?J)\<^sup>*\<^sup>* (?m(r_ID r \<mapsto> finished r t StateSucceeded [])) ?m'"
    by (rule work_success [OF ok(1) r(1) j ex(3,1,2)])
  have "r_BatchID r \<noteq> []" using rp(2) p by (auto simp: pipeline_def)
  then have chain: "dep_chain (r_BatchID r) now ks (?m(r_ID r \<mapsto> finished r t StateSucceeded [])) ?m'" using ks(2) by blast
  have "unfinished r" using r(2) by (simp add: unfinished_def)
  note s = success_left [OF p r(1) this, of t]
  have "pipeline ?J B ?m' \<and> work_left ?J B ?m' \<le> work_left ?J B (?m(r_ID r \<mapsto> finished r t StateSucceeded []))"
    by (rule dep_chain_left [OF chain s(1) rp(2)]) (use ks(1) job_keys [OF p] in auto)
  then show "pipeline ?J B ?m'" "work_left ?J B ?m' < work_left ?J B ?m" using s(2) by linarith+
  have "?m(r_ID r \<mapsto> finished r t StateSucceeded []) \<subseteq>\<^sub>m ?m'" by (rule enqueues_le [OF ks(3)])
  then have "?m' (r_ID r) = Some (finished r t StateSucceeded [])" by (rule map_le_Some) simp
  then show "\<exists>r'. ?m' (r_ID r) = Some r' \<and> r_State r' = StateSucceeded" by simp
qed

text \<open>A pass leaves every run alone or makes it succeed, and makes progress when there is something to claim.\<close>

definition progress :: "(string \<rightharpoonup> Job) \<Rightarrow> string set \<Rightarrow> (string \<rightharpoonup> Run) \<Rightarrow> (string \<rightharpoonup> Run) \<Rightarrow> bool" where
  "progress J B m m' \<longleftrightarrow> pipeline J B m' \<and> work_left J B m' \<le> work_left J B m \<and>
     (\<forall>k r. m k = Some r \<longrightarrow> m' k = Some r \<or> (\<exists>r'. m' k = Some r' \<and> r_State r' = StateSucceeded))"

lemma work_all_progress:
  "mem_world_ok env w \<Longrightarrow> quiet (w_store w) \<Longrightarrow> all_succeed env ex \<Longrightarrow> pipeline (mem_jobs (w_store w)) B (mem_runs (w_store w)) \<Longrightarrow>
   distinct (map r_ID rs) \<Longrightarrow> \<forall>r\<in>set rs. mem_runs (w_store w) (r_ID r) = Some r \<and> r_State r = StateRunning \<Longrightarrow>
     progress (mem_jobs (w_store w)) B (mem_runs (w_store w)) (mem_runs (w_store (work_all memory_ops env ex rs w))) \<and>
     (rs \<noteq> [] \<longrightarrow> work_left (mem_jobs (w_store w)) B (mem_runs (w_store (work_all memory_ops env ex rs w))) <
        work_left (mem_jobs (w_store w)) B (mem_runs (w_store w))) \<and>
     (\<forall>r\<in>set rs. \<exists>r'. mem_runs (w_store (work_all memory_ops env ex rs w)) (r_ID r) = Some r' \<and> r_State r' = StateSucceeded) \<and>
     (\<forall>k q. mem_runs (w_store w) k = Some q \<and> k \<notin> r_ID ` set rs \<longrightarrow> mem_runs (w_store (work_all memory_ops env ex rs w)) k = Some q)"
proof (induction rs arbitrary: w)
  case (Cons r rs)
  let ?w = "work memory_ops env ex r w" and ?J = "mem_jobs (w_store w)"
  have r: "mem_runs (w_store w) (r_ID r) = Some r" "r_State r = StateRunning" using Cons.prems(6) by simp_all
  note wk = mem_work_spec [OF Cons.prems(1) r, where ex = ex] and less = work_left_less [OF Cons.prems(1-3) r Cons.prems(4)]
  have d: "r_ID r \<notin> r_ID ` set rs" "distinct (map r_ID rs)" using Cons.prems(5) by simp_all
  then have "r_ID q \<noteq> r_ID r" if "q \<in> set rs" for q using imageI [OF that, of r_ID] by metis
  then have own: "\<forall>q\<in>set rs. mem_runs (w_store ?w) (r_ID q) = Some q \<and> r_State q = StateRunning" using Cons.prems(6) wk(4) by simp
  have quiet: "quiet (w_store ?w)" using Cons.prems(2) wk(2) by (simp add: quiet_def jobs_named_def)
  have pipe: "pipeline (mem_jobs (w_store ?w)) B (mem_runs (w_store ?w))" using less(1) wk(2) by simp
  obtain r' where r': "mem_runs (w_store ?w) (r_ID r) = Some r'" "r_State r' = StateSucceeded" using less(3) by blast
  note IH = Cons.IH [OF wk(1) quiet Cons.prems(3) pipe d(2) own, unfolded wk(2)]
  let ?m = "mem_runs (w_store w)" and ?m' = "mem_runs (w_store (work_all memory_ops env ex rs ?w))"
  have "?m' (r_ID r) = Some r'" using IH r'(1) d(1) by blast
  then have fin: "\<forall>q\<in>set (r # rs). \<exists>r'. ?m' (r_ID q) = Some r' \<and> r_State r' = StateSucceeded" using IH r'(2) by auto
  moreover have rest: "\<forall>k q. ?m k = Some q \<and> k \<notin> r_ID ` set (r # rs) \<longrightarrow> ?m' k = Some q" using IH wk(4) by simp
  moreover have "pipeline ?J B ?m'" "work_left ?J B ?m' < work_left ?J B ?m" using IH less(2) by (auto simp: progress_def)
  moreover have "?m' k = Some q \<or> (\<exists>r'. ?m' k = Some r' \<and> r_State r' = StateSucceeded)" if "?m k = Some q" for k q
    using rest fin that by (cases "k \<in> r_ID ` set (r # rs)") auto
  ultimately show ?case by (simp add: progress_def)
qed (simp add: progress_def)

lemma claim_batch_progress:
  assumes "mem_world_ok (s_env s) w"
  obtains rs w1 where "claim_batch memory_ops s now w = (Inr rs, w1)"
    "\<And>k. k \<notin> r_ID ` set rs \<Longrightarrow> mem_runs (w_store w1) k = mem_runs (w_store w) k"
    "\<And>k r. mem_runs (w_store w) k = Some r \<Longrightarrow> claimable now r \<Longrightarrow> rs \<noteq> []"
proof -
  let ?wid = "e_newID (s_env s) (w_ids w)" and ?n = "drain_limit (s_workers s)"
  have inv: "mem_inv (w_store w)" using assms by (simp add: mem_world_ok_def)
  obtain rs s1 where c: "st_ClaimDue memory_ops now ?wid (s_lease s) ?n (w_store w) = (Inr rs, s1)"
    using mem.ClaimDue_ok [OF inv] by (metis prod.collapse)
  obtain xs where xs: "listing due_before (claimable now) (mem_runs (w_store w)) xs"
    "rs = map (claim_run now ?wid (s_lease s)) (claim_limit ?n xs)" "mem_runs s1 = overwrite_runs (mem_runs (w_store w)) rs"
    using mem.ClaimDue_law [OF inv c] by auto
  show thesis
  proof (rule that)
    show "claim_batch memory_ops s now w = (Inr rs, w\<lparr>w_ids := w_ids w + 1, w_store := s1\<rparr>)"
      using c by (simp add: claim_batch_def bind_act_def newID_def call_def)
    show "mem_runs (w_store (w\<lparr>w_ids := w_ids w + 1, w_store := s1\<rparr>)) k = mem_runs (w_store w) k" if "k \<notin> r_ID ` set rs" for k
      using that by (simp add: xs(3) overwrite_runs_other)
    show "rs \<noteq> []" if k: "mem_runs (w_store w) k = Some r" "claimable now r" for k r
    proof -
      have "r \<in> set xs" using xs(1) k by (auto simp: listing_def intro: ranI)
      then show ?thesis using xs(2) by (auto simp: claim_limit_def)
    qed
  qed
qed

lemma drain_progress:
  assumes ok: "mem_world_ok (s_env s) w" "quiet (w_store w)" "all_succeed (s_env s) (s_exec s)"
    and p: "pipeline (mem_jobs (w_store w)) B (mem_runs (w_store w))"
  shows "progress (mem_jobs (w_store w)) B (mem_runs (w_store w)) (mem_runs (w_store (drain memory_ops s now w)))"
    "mem_runs (w_store w) k = Some r \<Longrightarrow> claimable now r \<Longrightarrow>
       work_left (mem_jobs (w_store w)) B (mem_runs (w_store (drain memory_ops s now w))) <
       work_left (mem_jobs (w_store w)) B (mem_runs (w_store w))"
proof -
  let ?J = "mem_jobs (w_store w)" and ?m = "mem_runs (w_store w)" and ?m' = "mem_runs (w_store (drain memory_ops s now w))"
  obtain rs w1 where c: "claim_batch memory_ops s now w = (Inr rs, w1)"
    and other: "\<And>k. k \<notin> r_ID ` set rs \<Longrightarrow> mem_runs (w_store w1) k = ?m k"
    and some: "\<And>k r. ?m k = Some r \<Longrightarrow> claimable now r \<Longrightarrow> rs \<noteq> []"
    using claim_batch_progress [OF ok(1)] by metis
  note cb = mem_claim_batch_spec [OF ok(1) c]
  have rs: "distinct (map r_ID rs)" "\<forall>r\<in>set rs. mem_runs (w_store w1) (r_ID r) = Some r \<and> r_State r = StateRunning"
    using cb(4) by simp_all
  have left: "pipeline ?J B (mem_runs (w_store w1))" "work_left ?J B (mem_runs (w_store w1)) = work_left ?J B ?m"
    using claims_left [OF cb(3) p] by simp_all
  have "quiet (w_store w1)" using ok(2) cb(2) by (simp add: quiet_def jobs_named_def)
  note wa = work_all_progress [OF cb(1) this ok(3) left(1) [folded cb(2)] rs, unfolded cb(2)]
  have drain: "drain memory_ops s now w = (if rs = [] then w1 else work_all memory_ops (s_env s) (s_exec s) rs w1)"
    using c by (simp add: drain_def)
  then have dm: "?m' = mem_runs (w_store (work_all memory_ops (s_env s) (s_exec s) rs w1))" by simp
  show "progress ?J B ?m ?m'"
    unfolding progress_def
  proof (intro conjI allI impI)
    show "pipeline ?J B ?m'" "work_left ?J B ?m' \<le> work_left ?J B ?m" using wa left(2) by (simp_all add: dm progress_def)
    show "?m' k = Some r \<or> (\<exists>r'. ?m' k = Some r' \<and> r_State r' = StateSucceeded)" if "?m k = Some r" for k r
    proof (cases "k \<in> r_ID ` set rs")
      case True
      then show ?thesis using wa by (auto simp: dm)
    next
      case False
      then have "mem_runs (w_store w1) k = Some r" using other that by simp
      then show ?thesis using wa False unfolding dm by blast
    qed
  qed
  show "work_left ?J B ?m' < work_left ?J B ?m" if "?m k = Some r" "claimable now r"
    using wa some [OF that] left(2) by (simp add: dm)
qed

lemma dispatch_quiet:
  assumes "mem_world_ok env w" "quiet (w_store w)"
  shows "dispatch memory_ops env now d w = Some ((0, None), d, w)"
proof -
  have none: "\<forall>j\<in>set js. \<not> j_Enabled j \<or> j_Spec j = [] \<Longrightarrow> dispatch_jobs memory_ops env now js 0 d w = Some ((0, None), d, w)" for js
    by (induction js) auto
  obtain js w1 where c: "call (st_ListJobs memory_ops) w = (Inr js, w1)"
    using mem.call_ListJobs_ok [unfolded mem_world_ok_eq, OF assms(1)] by blast
  have "set js = ran (mem_jobs (w_store w))" by (rule mem.call_ListJobs(3) [unfolded mem_world_ok_eq, OF assms(1) c]) simp
  then have "dispatch_jobs memory_ops env now js 0 d w = Some ((0, None), d, w)" using assms(2) none by (simp add: quiet_def)
  moreover have "w1 = w" using c by (auto simp: call_def memory_ops_def ListJobs_def)
  ultimately show ?thesis using c by (simp add: dispatch_def)
qed

section \<open>The clock\<close>

text \<open>The readings of a worker goroutine.\<close>

lemma process_clock: "process ops env ex r w = (res, w') \<Longrightarrow> w_clock w \<le> w_clock w'"
  by (erule process_cases) (auto dest!: clock.call_frame clock.finish_ok_frame clock.finish_failed_frame)

lemma work_clock: "w_clock w \<le> w_clock (work ops env ex r w)"
proof -
  obtain res err w1 where p: "process ops env ex r w = ((res, err), w1)" by (metis surj_pair)
  then show ?thesis using process_clock [OF p] clock.frames_enqueue [of ops env res "e_now env (w_clock w1)"]
    by (auto simp: work_def read_clock_def frames_def split: option.split)
qed

lemma work_all_clock: "w_clock w \<le> w_clock (work_all ops env ex rs w)"
  by (induction rs arbitrary: w) (auto intro: le_trans work_clock)

lemma drain_clock: "w_clock w \<le> w_clock (drain ops s now w)"
proof -
  obtain res w1 where c: "claim_batch ops s now w = (res, w1)" by fastforce
  then have "w_clock w1 = w_clock w" by (rule clock.claim_frame)
  then show ?thesis using c work_all_clock [of w1 ops "s_env s" "s_exec s"] by (auto simp: drain_def split: sum.split)
qed

section \<open>The loop of Run\<close>

definition flowing :: "Scheduler \<Rightarrow> string set \<Rightarrow> MemStore world \<Rightarrow> bool" where
  "flowing s B w \<longleftrightarrow> mem_world_ok (s_env s) w \<and> quiet (w_store w) \<and> all_succeed (s_env s) (s_exec s) \<and>
     pipeline (mem_jobs (w_store w)) B (mem_runs (w_store w)) \<and> advanced (mem_jobs (w_store w)) (mem_runs (w_store w))"

definition tick :: "Scheduler \<Rightarrow> MemStore world \<Rightarrow> MemStore world" where
  "tick s w = (let now = e_now (s_env s) (w_clock w)
     in publishBacklog memory_ops now (drain memory_ops s now (on_metrics Tick (w\<lparr>w_clock := w_clock w + 1\<rparr>))))"

lemma tick_step:
  assumes "flowing s B w"
  shows "Run_loop memory_ops (TickerC # evs) s w = Run_loop memory_ops evs s (tick s w)"
proof -
  let ?w = "on_metrics Tick (w\<lparr>w_clock := w_clock w + 1\<rparr>)"
  have "mem_world_ok (s_env s) ?w" "quiet (w_store ?w)" using assms by (simp_all add: flowing_def mem_world_ok_def)
  then have "dispatch memory_ops (s_env s) now (s_disp s) ?w = Some ((0, None), s_disp s, ?w)" for now by (rule dispatch_quiet)
  then show ?thesis by (simp add: read_clock_def step_def tick_def Let_def)
qed

lemma tick_progress:
  assumes "flowing s B w"
  shows "flowing s B (tick s w)" "w_clock w < w_clock (tick s w)" "mem_jobs (w_store (tick s w)) = mem_jobs (w_store w)"
    "progress (mem_jobs (w_store w)) B (mem_runs (w_store w)) (mem_runs (w_store (tick s w)))"
    "evolves (mem_runs (w_store w)) (mem_runs (w_store (tick s w)))"
    "mem_runs (w_store w) k = Some r \<Longrightarrow> claimable (e_now (s_env s) (w_clock w)) r \<Longrightarrow>
       work_left (mem_jobs (w_store w)) B (mem_runs (w_store (tick s w))) < work_left (mem_jobs (w_store w)) B (mem_runs (w_store w))"
proof -
  define now where "now = e_now (s_env s) (w_clock w)"
  define w1 where "w1 = on_metrics Tick (w\<lparr>w_clock := w_clock w + 1\<rparr>)"
  define w2 where "w2 = drain memory_ops s now w1"
  have w1: "mem_world_ok (s_env s) w1" "w_store w1 = w_store w" "w_clock w1 = w_clock w + 1"
    using assms by (simp_all add: w1_def flowing_def mem_world_ok_def)
  have f: "quiet (w_store w1)" "all_succeed (s_env s) (s_exec s)" "pipeline (mem_jobs (w_store w1)) B (mem_runs (w_store w1))"
    "advanced (mem_jobs (w_store w1)) (mem_runs (w_store w1))" "jobs_named (w_store w1)"
    using assms w1(2) by (simp_all add: flowing_def quiet_def)
  have tick: "tick s w = publishBacklog memory_ops now w2" by (simp add: tick_def w2_def w1_def now_def Let_def)
  have d: "mem_world_ok (s_env s) w2" "mem_jobs (w_store w2) = mem_jobs (w_store w)"
    "(lifecycle (mem_jobs (w_store w)))\<^sup>*\<^sup>* (mem_runs (w_store w)) (mem_runs (w_store w2))"
    using mem.drain_spec [unfolded mem_world_ok_eq, OF w1(1), of now] by (simp_all add: w2_def w1(2))
  have pb: "mem_world_ok (s_env s) (tick s w)" "mem_runs (w_store (tick s w)) = mem_runs (w_store w2)"
    "mem_jobs (w_store (tick s w)) = mem_jobs (w_store w2)"
    using mem_publishBacklog_spec [OF d(1), of now] by (simp_all add: tick mem.same_data_def)
  note dp = drain_progress [OF w1(1) f(1-3), where now = now, folded w2_def, unfolded w1(2)]
  show jobs: "mem_jobs (w_store (tick s w)) = mem_jobs (w_store w)" using pb(3) d(2) by simp
  show prog: "progress (mem_jobs (w_store w)) B (mem_runs (w_store w)) (mem_runs (w_store (tick s w)))" using dp(1) by (simp add: pb(2))
  show "evolves (mem_runs (w_store w)) (mem_runs (w_store (tick s w)))" using lifecycles_evolve [OF d(3)] by (simp add: pb(2))
  show "w_clock w < w_clock (tick s w)" using drain_clock [of w1 memory_ops s now] w1(3) by (simp add: tick clock.frames_publish w2_def)
  show "work_left (mem_jobs (w_store w)) B (mem_runs (w_store (tick s w))) < work_left (mem_jobs (w_store w)) B (mem_runs (w_store w))"
    if "mem_runs (w_store w) k = Some r" "claimable (e_now (s_env s) (w_clock w)) r"
    using dp(2) [of k r] that by (simp add: pb(2) now_def)
  have "advanced (mem_jobs (w_store w)) (mem_runs (w_store w2))"
    using drain_advanced [OF w1(1) f(5,4), of now] by (simp add: w2_def w1(2))
  then show "flowing s B (tick s w)"
    using assms pb(1,2) jobs prog by (simp add: flowing_def quiet_def jobs_named_def progress_def)
qed

definition after :: "nat \<Rightarrow> Scheduler \<Rightarrow> MemStore world \<Rightarrow> MemStore world" where
  "after n s w = ((tick s) ^^ n) w"

lemma after_add: "after (a + b) s w = after a s (after b s w)"
  by (simp add: after_def funpow_add)

lemma after_Suc: "after (Suc n) s w = tick s (after n s w)"
  by (simp add: after_def)

lemma progress_trans:
  assumes "progress J B m1 m2" "progress J B m2 m3"
  shows "progress J B m1 m3"
proof -
  have "m3 k = Some r \<or> (\<exists>r'. m3 k = Some r' \<and> r_State r' = StateSucceeded)" if "m1 k = Some r" for k r
    using assms that unfolding progress_def by metis
  then show ?thesis using assms by (simp add: progress_def)
qed

lemma after_progress:
  assumes "flowing s B w"
  shows "flowing s B (after n s w) \<and> w_clock w + n \<le> w_clock (after n s w) \<and> mem_jobs (w_store (after n s w)) = mem_jobs (w_store w) \<and>
    progress (mem_jobs (w_store w)) B (mem_runs (w_store w)) (mem_runs (w_store (after n s w))) \<and>
    evolves (mem_runs (w_store w)) (mem_runs (w_store (after n s w)))"
proof (induction n)
  case 0
  then show ?case using assms by (auto simp: after_def progress_def flowing_def)
next
  case (Suc n)
  then have f: "flowing s B (after n s w)" by blast
  note t = tick_progress [OF f]
  show ?case using Suc t(1-5) by (auto simp: after_Suc intro: progress_trans evolves_trans)
qed

lemma Run_loop_after:
  "flowing s B w \<Longrightarrow> Run_loop memory_ops (replicate n TickerC) s w = Waiting s (after n s w)"
proof (induction n arbitrary: w)
  case (Suc n)
  have "after n s (tick s w) = after (Suc n) s w" by (simp add: after_def funpow_swap1)
  then show ?case using Suc.IH [OF tick_progress(1) [OF Suc.prems]] tick_step [OF Suc.prems] by simp
qed (simp add: after_def)

section \<open>Everything downstream is executed\<close>

text \<open>The clock passes every instant for good.\<close>

definition clock_advances :: "env \<Rightarrow> bool" where
  "clock_advances env \<longleftrightarrow> (\<forall>t. \<exists>c. \<forall>i\<ge>c. t < e_now env i)"

lemma stays_succeeded: "evolves m m' \<Longrightarrow> succeeded_in m k b \<Longrightarrow> succeeded_in m' k b"
  by (fastforce simp: evolves_def succeeded_in_def identity_def unfinished_def run_state_defs ran_def)

lemma run_completes:
  assumes "clock_advances (s_env s)"
  shows "flowing s B w \<Longrightarrow> mem_runs (w_store w) k = Some r \<Longrightarrow>
    \<exists>n r'. mem_runs (w_store (after n s w)) k = Some r' \<and> r_State r' = StateSucceeded"
proof (induction "work_left (mem_jobs (w_store w)) B (mem_runs (w_store w))" arbitrary: w r rule: less_induct)
  case less
  obtain c where c: "\<forall>i\<ge>c. max (r_ScheduledFor r) (r_LeaseExpiry r) < e_now (s_env s) i"
    using assms unfolding clock_advances_def by blast
  define w1 where "w1 = after c s w"
  have w1: "flowing s B w1" "c \<le> w_clock w1" "mem_jobs (w_store w1) = mem_jobs (w_store w)"
    "progress (mem_jobs (w_store w)) B (mem_runs (w_store w)) (mem_runs (w_store w1))"
    using after_progress [OF less.prems(1), of c] by (simp_all add: w1_def)
  consider r' where "mem_runs (w_store w1) k = Some r'" "r_State r' = StateSucceeded"
    | "mem_runs (w_store w1) k = Some r" "r_State r \<noteq> StateSucceeded"
    using w1(4) less.prems(2) unfolding progress_def by blast
  then show ?case
  proof cases
    case 1
    then show ?thesis by (auto simp: w1_def)
  next
    case 2
    have "pipeline (mem_jobs (w_store w1)) B (mem_runs (w_store w1))" using w1(1) by (simp add: flowing_def)
    from pipelineD(4) [OF this 2(1)] have "unfinished r" using 2(2) by simp
    moreover have "max (r_ScheduledFor r) (r_LeaseExpiry r) < e_now (s_env s) (w_clock w1)" using c w1(2) by blast
    ultimately have "claimable (e_now (s_env s) (w_clock w1)) r" by (auto simp: unfinished_def claimable_def)
    note t = tick_progress [OF w1(1)] and lt = tick_progress(6) [OF w1(1) 2(1) this]
    have "\<exists>r2. mem_runs (w_store (tick s w1)) k = Some r2" using t(4) 2(1) unfolding progress_def by blast
    then obtain r2 where r2: "mem_runs (w_store (tick s w1)) k = Some r2" by blast
    have "work_left (mem_jobs (w_store (tick s w1))) B (mem_runs (w_store (tick s w1))) <
        work_left (mem_jobs (w_store w)) B (mem_runs (w_store w))"
      using lt w1(3,4) t(3) by (simp add: progress_def)
    from less.hyps [OF this t(1) r2] obtain n r' where "mem_runs (w_store (after n s (tick s w1))) k = Some r'" "r_State r' = StateSucceeded"
      by blast
    moreover have "after n s (tick s w1) = after (n + Suc c) s w" unfolding w1_def after_Suc [symmetric] after_add ..
    ultimately show ?thesis by metis
  qed
qed

lemma batch_completes:
  assumes "clock_advances (s_env s)" "flowing s B w" "in_batch (mem_runs (w_store w)) k b"
  shows "\<exists>n. \<forall>i\<ge>n. succeeded_in (mem_runs (w_store (after i s w))) k b"
proof -
  obtain key r where r: "mem_runs (w_store w) key = Some r" "r_JobID r = k" "r_BatchID r = b"
    using assms(3) by (auto simp: in_batch_def ran_def)
  from run_completes [OF assms(1,2) r(1)] obtain n r' where
    n: "mem_runs (w_store (after n s w)) key = Some r'" "r_State r' = StateSucceeded" by blast
  have "evolves (mem_runs (w_store w)) (mem_runs (w_store (after n s w)))" using after_progress [OF assms(2)] by blast
  then have "identity r' = identity r" using n(1) r(1) unfolding evolves_def by fastforce
  then have now: "succeeded_in (mem_runs (w_store (after n s w))) k b"
    using n r(2,3) by (auto simp: succeeded_in_def identity_def intro: ranI)
  have "succeeded_in (mem_runs (w_store (after i s w))) k b" if "n \<le> i" for i
  proof -
    have "flowing s B (after n s w)" using after_progress [OF assms(2)] by blast
    from after_progress [OF this, of "i - n"] have "evolves (mem_runs (w_store (after n s w))) (mem_runs (w_store (after i s w)))"
      using that by (simp add: after_add [symmetric])
    then show ?thesis using now by (rule stays_succeeded)
  qed
  then show ?thesis by blast
qed

text \<open>What a batch comes to contain: the jobs it has runs of, and every job all of whose dependencies it comes to contain.\<close>

inductive downstream :: "(string \<rightharpoonup> Job) \<Rightarrow> (string \<rightharpoonup> Run) \<Rightarrow> string \<Rightarrow> string \<Rightarrow> bool" for J m b where
  Present: "in_batch m k b \<Longrightarrow> downstream J m b k"
| Dependent: "J k = Some j \<Longrightarrow> j_DependsOn j \<noteq> [] \<Longrightarrow> \<forall>d\<in>set (j_DependsOn j). downstream J m b d \<Longrightarrow> downstream J m b k"

lemma all_eventually:
  fixes P :: "nat \<Rightarrow> 'a \<Rightarrow> bool"
  assumes "\<forall>d\<in>set ds. \<exists>n. \<forall>i\<ge>n. P i d"
  shows "\<exists>n. \<forall>i\<ge>n. \<forall>d\<in>set ds. P i d"
proof -
  obtain f where f: "\<forall>d\<in>set ds. \<forall>i\<ge>f d. P i d" using assms by metis
  have "f d \<le> Max (f ` set ds)" if "d \<in> set ds" for d using that by (intro Max_ge) auto
  then have "\<forall>d\<in>set ds. P i d" if "Max (f ` set ds) \<le> i" for i using f that le_trans by blast
  then show ?thesis by blast
qed

lemma downstream_completes:
  assumes "clock_advances (s_env s)" "flowing s B w" "b \<noteq> []" "downstream (mem_jobs (w_store w)) (mem_runs (w_store w)) b k"
  shows "\<exists>n. \<forall>i\<ge>n. succeeded_in (mem_runs (w_store (after i s w))) k b"
  using assms(4)
proof (induction rule: downstream.induct)
  case (Present k)
  then show ?case by (rule batch_completes [OF assms(1,2)])
next
  case (Dependent k j)
  let ?J = "mem_jobs (w_store w)"
  have "\<forall>d\<in>set (j_DependsOn j). \<exists>n. \<forall>i\<ge>n. succeeded_in (mem_runs (w_store (after i s w))) d b" using Dependent.IH by blast
  from all_eventually [OF this] obtain n where n: "\<forall>d\<in>set (j_DependsOn j). succeeded_in (mem_runs (w_store (after n s w))) d b" by blast
  have f: "flowing s B (after n s w)" "mem_jobs (w_store (after n s w)) = ?J" using after_progress [OF assms(2)] by blast+
  then have "advanced ?J (mem_runs (w_store (after n s w)))" by (simp add: flowing_def)
  moreover have "j \<in> ran ?J" using Dependent.hyps(1) by (rule ranI)
  moreover have "pipeline ?J B (mem_runs (w_store w))" using assms(2) by (simp add: flowing_def)
  then have "j_ID j = k" using Dependent.hyps(1) unfolding pipeline_def by blast
  ultimately have "in_batch (mem_runs (w_store (after n s w))) k b"
    using n assms(3) Dependent.hyps(2) by (auto simp: advanced_def)
  from batch_completes [OF assms(1) f(1) this] obtain c where
    c: "\<forall>i\<ge>c. succeeded_in (mem_runs (w_store (after i s (after n s w)))) k b" by blast
  have "succeeded_in (mem_runs (w_store (after i s w))) k b" if "c + n \<le> i" for i
    using c [rule_format, of "i - n"] that by (simp add: after_add [symmetric])
  then show ?case by blast
qed

section \<open>Properties\<close>

text \<open>C18: no dependent is forgotten. Along any sequence of triggers and passes on the in-memory store, which never fails, each
  pass processing its claimed runs one after the other, and with whatever executions fail or are cut short by a shutdown: a job whose
  dependencies have all succeeded in a batch has a run in that batch, if that was so at the start.\<close>

theorem no_dependent_forgotten:
  assumes "mem_world_ok (s_env s) w" "jobs_named (w_store w)" "advanced (mem_jobs (w_store w)) (mem_runs (w_store w))"
    and "reaches memory_ops s w s' w'" "mem_jobs (w_store w') k = Some j" "j_DependsOn j \<noteq> []" "b \<noteq> []"
    and "\<forall>d\<in>set (j_DependsOn j). succeeded_in (mem_runs (w_store w')) d b"
  shows "in_batch (mem_runs (w_store w')) k b"
proof -
  have "advanced (mem_jobs (w_store w')) (mem_runs (w_store w'))" by (rule reaches_advanced [OF assms(4,1-3)])
  moreover have "mem_inv (w_store w')" using mem_reaches_spec [OF assms(4,1)] by (simp add: mem_world_ok_def)
  then have "j_ID j = k" using mem.job_key assms(5) by blast
  ultimately show ?thesis using assms(5-8) by (auto simp: advanced_def intro: ranI)
qed

text \<open>The loop of \<^verbatim>\<open>Run\<close> executes a batch to the end. If executions succeed, the context is not cancelled and the clock
  passes every instant, then after enough ticks every job of the batch, and every job that is
  downstream of them, has succeeded in the batch, and stays so; however many runs compete for the
  limit of a claim. (Jobs with schedules of their own are left out, and every run present at the start
  is unfinished or has succeeded and belongs to a stored job.)\<close>

theorem pipeline_completes:
  assumes "mem_world_ok (s_env s) w" "quiet (w_store w)" "advanced (mem_jobs (w_store w)) (mem_runs (w_store w))"
    and "pipeline (mem_jobs (w_store w)) B (mem_runs (w_store w))"
    and "all_succeed (s_env s) (s_exec s)" "clock_advances (s_env s)"
    and "b \<in> B" "downstream (mem_jobs (w_store w)) (mem_runs (w_store w)) b k"
  shows "\<exists>n. \<forall>i\<ge>n. \<exists>w'. Run_loop memory_ops (replicate i TickerC) s w = Waiting s w' \<and> succeeded_in (mem_runs (w_store w')) k b"
proof -
  have f: "flowing s B w" using assms(1-5) by (simp add: flowing_def)
  have "b \<noteq> []" using assms(4,7) by (auto simp: pipeline_def)
  from downstream_completes [OF assms(6) f this assms(8)] show ?thesis using Run_loop_after [OF f] by metis
qed

text \<open>Three jobs in a row, the first of which has a pending run.\<close>

definition chain_jobs :: "(string, Job) gomap" where
  "chain_jobs = [(''a'', zero_job\<lparr>j_ID := ''a''\<rparr>), (''b'', zero_job\<lparr>j_ID := ''b'', j_DependsOn := [''a'']\<rparr>),
     (''c'', zero_job\<lparr>j_ID := ''c'', j_DependsOn := [''b'']\<rparr>)]"

definition chain_world :: "MemStore world" where
  "chain_world = sample_world\<lparr>w_store := \<lparr>m_jobs = chain_jobs, m_runs = [(''ra'', triggered_run ''ra'' ''x'' (zero_job\<lparr>j_ID := ''a''\<rparr>) 0)]\<rparr>\<rparr>"

definition chain_scheduler :: Scheduler where
  "chain_scheduler = sample_scheduler\<lparr>s_exec := NoopExecutor\<rparr>"

lemma chain_ok:
  "mem_world_ok (s_env chain_scheduler) chain_world" "quiet (w_store chain_world)"
  "advanced (mem_jobs (w_store chain_world)) (mem_runs (w_store chain_world))"
  "pipeline (mem_jobs (w_store chain_world)) {''x''} (mem_runs (w_store chain_world))"
proof -
  show "mem_world_ok (s_env chain_scheduler) chain_world"
    using sample_world_ok show_nat_not_ra
    by (auto simp: mem_world_ok_def chain_world_def chain_jobs_def chain_scheduler_def sample_env_def mem_inv_def mem_runs_def triggered_run_def zero_job_def)
  show "quiet (w_store chain_world)"
    by (auto simp: quiet_def jobs_named_def chain_world_def chain_jobs_def mem_jobs_def ran_def zero_job_def split: if_splits)
  show "advanced (mem_jobs (w_store chain_world)) (mem_runs (w_store chain_world))"
    by (auto simp: advanced_def chain_world_def mem_runs_def succeeded_in_def ran_def triggered_run_def run_state_defs split: if_splits)
  show "pipeline (mem_jobs (w_store chain_world)) {''x''} (mem_runs (w_store chain_world))"
    by (auto simp: pipeline_def chain_world_def chain_jobs_def mem_jobs_def mem_runs_def triggered_run_def unfinished_def zero_job_def
        finite_dom_map_of split: if_splits)
qed

lemma chain_clock: "clock_advances (s_env chain_scheduler)" "all_succeed (s_env chain_scheduler) (s_exec chain_scheduler)"
proof -
  have "t < 1000000000 * int i" if "nat (\<bar>t\<bar> + 1) \<le> i" for t i using that by linarith
  then show "clock_advances (s_env chain_scheduler)" unfolding clock_advances_def chain_scheduler_def
    by (simp add: sample_env_def) blast
  show "all_succeed (s_env chain_scheduler) (s_exec chain_scheduler)"
    by (simp add: all_succeed_def chain_scheduler_def Execute_def sample_env_def)
qed

theorem pipeline_completes_witness:
  "\<exists>n w'. Run_loop memory_ops (replicate n TickerC) chain_scheduler chain_world = Waiting chain_scheduler w' \<and>
     succeeded_in (mem_runs (w_store w')) ''c'' ''x''"
proof -
  let ?J = "mem_jobs (w_store chain_world)" and ?m = "mem_runs (w_store chain_world)"
  have "in_batch ?m ''a'' ''x''" by (simp add: in_batch_def chain_world_def mem_runs_def triggered_run_def)
  then have a: "downstream ?J ?m ''x'' ''a''" by (rule downstream.Present)
  have b: "downstream ?J ?m ''x'' ''b''"
    by (rule downstream.Dependent [where j = "zero_job\<lparr>j_ID := ''b'', j_DependsOn := [''a'']\<rparr>"])
      (simp_all add: a, simp add: chain_world_def chain_jobs_def mem_jobs_def)
  have "downstream ?J ?m ''x'' ''c''"
    by (rule downstream.Dependent [where j = "zero_job\<lparr>j_ID := ''c'', j_DependsOn := [''b'']\<rparr>"])
      (simp_all add: b, simp add: chain_world_def chain_jobs_def mem_jobs_def)
  from pipeline_completes [OF chain_ok chain_clock(2,1) _ this] show ?thesis by blast
qed

theorem no_dependent_forgotten_witness:
  "\<exists>w'. reaches memory_ops chain_scheduler chain_world chain_scheduler w' \<and> in_batch (mem_runs (w_store w')) ''b'' ''x''"
proof -
  let ?s = chain_scheduler and ?w = chain_world
  have f: "flowing ?s {''x''} ?w" using chain_ok chain_clock(2) by (simp add: flowing_def)
  have "in_batch (mem_runs (w_store ?w)) ''a'' ''x''" by (simp add: in_batch_def chain_world_def mem_runs_def triggered_run_def)
  then obtain n where n: "succeeded_in (mem_runs (w_store (after n ?s ?w))) ''a'' ''x''"
    using batch_completes [OF chain_clock(1) f] by blast
  have re: "reaches memory_ops ?s ?w ?s (after n ?s ?w)" using Run_loop_reaches Run_loop_after [OF f] by blast
  have "mem_jobs (w_store (after n ?s ?w)) = mem_jobs (w_store ?w)" using after_progress [OF f] by blast
  then have j: "mem_jobs (w_store (after n ?s ?w)) ''b'' = Some (zero_job\<lparr>j_ID := ''b'', j_DependsOn := [''a'']\<rparr>)"
    by (simp add: chain_world_def chain_jobs_def mem_jobs_def)
  have "jobs_named (w_store ?w)" using chain_ok(2) by (simp add: quiet_def)
  from no_dependent_forgotten [OF chain_ok(1) this chain_ok(3) re j, of "''x''"] n re show ?thesis by auto
qed

end
