(* ===== verification/Ordering.thy ===== *)
theory Ordering
  imports Pipeline
begin

text \<open>
  The order in which jobs are executed. The trace of a world lists the calls of the executor; in every
  reachable trace a job that was not itself fired or triggered is only executed after each of its
  dependencies has been executed successfully in the same batch. The invariant ties the runs of the
  store to the trace and is proved once for every store that keeps the contract.
\<close>

section \<open>Ordered traces\<close>

text \<open>The call at a position of the trace was of a given job in a given batch, and succeeded.\<close>

definition succeeded_call :: "env \<Rightarrow> Executor \<Rightarrow> (Job \<times> Run) list \<Rightarrow> nat \<Rightarrow> string \<Rightarrow> string \<Rightarrow> bool" where
  "succeeded_call env ex T q k b \<longleftrightarrow>
     (case T ! q of (j, r) \<Rightarrow> r_JobID r = k \<and> r_BatchID r = b \<and> \<not> e_cancelled env q \<and> Execute env ex (timeout_of j) j r q = None)"

text \<open>A job has dependencies, and each has been executed successfully in the batch before a position.\<close>

definition prepared :: "env \<Rightarrow> Executor \<Rightarrow> (string \<rightharpoonup> Job) \<Rightarrow> (Job \<times> Run) list \<Rightarrow> nat \<Rightarrow> string \<Rightarrow> string \<Rightarrow> bool" where
  "prepared env ex J T p k b \<longleftrightarrow>
     (\<exists>j. J k = Some j \<and> j_DependsOn j \<noteq> [] \<and> (\<forall>d\<in>set (j_DependsOn j). \<exists>q<p. succeeded_call env ex T q d b))"

text \<open>A batch has one job that started it; its other runs and calls are of prepared jobs.\<close>

definition batch_ordered :: "env \<Rightarrow> Executor \<Rightarrow> (string \<rightharpoonup> Job) \<Rightarrow> (string \<rightharpoonup> Run) \<Rightarrow> (Job \<times> Run) list \<Rightarrow> string \<Rightarrow> bool" where
  "batch_ordered env ex J m T b \<longleftrightarrow>
     (\<exists>root.
        (\<forall>r\<in>ran m. r_BatchID r = b \<longrightarrow> r_JobID r = root \<or> prepared env ex J T (length T) (r_JobID r) b) \<and>
        (\<forall>p<length T. r_BatchID (snd (T ! p)) = b \<longrightarrow>
           r_JobID (snd (T ! p)) = root \<or> prepared env ex J T p (r_JobID (snd (T ! p))) b))"

definition ordered :: "env \<Rightarrow> Executor \<Rightarrow> (string \<rightharpoonup> Job) \<Rightarrow> (string \<rightharpoonup> Run) \<Rightarrow> (Job \<times> Run) list \<Rightarrow> bool" where
  "ordered env ex J m T \<longleftrightarrow>
     (\<forall>r\<in>ran m. r_State r = StateSucceeded \<longrightarrow> (\<exists>q<length T. succeeded_call env ex T q (r_JobID r) (r_BatchID r))) \<and>
     (\<forall>c\<in>set T. J (r_JobID (snd c)) = Some (fst c) \<and> (\<exists>r\<in>ran m. r_BatchID r = r_BatchID (snd c))) \<and>
     (\<forall>b. batch_ordered env ex J m T b)"

lemma succeeded_callD: "succeeded_call env ex T q k b \<Longrightarrow> r_JobID (snd (T ! q)) = k"
  by (simp add: succeeded_call_def split: prod.splits)

lemma succeeded_call_append: "q < length T \<Longrightarrow> succeeded_call env ex (T @ xs) q k b = succeeded_call env ex T q k b"
  by (simp add: succeeded_call_def nth_append)

lemma prepared_append:
  assumes "prepared env ex J T p k b" "p \<le> length T" "p \<le> p'"
  shows "prepared env ex J (T @ xs) p' k b"
proof -
  have "succeeded_call env ex (T @ xs) q d b" if "q < p" "succeeded_call env ex T q d b" for q d
    using that assms(2) by (simp add: succeeded_call_append)
  then show ?thesis using assms(1,3) unfolding prepared_def by (meson less_le_trans)
qed

lemma orderedD:
  assumes "ordered env ex J m T"
  shows "r \<in> ran m \<Longrightarrow> r_State r = StateSucceeded \<Longrightarrow> \<exists>q<length T. succeeded_call env ex T q (r_JobID r) (r_BatchID r)"
    "c \<in> set T \<Longrightarrow> J (r_JobID (snd c)) = Some (fst c) \<and> (\<exists>r\<in>ran m. r_BatchID r = r_BatchID (snd c))" "batch_ordered env ex J m T b"
  using assms unfolding ordered_def by blast+

lemma ordered_succeeded:
  "ordered env ex J m T \<Longrightarrow> succeeded_in m d b \<Longrightarrow> \<exists>q<length T. succeeded_call env ex T q d b"
  unfolding succeeded_in_def using orderedD(1) by blast

text \<open>Runs that keep their jobs and batches keep the order, if every new success is one of the trace.\<close>

lemma ordered_keep:
  assumes "ordered env ex J m T"
    and same: "\<And>r. r \<in> ran m' \<Longrightarrow> \<exists>q\<in>ran m. r_JobID q = r_JobID r \<and> r_BatchID q = r_BatchID r"
    and kept: "\<And>r. r \<in> ran m \<Longrightarrow> \<exists>q\<in>ran m'. r_BatchID q = r_BatchID r"
    and succ: "\<And>r. r \<in> ran m' \<Longrightarrow> r_State r = StateSucceeded \<Longrightarrow> r \<in> ran m \<or> (\<exists>q<length T. succeeded_call env ex T q (r_JobID r) (r_BatchID r))"
  shows "ordered env ex J m' T"
  unfolding ordered_def
proof (intro conjI ballI allI impI)
  show "\<exists>q<length T. succeeded_call env ex T q (r_JobID r) (r_BatchID r)" if "r \<in> ran m'" "r_State r = StateSucceeded" for r
    using succ [OF that] orderedD(1) [OF assms(1)] that(2) by blast
  show "J (r_JobID (snd c)) = Some (fst c)" "\<exists>r\<in>ran m'. r_BatchID r = r_BatchID (snd c)" if "c \<in> set T" for c
    using orderedD(2) [OF assms(1) that] kept by fastforce+
  show "batch_ordered env ex J m' T b" for b
    using orderedD(3) [OF assms(1), of b] same unfolding batch_ordered_def by metis
qed

lemma ordered_upd:
  assumes "ordered env ex J m T" "m k = Some q" "r_JobID r = r_JobID q" "r_BatchID r = r_BatchID q"
    and "r_State r = StateSucceeded \<Longrightarrow> \<exists>p<length T. succeeded_call env ex T p (r_JobID r) (r_BatchID r)"
  shows "ordered env ex J (m(k \<mapsto> r)) T"
proof (rule ordered_keep [OF assms(1)])
  have ran: "x = r \<or> x \<in> ran m" if "x \<in> ran (m(k \<mapsto> r))" for x using that by (auto simp: ran_def split: if_splits)
  have q: "q \<in> ran m" using assms(2) by (rule ranI)
  show "\<exists>y\<in>ran m. r_JobID y = r_JobID x \<and> r_BatchID y = r_BatchID x" if "x \<in> ran (m(k \<mapsto> r))" for x
    using ran [OF that] q assms(3,4) by metis
  show "x \<in> ran m \<or> (\<exists>p<length T. succeeded_call env ex T p (r_JobID x) (r_BatchID x))"
    if "x \<in> ran (m(k \<mapsto> r))" "r_State x = StateSucceeded" for x
    using ran [OF that(1)] that(2) assms(5) by blast
  show "\<exists>y\<in>ran (m(k \<mapsto> r)). r_BatchID y = r_BatchID x" if x: "x \<in> ran m" for x
  proof -
    obtain i where "m i = Some x" using x by (auto simp: ran_def)
    then have "(m(k \<mapsto> r)) i = Some x \<or> i = k \<and> x = q" using assms(2) by auto
    then show ?thesis using assms(4) by (metis fun_upd_same ranI)
  qed
qed

text \<open>A new unfinished run: of the first job of its batch, of a job that has a run there, or of a prepared job.\<close>

lemma ordered_add:
  assumes "ordered env ex J m T" "m k = None" "r_State r \<noteq> StateSucceeded"
    and "(\<forall>q\<in>ran m. r_BatchID q \<noteq> r_BatchID r) \<or> (\<exists>q\<in>ran m. r_JobID q = r_JobID r \<and> r_BatchID q = r_BatchID r) \<or>
      prepared env ex J T (length T) (r_JobID r) (r_BatchID r)"
  shows "ordered env ex J (m(k \<mapsto> r)) T"
proof -
  have ran: "ran (m(k \<mapsto> r)) = insert r (ran m)" using assms(2) by (rule ran_fresh)
  show ?thesis
    unfolding ordered_def ran
  proof (intro conjI ballI allI impI)
    show "\<exists>q<length T. succeeded_call env ex T q (r_JobID x) (r_BatchID x)" if "x \<in> insert r (ran m)" "r_State x = StateSucceeded" for x
      using orderedD(1) [OF assms(1)] that assms(3) by blast
    show "J (r_JobID (snd c)) = Some (fst c)" "\<exists>x\<in>insert r (ran m). r_BatchID x = r_BatchID (snd c)" if "c \<in> set T" for c
      using orderedD(2) [OF assms(1) that] by blast+
    fix b
    show "batch_ordered env ex J (m(k \<mapsto> r)) T b"
    proof (cases "b = r_BatchID r \<and> (\<forall>q\<in>ran m. r_BatchID q \<noteq> b)")
      case True
      have "r_BatchID (snd (T ! p)) \<noteq> b" if "p < length T" for p
        using orderedD(2) [OF assms(1) nth_mem [OF that]] True by metis
      then show ?thesis using True unfolding batch_ordered_def ran by (intro exI [of _ "r_JobID r"]) auto
    next
      case False
      obtain root where root: "\<forall>r\<in>ran m. r_BatchID r = b \<longrightarrow> r_JobID r = root \<or> prepared env ex J T (length T) (r_JobID r) b"
        "\<forall>p<length T. r_BatchID (snd (T ! p)) = b \<longrightarrow>
           r_JobID (snd (T ! p)) = root \<or> prepared env ex J T p (r_JobID (snd (T ! p))) b"
        using orderedD(3) [OF assms(1), of b] unfolding batch_ordered_def by blast
      have "r_JobID r = root \<or> prepared env ex J T (length T) (r_JobID r) b" if "r_BatchID r = b"
        using assms(4) root(1) False that by metis
      then show ?thesis using root unfolding batch_ordered_def ran by (intro exI [of _ root]) blast
    qed
  qed
qed

text \<open>A call of the executor for a job and a batch that have a run in the store.\<close>

lemma ordered_call:
  assumes "ordered env ex J m T" "\<exists>x\<in>ran m. r_JobID x = r_JobID r \<and> r_BatchID x = r_BatchID r" "J (r_JobID r) = Some j"
  shows "ordered env ex J m (T @ [(j, r)])"
  unfolding ordered_def
proof (intro conjI ballI allI impI)
  show "\<exists>q<length (T @ [(j, r)]). succeeded_call env ex (T @ [(j, r)]) q (r_JobID x) (r_BatchID x)"
    if "x \<in> ran m" "r_State x = StateSucceeded" for x
    using orderedD(1) [OF assms(1) that] by (metis succeeded_call_append length_append_singleton less_Suc_eq)
  show "J (r_JobID (snd c)) = Some (fst c)" "\<exists>x\<in>ran m. r_BatchID x = r_BatchID (snd c)" if "c \<in> set (T @ [(j, r)])" for c
    using orderedD(2) [OF assms(1), of c] assms(2,3) that by auto
  fix b
  obtain root where root: "\<forall>r\<in>ran m. r_BatchID r = b \<longrightarrow> r_JobID r = root \<or> prepared env ex J T (length T) (r_JobID r) b"
    "\<forall>p<length T. r_BatchID (snd (T ! p)) = b \<longrightarrow>
       r_JobID (snd (T ! p)) = root \<or> prepared env ex J T p (r_JobID (snd (T ! p))) b"
    using orderedD(3) [OF assms(1), of b] unfolding batch_ordered_def by blast
  show "batch_ordered env ex J m (T @ [(j, r)]) b"
    unfolding batch_ordered_def
  proof (intro exI [of _ root] conjI ballI allI impI)
    show "r_JobID x = root \<or> prepared env ex J (T @ [(j, r)]) (length (T @ [(j, r)])) (r_JobID x) b"
      if "x \<in> ran m" "r_BatchID x = b" for x
      using root(1) that by (auto intro: prepared_append)
    show "r_JobID (snd ((T @ [(j, r)]) ! p)) = root \<or> prepared env ex J (T @ [(j, r)]) p (r_JobID (snd ((T @ [(j, r)]) ! p))) b"
      if "p < length (T @ [(j, r)])" "r_BatchID (snd ((T @ [(j, r)]) ! p)) = b" for p
    proof (cases "p = length T")
      case True
      then have "r_BatchID r = b" using that by simp
      then have "r_JobID r = root \<or> prepared env ex J T (length T) (r_JobID r) b" using root(1) assms(2) by metis
      then show ?thesis using True by (auto intro: prepared_append)
    next
      case False
      then have "p < length T" "r_BatchID (snd (T ! p)) = b" using that by (auto simp: nth_append)
      then show ?thesis using root(2) by (auto simp: nth_append intro: prepared_append)
    qed
  qed
qed

lemma dep_chain_ordered:
  "dep_chain b now js m m' \<Longrightarrow> ordered env ex J m T \<Longrightarrow> \<forall>j\<in>set js. J (j_ID j) = Some j \<and> j_DependsOn j \<noteq> [] \<Longrightarrow>
     ordered env ex J m' T \<and> (\<forall>r\<in>ran m'. r \<in> ran m \<or> r_BatchID r = b)"
proof (induction rule: dep_chain.induct)
  case (2 j m m1 js m')
  have j: "J (j_ID j) = Some j" "j_DependsOn j \<noteq> []" using "2.prems"(2) by simp_all
  from "2.hyps"(1) have "ordered env ex J m1 T \<and> (\<forall>r\<in>ran m1. r \<in> ran m \<or> r_BatchID r = b)"
  proof (rule dep_step_cases)
    fix rid assume rid: "m rid = None" "m1 = m(rid \<mapsto> dependent_run rid b j now)" "\<forall>d\<in>set (j_DependsOn j). succeeded_in m d b"
    have "prepared env ex J T (length T) (j_ID j) b"
      using j ordered_succeeded [OF "2.prems"(1)] rid(3) unfolding prepared_def by blast
    then have "ordered env ex J m1 T"
      unfolding rid(2) by (intro ordered_add [OF "2.prems"(1) rid(1)]) (simp_all add: run_state_defs)
    then show ?thesis using rid(1,2) by (simp add: ran_fresh)
  qed (use "2.prems"(1) in simp)
  then show ?case using "2.IH" "2.prems"(2) by auto
qed simp

section \<open>The scheduler keeps the order\<close>

lemma process_batch: "process ops env ex r w = ((r', err), w') \<Longrightarrow> r_BatchID r' = r_BatchID r"
  by (auto simp: process_def finish_ok_def finish_failed_def Let_def split: prod.splits if_splits sum.splits option.splits)

text \<open>Batches have names, and identifiers still to be drawn name none of them.\<close>

definition batches_ok :: "env \<Rightarrow> nat \<Rightarrow> (string \<rightharpoonup> Run) \<Rightarrow> bool" where
  "batches_ok env n m \<longleftrightarrow> (\<forall>r\<in>ran m. r_BatchID r \<noteq> [] \<and> (\<forall>i\<ge>n. r_BatchID r \<noteq> e_newID env i))"

definition named_jobs :: "(string \<rightharpoonup> Job) \<Rightarrow> bool" where
  "named_jobs J \<longleftrightarrow> (\<forall>j\<in>ran J. j_ID j \<noteq> [] \<and> [] \<notin> set (j_DependsOn j))"

lemma batches_ok_mono:
  assumes "batches_ok env n m" "n \<le> n'" "\<And>r. r \<in> ran m' \<Longrightarrow> \<exists>q\<in>ran m. r_BatchID q = r_BatchID r"
  shows "batches_ok env n' m'"
  using assms unfolding batches_ok_def by (metis le_trans)

lemma claims_ordered:
  assumes "(lifecycle Map.empty)\<^sup>*\<^sup>* m m'" "ordered env ex J m T"
  shows "ordered env ex J m' T \<and> (\<forall>r\<in>ran m'. \<exists>q\<in>ran m. r_BatchID q = r_BatchID r)"
  using assms
proof (induction rule: rtranclp_induct)
  case (step y z)
  then have IH: "ordered env ex J y T" "\<forall>r\<in>ran y. \<exists>q\<in>ran m. r_BatchID q = r_BatchID r" by blast+
  from step.hyps(2) show ?case
  proof (rule claims_only)
    fix r now w l assume r: "y (r_ID r) = Some r" "claimable now r" "z = y(r_ID r \<mapsto> claim_run now w l r)"
    have "ordered env ex J z T" unfolding r(3) by (rule ordered_upd [OF IH(1) r(1)]) (simp_all add: run_state_defs)
    moreover have "x \<in> ran y \<or> r_BatchID x = r_BatchID r" if "x \<in> ran z" for x
      using that by (auto simp: r(3) ran_def split: if_splits)
    moreover have "r \<in> ran y" using r(1) by (rule ranI)
    ultimately show ?thesis using IH(2) by metis
  qed (use IH in simp)
qed auto

text \<open>Recording an outcome of a call, when the call is in the trace and a success only follows a success.\<close>

lemma outcome_ordered:
  assumes "ordered env ex J m T" "m (r_ID r) = Some r" "r_State r \<noteq> StateSucceeded" "process_step oj r m m'"
    and "\<And>q. m' (r_ID r) = Some q \<Longrightarrow> r_State q = StateSucceeded \<Longrightarrow> \<exists>p<length T. succeeded_call env ex T p (r_JobID r) (r_BatchID r)"
  shows "ordered env ex J m' T \<and> (\<forall>x\<in>ran m'. \<exists>q\<in>ran m. r_BatchID q = r_BatchID x)"
proof -
  have r: "r \<in> ran m" using assms(2) by (rule ranI)
  have upd: "ordered env ex J (m(r_ID r \<mapsto> finished r t s msg)) T"
    if "m' (r_ID r) = Some (finished r t s msg)" for t s msg
    using assms(5) that by (intro ordered_upd [OF assms(1,2)]) auto
  have ran: "\<exists>q\<in>ran m. r_BatchID q = r_BatchID x" if "x \<in> ran (m(r_ID r \<mapsto> finished r t s msg))" for x t s msg
    using that r by (auto simp: ran_def split: if_splits)
  from assms(4) show ?thesis
  proof (rule process_stepE)
    fix j rid t msg d
    assume *: "m rid = None" "m' = m(r_ID r \<mapsto> finished r t StateFailed msg, rid \<mapsto> retry_run rid r t d)"
    let ?m = "m(r_ID r \<mapsto> finished r t StateFailed msg)" and ?q = "retry_run rid r t d"
    have ne: "rid \<noteq> r_ID r" using *(1) assms(2) by auto
    have none: "?m rid = None" using *(1) ne by simp
    have fin: "finished r t StateFailed msg \<in> ran ?m" by (rule ranI [of _ "r_ID r"]) simp
    have om: "ordered env ex J ?m T" using upd * ne by simp
    have "ordered env ex J m' T" unfolding *(2)
      by (rule ordered_add [of env ex J ?m T rid ?q, OF om none]) (use fin in \<open>auto simp: run_state_defs intro!: bexI [of _ "finished r t StateFailed msg"]\<close>)
    moreover have "ran m' = insert ?q (ran ?m)" unfolding *(2) using none by (rule ran_fresh)
    ultimately show ?thesis using ran r by (auto intro: bexI [of _ r])
  qed (use assms(1) upd ran in auto)
qed

context store_contract
begin

definition ordered_world :: "env \<Rightarrow> Executor \<Rightarrow> (string \<rightharpoonup> Job) \<Rightarrow> 's world \<Rightarrow> bool" where
  "ordered_world env ex J w \<longleftrightarrow> world_ok env w \<and> jobs_of (w_store w) = J \<and> named_jobs J \<and> (\<forall>i. e_newID env i \<noteq> []) \<and>
     batches_ok env (w_ids w) (runs_of (w_store w)) \<and> ordered env ex J (runs_of (w_store w)) (w_trace w)"

lemma ordered_worldD:
  assumes "ordered_world env ex J w"
  shows "world_ok env w" "jobs_of (w_store w) = J" "named_jobs J" "e_newID env i \<noteq> []"
    "batches_ok env (w_ids w) (runs_of (w_store w))" "ordered env ex J (runs_of (w_store w)) (w_trace w)"
  using assms by (simp_all add: ordered_world_def)

text \<open>An action that leaves the trace alone, over runs whose batches are not new.\<close>

lemma ordered_world_next:
  assumes "ordered_world env ex J w" "world_ok env w'" "jobs_of (w_store w') = J" "w_trace w' = w_trace w \<and> w_ids w \<le> w_ids w'"
    and "ordered env ex J (runs_of (w_store w')) (w_trace w)"
    and "\<And>r. r \<in> ran (runs_of (w_store w')) \<Longrightarrow> \<exists>q\<in>ran (runs_of (w_store w)). r_BatchID q = r_BatchID r"
  shows "ordered_world env ex J w'"
proof -
  have "batches_ok env (w_ids w') (runs_of (w_store w'))"
    by (rule batches_ok_mono [OF ordered_worldD(5) [OF assms(1)] _ assms(6)]) (use assms(4) in simp_all)
  then show ?thesis using assms(1-5) by (simp add: ordered_world_def)
qed

lemma ordered_world_same:
  assumes "ordered_world env ex J w" "world_ok env w'" "same_data w w'" "w_trace w' = w_trace w \<and> w_ids w \<le> w_ids w'"
  shows "ordered_world env ex J w'"
  using assms by (intro ordered_world_next [OF assms(1)]) (auto simp: ordered_world_def same_data_def)

text \<open>A run in a batch of its own.\<close>

lemma create_root_ordered:
  assumes "ordered_world env ex J w" "r_ID r = e_newID env (w_ids w)" "r_BatchID r = e_newID env (Suc (w_ids w))"
    "r_State r = StatePending" "call (st_CreateRun ops r) (w\<lparr>w_ids := w_ids w + 2\<rparr>) = (res, w')"
  shows "ordered_world env ex J w'"
proof -
  let ?m = "runs_of (w_store w)" and ?w = "w\<lparr>w_ids := w_ids w + 2\<rparr>"
  note ow = ordered_worldD [OF assms(1)]
  have un: "?m (r_ID r) = None" using newID_unused [OF ow(1)] assms(2) by simp
  note cr = call_CreateRun [OF world_ok_newID [OF ow(1)] assms(2) _ _ assms(5)]
  have w': "world_ok env w'" "jobs_of (w_store w') = J" "w_ids w' = w_ids w + 2" "w_trace w' = w_trace w"
    "runs_of (w_store w') = (case res of Inl e \<Rightarrow> ?m | Inr _ \<Rightarrow> ?m(r_ID r \<mapsto> r))"
    using cr un ow(2) trace.call_frame [OF assms(5)] by (simp_all split: sum.split)
  show ?thesis
  proof (cases res)
    case (Inl e)
    then show ?thesis using w' ow by (intro ordered_world_next [OF assms(1)]) auto
  next
    case (Inr u)
    then have m: "runs_of (w_store w') = ?m(r_ID r \<mapsto> r)" using w'(5) by simp
    have new: "r_BatchID q \<noteq> r_BatchID r" if "q \<in> ran ?m" for q using ow(5) that assms(3) by (auto simp: batches_ok_def)
    have later: "r_BatchID r \<noteq> e_newID env i" if "w_ids w + 2 \<le> i" for i
      using ow(1) assms(3) that by (auto simp: world_ok_def dest: injD)
    have "batches_ok env (w_ids w') (?m(r_ID r \<mapsto> r))"
      using later ow(5) ow(4) [of "Suc (w_ids w)"] assms(3) by (simp add: batches_ok_def ran_fresh [of ?m "r_ID r" r, OF un] w'(3))
    moreover have "ordered env ex J (runs_of (w_store w')) (w_trace w')"
      unfolding m w'(4) using new assms(4) by (intro ordered_add [OF ow(6) un]) (auto simp: run_state_defs)
    ultimately show ?thesis using w'(1,2) ow(3,4) by (simp add: ordered_world_def m)
  qed
qed

lemma enqueueRoot_ordered:
  assumes "ordered_world env ex J w" "enqueueRoot ops env j t w = (res, w')"
  shows "ordered_world env ex J w'"
proof -
  let ?f = "zero_filter\<lparr>f_JobID := j_ID j\<rparr>"
  obtain r1 w1 where c: "call (st_ListRuns ops ?f) w = (r1, w1)" by fastforce
  have ow1: "ordered_world env ex J w1"
    using ordered_world_same [OF assms(1)] call_ListRuns(1,2) [OF ordered_worldD(1) [OF assms(1)] c] trace.call_frame [OF c] by blast
  show ?thesis
  proof (cases "\<exists>rs. r1 = Inr rs \<and> \<not> slot_taken rs t")
    case True
    define r where "r = root_run (e_newID env (w_ids w1)) (e_newID env (Suc (w_ids w1))) j t"
    have "call (st_CreateRun ops r) (w1\<lparr>w_ids := w_ids w1 + 2\<rparr>) = (res, w')"
      using assms(2) c True by (auto simp: enqueueRoot_def bind_act_def newID_def r_def)
    then show ?thesis by (intro create_root_ordered [OF ow1, of r]) (simp_all add: r_def)
  next
    case False
    then have "w' = w1" using assms(2) c by (auto simp: enqueueRoot_def bind_act_def split: sum.splits)
    then show ?thesis using ow1 by simp
  qed
qed


lemma enqueueDependents_ordered:
  assumes "ordered_world env ex J w" "\<exists>q\<in>ran (runs_of (w_store w)). r_BatchID q = r_BatchID c"
    "enqueueDependents ops env c now w = (res, w')"
  shows "ordered_world env ex J w'"
proof -
  note ow = ordered_worldD [OF assms(1)]
  obtain r1 w1 where l: "call (st_ListJobs ops) w = (r1, w1)" by fastforce
  note ls = call_ListJobs [OF ow(1) l]
  have ow1: "ordered_world env ex J w1" using ordered_world_same [OF assms(1) ls(1,2)] trace.call_frame [OF l] by blast
  show ?thesis
  proof (cases r1)
    case (Inl e)
    then show ?thesis using assms(3) l ow1 by (simp add: enqueueDependents_def bind_act_def)
  next
    case (Inr js)
    have js: "set js = ran J" using ls(3) [OF Inr] ow(2) by simp
    have b: "r_BatchID c \<noteq> []" using ow(5) assms(2) by (auto simp: batches_ok_def)
    have e: "enqueue_all ops env c now js w1 = (res, w')" using assms(3) l Inr by (simp add: enqueueDependents_def bind_act_def)
    have named: "\<forall>j\<in>set js. j_ID j \<noteq> [] \<and> [] \<notin> set (j_DependsOn j)" using js ow(3) by (simp add: named_jobs_def)
    obtain ks where ks: "world_ok env w'" "jobs_of (w_store w') = jobs_of (w_store w1)" "set ks \<subseteq> set js"
      "\<forall>j\<in>set ks. r_JobID c \<in> set (j_DependsOn j)" "dep_chain (r_BatchID c) now ks (runs_of (w_store w1)) (runs_of (w_store w'))"
      using enqueue_all_spec [OF ls(1) named b e] by blast
    have "\<forall>j\<in>set ks. J (j_ID j) = Some j \<and> j_DependsOn j \<noteq> []"
    proof
      fix j assume j: "j \<in> set ks"
      then obtain k where k: "J k = Some j" using ks(3) js by (auto simp: ran_def)
      then have "j_ID j = k" using job_key [of "w_store w" k j] ow(1,2) by (simp add: world_ok_def)
      then show "J (j_ID j) = Some j \<and> j_DependsOn j \<noteq> []" using k ks(4) j by auto
    qed
    note chain = dep_chain_ordered [OF ks(5) ordered_worldD(6) [OF ow1] this]
    have st: "w_trace w' = w_trace w \<and> w_ids w \<le> w_ids w'" using assms(3) by (rule trace.enqueue_frame)
    have same: "w_trace w1 = w_trace w" "runs_of (w_store w1) = runs_of (w_store w)"
      using trace.call_frame [OF l] ls(2) by (simp_all add: same_data_def)
    show ?thesis
    proof (rule ordered_world_next [OF assms(1) ks(1) _ st])
      show "jobs_of (w_store w') = J" using ks(2) ordered_worldD(2) [OF ow1] by simp
      show "ordered env ex J (runs_of (w_store w')) (w_trace w)" using chain same by simp
      show "\<exists>q\<in>ran (runs_of (w_store w)). r_BatchID q = r_BatchID r" if "r \<in> ran (runs_of (w_store w'))" for r
        using chain same that assms(2) by metis
    qed
  qed
qed

lemma call_ordered:
  assumes "ordered_world env ex J w" "\<exists>x\<in>ran (runs_of (w_store w)). r_JobID x = r_JobID r \<and> r_BatchID x = r_BatchID r"
    "w_store w' = w_store w" "w_ids w' = w_ids w" "w_trace w' = w_trace w @ [(j, r)]" "J (r_JobID r) = Some j"
  shows "ordered_world env ex J w'"
  using assms(1,3-5) ordered_call [OF ordered_worldD(6) [OF assms(1)] assms(2,6)] by (simp add: ordered_world_def world_ok_def)

text \<open>The bookkeeping after a call.\<close>

lemma finish_ordered:
  assumes "ordered_world env ex J w" "runs_of (w_store w) (r_ID r) = Some r" "r_State r = StateRunning" "w_trace w = T @ [(j, r)]"
    and "world_ok env w' \<and> jobs_of (w_store w') = J \<and> process_step oj r (runs_of (w_store w)) (runs_of (w_store w'))"
    and "w_trace w' = w_trace w \<and> w_ids w \<le> w_ids w'"
    and "\<And>q. runs_of (w_store w') (r_ID r) = Some q \<Longrightarrow> r_State q = StateSucceeded \<Longrightarrow>
      \<not> e_cancelled env (length T) \<and> Execute env ex (timeout_of j) j r (length T) = None"
  shows "ordered_world env ex J w'"
proof -
  let ?m = "runs_of (w_store w)" and ?m' = "runs_of (w_store w')"
  have running: "r_State r \<noteq> StateSucceeded" using assms(3) by (simp add: run_state_defs)
  have call: "\<exists>p<length (w_trace w). succeeded_call env ex (w_trace w) p (r_JobID r) (r_BatchID r)"
    if "?m' (r_ID r) = Some q" "r_State q = StateSucceeded" for q
    using assms(7) [OF that] by (intro exI [of _ "length T"]) (simp add: succeeded_call_def assms(4))
  have step: "process_step oj r ?m ?m'" using assms(5) by blast
  have "ordered env ex J ?m' (w_trace w) \<and> (\<forall>x\<in>ran ?m'. \<exists>q\<in>ran ?m. r_BatchID q = r_BatchID x)"
    by (rule outcome_ordered [OF ordered_worldD(6) [OF assms(1)] assms(2) running step]) (rule call)
  then show ?thesis using assms(5,6) by (intro ordered_world_next [OF assms(1)]) blast+
qed

lemma process_ordered:
  assumes "ordered_world env ex J w" "runs_of (w_store w) (r_ID r) = Some r" "r_State r = StateRunning"
    and "process ops env ex r w = (res, w')"
  shows "ordered_world env ex J w'"
proof -
  note ok = ordered_worldD(1) [OF assms(1)]
  have same: "ordered_world env ex J w1" if "call (st_GetJob ops (r_JobID r)) w = (g, w1)" for g w1
    using ordered_world_same [OF assms(1) call_GetJob(1,2) [OF ok that]] trace.call_frame [OF that] by blast
  have stored: "runs_of (w_store w1) (r_ID r) = Some r" if "call (st_GetJob ops (r_JobID r)) w = (g, w1)" for g w1
    using call_GetJob(2) [OF ok that] assms(2) by (simp add: same_data_def)
  have called: "ordered_world env ex J (w1\<lparr>w_trace := w_trace w1 @ [(j, r)], w_clock := c\<rparr>)"
    if g: "call (st_GetJob ops (r_JobID r)) w = (Inr j, w1)" for w1 j c
    by (rule call_ordered [OF same [OF g]])
      (use call_GetJob(3) [OF ok g refl] ordered_worldD(2) [OF assms(1)] stored [OF g] in \<open>auto intro: ranI\<close>)
  from assms(4) show ?thesis
  proof (cases rule: process_cases)
    case (Missing e)
    then show ?thesis by (rule same)
  next
    case (Cancelled j w1)
    then show ?thesis using called [OF Cancelled(1), of "w_clock w1 + 1"] by (simp add: ordered_world_def world_ok_def)
  next
    case (Success j w1 t dur)
    let ?w = "w1\<lparr>w_trace := w_trace w1 @ [(j, r)], w_clock := w_clock w1 + 2\<rparr>"
    note ow = called [OF Success(1), of "w_clock w1 + 2"]
    obtain r' err where res: "res = (r', err)" by fastforce
    show ?thesis
    proof (rule finish_ordered [OF ow _ assms(3), of "w_trace w1" j _ "Some j"])
      show "world_ok env w' \<and> jobs_of (w_store w') = J \<and> process_step (Some j) r (runs_of (w_store ?w)) (runs_of (w_store w'))"
        using finish_ok_spec [OF ordered_worldD(1) [OF ow] Success(4) [unfolded res]] ordered_worldD(2) [OF ow] by simp
      show "w_trace w' = w_trace ?w \<and> w_ids ?w \<le> w_ids w'" using Success(4) by (rule trace.finish_ok_frame)
    qed (use Success(2,3) stored [OF Success(1)] in simp_all)
  next
    case (Failure j w1 t dur msg)
    let ?w = "w1\<lparr>w_trace := w_trace w1 @ [(j, r)], w_clock := w_clock w1 + 2\<rparr>"
    note ow = called [OF Failure(1), of "w_clock w1 + 2"]
    obtain r' err where res: "res = (r', err)" by fastforce
    note spec = finish_failed_spec [OF ordered_worldD(1) [OF ow] Failure(2) [unfolded res]]
    show ?thesis
    proof (rule finish_ordered [OF ow _ assms(3), of "w_trace w1" j _ "Some j"])
      show "world_ok env w' \<and> jobs_of (w_store w') = J \<and> process_step (Some j) r (runs_of (w_store ?w)) (runs_of (w_store w'))"
        using spec ordered_worldD(2) [OF ow] by simp
      show "w_trace w' = w_trace ?w \<and> w_ids ?w \<le> w_ids w'" using Failure(2) by (rule trace.finish_failed_frame)
      show "\<not> e_cancelled env (length (w_trace w1)) \<and> Execute env ex (timeout_of j) j r (length (w_trace w1)) = None"
        if "runs_of (w_store w') (r_ID r) = Some q" "r_State q = StateSucceeded" for q
        using spec that stored [OF Failure(1)] assms(3) by (auto simp: run_state_defs)
    qed (use stored [OF Failure(1)] in simp_all)
  qed
qed

lemma work_ordered:
  assumes "ordered_world env ex J w" "runs_of (w_store w) (r_ID r) = Some r" "r_State r = StateRunning"
  shows "ordered_world env ex J (work ops env ex r w)"
proof -
  obtain r' err w1 where p: "process ops env ex r w = ((r', err), w1)" by (metis surj_pair)
  note ow = process_ordered [OF assms p]
  show ?thesis
  proof (cases "err = None \<and> r_State r' = StateSucceeded")
    case True
    define w2 where "w2 = w1\<lparr>w_clock := w_clock w1 + 1\<rparr>"
    have w2: "ordered_world env ex J w2" "w_store w2 = w_store w1" using ow by (simp_all add: w2_def ordered_world_def world_ok_def)
    obtain u w3 where e: "enqueueDependents ops env r' (e_now env (w_clock w1)) w2 = (u, w3)" by fastforce
    have work: "work ops env ex r w = w3" using p True e by (simp add: work_def read_clock_def w2_def)
    have "evolves (runs_of (w_store w)) (runs_of (w_store w1))"
      using process_spec [OF ordered_worldD(1) [OF assms(1)] p] process_step_evolves [where r = r and m = "runs_of (w_store w)"] assms(2,3)
      by (auto simp: unfinished_def)
    then obtain q where "runs_of (w_store w1) (r_ID r) = Some q" "identity q = identity r"
      using assms(2) unfolding evolves_def by blast
    then have "\<exists>q\<in>ran (runs_of (w_store w2)). r_BatchID q = r_BatchID r'"
      using process_batch [OF p] w2(2) by (auto simp: identity_def intro: ranI)
    from enqueueDependents_ordered [OF w2(1) this e] show ?thesis unfolding work .
  next
    case False
    then have "work ops env ex r w = w1" using p by (auto simp: work_def split: option.splits)
    then show ?thesis using ow by simp
  qed
qed

lemma work_all_ordered:
  "ordered_world env ex J w \<Longrightarrow> distinct (map r_ID rs) \<Longrightarrow>
   \<forall>r\<in>set rs. runs_of (w_store w) (r_ID r) = Some r \<and> r_State r = StateRunning \<Longrightarrow> ordered_world env ex J (work_all ops env ex rs w)"
proof (induction rs arbitrary: w)
  case (Cons r rs)
  have r: "runs_of (w_store w) (r_ID r) = Some r" "r_State r = StateRunning" using Cons.prems(3) by simp_all
  note wk = work_spec(4) [OF ordered_worldD(1) [OF Cons.prems(1)] r, where ex = ex]
  have "r_ID r \<notin> r_ID ` set rs" "distinct (map r_ID rs)" using Cons.prems(2) by simp_all
  then have "r_ID q \<noteq> r_ID r" if "q \<in> set rs" for q using imageI [OF that, of r_ID] by metis
  then have "\<forall>q\<in>set rs. runs_of (w_store (work ops env ex r w)) (r_ID q) = Some q \<and> r_State q = StateRunning"
    using Cons.prems(3) wk by simp
  from Cons.IH [OF work_ordered [OF Cons.prems(1) r] \<open>distinct (map r_ID rs)\<close> this] show ?case by simp
qed simp

lemma drain_ordered:
  assumes "ordered_world (s_env s) (s_exec s) J w"
  shows "ordered_world (s_env s) (s_exec s) J (drain ops s now w)"
proof -
  note ow = ordered_worldD [OF assms]
  obtain res w1 where c: "claim_batch ops s now w = (res, w1)" by fastforce
  note cb = claim_batch_spec [OF ow(1) c]
  note st = trace.claim_frame [OF c]
  have ow1: "ordered_world (s_env s) (s_exec s) J w1"
    using claims_ordered [OF cb(3) ow(6)] cb(1,2) st ow(2) by (intro ordered_world_next [OF assms]) auto
  show ?thesis
  proof (cases res)
    case (Inl e)
    then show ?thesis using c ow1 by (simp add: drain_def)
  next
    case (Inr rs)
    then show ?thesis using c ow1 work_all_ordered [OF ow1, of rs] cb(4) by (auto simp: drain_def)
  qed
qed

lemma publishBacklog_ordered:
  assumes "ordered_world env ex J w"
  shows "ordered_world env ex J (publishBacklog ops now w)"
proof -
  obtain res w1 where c: "call (st_ListRuns ops (zero_filter\<lparr>f_State := StatePending\<rparr>)) w = (res, w1)" by fastforce
  have "ordered_world env ex J w1"
    using ordered_world_same [OF assms] call_ListRuns(1,2) [OF ordered_worldD(1) [OF assms] c] trace.call_frame [OF c] by blast
  then show ?thesis by (cases res) (simp_all add: publishBacklog_def c Let_def ordered_world_def world_ok_def)
qed

lemma dispatch_ordered:
  assumes "ordered_world env ex J w" "dispatch ops env now d w = Some (res, d', w')"
  shows "ordered_world env ex J w'"
proof -
  obtain r1 w1 where c: "call (st_ListJobs ops) w = (r1, w1)" by fastforce
  have ow: "ordered_world env ex J w1"
    using ordered_world_same [OF assms(1)] call_ListJobs(1,2) [OF ordered_worldD(1) [OF assms(1)] c] trace.call_frame [OF c] by blast
  show ?thesis
  proof (cases r1)
    case (Inl e)
    then show ?thesis using assms(2) c ow by (simp add: dispatch_def)
  next
    case (Inr js)
    then have "dispatch_jobs ops env now js 0 d w1 = Some (res, d', w')" using assms(2) c by (simp add: dispatch_def)
    with enqueueRoot_ordered show ?thesis using ow by (rule dispatch_jobs_keeps [where P = "ordered_world env ex J"])
  qed
qed

lemma step_ordered:
  assumes "ordered_world (s_env s) (s_exec s) J w" "step ops now s w = Some (s', w')"
  shows "ordered_world (s_env s) (s_exec s) J w'" "s_env s' = s_env s" "s_exec s' = s_exec s"
proof -
  let ?w = "on_metrics Tick w"
  have ow: "ordered_world (s_env s) (s_exec s) J ?w" using assms(1) by (simp add: ordered_world_def world_ok_def)
  obtain res d w1 where d: "dispatch ops (s_env s) now (s_disp s) ?w = Some (res, d, w1)"
    "s' = s\<lparr>s_disp := d\<rparr>" "w' = publishBacklog ops now (drain ops s' now w1)"
    using assms(2) by (auto simp: step_def Let_def split: option.splits)
  show s': "s_env s' = s_env s" "s_exec s' = s_exec s" by (simp_all add: d(2))
  have "ordered_world (s_env s') (s_exec s') J w1" using dispatch_ordered [OF ow d(1)] s' by simp
  from publishBacklog_ordered [OF drain_ordered [OF this]] show "ordered_world (s_env s) (s_exec s) J w'" unfolding d(3) s' .
qed

lemma Trigger_ordered:
  assumes "ordered_world env ex J w" "Trigger ops env k w = (res, w')"
  shows "ordered_world env ex J w'"
proof -
  obtain r1 w1 where c: "call (st_GetJob ops k) w = (r1, w1)" by fastforce
  have ow: "ordered_world env ex J w1"
    using ordered_world_same [OF assms(1)] call_GetJob(1,2) [OF ordered_worldD(1) [OF assms(1)] c] trace.call_frame [OF c] by blast
  show ?thesis
  proof (cases r1)
    case (Inl e)
    then show ?thesis using assms(2) c ow by (simp add: Trigger_def bind_act_def)
  next
    case (Inr j)
    define w2 where "w2 = w1\<lparr>w_clock := w_clock w1 + 1\<rparr>"
    define r where "r = triggered_run (e_newID env (w_ids w2)) (e_newID env (Suc (w_ids w2))) j (e_now env (w_clock w1))"
    have ow2: "ordered_world env ex J w2" using ow by (simp add: w2_def ordered_world_def world_ok_def)
    obtain x where "call (st_CreateRun ops r) (w2\<lparr>w_ids := w_ids w2 + 2\<rparr>) = (x, w')"
      using assms(2) c Inr
      by (auto simp: Trigger_def bind_act_def read_clock_def newID_def w2_def r_def Let_def split: prod.splits sum.splits)
    then show ?thesis by (intro create_root_ordered [OF ow2, of r]) (simp_all add: r_def triggered_run_def)
  qed
qed

lemma reaches_ordered:
  assumes "reaches ops s w s' w'" "ordered_world (s_env s) (s_exec s) J w"
  shows "ordered_world (s_env s) (s_exec s) J w' \<and> s_env s' = s_env s \<and> s_exec s' = s_exec s"
  using assms
proof (induction rule: reaches.induct)
  case (Pass s1 w1 now s2 w2)
  then have ow: "ordered_world (s_env s1) (s_exec s1) J w1" by simp
  from step_ordered [OF ow Pass.hyps(2)] Pass show ?case by simp
next
  case (Triggered s1 w1 k res w2)
  then have ow: "ordered_world (s_env s1) (s_exec s1) J w1" by simp
  from Trigger_ordered [OF ow Triggered.hyps(2)] Triggered show ?case by simp
qed (simp_all add: ordered_world_def world_ok_def)

end

section \<open>Every job of a batch once\<close>

text \<open>A job has at most one run in a batch, and no run is executed twice: the executed ones have succeeded. The
  first execution is of the job \<open>k\<close>.\<close>

definition single :: "(string \<rightharpoonup> Run) \<Rightarrow> bool" where
  "single m \<longleftrightarrow>
     (\<forall>k l r q. m k = Some r \<longrightarrow> m l = Some q \<longrightarrow> r_JobID r = r_JobID q \<longrightarrow> r_BatchID r = r_BatchID q \<longrightarrow> k = l)"

definition once :: "string \<Rightarrow> (string \<rightharpoonup> Run) \<Rightarrow> (Job \<times> Run) list \<Rightarrow> bool" where
  "once k m T \<longleftrightarrow> single m \<and> distinct (map (r_ID \<circ> snd) T) \<and>
     (if T = [] then \<forall>r\<in>ran m. r_JobID r = k else r_JobID (snd (hd T)) = k) \<and>
     (\<forall>c\<in>set T. \<exists>q. m (r_ID (snd c)) = Some q \<and> r_State q = StateSucceeded \<and> identity q = identity (snd c))"

lemma single_upd:
  assumes "single m" "m k = Some r" "identity r' = identity r"
  shows "single (m(k \<mapsto> r'))"
proof -
  have "\<exists>y. m i = Some y \<and> r_JobID y = r_JobID x \<and> r_BatchID y = r_BatchID x" if "(m(k \<mapsto> r')) i = Some x" for i x
    using that assms(2,3) by (cases "i = k") (auto simp: identity_def)
  then show ?thesis using assms(1) unfolding single_def by metis
qed

lemma once_upd:
  assumes "once i m T" "m k = Some r" "identity r' = identity r" "r_State r \<noteq> StateSucceeded"
  shows "once i (m(k \<mapsto> r')) T"
proof -
  have "r_JobID x = i" if "x \<in> ran (m(k \<mapsto> r'))" "\<forall>r\<in>ran m. r_JobID r = i" for x
    using that assms(2,3) by (auto simp: ran_def identity_def split: if_splits)
  then show ?thesis using assms single_upd [of m k r r'] by (fastforce simp: once_def)
qed

lemma once_claims: "(lifecycle Map.empty)\<^sup>*\<^sup>* m m' \<Longrightarrow> once i m T \<Longrightarrow> once i m' T"
proof (induction rule: rtranclp_induct)
  case (step y z)
  from step.hyps(2) show ?case
  proof (rule claims_only)
    fix r now w l assume r: "y (r_ID r) = Some r" "claimable now r" "z = y(r_ID r \<mapsto> claim_run now w l r)"
    have "r_State r \<noteq> StateSucceeded" using r(2) by (auto simp: claimable_def run_state_defs)
    then show ?thesis unfolding r(3) using once_upd [of i y T "r_ID r" r "claim_run now w l r"] r(1) step by (simp del: fun_upd_apply)
  qed (use step in simp)
qed simp

lemma once_success:
  assumes "once i m T" "m (r_ID r) = Some r" "r_State r = StateRunning"
  shows "once i (m(r_ID r \<mapsto> finished r t StateSucceeded [])) (T @ [(j, r)])"
proof -
  have "r_State r \<noteq> StateSucceeded" using assms(3) by (simp add: run_state_defs)
  then have "once i (m(r_ID r \<mapsto> finished r t StateSucceeded [])) T" and "r_ID r \<notin> r_ID ` snd ` set T"
    using once_upd [of i m T "r_ID r" r "finished r t StateSucceeded []"] assms(1,2) by (simp, auto simp: once_def image_image)
  moreover have "r_JobID (snd (hd (T @ [(j, r)]))) = i" using assms(1,2) by (cases T) (auto simp: once_def ran_def)
  ultimately show ?thesis by (auto simp: once_def image_image)
qed

lemma once_add:
  assumes "once i m T" "T \<noteq> []" "m k = None" "\<not> in_batch m (r_JobID r) (r_BatchID r)"
  shows "once i (m(k \<mapsto> r)) T"
proof -
  have new: "\<not> (r_JobID q = r_JobID r \<and> r_BatchID q = r_BatchID r)" if "m l = Some q" for l q
    using assms(4) ranI [of m l q] that by (auto simp: in_batch_def)
  have "single (m(k \<mapsto> r))" unfolding single_def
  proof (intro allI impI)
    fix h l x q assume *: "(m(k \<mapsto> r)) h = Some x" "(m(k \<mapsto> r)) l = Some q" "r_JobID x = r_JobID q" "r_BatchID x = r_BatchID q"
    show "h = l"
    proof (cases "h = k \<or> l = k")
      case True
      then show ?thesis using * new [of h x] new [of l q] by (auto split: if_splits)
    next
      case False
      then show ?thesis using * assms(1) unfolding once_def single_def by simp
    qed
  qed
  then show ?thesis using assms(1-3) by (fastforce simp: once_def)
qed

lemma once_dep_chain: "dep_chain b now ks m m' \<Longrightarrow> once i m T \<Longrightarrow> T \<noteq> [] \<Longrightarrow> once i m' T"
proof (induction rule: dep_chain.induct)
  case (2 j m m1 js m')
  from "2.hyps"(1) have "once i m1 T"
    by (rule dep_step_cases) (use "2.prems" in \<open>auto intro!: once_add\<close>)
  then show ?case using "2.IH" "2.prems"(2) by blast
qed simp

lemma process_trace:
  assumes "call (st_GetJob ops (r_JobID r)) w = (Inr j, w1)" "process ops env ex r w = (res, w')"
  shows "w_trace w' = w_trace w @ [(j, r)]"
  using assms(2)
proof (cases rule: process_cases)
  case (Success j' v t dur)
  then show ?thesis using assms(1) trace.finish_ok_frame [OF Success(4)] trace.call_frame [OF assms(1)] by simp
next
  case (Failure j' v t dur msg)
  then show ?thesis using assms(1) trace.finish_failed_frame [OF Failure(2)] trace.call_frame [OF assms(1)] by simp
qed (use assms(1) trace.call_frame [OF assms(1)] in auto)

lemma work_trace:
  assumes "call (st_GetJob ops (r_JobID r)) w = (Inr j, w1)"
  shows "w_trace (work ops env ex r w) = w_trace w @ [(j, r)]"
proof -
  obtain r' err w2 where p: "process ops env ex r w = ((r', err), w2)" by (metis surj_pair)
  have "w_trace (snd (enqueueDependents ops env r' now v)) = w_trace v" for now v
    using trace.frames_enqueue unfolding frames_def by blast
  then show ?thesis using p process_trace [OF assms p] by (simp add: work_def read_clock_def split: option.split)
qed

lemma work_once:
  assumes ok: "mem_world_ok env w" "quiet (w_store w)" "all_succeed env ex"
    and r: "mem_runs (w_store w) (r_ID r) = Some r" "r_State r = StateRunning" and p: "pipeline (mem_jobs (w_store w)) B (mem_runs (w_store w))"
    and o: "once k (mem_runs (w_store w)) (w_trace w)"
  shows "once k (mem_runs (w_store (work memory_ops env ex r w))) (w_trace (work memory_ops env ex r w))"
proof -
  let ?J = "mem_jobs (w_store w)" and ?m = "mem_runs (w_store w)"
  note rp = pipelineD [OF p r(1)]
  obtain j where j: "?J (r_JobID r) = Some j" using rp(3) by blast
  have ex: "Execute env ex (timeout_of j) j r (w_execs w) = None" "\<not> e_cancelled env (w_execs w)" "jobs_named (w_store w)"
    using ok(2,3) by (simp_all add: all_succeed_def quiet_def)
  obtain ks now t where ks: "r_BatchID r \<noteq> [] \<longrightarrow> dep_chain (r_BatchID r) now ks (?m(r_ID r \<mapsto> finished r t StateSucceeded []))
       (mem_runs (w_store (work memory_ops env ex r w)))"
    by (rule work_success [OF ok(1) r(1) j ex(3,1,2)])
  have "r_BatchID r \<noteq> []" using rp(2) p by (auto simp: pipeline_def)
  then have chain: "dep_chain (r_BatchID r) now ks (?m(r_ID r \<mapsto> finished r t StateSucceeded []))
      (mem_runs (w_store (work memory_ops env ex r w)))" using ks by blast
  obtain w1 where "call (st_GetJob memory_ops (r_JobID r)) w = (Inr j, w1)"
    using mem.call_GetJob_found [unfolded mem_world_ok_eq, OF ok(1) j] by blast
  then have "w_trace (work memory_ops env ex r w) = w_trace w @ [(j, r)]" by (rule work_trace)
  then show ?thesis using once_dep_chain [OF chain once_success [OF o r]] by simp
qed

lemma tick_once:
  assumes f: "flowing s B w" and o: "once k (mem_runs (w_store w)) (w_trace w)"
  shows "once k (mem_runs (w_store (tick s w))) (w_trace (tick s w))"
proof -
  define now where "now = e_now (s_env s) (w_clock w)"
  define w0 where "w0 = on_metrics Tick (w\<lparr>w_clock := w_clock w + 1\<rparr>)"
  let ?J = "mem_jobs (w_store w)" and ?P = "\<lambda>v. pipeline (mem_jobs (w_store w)) B (mem_runs (w_store v)) \<and> once k (mem_runs (w_store v)) (w_trace v)"
  have w0: "mem_world_ok (s_env s) w0" "w_store w0 = w_store w" "w_trace w0 = w_trace w"
    using f by (simp_all add: w0_def flowing_def mem_world_ok_def)
  have fl: "quiet (w_store w)" "all_succeed (s_env s) (s_exec s)" "pipeline ?J B (mem_runs (w_store w))" using f by (simp_all add: flowing_def)
  obtain res w1 where c: "claim_batch memory_ops s now w0 = (res, w1)" by fastforce
  note cb = mem_claim_batch_spec [OF w0(1) c, unfolded w0(2)]
  have st: "w_trace w1 = w_trace w"
    using trace.claim_frame [OF c] w0(3) by simp
  have P1: "?P w1" using claims_left [OF cb(3) fl(3)] once_claims [OF cb(3) o] st by simp
  have keep: "?P (work memory_ops (s_env s) (s_exec s) r v)"
    if v: "mem_world_ok (s_env s) v" "mem_jobs (w_store v) = ?J" "mem_runs (w_store v) (r_ID r) = Some r" "r_State r = StateRunning" "?P v" for v r
  proof -
    have "quiet (w_store v)" using fl(1) v(2) by (simp add: quiet_def jobs_named_def)
    then show ?thesis
      using work_left_less(1) [OF v(1) _ fl(2) v(3,4), of B] work_once [OF v(1) _ fl(2) v(3,4), of B] v(2,5) by simp
  qed
  have "?P (drain memory_ops s now w0)"
  proof (cases res)
    case (Inr rs)
    have "?P (work_all memory_ops (s_env s) (s_exec s) rs w1)"
      by (rule work_all_keeps [where P = ?P and J = ?J, OF keep]) (use cb(1,2) cb(4) [OF Inr] P1 in auto)
    then show ?thesis using c Inr P1 by (simp add: drain_def)
  qed (use c P1 in \<open>simp add: drain_def\<close>)
  moreover have "tick s w = publishBacklog memory_ops now (drain memory_ops s now w0)" by (simp add: tick_def w0_def now_def Let_def)
  moreover have "mem_runs (w_store (publishBacklog memory_ops now v)) = mem_runs (w_store v) \<and> w_trace (publishBacklog memory_ops now v) = w_trace v" for v
    by (simp add: publishBacklog_def call_def memory_ops_def ListRuns_def Let_def)
  ultimately show ?thesis by simp
qed

lemma after_once:
  "flowing s B w \<Longrightarrow> once k (mem_runs (w_store w)) (w_trace w) \<Longrightarrow> once k (mem_runs (w_store (after n s w))) (w_trace (after n s w))"
  by (induction n) (auto simp: after_Suc after_def [of 0] intro: tick_once after_progress [THEN conjunct1])

lemma ordered_start: "ordered env ex J Map.empty []"
  by (simp add: ordered_def batch_ordered_def)

definition order_of :: "'s world \<Rightarrow> string list" where
  "order_of w = map (j_ID \<circ> fst) (w_trace w)"

lemma distinct_map_inj:
  assumes "distinct (map g xs)" "\<And>x y. x \<in> set xs \<Longrightarrow> y \<in> set xs \<Longrightarrow> f x = f y \<Longrightarrow> g x = g y"
  shows "distinct (map f xs)"
proof -
  have g: "distinct xs" "inj_on g (set xs)" using assms(1) by (simp_all add: distinct_map)
  have "inj_on f (set xs)" by (rule inj_onI) (rule inj_onD [OF g(2) assms(2)])
  then show ?thesis using g(1) by (simp add: distinct_map)
qed

text \<open>The order of a batch that is executed once, from what holds of its runs and its trace.\<close>

lemma once_order:
  assumes ord: "ordered env ex J m T" and p: "pipeline J {b} m" and o: "once k m T"
  shows "distinct (map (r_JobID \<circ> snd) T)" "map (j_ID \<circ> fst) T = map (r_JobID \<circ> snd) T"
    "i < length T \<Longrightarrow> r_JobID (snd (T ! i)) = k \<or> (\<exists>j. J (r_JobID (snd (T ! i))) = Some j \<and> j_DependsOn j \<noteq> [] \<and>
       set (j_DependsOn j) \<subseteq> set (take i (map (r_JobID \<circ> snd) T)))"
proof -
  have batch: "r_BatchID (snd c) = b" "J (r_JobID (snd c)) = Some (fst c)" if "c \<in> set T" for c
    using orderedD(2) [OF ord that] p by (auto simp: pipeline_def ran_def)
  show "distinct (map (r_JobID \<circ> snd) T)"
  proof (rule distinct_map_inj)
    show "distinct (map (r_ID \<circ> snd) T)" using o by (simp add: once_def)
    fix c d assume cd: "c \<in> set T" "d \<in> set T" "(r_JobID \<circ> snd) c = (r_JobID \<circ> snd) d"
    then obtain x y where "m (r_ID (snd c)) = Some x" "identity x = identity (snd c)" "m (r_ID (snd d)) = Some y" "identity y = identity (snd d)"
      using o unfolding once_def by blast
    then show "(r_ID \<circ> snd) c = (r_ID \<circ> snd) d"
      using o cd(3) batch(1) [OF cd(1)] batch(1) [OF cd(2)] by (simp add: once_def single_def identity_def)
  qed
  show "map (j_ID \<circ> fst) T = map (r_JobID \<circ> snd) T" using batch(2) p by (auto simp: pipeline_def)
  obtain root where root: "\<forall>i<length T. r_BatchID (snd (T ! i)) = b \<longrightarrow>
      r_JobID (snd (T ! i)) = root \<or> prepared env ex J T i (r_JobID (snd (T ! i))) b"
    using orderedD(3) [OF ord, of b] unfolding batch_ordered_def by blast
  have first: "root = k" if "T \<noteq> []"
  proof -
    have "\<not> prepared env ex J T 0 (r_JobID (snd (T ! 0))) b" unfolding prepared_def by (auto simp: neq_Nil_conv)
    then have "r_JobID (snd (T ! 0)) = root" using root that batch(1) by auto
    then show ?thesis using o that by (simp add: once_def hd_conv_nth)
  qed
  show "r_JobID (snd (T ! i)) = k \<or> (\<exists>j. J (r_JobID (snd (T ! i))) = Some j \<and> j_DependsOn j \<noteq> [] \<and>
      set (j_DependsOn j) \<subseteq> set (take i (map (r_JobID \<circ> snd) T)))" if i: "i < length T"
  proof (cases "prepared env ex J T i (r_JobID (snd (T ! i))) b")
    case True
    then obtain j where j: "J (r_JobID (snd (T ! i))) = Some j" "j_DependsOn j \<noteq> []"
      "\<forall>d\<in>set (j_DependsOn j). \<exists>q<i. succeeded_call env ex T q d b" unfolding prepared_def by blast
    have "d \<in> set (take i (map (r_JobID \<circ> snd) T))" if d: "d \<in> set (j_DependsOn j)" for d
    proof -
      obtain q where "q < i" "r_JobID (snd (T ! q)) = d" using j(3) d succeeded_callD by blast
      then show ?thesis using i by (auto simp: in_set_conv_nth intro!: exI [of _ q])
    qed
    then show ?thesis using j(1,2) by blast
  next
    case False
    then have "r_JobID (snd (T ! i)) = root" using root i batch(1) by auto
    moreover have "root = k" by (rule first) (use i in auto)
    ultimately show ?thesis by simp
  qed
qed

lemma ordered_world_start:
  assumes "mem_world_ok env w" "jobs_named (w_store w)" "mem_runs (w_store w) = Map.empty" "w_trace w = []" "\<And>i. e_newID env i \<noteq> []"
  shows "mem.ordered_world env ex (mem_jobs (w_store w)) w"
  using assms by (simp add: mem.ordered_world_def mem_world_ok_eq batches_ok_def named_jobs_def jobs_named_def ordered_start)

text \<open>What a trigger leaves behind in a store without runs.\<close>

lemma Trigger_start:
  assumes ok: "mem_world_ok (s_env s) w" "quiet (w_store w)" and none: "mem_runs (w_store w) = Map.empty" "w_trace w = []"
    and ids: "\<And>i. e_newID (s_env s) i \<noteq> []" and ex: "all_succeed (s_env s) (s_exec s)"
    and t: "Trigger memory_ops (s_env s) k w = (Inr run, w0)"
  shows "mem.ordered_world (s_env s) (s_exec s) (mem_jobs (w_store w)) w0" "flowing s {r_BatchID run} w0" "mem_jobs (w_store w0) = mem_jobs (w_store w)"
    "once k (mem_runs (w_store w0)) (w_trace w0)" "r_JobID run = k" "mem_runs (w_store w0) = [r_ID run \<mapsto> run]"
proof -
  let ?J = "mem_jobs (w_store w)"
  have "mem.ordered_world (s_env s) (s_exec s) ?J w"
    using ok none ids by (intro ordered_world_start) (simp_all add: quiet_def)
  then show ow: "mem.ordered_world (s_env s) (s_exec s) ?J w0" using t by (rule mem.Trigger_ordered)
  then show jobs: "mem_jobs (w_store w0) = ?J" by (rule mem.ordered_worldD(2))
  obtain j where j: "?J k = Some j"
  proof (cases "?J k")
    case None
    then show thesis using t by (auto simp: Trigger_def bind_act_def call_def memory_ops_def GetJob_def mem_jobs_def)
  qed
  have key: "j_ID i = h" if "?J h = Some i" for h i using mem.job_key that ok(1) by (auto simp: mem_world_ok_def)
  obtain rid b now where run: "run = triggered_run rid b j now" "mem_runs (w_store w0) = (mem_runs (w_store w))(rid \<mapsto> run)"
    using mem_Trigger_exact [OF ok(1) j] t unfolding Let_def by auto
  show m: "mem_runs (w_store w0) = [r_ID run \<mapsto> run]" using run none(1) by (simp add: triggered_run_def)
  show k: "r_JobID run = k" using run(1) key [OF j] by (simp add: triggered_run_def)
  have pending: "r_State run = StatePending" by (simp add: run(1) triggered_run_def)
  have tr: "w_trace w0 = []"
    using t none(2) by (auto simp: Trigger_def bind_act_def read_clock_def newID_def Let_def split: prod.splits sum.splits dest!: trace.call_frame)
  show "once k (mem_runs (w_store w0)) (w_trace w0)" using k by (auto simp: once_def single_def m tr split: if_splits)
  have "r_BatchID run \<noteq> []" using mem.ordered_worldD(5) [OF ow] by (simp add: m batches_ok_def)
  moreover have "finite (dom ?J)" by (simp add: mem_jobs_def finite_dom_map_of)
  ultimately have "pipeline ?J {r_BatchID run} (mem_runs (w_store w0))"
    using pending key j k by (auto simp: pipeline_def m unfinished_def)
  moreover have "advanced ?J (mem_runs (w_store w0))"
    using pending by (auto simp: advanced_def m succeeded_in_def run_state_defs neq_Nil_conv)
  moreover have "quiet (w_store w0)" using ok(2) jobs by (simp add: quiet_def jobs_named_def)
  ultimately show "flowing s {r_BatchID run} w0" using mem.ordered_worldD(1) [OF ow] ex jobs by (simp add: flowing_def mem_world_ok_eq)
qed

text \<open>The calls of the executor respect the dependencies: each job is the given one or comes after all it depends on.\<close>

definition dependency_order :: "(string \<rightharpoonup> Job) \<Rightarrow> string \<Rightarrow> string list \<Rightarrow> bool" where
  "dependency_order J k xs \<longleftrightarrow>
     (\<forall>p<length xs. xs ! p = k \<or>
        (\<exists>j. J (xs ! p) = Some j \<and> j_DependsOn j \<noteq> [] \<and> set (j_DependsOn j) \<subseteq> set (take p xs)))"

lemma order_downstream:
  assumes "in_batch m k b" "dependency_order J k xs"
  shows "i < length xs \<Longrightarrow> downstream J m b (xs ! i)"
proof (induction i rule: less_induct)
  case (less i)
  consider "xs ! i = k" | j where "J (xs ! i) = Some j" "j_DependsOn j \<noteq> []" "set (j_DependsOn j) \<subseteq> set (take i xs)"
    using assms(2) less.prems unfolding dependency_order_def by blast
  then show ?case
  proof cases
    case 1
    then show ?thesis using assms(1) by (simp add: downstream.Present)
  next
    case 2
    have "downstream J m b d" if d: "d \<in> set (j_DependsOn j)" for d
    proof -
      have "d \<in> set (take i xs)" using 2(3) d by blast
      then obtain q where "q < i" "xs ! q = d" by (auto simp: in_set_conv_nth)
      then show ?thesis using less.IH [of q] less.prems by simp
    qed
    then show ?thesis by (intro downstream.Dependent [where J = J and k = "xs ! i", OF 2(1,2)]) blast
  qed
qed

lemma triggered_order:
  assumes "mem_world_ok (s_env s) w" "quiet (w_store w)" "mem_runs (w_store w) = Map.empty" "w_trace w = []"
    and "\<And>i. e_newID (s_env s) i \<noteq> []" "all_succeed (s_env s) (s_exec s)" "clock_advances (s_env s)"
    and "Trigger memory_ops (s_env s) k w = (Inr run, w0)"
  shows "\<exists>n. \<forall>i\<ge>n. \<exists>w'. Run_loop memory_ops (replicate i TickerC) s w0 = Waiting s w' \<and>
    distinct (order_of w') \<and> dependency_order (mem_jobs (w_store w0)) k (order_of w') \<and>
    set (order_of w') = {x. downstream (mem_jobs (w_store w0)) (mem_runs (w_store w0)) (r_BatchID run) x}"
proof -
  note st = Trigger_start [OF assms(1-6,8)]
  let ?J = "mem_jobs (w_store w0)" and ?m = "mem_runs (w_store w0)" and ?b = "r_BatchID run"
  define D where "D = {x. downstream ?J ?m ?b x}"
  have root: "in_batch ?m k ?b" using st(5,6) by (auto simp: in_batch_def)
  have b: "?b \<noteq> []" using st(2) by (auto simp: flowing_def pipeline_def)
  have "D \<subseteq> insert k (dom ?J)" unfolding D_def using st(5,6) by (auto elim!: downstream.cases simp: in_batch_def)
  moreover have "finite (dom ?J)" by (simp add: mem_jobs_def finite_dom_map_of)
  ultimately obtain ds where ds: "set ds = D" using finite_list [of D] finite_subset by (metis finite.insertI)
  have "\<forall>d\<in>set ds. \<exists>n. \<forall>i\<ge>n. succeeded_in (mem_runs (w_store (after i s w0))) d ?b"
    using downstream_completes [OF assms(7) st(2) b] by (simp add: ds D_def)
  from all_eventually [OF this] obtain n where n: "\<forall>i\<ge>n. \<forall>d\<in>D. succeeded_in (mem_runs (w_store (after i s w0))) d ?b"
    unfolding ds by blast
  show ?thesis
  proof (intro exI [of _ n] allI impI)
    fix i assume i: "n \<le> i"
    let ?w = "after i s w0"
    let ?T = "w_trace ?w"
    have run: "Run_loop memory_ops (replicate i TickerC) s w0 = Waiting s ?w" by (rule Run_loop_after [OF st(2)])
    have ord: "ordered (s_env s) (s_exec s) ?J (mem_runs (w_store ?w)) ?T"
      using mem.reaches_ordered [OF Run_loop_reaches] run st(1,3) mem.ordered_worldD(6) by metis
    have "pipeline ?J {?b} (mem_runs (w_store ?w))" using after_progress [OF st(2), of i] by (simp add: progress_def)
    note oo = once_order [OF ord this after_once [OF st(2,4)]]
    have eq: "order_of ?w = map (r_JobID \<circ> snd) ?T" using oo(2) by (simp add: order_of_def)
    have pos: "dependency_order ?J k (order_of ?w)" using oo(3) by (simp add: eq dependency_order_def)
    have "x \<in> set (order_of ?w)" if "x \<in> D" for x
    proof -
      obtain q where "q < length ?T" "r_JobID (snd (?T ! q)) = x"
        using ordered_succeeded [OF ord] n i \<open>x \<in> D\<close> succeeded_callD by blast
      then show ?thesis by (auto simp: eq in_set_conv_nth intro!: exI [of _ q])
    qed
    moreover have "x \<in> D" if "x \<in> set (order_of ?w)" for x
      using order_downstream [OF root pos] that by (auto simp: D_def in_set_conv_nth)
    ultimately have "set (order_of ?w) = D" by blast
    then show "\<exists>w'. Run_loop memory_ops (replicate i TickerC) s w0 = Waiting s w' \<and> distinct (order_of w') \<and>
        dependency_order ?J k (order_of w') \<and> set (order_of w') = {x. downstream ?J ?m ?b x}"
      using run oo(1) pos by (intro exI [of _ ?w]) (simp add: eq D_def)
  qed
qed

text \<open>A chain of three jobs has one order.\<close>

lemma three_in_order:
  assumes "distinct xs" "set xs = {a, b, c}" "distinct [a, b, c]" "dependency_order J a xs"
    and "J b = Some jb" "j_DependsOn jb = [a]" "J c = Some jc" "j_DependsOn jc = [b]"
  shows "xs = [a, b, c]"
proof -
  have "length xs = 3" using distinct_card [OF assms(1)] assms(2,3) by simp
  then obtain x y z where xs: "xs = [x, y, z]" by (auto simp: numeral_3_eq_3 length_Suc_conv)
  have at: "xs ! p = a \<or> xs ! p = b \<and> a \<in> set (take p xs) \<or> xs ! p = c \<and> b \<in> set (take p xs)" if "p < 3" for p
  proof -
    have "xs ! p \<in> {a, b, c}" using that nth_mem [of p xs] \<open>length xs = 3\<close> assms(2) by simp
    moreover have "xs ! p = a \<or> (\<exists>j. J (xs ! p) = Some j \<and> set (j_DependsOn j) \<subseteq> set (take p xs))"
      using assms(4) that \<open>length xs = 3\<close> unfolding dependency_order_def by metis
    ultimately show ?thesis using assms(5-8) by auto
  qed
  have "x = a" using at [of 0] by (simp add: xs)
  moreover have "y = b" using at [of 1] assms(1,3) by (auto simp: xs \<open>x = a\<close>)
  ultimately show ?thesis using assms(1-3) by (auto simp: xs)
qed

lemma downstream_chain:
  assumes "m = [rid \<mapsto> run]" "r_JobID run = a" "J b = Some jb" "j_DependsOn jb = [a]" "J c = Some jc" "j_DependsOn jc = [b]"
    and "dom J \<subseteq> {a, b, c}"
  shows "{x. downstream J m (r_BatchID run) x} = {a, b, c}"
proof -
  have a: "downstream J m (r_BatchID run) a" by (rule downstream.Present) (simp add: in_batch_def assms(1,2))
  have b: "downstream J m (r_BatchID run) b" by (rule downstream.Dependent [where J = J, OF assms(3)]) (use a in \<open>simp_all add: assms(4)\<close>)
  have c: "downstream J m (r_BatchID run) c" by (rule downstream.Dependent [where J = J, OF assms(5)]) (use b in \<open>simp_all add: assms(6)\<close>)
  have "x \<in> {a, b, c}" if "downstream J m (r_BatchID run) x" for x
    using that assms(7) by cases (auto simp: in_batch_def assms(1,2))
  then show ?thesis using a b c by blast
qed

definition idle_world :: "MemStore world" where
  "idle_world = sample_world\<lparr>w_store := \<lparr>m_jobs = chain_jobs, m_runs = []\<rparr>\<rparr>"

lemma idle_ok:
  "mem_world_ok (s_env chain_scheduler) idle_world" "quiet (w_store idle_world)" "mem_runs (w_store idle_world) = Map.empty"
  "w_trace idle_world = []" "e_newID (s_env chain_scheduler) i \<noteq> []"
proof -
  show "mem_world_ok (s_env chain_scheduler) idle_world"
    using sample_world_ok
    by (auto simp: mem_world_ok_def idle_world_def chain_jobs_def chain_scheduler_def sample_env_def mem_inv_def mem_runs_def zero_job_def)
  show "quiet (w_store idle_world)"
    by (auto simp: quiet_def jobs_named_def idle_world_def chain_jobs_def mem_jobs_def ran_def zero_job_def split: if_splits)
qed (simp_all add: idle_world_def mem_runs_def sample_world_def chain_scheduler_def sample_env_def show_nat_nonempty)

lemma idle_trigger: "\<exists>run w0. Trigger memory_ops (s_env chain_scheduler) ''a'' idle_world = (Inr run, w0)"
  using mem_Trigger_exact [OF idle_ok(1), of "''a''" "zero_job\<lparr>j_ID := ''a''\<rparr>"]
  by (auto simp: Let_def idle_world_def chain_jobs_def mem_jobs_def)

text \<open>The order of the calls, read off the invariant.\<close>

lemma ordered_trace:
  assumes ord: "ordered env ex J m T"
  shows "\<exists>root. \<forall>p<length T. case T ! p of (j, r) \<Rightarrow>
    r_JobID r = root (r_BatchID r) \<or>
    j_DependsOn j \<noteq> [] \<and> (\<forall>d\<in>set (j_DependsOn j). \<exists>q<p. succeeded_call env ex T q d (r_BatchID r))"
proof -
  have "\<forall>b. \<exists>root. \<forall>p<length T. r_BatchID (snd (T ! p)) = b \<longrightarrow>
      r_JobID (snd (T ! p)) = root \<or> prepared env ex J T p (r_JobID (snd (T ! p))) b"
    using orderedD(3) [OF ord] unfolding batch_ordered_def by blast
  then obtain root where root: "\<forall>b. \<forall>p<length T. r_BatchID (snd (T ! p)) = b \<longrightarrow>
      r_JobID (snd (T ! p)) = root b \<or> prepared env ex J T p (r_JobID (snd (T ! p))) b" by metis
  show ?thesis
  proof (intro exI [of _ root] allI impI)
    fix p assume p: "p < length T"
    then have "J (r_JobID (snd (T ! p))) = Some (fst (T ! p))" using orderedD(2) [OF ord nth_mem] by blast
    then show "case T ! p of (j, r) \<Rightarrow> r_JobID r = root (r_BatchID r) \<or>
        j_DependsOn j \<noteq> [] \<and> (\<forall>d\<in>set (j_DependsOn j). \<exists>q<p. succeeded_call env ex T q d (r_BatchID r))"
      using root p by (auto simp: prepared_def split: prod.splits)
  qed
qed

text \<open>A triggered chain of jobs makes progress.\<close>

lemma chain_reaches:
  "\<exists>w' b. reaches memory_ops chain_scheduler idle_world chain_scheduler w' \<and> succeeded_in (mem_runs (w_store w')) ''a'' b"
proof -
  let ?s = chain_scheduler
  obtain run w0 where t: "Trigger memory_ops (s_env ?s) ''a'' idle_world = (Inr run, w0)" using idle_trigger by blast
  note st = Trigger_start [OF idle_ok chain_clock(2) t]
  have "in_batch (mem_runs (w_store w0)) ''a'' (r_BatchID run)" using st(5,6) by (auto simp: in_batch_def)
  then obtain n where n: "succeeded_in (mem_runs (w_store (after n ?s w0))) ''a'' (r_BatchID run)"
    using batch_completes [OF chain_clock(1) st(2)] by blast
  have "reaches memory_ops ?s w0 ?s (after n ?s w0)" using Run_loop_reaches Run_loop_after [OF st(2)] by blast
  then have "reaches memory_ops ?s idle_world ?s (after n ?s w0)"
    using t by (blast intro: reaches_trans reaches.Start reaches.Triggered)
  then show ?thesis using n by blast
qed

section \<open>Properties\<close>



end
