(* ===== verification/Examples.thy ===== *)
theory Examples
  imports Ordering
begin

text \<open>
  The example programs (\<^verbatim>\<open>src/examples\<close>), each as a function from what it gets from outside to what it prints:
  fire times as instants, delays as durations, and for the pipeline the order of execution. They put the packages together the way a user would.
\<close>

section \<open>cron-next\<close>

fun next_times :: "Schedule \<Rightarrow> nat \<Rightarrow> time \<Rightarrow> time list option" where
  "next_times sched 0 t = Some []"
| "next_times sched (Suc n) t =
     (case schedule_next sched t of
        None \<Rightarrow> None
      | Some t \<Rightarrow> map_option (\<lambda>ts. t # ts) (next_times sched n t))"

text \<open>\<open>None\<close> when the program does not return, \<open>Inl\<close> when it exits with status 1. The arguments come without the
  program's name.\<close>

definition spec_arg :: "string list \<Rightarrow> string" where
  "spec_arg args = (if 0 < length args then args ! 0 else ''*/15 * * * *'')"

definition cron_next_main :: "string list \<Rightarrow> time \<Rightarrow> (cron_error + string \<times> time list) option" where
  "cron_next_main args now =
     (let spec = spec_arg args
      in case Parse spec of
           Inl err \<Rightarrow> Some (Inl err)
         | Inr sched \<Rightarrow> map_option (\<lambda>ts. Inr (spec, ts)) (next_times sched 5 now))"

lemma next_times_returns:
  assumes "\<And>t. \<exists>r. schedule_next sched t = Some r"
  shows "\<exists>ts. next_times sched n t = Some ts \<and> length ts = n \<and>
    (\<forall>i<n. schedule_next sched ((t # ts) ! i) = Some (ts ! i))"
proof (induction n arbitrary: t)
  case (Suc n)
  obtain r where r: "schedule_next sched t = Some r" using assms by blast
  from Suc [of r] obtain ts where ts: "next_times sched n r = Some ts" "length ts = n"
    "\<forall>i<n. schedule_next sched ((r # ts) ! i) = Some (ts ! i)" by blast
  have "schedule_next sched ((t # r # ts) ! i) = Some ((r # ts) ! i)" if "i < Suc n" for i
    using that r ts(3) by (cases i) simp_all
  then show ?case using r ts(1,2) by auto
qed simp

text \<open>The program always returns: with an error exactly when the expression does not parse, and otherwise with
  five instants, each the schedule's next one after the one before it.\<close>

theorem cron_next_returns:
  "\<exists>res. cron_next_main args now = Some res \<and>
     (case Parse (spec_arg args) of
        Inl err \<Rightarrow> res = Inl err
      | Inr sched \<Rightarrow>
          \<exists>ts. res = Inr (spec_arg args, ts) \<and> length ts = 5 \<and> (\<forall>i<5. schedule_next sched ((now # ts) ! i) = Some (ts ! i)))"
proof (cases "Parse (spec_arg args)")
  case (Inl err)
  then show ?thesis by (simp add: cron_next_main_def Let_def)
next
  case (Inr sched)
  obtain ts where ts: "next_times sched 5 now = Some ts" "length ts = 5"
    "\<forall>i<5. schedule_next sched ((now # ts) ! i) = Some (ts ! i)"
    using next_times_returns [of sched 5 now] Parse_next [OF Inr] by blast
  have "cron_next_main args now = Some (Inr (spec_arg args, ts))" using Inr ts(1) by (simp add: cron_next_main_def Let_def)
  then show ?thesis using Inr ts(2,3) by simp
qed

section \<open>backoff\<close>

text \<open>Go's \<^verbatim>\<open>Duration.Round\<close>: to the nearest multiple, halves away from zero, saturating.\<close>

definition Round :: "duration \<Rightarrow> duration \<Rightarrow> duration" where
  "Round d m =
     (if m \<le> 0 then d
      else let r = \<bar>d\<bar> mod m
           in if d < 0 then
                if r + r < m then d + r
                else if wrap64 (d - m + r) < d then wrap64 (d - m + r) else min_int64
              else
                if r + r < m then d - r
                else if d < wrap64 (d + m - r) then wrap64 (d + m - r) else max_int64)"

definition example_policy :: Exponential where
  "example_policy = \<lparr>e_Base = 200 * 1000000, e_Max = 10 * SecondD, e_Factor = Fin 2, e_Jitter = to_f64 (1 / 10)\<rparr>"

definition backoff_main :: "(nat \<Rightarrow> f64) \<Rightarrow> (int \<times> duration) list" where
  "backoff_main rand = map (\<lambda>i. (int i, Round (Delay (rand i) example_policy (int i)) 1000000)) [0..<8]"

lemma Round_bounds:
  assumes "0 < m" "0 \<le> d" "d \<le> c" "m dvd c" "c + m \<le> max_int64"
  shows "0 \<le> Round d m \<and> Round d m \<le> c"
proof -
  define r where "r = d mod m"
  have r: "0 \<le> r" "r < m" "r \<le> d" using assms(1,2) by (simp_all add: r_def zmod_le_nonneg_dividend)
  obtain k where k: "c = m * k" using assms(4) by blast
  have d: "d = m * (d div m) + r" by (simp add: r_def)
  have "d + m - r \<le> c" if "0 < r"
  proof -
    have "m * (d div m) < m * k" using d k assms(3) that by linarith
    then have "d div m + 1 \<le> k" using assms(1) by (simp add: mult_less_cancel_left_pos)
    then have "m * (d div m + 1) \<le> m * k" using assms(1) by (simp add: mult_left_mono)
    then show ?thesis using d k by (simp add: distrib_left)
  qed
  moreover have "wrap64 (d + m - r) = d + m - r"
    using assms r by (intro wrap64_id) (auto simp: min_int64_def max_int64_def)
  moreover have "0 < r" if "\<not> r + r < m" using that assms(1) by linarith
  ultimately show ?thesis using assms r by (auto simp: Round_def r_def [symmetric] Let_def)
qed

text \<open>The printed delays lie between 0 and the cap, whatever the random numbers.\<close>

theorem backoff_example_bounds:
  assumes "\<And>i. \<exists>x. rand i = Fin x \<and> 0 \<le> x \<and> x \<le> 1" "(i, d) \<in> set (backoff_main rand)"
  shows "0 \<le> i \<and> i < 8 \<and> 0 \<le> d \<and> d \<le> 10 * SecondD"
proof -
  obtain n where n: "n < 8" "i = int n" "d = Round (Delay (rand n) example_policy (int n)) 1000000"
    using assms(2) by (auto simp: backoff_main_def)
  obtain x where x: "rand n = Fin x" "0 \<le> x" "x \<le> 1" using assms(1) by blast
  have "0 \<le> Delay (Fin x) example_policy (int n) \<and> Delay (Fin x) example_policy (int n) \<le> e_Max example_policy"
    using x by (intro Delay_in_cap) (simp_all add: example_policy_def SecondD_def max_int64_def)
  then have "0 \<le> d \<and> d \<le> 10 * SecondD"
    unfolding n(3) x(1) by (intro Round_bounds) (simp_all add: example_policy_def SecondD_def max_int64_def)
  then show ?thesis using n(1,2) by simp
qed

section \<open>inmemory-dag\<close>

definition dag_jobs :: "Job list" where
  "dag_jobs =
     [zero_job\<lparr>j_ID := ''extract'', j_Name := ''Extract'', j_Enabled := True\<rparr>,
      zero_job\<lparr>j_ID := ''transform'', j_Name := ''Transform'', j_Enabled := True, j_DependsOn := [''extract'']\<rparr>,
      zero_job\<lparr>j_ID := ''load'', j_Name := ''Load'', j_Enabled := True, j_DependsOn := [''transform'']\<rparr>]"

definition dag_options :: Options where
  "dag_options = \<lparr>o_Executor = Some (ExecutorFunc (\<lambda>_ _ _ _. None)), o_TickInterval = 25 * 1000000, o_Workers = 1, o_Lease = 0,
     o_NewID = None, o_Clock = None, o_Now = None\<rparr>"

fun put_each :: "'s store_ops \<Rightarrow> Job list \<Rightarrow> 's world \<Rightarrow> (store_error + unit) \<times> 's world" where
  "put_each ops [] w = (Inr (), w)"
| "put_each ops (j # jobs) w =
     (case call (st_PutJob ops j) w of
        (Inl err, w) \<Rightarrow> (Inl err, w)
      | (Inr _, w) \<Rightarrow> put_each ops jobs w)"

text \<open>\<open>Inl\<close> when the program exits with status 1, otherwise the list it prints once \<^verbatim>\<open>Run\<close> has returned (\<open>None\<close> if it has
  not). The callback of the executor appends the job to that list and succeeds, so the list is the
  order of the calls. \<open>evs\<close> are the events of the loop; the context of the program is done after a second.\<close>

definition dag_world_new :: "MemStore world" where
  "dag_world_new = \<lparr>w_store = New, w_metrics = [], w_ids = 0, w_clock = 0, w_rands = 0, w_trace = []\<rparr>"

definition dag_main :: "system \<Rightarrow> event list \<Rightarrow> store_error + string list option" where
  "dag_main sys evs =
     (let s = NewScheduler sys dag_options
      in case put_each memory_ops dag_jobs dag_world_new of
           (Inl err, w) \<Rightarrow> Inl err
         | (Inr _, w) \<Rightarrow>
             (case Trigger memory_ops (s_env s) ''extract'' w of
                (Inl err, w) \<Rightarrow> Inl err
              | (Inr _, w) \<Rightarrow>
                  (case Run_loop memory_ops evs s w of
                     Returned s w \<Rightarrow> Inr (Some (order_of w))
                   | _ \<Rightarrow> Inr None)))"

definition dag_idle :: "MemStore world" where
  "dag_idle = dag_world_new\<lparr>w_store := \<lparr>m_jobs = map (\<lambda>j. (j_ID j, j)) dag_jobs, m_runs = []\<rparr>\<rparr>"

lemma put_dag_jobs: "put_each memory_ops dag_jobs dag_world_new = (Inr (), dag_idle)"
  by (simp add: dag_idle_def dag_jobs_def dag_world_new_def call_def memory_ops_def PutJob_def New_def Let_def)

lemma dag_idle_ok:
  assumes "inj (defaultID sys)"
  shows "mem_world_ok (s_env (NewScheduler sys dag_options)) dag_idle" "quiet (w_store dag_idle)"
    "mem_runs (w_store dag_idle) = Map.empty" "w_trace dag_idle = []"
proof -
  show "mem_world_ok (s_env (NewScheduler sys dag_options)) dag_idle"
    using assms by (auto simp: mem_world_ok_def NewScheduler_def dag_options_def dag_idle_def dag_jobs_def mem_inv_def mem_runs_def Let_def)
  show "quiet (w_store dag_idle)"
    by (auto simp: quiet_def jobs_named_def dag_idle_def dag_jobs_def mem_jobs_def ran_def zero_job_def split: if_splits)
qed (simp_all add: dag_idle_def dag_world_new_def mem_runs_def)

lemma Run_loop_append:
  "Run_loop ops (evs @ rest) s w =
     (case Run_loop ops evs s w of Waiting s w \<Rightarrow> Run_loop ops rest s w | Returned s w \<Rightarrow> Returned s w | Stuck \<Rightarrow> Stuck)"
  by (induction ops evs s w rule: Run_loop.induct) (simp_all add: Let_def split: prod.split option.split)

text \<open>The pipeline example prints extract, transform, load: given identifiers that do not repeat and are not empty
  and a clock that advances, once there have been enough ticks before the context is done.\<close>

theorem dag_example_prints:
  assumes "inj (defaultID sys)" "\<And>n. defaultID sys n \<noteq> []" "\<And>n. \<not> sys_cancelled sys n" "\<And>t. \<exists>c. \<forall>i\<ge>c. t < Real_Now (sys_now sys) i"
  shows "\<exists>n. \<forall>i\<ge>n. dag_main sys (replicate i TickerC @ [CtxDone]) = Inr (Some [''extract'', ''transform'', ''load''])"
proof -
  let ?s = "NewScheduler sys dag_options" and ?J = "mem_jobs (w_store dag_idle)"
  note ok = dag_idle_ok [OF assms(1)]
  have env: "all_succeed (s_env ?s) (s_exec ?s)" "clock_advances (s_env ?s)" "\<And>i. e_newID (s_env ?s) i \<noteq> []"
    using assms(2-4) by (simp_all add: all_succeed_def clock_advances_def NewScheduler_def dag_options_def Execute_def Let_def)
  obtain je jt jl where j: "?J ''extract'' = Some je" "?J ''transform'' = Some jt" "j_DependsOn jt = [''extract'']"
    "?J ''load'' = Some jl" "j_DependsOn jl = [''transform'']" and dom: "dom ?J \<subseteq> {''extract'', ''transform'', ''load''}"
    by (auto simp: dag_idle_def dag_jobs_def mem_jobs_def split: if_splits)
  obtain run w0 where t: "Trigger memory_ops (s_env ?s) ''extract'' dag_idle = (Inr run, w0)"
    using mem_Trigger_exact [OF ok(1) j(1)] unfolding Let_def by blast
  note st = Trigger_start [OF ok env(3,1) t]
  have set: "{x. downstream (mem_jobs (w_store w0)) (mem_runs (w_store w0)) (r_BatchID run) x} = {''extract'', ''transform'', ''load''}"
    unfolding st(3) by (rule downstream_chain [OF st(6,5) j(2-5) dom])
  from triggered_order [OF ok env(3,1,2) t] obtain n where n: "\<forall>i\<ge>n. \<exists>w'. Run_loop memory_ops (replicate i TickerC) ?s w0 = Waiting ?s w' \<and>
      distinct (order_of w') \<and> dependency_order ?J ''extract'' (order_of w') \<and> set (order_of w') = {''extract'', ''transform'', ''load''}"
    unfolding st(3) set [unfolded st(3)] by blast
  have "dag_main sys (replicate i TickerC @ [CtxDone]) = Inr (Some [''extract'', ''transform'', ''load''])" if i: "n \<le> i" for i
  proof -
    obtain w' where w': "Run_loop memory_ops (replicate i TickerC) ?s w0 = Waiting ?s w'" "distinct (order_of w')"
      "dependency_order ?J ''extract'' (order_of w')" "set (order_of w') = {''extract'', ''transform'', ''load''}" using n i by blast
    have "order_of w' = [''extract'', ''transform'', ''load'']" by (rule three_in_order [OF w'(2,4) _ w'(3) j(2-5)]) simp
    then show ?thesis using w'(1) t by (simp add: dag_main_def put_dag_jobs Run_loop_append)
  qed
  then show ?thesis by blast
qed

definition sample_system :: system where
  "sample_system = \<lparr>sys_bytes = (\<lambda>n. Some (replicate (Suc n) 0)), sys_stamp = (\<lambda>_. []), sys_now = (\<lambda>n. int n), sys_rand = (\<lambda>_. Fin 0),
     sys_command = (\<lambda>_ _ _ _. None), sys_cancelled = (\<lambda>_. False)\<rparr>"

theorem dag_example_prints_witness:
  "\<exists>n. dag_main sample_system (replicate n TickerC @ [CtxDone]) = Inr (Some [''extract'', ''transform'', ''load''])"
proof -
  have len: "length (defaultID sample_system n) = 2 * Suc n" for n
    by (simp add: defaultID_def sample_system_def length_EncodeToString)
  then have "inj (defaultID sample_system)" by (intro injI) (metis Suc_inject mult_left_cancel zero_neq_numeral)
  moreover have "defaultID sample_system n \<noteq> []" for n using len [of n] by auto
  moreover have "\<exists>c. \<forall>i\<ge>c. t < Real_Now (sys_now sample_system) i" for t
    by (rule exI [of _ "nat (\<bar>t\<bar> + 1)"]) (auto simp: Real_Now_def sample_system_def)
  moreover have "\<not> sys_cancelled sample_system n" for n by (simp add: sample_system_def)
  ultimately show ?thesis using dag_example_prints [of sample_system] by blast
qed

end
