(* ===== verification/Interleaving.thy ===== *)
theory Interleaving
  imports Main
begin

text \<open>
  Goroutines as resumptions, and pools of them that interleave. A program is a tree of atomic
  actions on the shared world, with \<open>Lock\<close> and \<open>Unlock\<close> of one mutex; it is always finite along
  every path. A pool runs programs under a counting semaphore that admits the first \<open>p_claimed\<close> of
  them in order, at most \<open>n\<close> unfinished at a time; the others run freely.

  The locale \<open>rely_guarantee\<close> is a small logic for invariants of such pools. An assertion of a
  program has to survive the steps of the others; identifiers drawn from a shared counter belong
  to the program that drew them.
\<close>

section \<open>Programs\<close>

datatype 'w prog = Halt | Atomic "'w \<Rightarrow> 'w prog \<times> 'w" | Lock "'w prog" | Unlock "'w prog"

primrec run_prog :: "'w prog \<Rightarrow> 'w \<Rightarrow> 'w" where
  "run_prog Halt = (\<lambda>w. w)"
| "run_prog (Atomic f) = (\<lambda>w. case map_prod run_prog id (f w) of (g, w') \<Rightarrow> g w')"
| "run_prog (Lock p) = run_prog p"
| "run_prog (Unlock p) = run_prog p"

definition act :: "('w \<Rightarrow> 'a \<times> 'w) \<Rightarrow> ('a \<Rightarrow> 'w prog) \<Rightarrow> 'w prog" where
  "act a k = Atomic (\<lambda>w. case a w of (x, w') \<Rightarrow> (k x, w'))"

lemma run_act [simp]: "run_prog (act a k) w = (case a w of (x, w') \<Rightarrow> run_prog (k x) w')"
  by (simp add: act_def split: prod.split)

text \<open>What a program can become in one step.\<close>

inductive successor :: "'w prog \<Rightarrow> 'w prog \<Rightarrow> bool" where
  "f w = (q, w') \<Longrightarrow> successor q (Atomic f)"
| "successor q (Lock q)"
| "successor q (Unlock q)"

inductive_cases successorE: "successor q p"

lemma wfp_successor: "wfp (successor :: 'w prog \<Rightarrow> 'w prog \<Rightarrow> bool)"
proof (rule wfpUNIVI)
  fix P :: "'w prog \<Rightarrow> bool" and p
  assume ind: "\<forall>p. (\<forall>q. successor q p \<longrightarrow> P q) \<longrightarrow> P p"
  show "P p"
  proof (induction p)
    case (Atomic f)
    have "P q" if "f w = (q, w')" for q w w'
      using Atomic [of "f w" q] that by (simp add: range_eqI [of _ f w] fsts.intros)
    then show ?case using ind by (blast elim: successorE)
  qed (use ind in \<open>blast elim: successorE\<close>)+
qed

section \<open>Pools\<close>

record 'w pool =
  p_progs :: "'w prog list"
  p_claimed :: nat
  p_started :: nat
  p_lock :: "nat option"
  p_world :: 'w

definition enabled :: "'w pool \<Rightarrow> nat \<Rightarrow> bool" where
  "enabled p i \<longleftrightarrow> i < length (p_progs p) \<and> (i < p_started p \<or> p_claimed p \<le> i)"

definition running :: "'w pool \<Rightarrow> nat" where
  "running p = length (filter (\<lambda>q. q \<noteq> Halt) (take (p_started p) (p_progs p)))"

inductive pool_step :: "nat \<Rightarrow> 'w pool \<Rightarrow> 'w pool \<Rightarrow> bool" for n where
  Spawn: "p_started p < p_claimed p \<Longrightarrow> running p < n \<Longrightarrow> pool_step n p (p\<lparr>p_started := Suc (p_started p)\<rparr>)"
| Action: "enabled p i \<Longrightarrow> p_progs p ! i = Atomic f \<Longrightarrow> f (p_world p) = (q, w') \<Longrightarrow>
    pool_step n p (p\<lparr>p_progs := (p_progs p)[i := q], p_world := w'\<rparr>)"
| Acquire: "enabled p i \<Longrightarrow> p_progs p ! i = Lock q \<Longrightarrow> p_lock p = None \<Longrightarrow>
    pool_step n p (p\<lparr>p_progs := (p_progs p)[i := q], p_lock := Some i\<rparr>)"
| Release: "enabled p i \<Longrightarrow> p_progs p ! i = Unlock q \<Longrightarrow> p_lock p = Some i \<Longrightarrow>
    pool_step n p (p\<lparr>p_progs := (p_progs p)[i := q], p_lock := None\<rparr>)"

definition finished_pool :: "'w pool \<Rightarrow> bool" where
  "finished_pool p \<longleftrightarrow> p_started p = p_claimed p \<and> (\<forall>q\<in>set (p_progs p). q = Halt)"

text \<open>Every interleaving comes to an end.\<close>

definition pool_measure :: "'w pool \<Rightarrow> nat \<times> 'w prog list" where
  "pool_measure p = (p_claimed p - p_started p, p_progs p)"

lemma update_successor:
  "successor q (ps ! i) \<Longrightarrow> i < length ps \<Longrightarrow> (ps[i := q], ps) \<in> listrel1 {(q, r). successor q r}"
  by (rule listrel1I [of q "ps ! i" _ _ "take i ps" "drop (Suc i) ps"])
     (simp_all add: upd_conv_take_nth_drop id_take_nth_drop [symmetric])

lemma pool_step_measure:
  assumes "pool_step n p p'"
  shows "(pool_measure p', pool_measure p) \<in> less_than <*lex*> listrel1 {(q, r). successor q r}"
  using assms
proof cases
  case Spawn
  then show ?thesis by (simp add: pool_measure_def diff_less_mono2)
next
  case (Action i f q w')
  then have "successor q (p_progs p ! i)" by (auto intro: successor.intros)
  then show ?thesis using Action by (simp add: pool_measure_def enabled_def update_successor)
next
  case (Acquire i q)
  then have "successor q (p_progs p ! i)" by (auto intro: successor.intros)
  then show ?thesis using Acquire by (simp add: pool_measure_def enabled_def update_successor)
next
  case (Release i q)
  then have "successor q (p_progs p ! i)" by (auto intro: successor.intros)
  then show ?thesis using Release by (simp add: pool_measure_def enabled_def update_successor)
qed

lemma pool_step_wf: "wfp (\<lambda>p' p. pool_step n p p')"
proof -
  have "wf {(q, r). successor q (r :: 'a prog)}" using wfp_successor by (simp add: wfp_def)
  then have "wf (less_than <*lex*> listrel1 {(q, r). successor q (r :: 'a prog)})"
    by (intro wf_lex_prod wf_less_than) (simp add: wf_listrel1_iff)
  then have "wf (inv_image (less_than <*lex*> listrel1 {(q, r). successor q (r :: 'a prog)}) pool_measure)" by simp
  then show ?thesis unfolding wfp_def by (rule wf_subset) (auto dest: pool_step_measure)
qed

section \<open>Rely and guarantee\<close>

text \<open>
  \<open>I\<close> is the invariant of the world, \<open>G lk S\<close> what a program that owns the identifiers \<open>S\<close> may do
  in one action, with (\<open>lk\<close>) or without the mutex, and \<open>cnt\<close> the counter the identifiers come from.
\<close>

locale rely_guarantee =
  fixes I :: "'w \<Rightarrow> bool"
    and G :: "bool \<Rightarrow> nat set \<Rightarrow> 'w \<Rightarrow> 'w \<Rightarrow> bool"
    and cnt :: "'w \<Rightarrow> nat"
  assumes cnt_mono: "G lk S w w' \<Longrightarrow> cnt w \<le> cnt w'"
begin

text \<open>What the others may do: they own other identifiers, and while the mutex is held here they act
  without it.\<close>

definition rely :: "bool \<Rightarrow> nat set \<Rightarrow> 'w \<Rightarrow> 'w \<Rightarrow> bool" where
  "rely lk S w w' \<longleftrightarrow> (\<exists>lk' T. T \<inter> S = {} \<and> (lk \<longrightarrow> \<not> lk') \<and> G lk' T w w')"

definition stable :: "bool \<Rightarrow> nat set \<Rightarrow> ('w \<Rightarrow> bool) \<Rightarrow> bool" where
  "stable lk S P \<longleftrightarrow> (\<forall>w w'. I w \<longrightarrow> P w \<longrightarrow> I w' \<longrightarrow> rely lk S w w' \<longrightarrow> P w')"

inductive safe :: "bool \<Rightarrow> nat set \<Rightarrow> ('w \<Rightarrow> bool) \<Rightarrow> 'w prog \<Rightarrow> bool" where
  safe_Halt: "safe False S P Halt"
| safe_Atomic: "(\<And>w p w'. I w \<Longrightarrow> P w \<Longrightarrow> S \<subseteq> {..<cnt w} \<Longrightarrow> f w = (p, w') \<Longrightarrow>
      I w' \<and> G lk S w w' \<and> (\<exists>Q S'. S' \<subseteq> S \<union> {cnt w..<cnt w'} \<and> stable lk S' Q \<and> Q w' \<and> safe lk S' Q p)) \<Longrightarrow>
    safe lk S P (Atomic f)"
| safe_Lock: "safe True S P p \<Longrightarrow> safe False S P (Lock p)"
| safe_Unlock: "safe False S Q p \<Longrightarrow> stable False S Q \<Longrightarrow> (\<And>w. I w \<Longrightarrow> P w \<Longrightarrow> Q w) \<Longrightarrow> safe True S P (Unlock p)"

inductive_cases safe_HaltE: "safe True S P Halt"
inductive_cases safe_AtomicE: "safe lk S P (Atomic f)"
inductive_cases safe_LockE: "safe lk S P (Lock p)"
inductive_cases safe_UnlockE: "safe lk S P (Unlock p)"

text \<open>A program is fine where it stands: some stable assertion holds and keeps it safe.\<close>

definition fine :: "bool \<Rightarrow> nat set \<Rightarrow> 'w \<Rightarrow> 'w prog \<Rightarrow> bool" where
  "fine lk S w p \<longleftrightarrow> S \<subseteq> {..<cnt w} \<and> (\<exists>P. stable lk S P \<and> P w \<and> safe lk S P p)"

definition pool_inv :: "'w pool \<Rightarrow> bool" where
  "pool_inv p \<longleftrightarrow>
     I (p_world p) \<and> p_started p \<le> p_claimed p \<and> p_claimed p \<le> length (p_progs p) \<and>
     (\<forall>i. p_lock p = Some i \<longrightarrow> enabled p i) \<and>
     (\<exists>own. (\<forall>i j. i \<noteq> j \<longrightarrow> own i \<inter> own j = {}) \<and>
        (\<forall>i<length (p_progs p). fine (p_lock p = Some i) (own i) (p_world p) (p_progs p ! i)))"

lemma pool_inv_I: "pool_inv p \<Longrightarrow> I (p_world p)"
  by (simp add: pool_inv_def)

lemma stable_lock: "stable False S P \<Longrightarrow> stable True S P"
  unfolding stable_def rely_def by blast

lemma fine_other:
  assumes "fine lk S w p" "I w" "I w'" "G lk' T w w'" "T \<inter> S = {}" "lk \<longrightarrow> \<not> lk'"
  shows "fine lk S w' p"
proof -
  have "rely lk S w w'" using assms(4-6) by (auto simp: rely_def)
  moreover have "S \<subseteq> {..<cnt w'}" using assms(1) cnt_mono [OF assms(4)] by (auto simp: fine_def)
  ultimately show ?thesis using assms(1-3) unfolding fine_def stable_def by blast
qed

lemma fine_action:
  assumes "fine lk S w (Atomic f)" "I w" "f w = (p, w')"
  shows "I w' \<and> G lk S w w' \<and> (\<exists>S'. S' \<subseteq> S \<union> {cnt w..<cnt w'} \<and> fine lk S' w' p)"
proof -
  obtain P where P: "stable lk S P" "P w" "safe lk S P (Atomic f)" "S \<subseteq> {..<cnt w}" using assms(1) by (auto simp: fine_def)
  from P(3) have "I w' \<and> G lk S w w' \<and> (\<exists>Q S'. S' \<subseteq> S \<union> {cnt w..<cnt w'} \<and> stable lk S' Q \<and> Q w' \<and> safe lk S' Q p)"
    by (rule safe_AtomicE) (use assms(2,3) P(2,4) in blast)
  then obtain Q S' where Q: "I w'" "G lk S w w'" "S' \<subseteq> S \<union> {cnt w..<cnt w'}" "stable lk S' Q" "Q w'" "safe lk S' Q p"
    by blast
  have "S' \<subseteq> {..<cnt w'}" using Q(3) P(4) cnt_mono [OF Q(2)] by fastforce
  then show ?thesis using Q unfolding fine_def by blast
qed

lemma fine_acquire: "fine False S w (Lock p) \<Longrightarrow> fine True S w p"
  unfolding fine_def by (auto elim!: safe_LockE dest: stable_lock)

lemma fine_release: "fine True S w (Unlock p) \<Longrightarrow> I w \<Longrightarrow> fine False S w p"
  unfolding fine_def by (auto elim!: safe_UnlockE)

lemma enabled_update [simp]:
  "enabled (p\<lparr>p_progs := (p_progs p)[i := q], p_world := w'\<rparr>) j = enabled p j"
  "enabled (p\<lparr>p_progs := (p_progs p)[i := q], p_lock := l\<rparr>) j = enabled p j"
  by (simp_all add: enabled_def)

lemma stable_mono:
  assumes "stable lk S P" "S \<subseteq> T"
  shows "stable lk T P"
proof -
  have "rely lk S w w'" if r: "rely lk T w w'" for w w'
  proof -
    obtain lk' X where "X \<inter> T = {}" "lk \<longrightarrow> \<not> lk'" "G lk' X w w'" using r unfolding rely_def by metis
    moreover from this(1) have "X \<inter> S = {}" using assms(2) by blast
    ultimately show ?thesis unfolding rely_def by metis
  qed
  then show ?thesis using assms(1) unfolding stable_def by metis
qed

lemma safe_weaken: "safe lk S P p \<Longrightarrow> (\<And>w. I w \<Longrightarrow> Q w \<Longrightarrow> P w) \<Longrightarrow> safe lk S Q p"
proof (induction arbitrary: Q rule: safe.induct)
  case (safe_Atomic P S f lk)
  show ?case
  proof (rule safe.safe_Atomic)
    fix w p w' assume *: "I w" "Q w" "S \<subseteq> {..<cnt w}" "f w = (p, w')"
    from safe_Atomic.IH [OF *(1) safe_Atomic.prems [OF *(1,2)] *(3,4)]
    show "I w' \<and> G lk S w w' \<and> (\<exists>Q S'. S' \<subseteq> S \<union> {cnt w..<cnt w'} \<and> stable lk S' Q \<and> Q w' \<and> safe lk S' Q p)" by metis
  qed
next
  case (safe_Lock S P p)
  show ?case by (rule safe.safe_Lock) (rule safe_Lock.IH [OF safe_Lock.prems])
next
  case (safe_Unlock S R p P)
  show ?case by (rule safe.safe_Unlock [OF safe_Unlock.hyps(1,2)]) (simp add: safe_Unlock)
qed (rule safe.safe_Halt)

lemma safe_act:
  assumes "\<And>w x w'. I w \<Longrightarrow> P w \<Longrightarrow> S \<subseteq> {..<cnt w} \<Longrightarrow> a w = (x, w') \<Longrightarrow>
    I w' \<and> G lk S w w' \<and> (\<exists>Q S'. S' \<subseteq> S \<union> {cnt w..<cnt w'} \<and> stable lk S' Q \<and> Q w' \<and> safe lk S' Q (k x))"
  shows "safe lk S P (act a k)"
  unfolding act_def
proof (rule safe_Atomic)
  fix w p w' assume "I w" "P w" "S \<subseteq> {..<cnt w}" "(case a w of (x, w') \<Rightarrow> (k x, w')) = (p, w')"
  then show "I w' \<and> G lk S w w' \<and> (\<exists>Q S'. S' \<subseteq> S \<union> {cnt w..<cnt w'} \<and> stable lk S' Q \<and> Q w' \<and> safe lk S' Q p)"
    using assms [of w "fst (a w)" "snd (a w)"] by (auto simp: case_prod_beta)
qed

text \<open>A pool that has not started, of programs that own nothing yet.\<close>

lemma pool_inv_start:
  assumes "I w" "n \<le> length ps" "\<And>p. p \<in> set ps \<Longrightarrow> \<exists>P. stable False {} P \<and> P w \<and> safe False {} P p"
  shows "pool_inv \<lparr>p_progs = ps, p_claimed = n, p_started = 0, p_lock = None, p_world = w\<rparr>"
proof -
  have "fine False {} w (ps ! i)" if "i < length ps" for i using assms(3) [OF nth_mem [OF that]] by (simp add: fine_def)
  then show ?thesis using assms(1,2) by (auto simp: pool_inv_def intro!: exI [of _ "\<lambda>_. {}"])
qed

text \<open>The invariant holds along every interleaving.\<close>

lemma pool_step_inv:
  assumes "pool_step n p p'" "pool_inv p"
  shows "pool_inv p'"
proof -
  let ?w = "p_world p" and ?l = "p_lock p"
  from assms(2) obtain own where i: "I ?w" "p_started p \<le> p_claimed p" "p_claimed p \<le> length (p_progs p)"
    "\<And>i. ?l = Some i \<Longrightarrow> enabled p i" and own: "\<And>i j. i \<noteq> j \<Longrightarrow> own i \<inter> own j = {}"
    and fine: "\<And>i. i < length (p_progs p) \<Longrightarrow> fine (?l = Some i) (own i) ?w (p_progs p ! i)"
    by (auto simp: pool_inv_def)
  from assms(1) show ?thesis
  proof cases
    case Spawn
    then show ?thesis using i own fine by (auto simp: pool_inv_def enabled_def)
  next
    case (Action k f q w')
    have k: "k < length (p_progs p)" using Action(2) by (simp add: enabled_def)
    have "fine (?l = Some k) (own k) ?w (Atomic f)" using fine [OF k] Action(3) by simp
    from fine_action [OF this i(1) Action(4)] obtain S' where S': "I w'" "G (?l = Some k) (own k) ?w w'"
      "S' \<subseteq> own k \<union> {cnt ?w..<cnt w'}" "fine (?l = Some k) S' w' q" by blast
    have sub: "own j \<subseteq> {..<cnt ?w}" if "j < length (p_progs p)" for j using fine [OF that] by (simp add: fine_def)
    define own' where "own' j = (if j = k then S' else if j < length (p_progs p) then own j else {})" for j
    have dis: "S' \<inter> own j = {}" if "j \<noteq> k" "j < length (p_progs p)" for j
    proof -
      have "{cnt ?w..<cnt w'} \<inter> own j = {}" using sub [OF that(2)] by fastforce
      then show ?thesis using S'(3) own [OF that(1)] by blast
    qed
    have "own' a \<inter> own' b = {}" if "a \<noteq> b" for a b
      using that own [of a b] dis [of a] dis [of b] by (auto simp: own'_def)
    moreover have "fine (?l = Some j) (own' j) w' ((p_progs p)[k := q] ! j)" if "j < length (p_progs p)" for j
    proof (cases "j = k")
      case True
      then show ?thesis using S'(4) k by (simp add: own'_def)
    next
      case False
      then have "own k \<inter> own j = {}" "?l = Some j \<longrightarrow> \<not> (?l = Some k)" using own by auto
      from fine_other [OF fine [OF that] i(1) S'(1,2) this] show ?thesis using False that by (simp add: own'_def)
    qed
    ultimately show ?thesis using S'(1) i Action(1) unfolding pool_inv_def by auto
  next
    case (Acquire k q)
    have k: "k < length (p_progs p)" using Acquire(2) by (simp add: enabled_def)
    have "fine True (own k) ?w q" using fine [OF k] Acquire(3,4) by (simp add: fine_acquire)
    moreover have "fine False (own j) ?w (p_progs p ! j)" if "j < length (p_progs p)" for j
      using fine [OF that] Acquire(4) by simp
    ultimately have "fine (Some k = Some j) (own j) ?w ((p_progs p)[k := q] ! j)" if "j < length (p_progs p)" for j
      using that k by (cases "j = k") auto
    then show ?thesis using own i Acquire(1,2) unfolding pool_inv_def by auto
  next
    case (Release k q)
    have k: "k < length (p_progs p)" using Release(2) by (simp add: enabled_def)
    have "fine False (own k) ?w q" using fine [OF k] Release(3,4) i(1) by (simp add: fine_release)
    moreover have "fine False (own j) ?w (p_progs p ! j)" if "j < length (p_progs p)" "j \<noteq> k" for j
      using fine [OF that(1)] Release(4) that(2) by simp
    ultimately have "fine False (own j) ?w ((p_progs p)[k := q] ! j)" if "j < length (p_progs p)" for j
      using that k by (cases "j = k") auto
    then show ?thesis using own i Release(1) unfolding pool_inv_def by auto
  qed
qed

lemma pool_steps_inv: "(pool_step n)\<^sup>*\<^sup>* p p' \<Longrightarrow> pool_inv p \<Longrightarrow> pool_inv p'"
  by (induction rule: rtranclp_induct) (auto intro: pool_step_inv)

text \<open>A pool that is not finished can always take a step.\<close>

lemma pool_progress:
  assumes "pool_inv p" "\<not> finished_pool p" "0 < n"
  shows "\<exists>p'. pool_step n p p'"
proof -
  let ?w = "p_world p"
  from assms(1) obtain own where i: "p_started p \<le> p_claimed p" "p_claimed p \<le> length (p_progs p)"
    "\<And>i. p_lock p = Some i \<Longrightarrow> enabled p i"
    and fine: "\<And>i. i < length (p_progs p) \<Longrightarrow> fine (p_lock p = Some i) (own i) ?w (p_progs p ! i)"
    by (auto simp: pool_inv_def)
  have move: "\<exists>p'. pool_step n p p'" if "enabled p k" "p_progs p ! k \<noteq> Halt" "p_lock p = Some k \<or> p_lock p = None" for k
  proof -
    have k: "fine (p_lock p = Some k) (own k) ?w (p_progs p ! k)" using fine that(1) by (simp add: enabled_def)
    show ?thesis
    proof (cases "p_progs p ! k")
      case Halt
      then show ?thesis using that(2) by simp
    next
      case (Atomic f)
      obtain q w' where "f ?w = (q, w')" by fastforce
      then show ?thesis using pool_step.Action [OF that(1) Atomic] by blast
    next
      case (Lock q)
      then have "p_lock p = None" using k that(3) by (auto simp: fine_def elim: safe_LockE)
      then show ?thesis using pool_step.Acquire [OF that(1) Lock] by blast
    next
      case (Unlock q)
      then have "p_lock p = Some k" using k by (auto simp: fine_def elim: safe_UnlockE)
      then show ?thesis using pool_step.Release [OF that(1) Unlock] by blast
    qed
  qed
  show ?thesis
  proof (cases "p_lock p")
    case (Some k)
    have "fine True (own k) ?w (p_progs p ! k)" using fine [of k] i(3) [OF Some] Some by (simp add: enabled_def)
    then have "p_progs p ! k \<noteq> Halt" by (auto simp: fine_def elim: safe_HaltE)
    then show ?thesis using move [OF i(3) [OF Some]] Some by simp
  next
    case None
    show ?thesis
    proof (cases "\<exists>k. enabled p k \<and> p_progs p ! k \<noteq> Halt")
      case True
      then show ?thesis using move None by blast
    next
      case False
      have "x = Halt" if "x \<in> set (take (p_started p) (p_progs p))" for x
        using that False by (auto simp: in_set_conv_nth enabled_def)
      then have "running p = 0" by (simp add: running_def filter_empty_conv)
      moreover have "p_started p < p_claimed p"
      proof (rule ccontr)
        assume "\<not> p_started p < p_claimed p"
        then have "p_started p = p_claimed p" using i(1) by simp
        then have "\<forall>q\<in>set (p_progs p). q = Halt" using False by (metis enabled_def in_set_conv_nth not_le)
        then show False using assms(2) \<open>p_started p = p_claimed p\<close> by (simp add: finished_pool_def)
      qed
      ultimately show ?thesis using pool_step.Spawn assms(3) by metis
    qed
  qed
qed

text \<open>A program that is let run alone finishes, and the world is what \<open>run_prog\<close> computes.\<close>

lemma run_alone:
  "pool_inv p \<Longrightarrow> enabled p i \<Longrightarrow> p_lock p = None \<or> p_lock p = Some i \<Longrightarrow> p_progs p ! i = q \<Longrightarrow>
   \<exists>p'. (pool_step n)\<^sup>*\<^sup>* p p' \<and> p_progs p' = (p_progs p)[i := Halt] \<and> p_lock p' = None \<and>
     p_started p' = p_started p \<and> p_claimed p' = p_claimed p \<and> p_world p' = run_prog q (p_world p)"
proof (induction q arbitrary: p rule: wfp_induct_rule [OF wfp_successor])
  case (1 q)
  have i: "i < length (p_progs p)" using 1(3) by (simp add: enabled_def)
  obtain S where S: "fine (p_lock p = Some i) S (p_world p) q" using 1(2,5) i unfolding pool_inv_def by blast
  have via: ?case
    if v: "pool_step n p p1" "p_progs p1 = (p_progs p)[i := q1]" "p_started p1 = p_started p" "p_claimed p1 = p_claimed p"
      "p_lock p1 = None \<or> p_lock p1 = Some i" "successor q1 q" "run_prog q1 (p_world p1) = run_prog q (p_world p)" for p1 q1
  proof -
    have "pool_inv p1" using pool_step_inv v(1) 1(2) by blast
    moreover have "enabled p1 i" "p_progs p1 ! i = q1" using 1(3) v(2-4) i by (simp_all add: enabled_def)
    ultimately obtain p' where "(pool_step n)\<^sup>*\<^sup>* p1 p'" "p_progs p' = (p_progs p1)[i := Halt]" "p_lock p' = None"
      "p_started p' = p_started p1" "p_claimed p' = p_claimed p1" "p_world p' = run_prog q1 (p_world p1)"
      using 1(1) [OF v(6)] v(5) by blast
    then show ?thesis using v by (auto intro!: exI [of _ p'] intro: converse_rtranclp_into_rtranclp)
  qed
  show ?case
  proof (cases q)
    case Halt
    then have "p_lock p \<noteq> Some i" using S by (auto simp: fine_def elim: safe_HaltE)
    moreover have "(p_progs p)[i := Halt] = p_progs p" using 1(5) Halt list_update_id [of "p_progs p" i] by simp
    ultimately show ?thesis using 1(4) Halt by (intro exI [of _ p]) simp
  next
    case (Atomic f)
    obtain q1 w1 where f: "f (p_world p) = (q1, w1)" by fastforce
    show ?thesis
      by (rule via [OF pool_step.Action [OF 1(3) 1(5) [unfolded Atomic] f], of q1])
         (use 1(4) Atomic f in \<open>auto intro: successor.intros\<close>)
  next
    case (Lock q1)
    then have "p_lock p = None" using S 1(4) by (auto simp: fine_def elim: safe_LockE)
    then show ?thesis
      by (intro via [OF pool_step.Acquire [OF 1(3) 1(5) [unfolded Lock]], of q1]) (use Lock in \<open>auto intro: successor.intros\<close>)
  next
    case (Unlock q1)
    then have "p_lock p = Some i" using S by (auto simp: fine_def elim: safe_UnlockE)
    then show ?thesis
      by (intro via [OF pool_step.Release [OF 1(3) 1(5) [unfolded Unlock]], of q1]) (use Unlock in \<open>auto intro: successor.intros\<close>)
  qed
qed

lemma run_keeps:
  assumes "I w" "stable False {} P" "P w" "safe False {} P q"
  shows "I (run_prog q w)"
proof -
  let ?p = "\<lparr>p_progs = [q], p_claimed = 0, p_started = 0, p_lock = None, p_world = w\<rparr>"
  have inv: "pool_inv ?p" using assms by (intro pool_inv_start) auto
  obtain p' where p': "(pool_step 1)\<^sup>*\<^sup>* ?p p'" "p_world p' = run_prog q w"
    using run_alone [OF inv, of 0 q 1] by (auto simp: enabled_def)
  show ?thesis using pool_inv_I [OF pool_steps_inv [OF p'(1) inv]] unfolding p'(2) .
qed

text \<open>Starting the programs one after the other, each when the one before has finished.\<close>

lemma run_in_order:
  "pool_inv p \<Longrightarrow> p_lock p = None \<Longrightarrow> p_claimed p = length (p_progs p) \<Longrightarrow> 0 < n \<Longrightarrow>
   (\<forall>j<p_started p. p_progs p ! j = Halt) \<Longrightarrow>
   \<exists>p'. (pool_step n)\<^sup>*\<^sup>* p p' \<and> finished_pool p' \<and> p_world p' = fold run_prog (drop (p_started p) (p_progs p)) (p_world p)"
proof (induction "p_claimed p - p_started p" arbitrary: p)
  case 0
  then have s: "p_started p = p_claimed p" by (simp add: pool_inv_def)
  then have "finished_pool p" using 0 by (auto simp: finished_pool_def in_set_conv_nth)
  then show ?case using s 0 by (intro exI [of _ p]) simp
next
  case (Suc d)
  let ?i = "p_started p" and ?p = "p\<lparr>p_started := Suc (p_started p)\<rparr>"
  have i: "?i < length (p_progs p)" using Suc.hyps(2) Suc.prems(3) by simp
  have "x = Halt" if "x \<in> set (take ?i (p_progs p))" for x
    using that Suc.prems(5) i by (auto simp: in_set_conv_nth)
  then have "running p = 0" by (simp add: running_def filter_empty_conv)
  then have spawn: "pool_step n p ?p" using Suc.prems(3,4) i by (intro pool_step.Spawn) auto
  have "enabled ?p ?i" using i by (simp add: enabled_def)
  then obtain p1 where p1: "(pool_step n)\<^sup>*\<^sup>* ?p p1" "p_progs p1 = (p_progs p)[?i := Halt]" "p_lock p1 = None"
    "p_started p1 = Suc ?i" "p_claimed p1 = p_claimed p" "p_world p1 = run_prog (p_progs p ! ?i) (p_world p)"
    using run_alone [OF pool_step_inv [OF spawn Suc.prems(1)], of ?i _ n] Suc.prems(2) by auto
  have "pool_inv p1" using pool_steps_inv [OF p1(1)] pool_step_inv [OF spawn Suc.prems(1)] by blast
  moreover have "\<forall>j<p_started p1. p_progs p1 ! j = Halt"
    using Suc.prems(5) p1(2,4) i by (auto simp: less_Suc_eq nth_list_update)
  moreover have d: "d = p_claimed p1 - p_started p1" using Suc.hyps(2) p1(4,5) by simp
  ultimately obtain p2 where p2: "(pool_step n)\<^sup>*\<^sup>* p1 p2" "finished_pool p2"
    "p_world p2 = fold run_prog (drop (p_started p1) (p_progs p1)) (p_world p1)"
    using Suc.hyps(1) [of p1] Suc.prems(3,4) p1 d by auto
  have "fold run_prog (drop (p_started p1) (p_progs p1)) (p_world p1) = fold run_prog (drop ?i (p_progs p)) (p_world p)"
    using i p1(2,4,6) by (simp add: Cons_nth_drop_Suc [symmetric])
  moreover have "(pool_step n)\<^sup>*\<^sup>* p p2" using spawn p1(1) p2(1) by (meson converse_rtranclp_into_rtranclp rtranclp_trans)
  ultimately show ?case using p2 by auto
qed

end

end
