(* ===== verification/Pool.thy ===== *)
theory Pool
  imports Lifecycle Interleaving
begin

text \<open>
  The worker goroutines of \<^verbatim>\<open>drain\<close>, with every call on the store, the clock, the metrics and the
  identifier source an atomic action of its own, so that pools of them interleave as the goroutines
  do. Run alone, each program does what its function in \<open>Worker\<close> and \<open>Scheduler\<close> does.
  Concurrent calls of \<^verbatim>\<open>Trigger\<close> (from the HTTP handlers) are programs too.
\<close>

section \<open>Programs of the goroutines\<close>

definition draw_id :: "env \<Rightarrow> 's world \<Rightarrow> string \<times> 's world" where
  "draw_id env w = (e_newID env (w_ids w), w\<lparr>w_ids := w_ids w + 1\<rparr>)"

definition metric :: "(Metrics \<Rightarrow> Metrics) \<Rightarrow> 's world prog \<Rightarrow> 's world prog" where
  "metric f p = act (\<lambda>w. ((), on_metrics f w)) (\<lambda>_. p)"

definition execute_act :: "env \<Rightarrow> Executor \<Rightarrow> Job \<Rightarrow> Run \<Rightarrow> 's world \<Rightarrow> (string option \<times> bool) \<times> 's world" where
  "execute_act env ex j r w =
     (let n = w_execs w in ((Execute env ex (timeout_of j) j r n, e_cancelled env n), w\<lparr>w_trace := w_trace w @ [(j, r)]\<rparr>))"

definition retry_prog ::
    "'s store_ops \<Rightarrow> env \<Rightarrow> Job \<Rightarrow> Run \<Rightarrow> time \<Rightarrow> (store_error + unit \<Rightarrow> 's world prog) \<Rightarrow> 's world prog" where
  "retry_prog ops env j failed t k =
     act (draw_delay env (backoffFor (j_Backoff j)) (r_Attempt failed)) (\<lambda>delay.
     act (draw_id env) (\<lambda>rid.
     act (call (st_CreateRun ops (retry_run rid failed t delay))) k))"

definition finish_ok_prog ::
    "'s store_ops \<Rightarrow> Job \<Rightarrow> Run \<Rightarrow> duration \<Rightarrow> (Run \<times> store_error option \<Rightarrow> 's world prog) \<Rightarrow> 's world prog" where
  "finish_ok_prog ops j r dur k =
     (let r = r\<lparr>r_State := StateSucceeded, r_Error := []\<rparr>
      in metric (ObserveRun (j_ID j) (r_State r) dur)
           (act (call (st_UpdateRun ops r)) (\<lambda>res. k (r, error_of res))))"

definition finish_failed_prog ::
    "'s store_ops \<Rightarrow> env \<Rightarrow> Job \<Rightarrow> Run \<Rightarrow> string \<Rightarrow> time \<Rightarrow> duration \<Rightarrow> (Run \<times> store_error option \<Rightarrow> 's world prog) \<Rightarrow> 's world prog" where
  "finish_failed_prog ops env j r msg finish dur k =
     (let r = r\<lparr>r_Error := msg\<rparr>
      in if r_Attempt r < j_MaxRetries j then
           let r = r\<lparr>r_State := StateFailed\<rparr>
           in act (call (st_UpdateRun ops r)) (\<lambda>res. case res of
                Inl e \<Rightarrow> k (r, Some e)
              | Inr _ \<Rightarrow> retry_prog ops env j r finish (\<lambda>res. case res of
                  Inl e \<Rightarrow> k (r, Some e)
                | Inr _ \<Rightarrow> metric (ObserveRun (j_ID j) StateFailed dur) (metric (IncRetry (j_ID j)) (k (r, None)))))
         else
           let r = r\<lparr>r_State := StateDead\<rparr>
           in metric (ObserveRun (j_ID j) StateDead dur)
                (act (call (st_UpdateRun ops r)) (\<lambda>res. k (r, error_of res))))"

definition process_prog ::
    "'s store_ops \<Rightarrow> env \<Rightarrow> Executor \<Rightarrow> Run \<Rightarrow> (Run \<times> store_error option \<Rightarrow> 's world prog) \<Rightarrow> 's world prog" where
  "process_prog ops env ex r k =
     act (call (st_GetJob ops (r_JobID r))) (\<lambda>res. case res of
       Inl e \<Rightarrow> k (r, Some e)
     | Inr j \<Rightarrow>
         act (read_clock env) (\<lambda>start.
         act (execute_act env ex j r) (\<lambda>(execErr, cancelled).
           if cancelled then k (r, None)
           else act (read_clock env) (\<lambda>finish.
             let dur = Sub finish start; r = r\<lparr>r_FinishedAt := Some finish, r_UpdatedAt := finish\<rparr>
             in case execErr of
                  None \<Rightarrow> finish_ok_prog ops j r dur k
                | Some msg \<Rightarrow> finish_failed_prog ops env j r msg finish dur k))))"

fun deps_prog :: "'s store_ops \<Rightarrow> string list \<Rightarrow> string \<Rightarrow> (store_error + bool \<Rightarrow> 's world prog) \<Rightarrow> 's world prog" where
  "deps_prog ops [] batchID k = k (Inr True)"
| "deps_prog ops (dep # deps) batchID k =
     act (call (st_ListRuns ops (zero_filter\<lparr>f_JobID := dep, f_BatchID := batchID\<rparr>))) (\<lambda>res. case res of
       Inl e \<Rightarrow> k (Inl e)
     | Inr runs \<Rightarrow> if \<not> hasSucceeded runs then k (Inr False) else deps_prog ops deps batchID k)"

definition dependent_prog ::
    "'s store_ops \<Rightarrow> env \<Rightarrow> Run \<Rightarrow> time \<Rightarrow> Job \<Rightarrow> (store_error + unit \<Rightarrow> 's world prog) \<Rightarrow> 's world prog" where
  "dependent_prog ops env completed now j k =
     deps_prog ops (j_DependsOn j) (r_BatchID completed) (\<lambda>res. case res of
       Inl e \<Rightarrow> k (Inl e)
     | Inr ready \<Rightarrow>
         if \<not> ready then k (Inr ())
         else act (call (st_ListRuns ops (zero_filter\<lparr>f_JobID := j_ID j, f_BatchID := r_BatchID completed\<rparr>))) (\<lambda>res. case res of
           Inl e \<Rightarrow> k (Inl e)
         | Inr existing \<Rightarrow>
             if 0 < length existing then k (Inr ())
             else act (draw_id env) (\<lambda>rid.
               act (call (st_CreateRun ops (dependent_run rid (r_BatchID completed) j now))) k)))"

fun dependents_prog ::
    "'s store_ops \<Rightarrow> env \<Rightarrow> Run \<Rightarrow> time \<Rightarrow> Job list \<Rightarrow> (store_error + unit \<Rightarrow> 's world prog) \<Rightarrow> 's world prog" where
  "dependents_prog ops env completed now [] k = k (Inr ())"
| "dependents_prog ops env completed now (j # js) k =
     (if \<not> contains (j_DependsOn j) (r_JobID completed) then dependents_prog ops env completed now js k
      else dependent_prog ops env completed now j (\<lambda>res. case res of
        Inl e \<Rightarrow> k (Inl e)
      | Inr _ \<Rightarrow> dependents_prog ops env completed now js k))"

definition enqueueDependents_prog ::
    "'s store_ops \<Rightarrow> env \<Rightarrow> Run \<Rightarrow> time \<Rightarrow> (store_error + unit \<Rightarrow> 's world prog) \<Rightarrow> 's world prog" where
  "enqueueDependents_prog ops env completed now k =
     act (call (st_ListJobs ops)) (\<lambda>res. case res of
       Inl e \<Rightarrow> k (Inl e)
     | Inr jobs \<Rightarrow> dependents_prog ops env completed now jobs k)"

definition work_prog :: "'s store_ops \<Rightarrow> env \<Rightarrow> Executor \<Rightarrow> Run \<Rightarrow> 's world prog" where
  "work_prog ops env ex run =
     process_prog ops env ex run (\<lambda>(result, err). case err of
       Some e \<Rightarrow> Halt
     | None \<Rightarrow>
         if r_State result = StateSucceeded then
           Lock (act (read_clock env) (\<lambda>now. enqueueDependents_prog ops env result now (\<lambda>_. Unlock Halt)))
         else Halt)"

definition trigger_prog :: "'s store_ops \<Rightarrow> env \<Rightarrow> string \<Rightarrow> 's world prog" where
  "trigger_prog ops env jobID =
     act (call (st_GetJob ops jobID)) (\<lambda>res. case res of
       Inl e \<Rightarrow> Halt
     | Inr j \<Rightarrow> act (read_clock env) (\<lambda>now. act (draw_id env) (\<lambda>rid. act (draw_id env) (\<lambda>batch.
         act (call (st_CreateRun ops (triggered_run rid batch j now))) (\<lambda>_. Halt)))))"

text \<open>The pool of one pass: a goroutine per claimed run, and any number of concurrent triggers.\<close>

definition start_pool :: "'s store_ops \<Rightarrow> env \<Rightarrow> Executor \<Rightarrow> Run list \<Rightarrow> string list \<Rightarrow> 's world \<Rightarrow> 's world pool" where
  "start_pool ops env ex claimed triggers w =
     \<lparr>p_progs = map (work_prog ops env ex) claimed @ map (trigger_prog ops env) triggers,
      p_claimed = length claimed, p_started = 0, p_lock = None, p_world = w\<rparr>"

section \<open>Run alone, a program does what its function does\<close>

lemma run_metric [simp]: "run_prog (metric f p) w = run_prog p (on_metrics f w)"
  by (simp add: metric_def)

lemma run_retry_prog:
  "run_prog (retry_prog ops env j r t k) w = (case scheduleRetry ops env j r t w of (res, w') \<Rightarrow> run_prog (k res) w')"
  by (simp add: retry_prog_def scheduleRetry_def bind_act_def newID_def draw_id_def split: prod.split)

lemma run_finish_ok_prog:
  "run_prog (finish_ok_prog ops j r dur k) w = (case finish_ok ops j r dur w of (res, w') \<Rightarrow> run_prog (k res) w')"
  by (simp add: finish_ok_prog_def finish_ok_def Let_def split: prod.split)

lemma run_finish_failed_prog:
  "run_prog (finish_failed_prog ops env j r msg t dur k) w =
     (case finish_failed ops env j r msg t dur w of (res, w') \<Rightarrow> run_prog (k res) w')"
  by (auto simp: finish_failed_prog_def finish_failed_def Let_def run_retry_prog split: prod.split sum.split)

lemma run_process_prog:
  "run_prog (process_prog ops env ex r k) w = (case process ops env ex r w of (res, w') \<Rightarrow> run_prog (k res) w')"
  by (auto simp: process_prog_def process_def Let_def read_clock_def execute_act_def run_finish_ok_prog
      run_finish_failed_prog split: prod.split sum.split option.split)

lemma run_deps_prog:
  "run_prog (deps_prog ops deps b k) w = (case depsSatisfied ops deps b w of (res, w') \<Rightarrow> run_prog (k res) w')"
  by (induction deps arbitrary: w) (auto simp: bind_act_def split: prod.split sum.split)

lemma run_dependent_prog:
  "run_prog (dependent_prog ops env c now j k) w = (case enqueue_dependent ops env c now j w of (res, w') \<Rightarrow> run_prog (k res) w')"
  by (auto simp: dependent_prog_def enqueue_dependent_def run_deps_prog bind_act_def newID_def draw_id_def
      split: prod.split sum.split)

lemma run_dependents_prog:
  "run_prog (dependents_prog ops env c now js k) w = (case enqueue_all ops env c now js w of (res, w') \<Rightarrow> run_prog (k res) w')"
  by (induction js arbitrary: w) (auto simp: run_dependent_prog bind_act_def split: prod.split sum.split)

lemma run_enqueueDependents_prog:
  "run_prog (enqueueDependents_prog ops env c now k) w =
     (case enqueueDependents ops env c now w of (res, w') \<Rightarrow> run_prog (k res) w')"
  by (auto simp: enqueueDependents_prog_def enqueueDependents_def run_dependents_prog bind_act_def split: prod.split sum.split)

lemma run_work_prog: "run_prog (work_prog ops env ex r) w = work ops env ex r w"
  by (auto simp: work_prog_def work_def run_process_prog run_enqueueDependents_prog read_clock_def
      split: prod.split option.split)

lemma run_trigger_prog: "run_prog (trigger_prog ops env k) w = snd (Trigger ops env k w)"
  by (auto simp: trigger_prog_def Trigger_def bind_act_def newID_def draw_id_def read_clock_def Let_def split: prod.split sum.split)

lemma fold_work_prog: "fold run_prog (map (work_prog ops env ex) rs) w = work_all ops env ex rs w"
  by (induction rs arbitrary: w) (simp_all add: run_work_prog)

section \<open>Assertions on the stored runs\<close>

text \<open>At most one first attempt of a job in a batch.\<close>

definition first_unique :: "(string \<rightharpoonup> Run) \<Rightarrow> bool" where
  "first_unique m \<longleftrightarrow>
     (\<forall>r\<in>ran m. \<forall>q\<in>ran m. r_JobID r = r_JobID q \<and> r_BatchID r = r_BatchID q \<and> r_Attempt r = 0 \<and> r_Attempt q = 0 \<longrightarrow>
        r_ID r = r_ID q)"

text \<open>A run is stored, with this identity; an identifier is in use neither as a run nor as a batch; a job has
  no run in a batch.\<close>

definition own_run :: "Run \<Rightarrow> (string \<rightharpoonup> Run) \<Rightarrow> bool" where
  "own_run r m \<longleftrightarrow> (\<exists>r0. m (r_ID r) = Some r0 \<and> identity r0 = identity r)"

definition reserved :: "string \<Rightarrow> (string \<rightharpoonup> Run) \<Rightarrow> bool" where
  "reserved x m \<longleftrightarrow> m x = None \<and> (\<forall>q\<in>ran m. r_BatchID q \<noteq> x)"

definition no_run :: "string \<Rightarrow> string \<Rightarrow> (string \<rightharpoonup> Run) \<Rightarrow> bool" where
  "no_run jid b m \<longleftrightarrow> (\<forall>q\<in>ran m. \<not> (r_JobID q = jid \<and> r_BatchID q = b))"

text \<open>
  What one action of a program that owns the identifiers \<open>X\<close> may do to the runs. Stored runs keep
  their identity. A new run is a later attempt of a job that is in the batch already, or the first
  run of a batch of its own, or (with the mutex) a run in an existing batch.
\<close>

definition new_run_ok :: "bool \<Rightarrow> string set \<Rightarrow> (string \<rightharpoonup> Run) \<Rightarrow> Run \<Rightarrow> bool" where
  "new_run_ok lk X m r \<longleftrightarrow> r_ID r \<in> X \<and>
     (r_Attempt r \<noteq> 0 \<and> \<not> no_run (r_JobID r) (r_BatchID r) m \<or>
      r_BatchID r \<in> X \<and> (\<forall>q\<in>ran m. r_BatchID q \<noteq> r_BatchID r) \<or>
      lk \<and> (\<exists>q\<in>ran m. r_BatchID q = r_BatchID r))"

definition grows :: "bool \<Rightarrow> string set \<Rightarrow> (string \<rightharpoonup> Run) \<Rightarrow> (string \<rightharpoonup> Run) \<Rightarrow> bool" where
  "grows lk X m m' \<longleftrightarrow>
     (\<forall>k r. m k = Some r \<longrightarrow> (\<exists>r'. m' k = Some r' \<and> identity r' = identity r)) \<and>
     (\<forall>k r. m k = None \<longrightarrow> m' k = Some r \<longrightarrow> r_ID r = k \<and> new_run_ok lk X m r)"

lemma grows_refl [simp]: "grows lk X m m"
  by (simp add: grows_def)

lemma grows_update: "m k = Some r0 \<Longrightarrow> identity r = identity r0 \<Longrightarrow> grows lk X m (m(k \<mapsto> r))"
  by (simp add: grows_def)

lemma grows_add: "m (r_ID r) = None \<Longrightarrow> new_run_ok lk X m r \<Longrightarrow> grows lk X m (m(r_ID r \<mapsto> r))"
  by (auto simp: grows_def)

lemma grows_ran:
  assumes "grows lk X m m'" "q \<in> ran m'"
  obtains q0 where "q0 \<in> ran m" "identity q0 = identity q" | "new_run_ok lk X m q" "m (r_ID q) = None"
proof -
  obtain k where k: "m' k = Some q" using assms(2) by (auto simp: ran_def)
  show ?thesis
  proof (cases "m k")
    case None
    then show ?thesis using assms(1) k that(2) unfolding grows_def by metis
  next
    case (Some q0)
    then obtain r' where "m' k = Some r'" "identity r' = identity q0" using assms(1) unfolding grows_def by blast
    then have "identity q0 = identity q" using k by simp
    then show ?thesis using Some that(1) by (auto intro: ranI)
  qed
qed

lemma own_run_grows: "own_run r m \<Longrightarrow> grows lk X m m' \<Longrightarrow> own_run r m'"
  by (auto simp: own_run_def grows_def) (metis (no_types, lifting))

lemma reserved_grows:
  assumes "reserved x m" "grows lk X m m'" "x \<notin> X"
  shows "reserved x m'"
proof -
  have "m' x = None"
    using assms unfolding reserved_def grows_def new_run_ok_def by (metis not_Some_eq)
  moreover have "r_BatchID q \<noteq> x" if "q \<in> ran m'" for q
    using assms(2) that
  proof (rule grows_ran)
    show "r_BatchID q \<noteq> x" if "q0 \<in> ran m" "identity q0 = identity q" for q0
      using assms(1) that by (auto simp: reserved_def identity_def)
    show "r_BatchID q \<noteq> x" if "new_run_ok lk X m q"
      using assms(1,3) that by (auto simp: new_run_ok_def reserved_def no_run_def)
  qed
  ultimately show ?thesis by (simp add: reserved_def)
qed

lemma no_run_grows:
  assumes "no_run jid b m" "q \<in> ran m" "r_BatchID q = b" "grows False X m m'"
  shows "no_run jid b m'"
  unfolding no_run_def
proof
  fix p assume "p \<in> ran m'"
  with assms(4) show "\<not> (r_JobID p = jid \<and> r_BatchID p = b)"
  proof (rule grows_ran)
    show ?thesis if "q0 \<in> ran m" "identity q0 = identity p" for q0
      using assms(1) that by (auto simp: no_run_def identity_def)
    show ?thesis if "new_run_ok False X m p"
      using assms(1-3) that by (auto simp: new_run_ok_def)
  qed
qed

text \<open>Uniqueness of first attempts, under an update that keeps the identity and under a new run.\<close>

lemma ran_upd_cases: "q \<in> ran (m(k \<mapsto> r)) \<Longrightarrow> q = r \<or> q \<in> ran m"
  by (auto simp: ran_def split: if_splits)

lemma first_unique_update:
  assumes "first_unique m" "m k = Some r0" "identity r = identity r0"
  shows "first_unique (m(k \<mapsto> r))"
proof -
  have "\<exists>q0\<in>ran m. identity q0 = identity q" if "q \<in> ran (m(k \<mapsto> r))" for q
    using ran_upd_cases [OF that] assms(2,3) by (metis ranI)
  note old = this
  show ?thesis
    unfolding first_unique_def
  proof (intro ballI impI)
    fix a b assume "a \<in> ran (m(k \<mapsto> r))" "b \<in> ran (m(k \<mapsto> r))"
      and eq: "r_JobID a = r_JobID b \<and> r_BatchID a = r_BatchID b \<and> r_Attempt a = 0 \<and> r_Attempt b = 0"
    then obtain a0 b0 where ab: "a0 \<in> ran m" "identity a0 = identity a" "b0 \<in> ran m" "identity b0 = identity b"
      using old by metis
    then have "r_JobID a0 = r_JobID b0 \<and> r_BatchID a0 = r_BatchID b0 \<and> r_Attempt a0 = 0 \<and> r_Attempt b0 = 0"
      using eq by (simp add: identity_def)
    then have "r_ID a0 = r_ID b0" using assms(1) ab(1,3) unfolding first_unique_def by blast
    then show "r_ID a = r_ID b" using ab by (simp add: identity_def)
  qed
qed

lemma first_unique_add:
  assumes "first_unique m" "r_Attempt r \<noteq> 0 \<or> no_run (r_JobID r) (r_BatchID r) m"
  shows "first_unique (m(r_ID r \<mapsto> r))"
  unfolding first_unique_def
proof (intro ballI impI)
  fix a b assume ab: "a \<in> ran (m(r_ID r \<mapsto> r))" "b \<in> ran (m(r_ID r \<mapsto> r))"
    and eq: "r_JobID a = r_JobID b \<and> r_BatchID a = r_BatchID b \<and> r_Attempt a = 0 \<and> r_Attempt b = 0"
  consider "a = r" "b = r" | "a = r" "b \<in> ran m" | "a \<in> ran m" "b = r" | "a \<in> ran m" "b \<in> ran m"
    using ran_upd_cases [OF ab(1)] ran_upd_cases [OF ab(2)] by blast
  then show "r_ID a = r_ID b"
  proof cases
    case 4
    then show ?thesis using assms(1) eq unfolding first_unique_def by blast
  qed (use assms(2) eq in \<open>auto simp: no_run_def\<close>)
qed

section \<open>The logic on the scheduler's world\<close>

text \<open>The invariant of the world and the guarantee of the goroutines, over any store that keeps the contract.\<close>

context store_contract
begin

definition rg_inv :: "env \<Rightarrow> 's world \<Rightarrow> bool" where
  "rg_inv env w \<longleftrightarrow>
     world_ok env w \<and> (\<forall>i\<ge>w_ids w. \<forall>r\<in>ran (runs_of (w_store w)). r_BatchID r \<noteq> e_newID env i) \<and>
     first_unique (runs_of (w_store w)) \<and> (\<forall>r\<in>ran (runs_of (w_store w)). 0 \<le> r_Attempt r) \<and>
     retries_ok (jobs_of (w_store w))"

definition rg_guar :: "env \<Rightarrow> bool \<Rightarrow> nat set \<Rightarrow> 's world \<Rightarrow> 's world \<Rightarrow> bool" where
  "rg_guar env lk S w w' \<longleftrightarrow> w_ids w \<le> w_ids w' \<and> grows lk (e_newID env ` S) (runs_of (w_store w)) (runs_of (w_store w'))"

definition holds :: "((string \<rightharpoonup> Run) \<Rightarrow> bool) \<Rightarrow> 's world \<Rightarrow> bool" where
  "holds A w \<longleftrightarrow> A (runs_of (w_store w))"

end

sublocale store_contract < rg: rely_guarantee "rg_inv env" "rg_guar env" w_ids for env
  by unfold_locales (simp add: rg_guar_def)

context store_contract
begin

lemma stable_holds:
  assumes "\<And>m m' lk' T. A m \<Longrightarrow> T \<inter> S = {} \<Longrightarrow> (lk \<Longrightarrow> \<not> lk') \<Longrightarrow> inj (e_newID env) \<Longrightarrow> grows lk' (e_newID env ` T) m m' \<Longrightarrow> A m'"
  shows "rg.stable env lk S (holds A)"
  unfolding rg.stable_def rg.rely_def holds_def
  using assms by (metis (no_types, lifting) rg_guar_def rg_inv_def world_ok_def)

lemma stable_own: "rg.stable env lk S (holds (own_run r))"
  by (rule stable_holds) (rule own_run_grows)

lemma stable_reserved: "n \<in> S \<Longrightarrow> rg.stable env lk S (holds (reserved (e_newID env n)))"
proof (rule stable_holds)
  fix m m' lk' T assume "n \<in> S" "reserved (e_newID env n) m" "T \<inter> S = {}" "inj (e_newID env)" "grows lk' (e_newID env ` T) m m'"
  moreover from this have "e_newID env n \<notin> e_newID env ` T" by (auto dest: injD)
  ultimately show "reserved (e_newID env n) m'" by (blast intro: reserved_grows)
qed

lemma own_run_batch: "own_run r m \<Longrightarrow> \<exists>q\<in>ran m. r_BatchID q = r_BatchID r"
  by (auto simp: own_run_def identity_def intro: ranI)

lemma stable_no_run: "rg.stable env True S (holds (\<lambda>m. own_run c m \<and> no_run jid (r_BatchID c) m))"
proof (rule stable_holds)
  fix m m' lk' T assume *: "own_run c m \<and> no_run jid (r_BatchID c) m" "True \<Longrightarrow> \<not> lk'" "grows lk' (e_newID env ` T) m m'"
  from * obtain q where "q \<in> ran m" "r_BatchID q = r_BatchID c" using own_run_batch by blast
  moreover have "grows False (e_newID env ` T) m m'" using *(2,3) by simp
  ultimately have "no_run jid (r_BatchID c) m'" using * no_run_grows by blast
  then show "own_run c m' \<and> no_run jid (r_BatchID c) m'" using * own_run_grows by blast
qed

lemma stable_conj:
  "rg.stable env lk S (holds A) \<Longrightarrow> rg.stable env lk S (holds B) \<Longrightarrow> rg.stable env lk S (holds (\<lambda>m. A m \<and> B m))"
  unfolding rg.stable_def holds_def by blast

text \<open>Actions that leave jobs, runs and identifiers alone.\<close>

definition quiet :: "env \<Rightarrow> ('s world \<Rightarrow> 'a \<times> 's world) \<Rightarrow> bool" where
  "quiet env a \<longleftrightarrow> (\<forall>w x w'. world_ok env w \<longrightarrow> a w = (x, w') \<longrightarrow> world_ok env w' \<and> same_data w w' \<and> w_ids w' = w_ids w)"

lemma rg_inv_same: "rg_inv env w \<Longrightarrow> world_ok env w' \<Longrightarrow> same_data w w' \<Longrightarrow> w_ids w' = w_ids w \<Longrightarrow> rg_inv env w'"
  by (simp add: rg_inv_def same_data_def)

lemma safe_learn:
  assumes "quiet env a"
    "\<And>w x w'. rg_inv env w \<Longrightarrow> A (runs_of (w_store w)) \<Longrightarrow> a w = (x, w') \<Longrightarrow>
       \<exists>B. rg.stable env lk S (holds B) \<and> B (runs_of (w_store w)) \<and> rg.safe env lk S (holds B) (k x)"
  shows "rg.safe env lk S (holds A) (act a k)"
proof (rule rg.safe_act)
  fix w x w' assume w: "rg_inv env w" "holds A w" "S \<subseteq> {..<w_ids w}" "a w = (x, w')"
  have q: "world_ok env w'" "same_data w w'" "w_ids w' = w_ids w"
    using assms(1) w(1,4) unfolding quiet_def rg_inv_def by blast+
  obtain B where B: "rg.stable env lk S (holds B)" "B (runs_of (w_store w))" "rg.safe env lk S (holds B) (k x)"
    using assms(2) w unfolding holds_def by blast
  have "holds B w'" "rg_guar env lk S w w'" using B(2) q(2,3) by (simp_all add: holds_def same_data_def rg_guar_def)
  then show "rg_inv env w' \<and> rg_guar env lk S w w' \<and>
      (\<exists>Q S'. S' \<subseteq> S \<union> {w_ids w..<w_ids w'} \<and> rg.stable env lk S' Q \<and> Q w' \<and> rg.safe env lk S' Q (k x))"
    using rg_inv_same [OF w(1) q] B(1,3) by blast
qed

lemma safe_quiet:
  assumes "quiet env a" "rg.stable env lk S (holds A)" "\<And>x. rg.safe env lk S (holds A) (k x)"
  shows "rg.safe env lk S (holds A) (act a k)"
  using assms by (intro safe_learn) auto

lemma quiet_clock: "quiet env (read_clock env)"
  by (simp add: quiet_def read_clock_def world_ok_def same_data_def)

lemma quiet_metric: "quiet env (\<lambda>w. ((), on_metrics f w))"
  by (simp add: quiet_def world_ok_def same_data_def)

lemma quiet_execute: "quiet env (execute_act env ex j r)"
  by (simp add: quiet_def execute_act_def Let_def world_ok_def same_data_def)

lemma quiet_delay: "quiet env (draw_delay env e n)"
  unfolding quiet_def using draw_delay_sel(1,2) by (fastforce simp: world_ok_def same_data_def)

lemma call_w_ids: "call oper w = (x, w') \<Longrightarrow> w_ids w' = w_ids w"
  by (auto simp: call_def split: prod.splits)

lemma quiet_GetJob: "quiet env (call (st_GetJob ops k))"
  unfolding quiet_def using call_GetJob(1,2) call_w_ids by blast

lemma quiet_ListRuns: "quiet env (call (st_ListRuns ops f))"
  unfolding quiet_def using call_ListRuns(1,2) call_w_ids by blast

lemma quiet_ListJobs: "quiet env (call (st_ListJobs ops))"
  unfolding quiet_def using call_ListJobs(1,2) call_w_ids by blast

text \<open>Drawing an identifier makes it owned and reserved.\<close>

lemma safe_draw:
  assumes "rg.stable env lk S (holds A)"
    "\<And>n. rg.safe env lk (insert n S) (holds (\<lambda>m. A m \<and> reserved (e_newID env n) m)) (k (e_newID env n))"
  shows "rg.safe env lk S (holds A) (act (draw_id env) k)"
proof (rule rg.safe_act)
  fix w x w' assume w: "rg_inv env w" "holds A w" "draw_id env w = (x, w')"
  define n where "n = w_ids w"
  let ?Q = "holds (\<lambda>m. A m \<and> reserved (e_newID env n) m)"
  have x: "x = e_newID env n" "w_store w' = w_store w" "w_ids w' = Suc n" using w(3) by (auto simp: draw_id_def n_def)
  have "rg_inv env w'" using w(1) x by (auto simp: rg_inv_def world_ok_def n_def)
  moreover have "rg_guar env lk S w w'" using x by (simp add: rg_guar_def n_def)
  moreover have "rg.stable env lk (insert n S) ?Q"
    using rg.stable_mono [OF assms(1)] stable_reserved [of n "insert n S"] by (blast intro: stable_conj)
  moreover have "?Q w'" using w(1,2) x by (simp add: holds_def reserved_def rg_inv_def world_ok_def n_def)
  moreover have "insert n S \<subseteq> S \<union> {w_ids w..<w_ids w'}" using x by (auto simp: n_def)
  ultimately show "rg_inv env w' \<and> rg_guar env lk S w w' \<and>
      (\<exists>Q S'. S' \<subseteq> S \<union> {w_ids w..<w_ids w'} \<and> rg.stable env lk S' Q \<and> Q w' \<and> rg.safe env lk S' Q (k x))"
    using assms(2) x(1) by blast
qed

text \<open>Writing back a run that is stored with the same identity.\<close>

lemma safe_update:
  assumes "identity q = identity r" "\<And>res. rg.safe env lk S (holds (own_run r)) (k res)"
  shows "rg.safe env lk S (holds (own_run r)) (act (call (st_UpdateRun ops q)) k)"
proof (rule rg.safe_act)
  fix w x w' assume w: "rg_inv env w" "holds (own_run r) w" "call (st_UpdateRun ops q) w = (x, w')"
  let ?m = "runs_of (w_store w)" and ?m' = "runs_of (w_store w')"
  have ok: "world_ok env w" using w(1) by (simp add: rg_inv_def)
  note u = call_UpdateRun [OF ok w(3)]
  have "r_ID q = r_ID r" using assms(1) by (simp add: identity_def)
  then obtain r0 where r0: "?m (r_ID q) = Some r0" "identity q = identity r0"
    using w(2) assms(1) by (auto simp: holds_def own_run_def)
  have cases: "?m' = ?m \<or> ?m' = ?m(r_ID q \<mapsto> q)" using u(3) by (auto split: sum.splits)
  then have g: "grows lk X ?m ?m'" for X using grows_update [of ?m "r_ID q" r0 q] r0 by auto
  have sub: "\<exists>y0\<in>ran ?m. identity y0 = identity y" if "y \<in> ran ?m'" for y
    using cases ran_upd_cases [of y ?m "r_ID q" q] that r0 by (metis ranI)
  have "first_unique ?m'" using cases first_unique_update [of ?m "r_ID q" r0 q] r0 w(1) by (auto simp: rg_inv_def)
  moreover have "\<forall>y\<in>ran ?m'. 0 \<le> r_Attempt y \<and> (\<forall>i\<ge>w_ids w. r_BatchID y \<noteq> e_newID env i)"
    using sub w(1) unfolding rg_inv_def identity_def by (metis (no_types, lifting) Pair_inject)
  ultimately have "rg_inv env w'" using u w(1) by (simp add: rg_inv_def)
  moreover have "holds (own_run r) w'" using own_run_grows [OF _ g] w(2) by (simp add: holds_def)
  moreover have "rg_guar env lk S w w'" using g u(6) by (simp add: rg_guar_def)
  ultimately show "rg_inv env w' \<and> rg_guar env lk S w w' \<and>
      (\<exists>Q S'. S' \<subseteq> S \<union> {w_ids w..<w_ids w'} \<and> rg.stable env lk S' Q \<and> Q w' \<and> rg.safe env lk S' Q (k x))"
    using assms(2) stable_own by blast
qed

text \<open>Creating a run under an owned identifier.\<close>

lemma safe_create:
  assumes "n \<in> S" "r_ID r = e_newID env n" "0 \<le> r_Attempt r"
    and A: "\<And>m. A m \<Longrightarrow> reserved (e_newID env n) m \<and> new_run_ok lk (e_newID env ` S) m r \<and>
          (r_Attempt r \<noteq> 0 \<or> no_run (r_JobID r) (r_BatchID r) m)"
    and B: "rg.stable env lk S (holds B)" "\<And>m m'. A m \<Longrightarrow> grows lk (e_newID env ` S) m m' \<Longrightarrow> B m'"
    and k: "\<And>res. rg.safe env lk S (holds B) (k res)"
  shows "rg.safe env lk S (holds A) (act (call (st_CreateRun ops r)) k)"
proof (rule rg.safe_act)
  fix w x w' assume w: "rg_inv env w" "holds A w" "S \<subseteq> {..<w_ids w}" "call (st_CreateRun ops r) w = (x, w')"
  let ?m = "runs_of (w_store w)" and ?m' = "runs_of (w_store w')"
  have a: "?m (r_ID r) = None" "new_run_ok lk (e_newID env ` S) ?m r" "r_Attempt r \<noteq> 0 \<or> no_run (r_JobID r) (r_BatchID r) ?m"
    using A w(2) assms(2) by (auto simp: holds_def reserved_def)
  have ok: "world_ok env w" using w(1) by (simp add: rg_inv_def)
  have n: "n < w_ids w" using w(3) assms(1) by auto
  note c = call_CreateRun [OF ok assms(2) n a(1) w(4)]
  have cases: "?m' = ?m \<or> ?m' = ?m(r_ID r \<mapsto> r)" using c(4) by (auto split: sum.splits)
  then have g: "grows lk (e_newID env ` S) ?m ?m'" using grows_add [OF a(1,2)] by auto
  have batch: "r_BatchID r \<noteq> e_newID env i" if "w_ids w \<le> i" for i
  proof -
    have "r_BatchID q \<noteq> e_newID env i" if "q \<in> ran ?m" for q using w(1) that \<open>w_ids w \<le> i\<close> by (auto simp: rg_inv_def)
    moreover have "e_newID env i \<notin> e_newID env ` S" using ok w(3) that by (auto simp: world_ok_def dest: injD)
    ultimately show ?thesis using a(2) unfolding new_run_ok_def no_run_def by metis
  qed
  have "first_unique ?m'" using cases first_unique_add [OF _ a(3)] w(1) by (auto simp: rg_inv_def)
  moreover have "\<forall>y\<in>ran ?m'. 0 \<le> r_Attempt y \<and> (\<forall>i\<ge>w_ids w. r_BatchID y \<noteq> e_newID env i)"
    using cases ran_upd_cases [of _ ?m "r_ID r" r] w(1) assms(3) batch unfolding rg_inv_def by metis
  ultimately have "rg_inv env w'" using c(1,2,3) w(1) by (simp add: rg_inv_def)
  moreover have "holds B w'" using B(2) w(2) g by (simp add: holds_def)
  moreover have "rg_guar env lk S w w'" using g c(3) by (simp add: rg_guar_def)
  ultimately show "rg_inv env w' \<and> rg_guar env lk S w w' \<and>
      (\<exists>Q S'. S' \<subseteq> S \<union> {w_ids w..<w_ids w'} \<and> rg.stable env lk S' Q \<and> Q w' \<and> rg.safe env lk S' Q (k x))"
    using k B(1) by blast
qed

section \<open>The goroutines are safe\<close>

lemma own_run_cong: "identity q = identity r \<Longrightarrow> own_run q = own_run r"
  by (auto simp: own_run_def identity_def fun_eq_iff)

lemma own_run_no_run: "own_run r m \<Longrightarrow> \<not> no_run (r_JobID r) (r_BatchID r) m"
  by (auto simp: own_run_def no_run_def identity_def intro!: bexI ranI)

lemma safe_metric:
  "rg.stable env lk S (holds A) \<Longrightarrow> rg.safe env lk S (holds A) p \<Longrightarrow> rg.safe env lk S (holds A) (metric f p)"
  unfolding metric_def by (intro safe_quiet quiet_metric)

lemma safe_retry:
  assumes "identity q = identity r" "0 \<le> r_Attempt r" "r_Attempt r < max_int64"
    and k: "\<And>T res. S \<subseteq> T \<Longrightarrow> rg.safe env lk T (holds (own_run r)) (k res)"
  shows "rg.safe env lk S (holds (own_run r)) (retry_prog ops env j q t k)"
  unfolding retry_prog_def
proof (rule safe_quiet [OF quiet_delay stable_own], rule safe_draw [OF stable_own])
  fix d n
  have q: "r_JobID q = r_JobID r" "r_BatchID q = r_BatchID r" "r_Attempt q = r_Attempt r"
    using assms(1) by (simp_all add: identity_def)
  have a: "wrap64 (r_Attempt r + 1) = r_Attempt r + 1" using assms(2,3) by (simp add: wrap64_def max_int64_def)
  show "rg.safe env lk (insert n S) (holds (\<lambda>m. own_run r m \<and> reserved (e_newID env n) m))
      (act (call (st_CreateRun ops (retry_run (e_newID env n) q t d))) k)"
  proof (rule safe_create [where n = n and B = "own_run r"])
    fix m assume "own_run r m \<and> reserved (e_newID env n) m"
    then show "reserved (e_newID env n) m \<and>
        new_run_ok lk (e_newID env ` insert n S) m (retry_run (e_newID env n) q t d) \<and>
        (r_Attempt (retry_run (e_newID env n) q t d) \<noteq> 0 \<or>
         no_run (r_JobID (retry_run (e_newID env n) q t d)) (r_BatchID (retry_run (e_newID env n) q t d)) m)"
      using own_run_no_run assms(2) by (simp add: new_run_ok_def q a)
  qed (use assms(2) q a own_run_grows in \<open>auto intro: stable_own k [OF subset_insertI]\<close>)
qed

lemma safe_finish_ok:
  assumes "identity q = identity r"
    and k: "\<And>T p err. S \<subseteq> T \<Longrightarrow> identity p = identity r \<Longrightarrow> rg.safe env lk T (holds (own_run r)) (k (p, err))"
  shows "rg.safe env lk S (holds (own_run r)) (finish_ok_prog ops j q dur k)"
proof -
  have "identity (q\<lparr>r_State := StateSucceeded, r_Error := []\<rparr>) = identity r" using assms(1) by (simp add: identity_def)
  then show ?thesis
    unfolding finish_ok_prog_def Let_def by (intro safe_metric stable_own safe_update k) auto
qed

lemma safe_finish_failed:
  assumes "identity q = identity r" "0 \<le> r_Attempt r" "j_MaxRetries j \<le> max_int64"
    and k: "\<And>T p err. S \<subseteq> T \<Longrightarrow> identity p = identity r \<Longrightarrow> rg.safe env lk T (holds (own_run r)) (k (p, err))"
  shows "rg.safe env lk S (holds (own_run r)) (finish_failed_prog ops env j q msg t dur k)"
proof -
  have i: "identity (q\<lparr>r_Error := msg, r_State := s\<rparr>) = identity r" "r_Attempt q = r_Attempt r" for s
    using assms(1) by (simp_all add: identity_def)
  show ?thesis
  proof (cases "r_Attempt q < j_MaxRetries j")
    case True
    then have "r_Attempt r < max_int64" using assms(3) i(2) by simp
    then show ?thesis
      using True unfolding finish_failed_prog_def Let_def
      by (auto intro!: safe_update safe_retry safe_metric stable_own k i assms(2) split: sum.split)
  next
    case False
    then show ?thesis
      unfolding finish_failed_prog_def Let_def by (auto intro!: safe_metric stable_own safe_update k i)
  qed
qed

lemma safe_process:
  assumes k: "\<And>T p err. S \<subseteq> T \<Longrightarrow> identity p = identity r \<Longrightarrow> rg.safe env lk T (holds (own_run r)) (k (p, err))"
  shows "rg.safe env lk S (holds (own_run r)) (process_prog ops env ex r k)"
  unfolding process_prog_def
proof (rule safe_learn [OF quiet_GetJob])
  fix w x w' assume w: "rg_inv env w" "own_run r (runs_of (w_store w))" "call (st_GetJob ops (r_JobID r)) w = (x, w')"
  have a: "0 \<le> r_Attempt r" using w(1,2) by (auto simp: rg_inv_def own_run_def identity_def ran_def)
  have j: "j_MaxRetries j \<le> max_int64" if "x = Inr j" for j
    using call_GetJob(3) [of env w "r_JobID r" x w' j] w(1,3) that by (auto simp: rg_inv_def retries_ok_def ran_def)
  have "rg.safe env lk S (holds (own_run r)) (case x of Inl e \<Rightarrow> k (r, Some e) | Inr j \<Rightarrow>
         act (read_clock env) (\<lambda>start.
         act (execute_act env ex j r) (\<lambda>(execErr, cancelled).
           if cancelled then k (r, None)
           else act (read_clock env) (\<lambda>finish.
             let dur = Sub finish start; r = r\<lparr>r_FinishedAt := Some finish, r_UpdatedAt := finish\<rparr>
             in case execErr of
                  None \<Rightarrow> finish_ok_prog ops j r dur k
                | Some msg \<Rightarrow> finish_failed_prog ops env j r msg finish dur k))))"
    using a j
    by (auto simp: Let_def identity_def intro!: safe_quiet quiet_clock quiet_execute stable_own k safe_finish_ok safe_finish_failed
        split: sum.split option.split)
  then show "\<exists>B. rg.stable env lk S (holds B) \<and> B (runs_of (w_store w)) \<and> rg.safe env lk S (holds B)
      (case x of Inl e \<Rightarrow> k (r, Some e) | Inr j \<Rightarrow>
         act (read_clock env) (\<lambda>start.
         act (execute_act env ex j r) (\<lambda>(execErr, cancelled).
           if cancelled then k (r, None)
           else act (read_clock env) (\<lambda>finish.
             let dur = Sub finish start; r = r\<lparr>r_FinishedAt := Some finish, r_UpdatedAt := finish\<rparr>
             in case execErr of
                  None \<Rightarrow> finish_ok_prog ops j r dur k
                | Some msg \<Rightarrow> finish_failed_prog ops env j r msg finish dur k))))"
    using w(2) stable_own by blast
qed

lemma safe_deps:
  assumes "\<And>res. rg.safe env True S (holds (own_run c)) (k res)"
  shows "rg.safe env True S (holds (own_run c)) (deps_prog ops deps b k)"
  by (induction deps) (auto intro!: assms safe_quiet quiet_ListRuns stable_own split: sum.split)

text \<open>The check for an existing run and the creation of the dependent: only the mutex makes the answer of
  the check last.\<close>

lemma safe_dependent:
  assumes k: "\<And>T res. S \<subseteq> T \<Longrightarrow> rg.safe env True T (holds (own_run c)) (k res)"
  shows "rg.safe env True S (holds (own_run c)) (dependent_prog ops env c now j k)"
  unfolding dependent_prog_def
proof (rule safe_deps)
  fix res :: "store_error + bool"
  let ?f = "zero_filter\<lparr>f_JobID := j_ID j, f_BatchID := r_BatchID c\<rparr>"
  let ?A = "\<lambda>m. own_run c m \<and> no_run (j_ID j) (r_BatchID c) m"
  let ?create = "act (draw_id env) (\<lambda>rid. act (call (st_CreateRun ops (dependent_run rid (r_BatchID c) j now))) k)"
  let ?after = "\<lambda>res. case res of Inl e \<Rightarrow> k (Inl e) | Inr existing \<Rightarrow> if 0 < length existing then k (Inr ()) else ?create"
  have create: "rg.safe env True S (holds ?A) ?create"
  proof (rule safe_draw [OF stable_no_run])
    fix n
    let ?r = "dependent_run (e_newID env n) (r_BatchID c) j now"
    show "rg.safe env True (insert n S) (holds (\<lambda>m. ?A m \<and> reserved (e_newID env n) m)) (act (call (st_CreateRun ops ?r)) k)"
    proof (rule safe_create [where n = n and B = "own_run c"])
      fix m assume "?A m \<and> reserved (e_newID env n) m"
      then show "reserved (e_newID env n) m \<and> new_run_ok True (e_newID env ` insert n S) m ?r \<and>
          (r_Attempt ?r \<noteq> 0 \<or> no_run (r_JobID ?r) (r_BatchID ?r) m)"
        using own_run_batch by (auto simp: new_run_ok_def)
    qed (use own_run_grows in \<open>auto intro: stable_own k [OF subset_insertI]\<close>)
  qed
  have "rg.safe env True S (holds (own_run c)) (act (call (st_ListRuns ops ?f)) ?after)"
  proof (rule safe_learn [OF quiet_ListRuns])
    fix w x w' assume w: "rg_inv env w" "own_run c (runs_of (w_store w))" "call (st_ListRuns ops ?f) w = (x, w')"
    have "no_run (j_ID j) (r_BatchID c) (runs_of (w_store w))" if "x = Inr []"
    proof -
      have "set [] = {r. r \<in> ran (runs_of (w_store w)) \<and> run_matches ?f r}"
        using call_ListRuns(3) [of env w ?f x w' "[]"] w(1,3) that by (simp add: rg_inv_def zero_filter_def)
      then show ?thesis by (auto simp: no_run_def run_matches_def zero_filter_def)
    qed
    note empty = this
    consider "x = Inr []" "?A (runs_of (w_store w))" | "?after x = k (Inr ())" | e where "?after x = k (Inl e)"
    proof (cases x)
      case (Inr existing)
      then show ?thesis using that w(2) empty by (cases "existing = []") auto
    qed simp
    then show "\<exists>B. rg.stable env True S (holds B) \<and> B (runs_of (w_store w)) \<and> rg.safe env True S (holds B) (?after x)"
    proof cases
      case 1
      then show ?thesis using create stable_no_run by (intro exI [of _ ?A]) simp
    next
      case 2
      show ?thesis unfolding 2 by (intro exI [of _ "own_run c"] conjI stable_own w(2) k [OF subset_refl])
    next
      case 3
      show ?thesis unfolding 3 by (intro exI [of _ "own_run c"] conjI stable_own w(2) k [OF subset_refl])
    qed
  qed
  then show "rg.safe env True S (holds (own_run c))
      (case res of Inl e \<Rightarrow> k (Inl e) | Inr ready \<Rightarrow> if \<not> ready then k (Inr ()) else act (call (st_ListRuns ops ?f)) ?after)"
    using k [OF subset_refl] by (cases res) (simp_all only: sum.case split: if_split, blast)
qed

lemma safe_dependents:
  "(\<And>T res. S \<subseteq> T \<Longrightarrow> rg.safe env True T (holds (own_run c)) (k res)) \<Longrightarrow>
   rg.safe env True S (holds (own_run c)) (dependents_prog ops env c now js k)"
proof (induction js arbitrary: S)
  case (Cons j js)
  have "rg.safe env True T (holds (own_run c)) (dependents_prog ops env c now js k)" if "S \<subseteq> T" for T
    using that Cons.prems by (intro Cons.IH) auto
  then show ?case using Cons.prems by (auto intro!: safe_dependent split: sum.split)
qed simp

lemma safe_work: "rg.safe env False S (holds (own_run r)) (work_prog ops env ex r)"
  unfolding work_prog_def
proof (rule safe_process)
  fix T p and err :: "store_error option" assume p: "identity p = identity r"
  have "rg.safe env True T' (holds (own_run p)) (Unlock Halt)" for T'
    by (rule rg.safe_Unlock [where Q = "\<lambda>_. True"]) (auto intro: rg.safe_Halt simp: rg.stable_def)
  then have "rg.safe env True T (holds (own_run p))
      (act (read_clock env) (\<lambda>now. enqueueDependents_prog ops env p now (\<lambda>_. Unlock Halt)))"
    unfolding enqueueDependents_prog_def
    by (auto intro!: safe_quiet quiet_clock quiet_ListJobs stable_own safe_dependents split: sum.split)
  then show "rg.safe env False T (holds (own_run r)) (case (p, err) of (result, err) \<Rightarrow> case err of Some e \<Rightarrow> Halt | None \<Rightarrow>
      if r_State result = StateSucceeded
      then Lock (act (read_clock env) (\<lambda>now. enqueueDependents_prog ops env result now (\<lambda>_. Unlock Halt))) else Halt)"
    using own_run_cong [OF p] by (auto intro: rg.safe_Halt rg.safe_Lock split: option.split)
qed

lemma stable_True: "rg.stable env lk S (holds (\<lambda>_. True))"
  by (simp add: rg.stable_def holds_def)

text \<open>A run of its own batch, under identifiers drawn for it.\<close>

lemma safe_fresh:
  assumes mk: "\<And>a b. r_ID (mk a b) = a \<and> r_BatchID (mk a b) = b \<and> r_Attempt (mk a b) = 0"
  shows "rg.safe env False S (holds (\<lambda>_. True)) (act (draw_id env) (\<lambda>rid. act (draw_id env) (\<lambda>batch.
           act (call (st_CreateRun ops (mk rid batch))) (\<lambda>_. Halt))))"
proof (rule safe_draw [OF stable_True], rule safe_draw)
  fix a b
  show "rg.stable env False (insert a S) (holds (\<lambda>m. True \<and> reserved (e_newID env a) m))"
    using stable_conj [OF stable_True stable_reserved] by simp
  let ?r = "mk (e_newID env a) (e_newID env b)"
  show "rg.safe env False (insert b (insert a S)) (holds (\<lambda>m. (True \<and> reserved (e_newID env a) m) \<and> reserved (e_newID env b) m))
      (act (call (st_CreateRun ops ?r)) (\<lambda>_. Halt))"
  proof (rule safe_create [where n = a and B = "\<lambda>_. True"])
    fix m assume "(True \<and> reserved (e_newID env a) m) \<and> reserved (e_newID env b) m"
    then show "reserved (e_newID env a) m \<and> new_run_ok False (e_newID env ` insert b (insert a S)) m ?r \<and>
        (r_Attempt ?r \<noteq> 0 \<or> no_run (r_JobID ?r) (r_BatchID ?r) m)"
      by (auto simp: new_run_ok_def no_run_def reserved_def mk)
  qed (auto simp: mk intro: stable_True rg.safe_Halt)
qed

lemma create_fresh:
  assumes mk: "\<And>a b. r_ID (mk a b) = a \<and> r_BatchID (mk a b) = b \<and> r_Attempt (mk a b) = 0" and w: "rg_inv env w"
    and c: "call (st_CreateRun ops (mk (e_newID env (w_ids w)) (e_newID env (Suc (w_ids w))))) (w\<lparr>w_ids := w_ids w + 2\<rparr>) = (res, w')"
  shows "rg_inv env w'"
  using rg.run_keeps [OF w stable_True _ safe_fresh [of mk]] mk c by (simp add: draw_id_def holds_def)

lemma safe_trigger: "rg.safe env False S (holds (\<lambda>_. True)) (trigger_prog ops env k)"
proof -
  have "rg.safe env False S (holds (\<lambda>_. True)) (act (draw_id env) (\<lambda>rid. act (draw_id env) (\<lambda>batch.
         act (call (st_CreateRun ops (triggered_run rid batch j now))) (\<lambda>_. Halt))))" for j now
    by (rule safe_fresh) (simp add: triggered_run_def zero_run_def)
  then show ?thesis
    unfolding trigger_prog_def
    by (intro safe_quiet [OF quiet_GetJob stable_True])
       (auto intro: safe_quiet [OF quiet_clock stable_True] rg.safe_Halt split: sum.split)
qed

text \<open>The pool of a pass starts within the invariant.\<close>

lemma start_pool_inv:
  assumes "rg_inv env w" "\<forall>r\<in>set claimed. own_run r (runs_of (w_store w))"
  shows "rg.pool_inv env (start_pool ops env ex claimed triggers w)"
  unfolding start_pool_def
proof (rule rg.pool_inv_start [OF assms(1)])
  fix p assume "p \<in> set (map (work_prog ops env ex) claimed @ map (trigger_prog ops env) triggers)"
  then consider r where "r \<in> set claimed" "p = work_prog ops env ex r" | k where "p = trigger_prog ops env k" by auto
  then show "\<exists>P. rg.stable env False {} P \<and> P w \<and> rg.safe env False {} P p"
  proof cases
    case 1
    then show ?thesis using assms(2) safe_work stable_own by (intro exI [of _ "holds (own_run r)"]) (simp add: holds_def)
  next
    case 2
    then show ?thesis using safe_trigger stable_True by (intro exI [of _ "holds (\<lambda>_. True)"]) (simp add: holds_def)
  qed
qed simp

text \<open>One worker after the other is one of the interleavings.\<close>

lemma sequential_run:
  assumes "rg_inv env w" "\<forall>r\<in>set claimed. own_run r (runs_of (w_store w))" "0 < n"
  shows "\<exists>p. (pool_step n)\<^sup>*\<^sup>* (start_pool ops env ex claimed [] w) p \<and> finished_pool p \<and> p_world p = work_all ops env ex claimed w"
  using rg.run_in_order [OF start_pool_inv [OF assms(1,2), of ex "[]"], of n] assms(3)
  by (simp add: start_pool_def fold_work_prog)

end

section \<open>Properties\<close>

text \<open>A world a pass can start from: besides the invariant of the store and fresh identifiers, batches are
  never named by an identifier still to be drawn, first attempts are unique, and numbers are in range.\<close>

definition pool_ready :: "env \<Rightarrow> MemStore world \<Rightarrow> bool" where
  "pool_ready env w \<longleftrightarrow>
     mem_world_ok env w \<and> (\<forall>i\<ge>w_ids w. \<forall>r\<in>ran (mem_runs (w_store w)). r_BatchID r \<noteq> e_newID env i) \<and>
     first_unique (mem_runs (w_store w)) \<and> (\<forall>r\<in>ran (mem_runs (w_store w)). 0 \<le> r_Attempt r) \<and>
     retries_ok (mem_jobs (w_store w))"

lemma pool_ready_eq: "mem.rg_inv = pool_ready"
  by (simp add: fun_eq_iff mem.rg_inv_def pool_ready_def mem_world_ok_eq)

lemma mem_start_pool_inv:
  assumes "pool_ready env w" "\<forall>r\<in>set claimed. own_run r (mem_runs (w_store w))"
  shows "mem.rg.pool_inv env (start_pool memory_ops env ex claimed triggers w)"
  using assms by (intro mem.start_pool_inv) (simp_all add: pool_ready_eq)

lemma flaky_pool_ready: "pool_ready sample_env flaky_world"
proof -
  have ran: "ran (mem_runs (w_store flaky_world)) = {flaky_run}"
    by (auto simp: flaky_world_def mem_runs_def ran_def split: if_splits)
  have "show_nat i \<noteq> ''x''" for i using show_nat_digits [of "CHR ''x''" i] by (auto simp: is_digit_def byte_def)
  then have "\<forall>i. r_BatchID flaky_run \<noteq> e_newID sample_env i" by (auto simp: flaky_run_def sample_env_def dest: sym)
  then show ?thesis
    using flaky_world_ok flaky_data(2) by (simp add: pool_ready_def ran first_unique_def flaky_run_def zero_run_def)
qed

lemma flaky_claimed: "\<forall>r\<in>set [flaky_run]. own_run r (mem_runs (w_store flaky_world))"
  by (simp add: own_run_def flaky_world_def mem_runs_def flaky_run_def)

text \<open>C14: a pass ends: no interleaving goes on forever, and one that cannot go on has finished every
  goroutine, so that \<^verbatim>\<open>wg.Wait\<close> returns and nobody is left waiting for the mutex or the semaphore.\<close>

theorem pool_finishes:
  assumes "pool_ready env w" "\<forall>r\<in>set claimed. own_run r (mem_runs (w_store w))" "0 < n"
  shows "(\<nexists>f. f 0 = start_pool memory_ops env ex claimed triggers w \<and> (\<forall>i. pool_step n (f i) (f (Suc i)))) \<and>
    (\<forall>p. (pool_step n)\<^sup>*\<^sup>* (start_pool memory_ops env ex claimed triggers w) p \<and> (\<nexists>p'. pool_step n p p') \<longrightarrow> finished_pool p)"
proof
  have "\<nexists>f. \<forall>i. pool_step n (f i) (f (Suc i) :: MemStore world pool)"
    using pool_step_wf [of n] by (simp add: wfp_def wf_iff_no_infinite_down_chain)
  then show "\<nexists>f. f 0 = start_pool memory_ops env ex claimed triggers w \<and> (\<forall>i. pool_step n (f i) (f (Suc i)))" by blast
  show "\<forall>p. (pool_step n)\<^sup>*\<^sup>* (start_pool memory_ops env ex claimed triggers w) p \<and> (\<nexists>p'. pool_step n p p') \<longrightarrow> finished_pool p"
    using mem.rg.pool_steps_inv [OF _ mem_start_pool_inv [OF assms(1,2)]] mem.rg.pool_progress [OF _ _ assms(3)] by blast
qed

theorem pool_finishes_witness:
  "\<nexists>f. f 0 = start_pool memory_ops sample_env NoopExecutor [flaky_run] [''a''] flaky_world \<and> (\<forall>i. pool_step 4 (f i) (f (Suc i)))"
  using pool_finishes [OF flaky_pool_ready flaky_claimed, of 4 NoopExecutor "[''a'']"] by simp

end
