(* ===== verification/Pool_Order.thy ===== *)
theory Pool_Order
  imports Pool Ordering
begin

text \<open>
  The order of executions when the worker goroutines run concurrently. The invariant of \<open>Ordering\<close> holds
  in every state of every interleaving of a pool, by the rely-guarantee logic of \<open>Interleaving\<close> with
  assertions on the stored runs and the trace. Passes with such pools, dispatching in between and
  triggers at any moment make up the concurrent scheduler, of which the sequential one of \<open>Scheduler\<close> is a
  special case.
\<close>

section \<open>Assertions on runs and trace\<close>

text \<open>Assertions that survive what the other goroutines do: stored runs keep their identity, new ones have
  identifiers of their own, and the trace is only extended.\<close>

definition lasting :: "env \<Rightarrow> nat set \<Rightarrow> ((string \<rightharpoonup> Run) \<Rightarrow> (Job \<times> Run) list \<Rightarrow> bool) \<Rightarrow> bool" where
  "lasting env S A \<longleftrightarrow> (\<forall>m m' T xs X. A m T \<longrightarrow> X \<inter> S = {} \<longrightarrow> inj (e_newID env) \<longrightarrow>
     grows True (e_newID env ` X) m m' \<longrightarrow> A m' (T @ xs))"

lemma lastingI:
  "(\<And>m m' T xs X. A m T \<Longrightarrow> X \<inter> S = {} \<Longrightarrow> inj (e_newID env) \<Longrightarrow> grows True (e_newID env ` X) m m' \<Longrightarrow> A m' (T @ xs)) \<Longrightarrow>
   lasting env S A"
  by (simp add: lasting_def)

lemma lastingD:
  "lasting env S A \<Longrightarrow> A m T \<Longrightarrow> X \<inter> S = {} \<Longrightarrow> inj (e_newID env) \<Longrightarrow> grows True (e_newID env ` X) m m' \<Longrightarrow> A m' (T @ xs)"
  by (simp add: lasting_def)

definition owns :: "Run \<Rightarrow> (string \<rightharpoonup> Run) \<Rightarrow> (Job \<times> Run) list \<Rightarrow> bool" where
  "owns r m T \<longleftrightarrow> own_run r m"

text \<open>A job has been executed successfully in a batch.\<close>

definition achieved :: "env \<Rightarrow> Executor \<Rightarrow> string \<Rightarrow> string \<Rightarrow> (Job \<times> Run) list \<Rightarrow> bool" where
  "achieved env ex k b T \<longleftrightarrow> (\<exists>q<length T. succeeded_call env ex T q k b)"

text \<open>A run may be created: the first of its batch, a further one of its job, or one of a prepared job.\<close>

definition may_start :: "env \<Rightarrow> Executor \<Rightarrow> (string \<rightharpoonup> Job) \<Rightarrow> Run \<Rightarrow> (string \<rightharpoonup> Run) \<Rightarrow> (Job \<times> Run) list \<Rightarrow> bool" where
  "may_start env ex J r m T \<longleftrightarrow>
     (\<forall>q\<in>ran m. r_BatchID q \<noteq> r_BatchID r) \<or> (\<exists>q\<in>ran m. r_JobID q = r_JobID r \<and> r_BatchID q = r_BatchID r) \<or>
     prepared env ex J T (length T) (r_JobID r) (r_BatchID r)"

lemma achieved_append: "achieved env ex k b T \<Longrightarrow> achieved env ex k b (T @ xs)"
  unfolding achieved_def by (metis succeeded_call_append length_append trans_less_add1)

lemma prepared_achieved:
  "J k = Some j \<Longrightarrow> j_DependsOn j \<noteq> [] \<Longrightarrow> \<forall>d\<in>set (j_DependsOn j). achieved env ex d b T \<Longrightarrow> prepared env ex J T (length T) k b"
  by (simp add: prepared_def achieved_def)

lemma lasting_owns: "lasting env S (owns r)"
  by (rule lastingI) (simp add: owns_def own_run_grows)

lemma lasting_True: "lasting env S (\<lambda>m T. True)"
  by (rule lastingI) simp

lemma lasting_achieved: "lasting env S (\<lambda>m T. achieved env ex k b T)"
  by (rule lastingI) (simp add: achieved_append)

lemma lasting_reserved:
  assumes "n \<in> S"
  shows "lasting env S (\<lambda>m T. reserved (e_newID env n) m)"
proof (rule lastingI)
  fix m m' :: "string \<rightharpoonup> Run" and X
  assume *: "reserved (e_newID env n) m" "X \<inter> S = {}" "inj (e_newID env)" "grows True (e_newID env ` X) m m'"
  have "e_newID env n \<notin> e_newID env ` X" using assms *(2,3) by (auto dest: injD)
  then show "reserved (e_newID env n) m'" by (rule reserved_grows [OF *(1,4)])
qed

lemma lasting_conj: "lasting env S A \<Longrightarrow> lasting env S B \<Longrightarrow> lasting env S (\<lambda>m T. A m T \<and> B m T)"
  by (rule lastingI) (meson lastingD)

lemma lasting_imp: "lasting env S A \<Longrightarrow> lasting env S (\<lambda>m T. b \<longrightarrow> A m T)"
  by (rule lastingI) (meson lastingD)

lemma lasting_ball: "(\<And>d. d \<in> D \<Longrightarrow> lasting env S (A d)) \<Longrightarrow> lasting env S (\<lambda>m T. \<forall>d\<in>D. A d m T)"
  by (rule lastingI) (meson lastingD)

lemma lasting_mono:
  assumes "lasting env S A" "S \<subseteq> S'"
  shows "lasting env S' A"
proof (rule lastingI)
  fix m m' T xs X assume *: "A m T" "X \<inter> S' = {}" "inj (e_newID env)" "grows True (e_newID env ` X) m m'"
  have "X \<inter> S = {}" using *(2) assms(2) by blast
  from lastingD [OF assms(1) *(1) this *(3,4)] show "A m' (T @ xs)" .
qed

lemmas lasting_intros = lasting_conj lasting_imp lasting_owns lasting_True lasting_achieved lasting_reserved

section \<open>The logic on the ordered world\<close>

context store_contract
begin

definition order_guar :: "env \<Rightarrow> bool \<Rightarrow> nat set \<Rightarrow> 's world \<Rightarrow> 's world \<Rightarrow> bool" where
  "order_guar env lk S w w' \<longleftrightarrow> rg_guar env True S w w' \<and> (\<exists>xs. w_trace w' = w_trace w @ xs)"

definition knows :: "((string \<rightharpoonup> Run) \<Rightarrow> (Job \<times> Run) list \<Rightarrow> bool) \<Rightarrow> 's world \<Rightarrow> bool" where
  "knows A w \<longleftrightarrow> A (runs_of (w_store w)) (w_trace w)"

end

sublocale store_contract < og: rely_guarantee "ordered_world env ex J" "order_guar env" w_ids for env ex J
  by unfold_locales (simp add: order_guar_def rg_guar_def)

context store_contract
begin

lemma stable_knows:
  assumes "lasting env S A"
  shows "og.stable env ex J lk S (knows A)"
  unfolding og.stable_def
proof (intro allI impI)
  fix w w' assume w: "ordered_world env ex J w" "knows A w" "og.rely env lk S w w'"
  then obtain X xs where x: "X \<inter> S = {}" "grows True (e_newID env ` X) (runs_of (w_store w)) (runs_of (w_store w'))" "w_trace w' = w_trace w @ xs"
    unfolding og.rely_def order_guar_def rg_guar_def by metis
  have "inj (e_newID env)" using ordered_worldD(1) [OF w(1)] by (simp add: world_ok_def)
  from lastingD [OF assms w(2) [unfolded knows_def] x(1) this x(2)] show "knows A w'" unfolding knows_def x(3) .
qed

text \<open>One action: the invariant and the guarantee, and what is known afterwards.\<close>

lemma og_act:
  assumes "\<And>w x w'. ordered_world env ex J w \<Longrightarrow> A (runs_of (w_store w)) (w_trace w) \<Longrightarrow> S \<subseteq> {..<w_ids w} \<Longrightarrow> a w = (x, w') \<Longrightarrow>
    ordered_world env ex J w' \<and> w_ids w \<le> w_ids w' \<and> (\<exists>xs. w_trace w' = w_trace w @ xs) \<and>
    grows True (e_newID env ` S) (runs_of (w_store w)) (runs_of (w_store w')) \<and>
    (\<exists>B S'. S' \<subseteq> S \<union> {w_ids w..<w_ids w'} \<and> lasting env S' B \<and> B (runs_of (w_store w')) (w_trace w') \<and>
       og.safe env ex J lk S' (knows B) (k x))"
  shows "og.safe env ex J lk S (knows A) (act a k)"
proof (rule og.safe_act)
  fix w x w' assume "ordered_world env ex J w" "knows A w" "S \<subseteq> {..<w_ids w}" "a w = (x, w')"
  note * = assms [OF this(1) this(2) [unfolded knows_def] this(3,4)]
  then obtain B S' where B: "S' \<subseteq> S \<union> {w_ids w..<w_ids w'}" "lasting env S' B" "B (runs_of (w_store w')) (w_trace w')"
    "og.safe env ex J lk S' (knows B) (k x)" by blast
  note stable = stable_knows [OF B(2), of ex J lk]
  have "ordered_world env ex J w' \<and> order_guar env lk S w w'" using * by (simp add: order_guar_def rg_guar_def)
  then show "ordered_world env ex J w' \<and> order_guar env lk S w w' \<and>
      (\<exists>Q S'. S' \<subseteq> S \<union> {w_ids w..<w_ids w'} \<and> og.stable env ex J lk S' Q \<and> Q w' \<and> og.safe env ex J lk S' Q (k x))"
    using B stable knows_def [of B w'] by (intro conjI exI [of _ "knows B"] exI [of _ S']) simp_all
qed

lemma og_weaken:
  assumes "og.safe env ex J lk S (knows A) p" "\<And>m T. B m T \<Longrightarrow> A m T"
  shows "og.safe env ex J lk S (knows B) p"
  by (rule og.safe_weaken [OF assms(1)]) (simp add: knows_def assms(2))

text \<open>Actions that leave jobs, runs, identifiers and the trace alone.\<close>

definition silent :: "env \<Rightarrow> ('s world \<Rightarrow> 'a \<times> 's world) \<Rightarrow> bool" where
  "silent env a \<longleftrightarrow> quiet env a \<and> (\<forall>w x w'. a w = (x, w') \<longrightarrow> w_trace w' = w_trace w)"

lemma silent_call: "quiet env (call f) \<Longrightarrow> silent env (call f)"
  unfolding silent_def using trace.call_frame by blast

lemma silent_clock: "silent env (read_clock env)"
  using quiet_clock by (simp add: silent_def read_clock_def)

lemma silent_metric: "silent env (\<lambda>w. ((), on_metrics f w))"
  using quiet_metric by (simp add: silent_def)

lemma silent_delay: "silent env (draw_delay env e n)"
  unfolding silent_def using quiet_delay draw_delay_sel(5) by blast

lemma og_learn:
  assumes "silent env a"
    "\<And>w x w'. ordered_world env ex J w \<Longrightarrow> A (runs_of (w_store w)) (w_trace w) \<Longrightarrow> a w = (x, w') \<Longrightarrow>
       \<exists>B. lasting env S B \<and> B (runs_of (w_store w)) (w_trace w) \<and> og.safe env ex J lk S (knows B) (k x)"
  shows "og.safe env ex J lk S (knows A) (act a k)"
proof (rule og_act)
  fix w x w' assume w: "ordered_world env ex J w" "A (runs_of (w_store w)) (w_trace w)" "a w = (x, w')"
  have q: "world_ok env w'" "same_data w w'" "w_ids w' = w_ids w" "w_trace w' = w_trace w"
    using assms(1) w(3) ordered_worldD(1) [OF w(1)] unfolding silent_def quiet_def by blast+
  have "ordered_world env ex J w'" using ordered_world_same [OF w(1) q(1,2)] q(3,4) by simp
  then show "ordered_world env ex J w' \<and> w_ids w \<le> w_ids w' \<and> (\<exists>xs. w_trace w' = w_trace w @ xs) \<and>
    grows True (e_newID env ` S) (runs_of (w_store w)) (runs_of (w_store w')) \<and>
    (\<exists>B S'. S' \<subseteq> S \<union> {w_ids w..<w_ids w'} \<and> lasting env S' B \<and> B (runs_of (w_store w')) (w_trace w') \<and>
       og.safe env ex J lk S' (knows B) (k x))"
    using assms(2) [OF w] q by (auto simp: same_data_def)
qed

lemma og_silent:
  "silent env a \<Longrightarrow> lasting env S A \<Longrightarrow> (\<And>x. og.safe env ex J lk S (knows A) (k x)) \<Longrightarrow> og.safe env ex J lk S (knows A) (act a k)"
  by (rule og_learn) auto

lemma og_metric:
  "lasting env S A \<Longrightarrow> og.safe env ex J lk S (knows A) p \<Longrightarrow> og.safe env ex J lk S (knows A) (metric f p)"
  unfolding metric_def by (intro og_silent silent_metric)

lemma og_draw:
  assumes "lasting env S A"
    "\<And>n. og.safe env ex J lk (insert n S) (knows (\<lambda>m T. A m T \<and> reserved (e_newID env n) m)) (k (e_newID env n))"
  shows "og.safe env ex J lk S (knows A) (act (draw_id env) k)"
proof (rule og_act)
  fix w x w' assume w: "ordered_world env ex J w" "A (runs_of (w_store w)) (w_trace w)" "draw_id env w = (x, w')"
  define n where "n = w_ids w"
  let ?B = "\<lambda>m T. A m T \<and> reserved (e_newID env n) m"
  have x: "x = e_newID env n" "w' = w\<lparr>w_ids := Suc n\<rparr>" using w(3) by (auto simp: draw_id_def n_def)
  have "world_ok env w'" using ordered_worldD(1) [OF w(1)] by (simp add: x world_ok_def n_def)
  then have ord: "ordered_world env ex J w'" using ordered_world_same [OF w(1)] by (simp add: x same_data_def n_def)
  have "lasting env (insert n S) ?B"
    using lasting_mono [OF assms(1)] by (auto intro!: lasting_intros)
  moreover have "?B (runs_of (w_store w')) (w_trace w')"
    using w(1,2) by (auto simp: x reserved_def ordered_world_def world_ok_def batches_ok_def n_def)
  moreover have "insert n S \<subseteq> S \<union> {w_ids w..<w_ids w'}" by (auto simp: x n_def)
  moreover have "og.safe env ex J lk (insert n S) (knows ?B) (k x)" unfolding x(1) by (rule assms(2))
  ultimately have "\<exists>B S'. S' \<subseteq> S \<union> {w_ids w..<w_ids w'} \<and> lasting env S' B \<and> B (runs_of (w_store w')) (w_trace w') \<and>
       og.safe env ex J lk S' (knows B) (k x)" by (intro exI [of _ ?B] exI [of _ "insert n S"]) blast
  then show "ordered_world env ex J w' \<and> w_ids w \<le> w_ids w' \<and> (\<exists>xs. w_trace w' = w_trace w @ xs) \<and>
    grows True (e_newID env ` S) (runs_of (w_store w)) (runs_of (w_store w')) \<and>
    (\<exists>B S'. S' \<subseteq> S \<union> {w_ids w..<w_ids w'} \<and> lasting env S' B \<and> B (runs_of (w_store w')) (w_trace w') \<and>
       og.safe env ex J lk S' (knows B) (k x))"
    using ord by (simp add: x n_def)
qed

text \<open>Calling the executor: a success is then in the trace.\<close>

lemma og_execute:
  assumes "J (r_JobID r) = Some j"
    and k: "\<And>x. og.safe env ex J lk S (knows (\<lambda>m T. owns r m T \<and> (x = (None, False) \<longrightarrow> achieved env ex (r_JobID r) (r_BatchID r) T))) (k x)"
  shows "og.safe env ex J lk S (knows (owns r)) (act (execute_act env ex j r) k)"
proof (rule og_act)
  fix w x w' assume w: "ordered_world env ex J w" "owns r (runs_of (w_store w)) (w_trace w)" "execute_act env ex j r w = (x, w')"
  let ?T = "w_trace w"
  have x: "x = (Execute env ex (timeout_of j) j r (length ?T), e_cancelled env (length ?T))" "w' = w\<lparr>w_trace := ?T @ [(j, r)]\<rparr>"
    using w(3) by (simp_all add: execute_act_def Let_def)
  have "\<exists>q\<in>ran (runs_of (w_store w)). r_JobID q = r_JobID r \<and> r_BatchID q = r_BatchID r"
    using w(2) by (auto simp: owns_def own_run_def identity_def intro!: bexI ranI)
  then have "ordered_world env ex J w'" using assms(1) by (intro call_ordered [OF w(1)]) (simp_all add: x)
  moreover have "owns r (runs_of (w_store w')) (w_trace w')" using w(2) by (simp add: x owns_def)
  moreover have "x = (None, False) \<longrightarrow> achieved env ex (r_JobID r) (r_BatchID r) (w_trace w')"
    by (auto simp: x achieved_def succeeded_call_def intro!: exI [of _ "length ?T"])
  ultimately show "ordered_world env ex J w' \<and> w_ids w \<le> w_ids w' \<and> (\<exists>xs. w_trace w' = w_trace w @ xs) \<and>
    grows True (e_newID env ` S) (runs_of (w_store w)) (runs_of (w_store w')) \<and>
    (\<exists>B S'. S' \<subseteq> S \<union> {w_ids w..<w_ids w'} \<and> lasting env S' B \<and> B (runs_of (w_store w')) (w_trace w') \<and>
       og.safe env ex J lk S' (knows B) (k x))"
    using k [of x]
    by (intro conjI exI [of _ S] exI [of _ "\<lambda>m T. owns r m T \<and> (x = (None, False) \<longrightarrow> achieved env ex (r_JobID r) (r_BatchID r) T)"])
      (auto intro!: lasting_intros simp: x(2))
qed

text \<open>Writing back a run: one that is recorded as succeeded has been executed successfully.\<close>

lemma og_update:
  assumes "identity q = identity r" "\<And>res. og.safe env ex J lk S (knows (owns r)) (k res)"
    and A: "\<And>m T. A m T \<Longrightarrow> owns r m T \<and> (r_State q = StateSucceeded \<longrightarrow> achieved env ex (r_JobID r) (r_BatchID r) T)"
  shows "og.safe env ex J lk S (knows A) (act (call (st_UpdateRun ops q)) k)"
proof (rule og_act)
  fix w x w' assume w: "ordered_world env ex J w" "A (runs_of (w_store w)) (w_trace w)" "call (st_UpdateRun ops q) w = (x, w')"
  let ?m = "runs_of (w_store w)" and ?m' = "runs_of (w_store w')"
  note u = call_UpdateRun [OF ordered_worldD(1) [OF w(1)] w(3)]
  have q: "r_ID q = r_ID r" "r_JobID q = r_JobID r" "r_BatchID q = r_BatchID r" using assms(1) by (simp_all add: identity_def)
  obtain r0 where r0: "?m (r_ID q) = Some r0" "identity q = identity r0"
    using A [OF w(2)] assms(1) q(1) by (auto simp: owns_def own_run_def)
  have cases: "?m' = ?m \<or> ?m' = ?m(r_ID q \<mapsto> q)" using u(3) by (auto split: sum.splits)
  have g: "grows lk X ?m ?m'" for lk X using cases grows_update [of ?m "r_ID q" r0 q] r0 by auto
  have "ordered env ex J (?m(r_ID q \<mapsto> q)) (w_trace w)"
    by (rule ordered_upd [OF ordered_worldD(6) [OF w(1)] r0(1)])
       (use A [OF w(2)] r0(2) q in \<open>simp_all add: achieved_def identity_def\<close>)
  then have "ordered env ex J ?m' (w_trace w)" using cases ordered_worldD(6) [OF w(1)] by auto
  moreover have "\<exists>p\<in>ran ?m. r_BatchID p = r_BatchID y" if "y \<in> ran ?m'" for y
    using cases ran_upd_cases [of y ?m "r_ID q" q] that r0 by (metis ranI identity_def Pair_inject)
  ultimately have "ordered_world env ex J w'"
    using u ordered_worldD(2) [OF w(1)] by (intro ordered_world_next [OF w(1)]) auto
  moreover have "owns r ?m' (w_trace w')" using A [OF w(2)] own_run_grows [OF _ g] by (auto simp: owns_def)
  ultimately show "ordered_world env ex J w' \<and> w_ids w \<le> w_ids w' \<and> (\<exists>xs. w_trace w' = w_trace w @ xs) \<and>
    grows True (e_newID env ` S) (runs_of (w_store w)) (runs_of (w_store w')) \<and>
    (\<exists>B S'. S' \<subseteq> S \<union> {w_ids w..<w_ids w'} \<and> lasting env S' B \<and> B (runs_of (w_store w')) (w_trace w') \<and>
       og.safe env ex J lk S' (knows B) (k x))"
    using u(5,6) g assms(2) lasting_owns by (intro conjI exI [of _ S] exI [of _ "owns r"]) auto
qed

text \<open>Creating a run that may be created.\<close>

lemma og_create:
  assumes "n \<in> S" "r_ID r = e_newID env n" "r_State r \<noteq> StateSucceeded"
    and A: "\<And>m T. A m T \<Longrightarrow> reserved (e_newID env n) m \<and> new_run_ok True (e_newID env ` S) m r \<and> may_start env ex J r m T"
    and B: "lasting env S B" "\<And>m m' T. A m T \<Longrightarrow> grows True (e_newID env ` S) m m' \<Longrightarrow> B m' T"
    and k: "\<And>res. og.safe env ex J lk S (knows B) (k res)"
  shows "og.safe env ex J lk S (knows A) (act (call (st_CreateRun ops r)) k)"
proof (rule og_act)
  fix w x w' assume w: "ordered_world env ex J w" "A (runs_of (w_store w)) (w_trace w)" "S \<subseteq> {..<w_ids w}"
    "call (st_CreateRun ops r) w = (x, w')"
  let ?m = "runs_of (w_store w)" and ?m' = "runs_of (w_store w')"
  note ow = ordered_worldD [OF w(1)]
  have a: "?m (r_ID r) = None" "new_run_ok True (e_newID env ` S) ?m r" "may_start env ex J r ?m (w_trace w)"
    using A [OF w(2)] assms(2) by (auto simp: reserved_def)
  have n: "n < w_ids w" using w(3) assms(1) by auto
  note c = call_CreateRun [OF ow(1) assms(2) n a(1) w(4)]
  have tr: "w_trace w' = w_trace w" using trace.call_frame [OF w(4)] by simp
  have cases: "?m' = ?m \<or> ?m' = ?m(r_ID r \<mapsto> r)" using c(4) by (auto split: sum.splits)
  have g: "grows True (e_newID env ` S) ?m ?m'" using cases grows_add [OF a(1,2)] by auto
  have "ordered env ex J (?m(r_ID r \<mapsto> r)) (w_trace w)"
    using a(3) unfolding may_start_def by (intro ordered_add [OF ow(6) a(1) assms(3)])
  then have ord: "ordered env ex J ?m' (w_trace w')" using cases ow(6) tr by auto
  have new: "r_BatchID r \<noteq> [] \<and> (\<forall>i\<ge>w_ids w. r_BatchID r \<noteq> e_newID env i)"
  proof (cases "r_BatchID r \<in> e_newID env ` S")
    case True
    then obtain i where i: "r_BatchID r = e_newID env i" "i < w_ids w" using w(3) by auto
    then show ?thesis using ow(1) ow(4) [of i] by (auto simp: world_ok_def dest: injD)
  next
    case False
    then obtain q where "q \<in> ran ?m" "r_BatchID q = r_BatchID r" using a(2) by (auto simp: new_run_ok_def no_run_def)
    then show ?thesis using ow(5) unfolding batches_ok_def by metis
  qed
  have "batches_ok env (w_ids w) ?m'"
    using cases ran_upd_cases [of _ ?m "r_ID r" r] ow(5) new unfolding batches_ok_def by metis
  then have "ordered_world env ex J w'" using ord c(1,2,3) ow(2,3,4) by (simp add: ordered_world_def)
  moreover have "B ?m' (w_trace w')" using B(2) [OF w(2) g] tr by simp
  ultimately show "ordered_world env ex J w' \<and> w_ids w \<le> w_ids w' \<and> (\<exists>xs. w_trace w' = w_trace w @ xs) \<and>
    grows True (e_newID env ` S) (runs_of (w_store w)) (runs_of (w_store w')) \<and>
    (\<exists>B S'. S' \<subseteq> S \<union> {w_ids w..<w_ids w'} \<and> lasting env S' B \<and> B (runs_of (w_store w')) (w_trace w') \<and>
       og.safe env ex J lk S' (knows B) (k x))"
    using tr c(3) g k B(1) by (intro conjI exI [of _ S] exI [of _ B]) auto
qed

section \<open>The goroutines keep the order\<close>

lemma og_retry:
  assumes "identity q = identity r" and k: "\<And>U res. S \<subseteq> U \<Longrightarrow> og.safe env ex J lk U (knows (owns r)) (k res)"
  shows "og.safe env ex J lk S (knows (owns r)) (retry_prog ops env j q t k)"
  unfolding retry_prog_def
proof (rule og_silent [OF silent_delay lasting_owns], rule og_draw [OF lasting_owns])
  fix d n
  let ?q = "retry_run (e_newID env n) q t d"
  show "og.safe env ex J lk (insert n S) (knows (\<lambda>m T. owns r m T \<and> reserved (e_newID env n) m)) (act (call (st_CreateRun ops ?q)) k)"
  proof (rule og_create [where n = n and B = "owns r"])
    fix m T assume A: "owns r m T \<and> reserved (e_newID env n) m"
    then obtain x where "x \<in> ran m" "r_JobID x = r_JobID ?q" "r_BatchID x = r_BatchID ?q"
      using assms(1) by (auto simp: owns_def own_run_def identity_def intro: ranI)
    then show "reserved (e_newID env n) m \<and> new_run_ok True (e_newID env ` insert n S) m ?q \<and> may_start env ex J ?q m T"
      using A by (auto simp: new_run_ok_def may_start_def)
  qed (auto simp: owns_def run_state_defs intro: own_run_grows lasting_owns k [OF subset_insertI])
qed

lemma og_finish_ok:
  assumes "identity q = identity r"
    and k: "\<And>U p err. S \<subseteq> U \<Longrightarrow> identity p = identity r \<Longrightarrow> og.safe env ex J lk U (knows (owns r)) (k (p, err))"
  shows "og.safe env ex J lk S (knows (\<lambda>m T. owns r m T \<and> achieved env ex (r_JobID r) (r_BatchID r) T)) (finish_ok_prog ops j q dur k)"
proof -
  have "identity (q\<lparr>r_State := StateSucceeded, r_Error := []\<rparr>) = identity r" using assms(1) by (simp add: identity_def)
  then show ?thesis
    unfolding finish_ok_prog_def Let_def by (intro og_metric lasting_intros og_update [where r = r] k) auto
qed

lemma og_finish_failed:
  assumes "identity q = identity r"
    and k: "\<And>U p err. S \<subseteq> U \<Longrightarrow> identity p = identity r \<Longrightarrow> og.safe env ex J lk U (knows (owns r)) (k (p, err))"
  shows "og.safe env ex J lk S (knows (owns r)) (finish_failed_prog ops env j q msg t dur k)"
proof -
  have i: "identity (q\<lparr>r_Error := msg, r_State := s\<rparr>) = identity r" for s using assms(1) by (simp add: identity_def)
  show ?thesis
    unfolding finish_failed_prog_def Let_def
    by (auto intro!: og_update [where r = r] og_retry og_metric lasting_owns k i simp: run_state_defs split: sum.split)
qed

lemma og_process:
  assumes k: "\<And>U p err. S \<subseteq> U \<Longrightarrow> identity p = identity r \<Longrightarrow> og.safe env ex J lk U (knows (owns r)) (k (p, err))"
  shows "og.safe env ex J lk S (knows (owns r)) (process_prog ops env ex r k)"
  unfolding process_prog_def
proof (rule og_learn [OF silent_call [OF quiet_GetJob]])
  fix w x w' assume w: "ordered_world env ex J w" "owns r (runs_of (w_store w)) (w_trace w)" "call (st_GetJob ops (r_JobID r)) w = (x, w')"
  let ?k = "\<lambda>start j. \<lambda>(execErr, cancelled).
           if cancelled then k (r, None)
           else act (read_clock env) (\<lambda>finish.
             let dur = Sub finish start; r = r\<lparr>r_FinishedAt := Some finish, r_UpdatedAt := finish\<rparr>
             in case execErr of
                  None \<Rightarrow> finish_ok_prog ops j r dur k
                | Some msg \<Rightarrow> finish_failed_prog ops env j r msg finish dur k)"
  have j: "J (r_JobID r) = Some j" if "x = Inr j" for j
    using call_GetJob(3) [OF ordered_worldD(1) [OF w(1)] w(3) that] ordered_worldD(2) [OF w(1)] by simp
  have fin: "og.safe env ex J lk S (knows (\<lambda>m T. owns r m T \<and> (y = (None, False) \<longrightarrow> achieved env ex (r_JobID r) (r_BatchID r) T))) (?k start j y)"
    for y start j
  proof (cases "y = (None, False)")
    case True
    then show ?thesis by (auto simp: Let_def identity_def intro!: og_silent silent_clock lasting_intros og_finish_ok k)
  next
    case False
    then show ?thesis
      by (auto simp: Let_def identity_def intro!: og_silent silent_clock lasting_owns og_finish_failed k split: prod.split option.split)
  qed
  have "og.safe env ex J lk S (knows (owns r)) (case x of Inl e \<Rightarrow> k (r, Some e) | Inr j \<Rightarrow>
         act (read_clock env) (\<lambda>start. act (execute_act env ex j r) (?k start j)))"
  proof (cases x)
    case (Inr j')
    then show ?thesis by (simp only: sum.case) (rule og_silent [OF silent_clock lasting_owns], rule og_execute, rule j [OF Inr], rule fin)
  qed (simp add: k)
  then show "\<exists>B. lasting env S B \<and> B (runs_of (w_store w)) (w_trace w) \<and> og.safe env ex J lk S (knows B) (case x of Inl e \<Rightarrow> k (r, Some e) | Inr j \<Rightarrow>
         act (read_clock env) (\<lambda>start. act (execute_act env ex j r) (?k start j)))"
    using w(2) lasting_owns by blast
qed

text \<open>\<^verbatim>\<open>depsSatisfied\<close> learns that each dependency has been executed successfully.\<close>

lemma og_deps:
  assumes "[] \<notin> set deps" "b \<noteq> []" "lasting env S A"
    and "\<And>res. res \<noteq> Inr True \<Longrightarrow> og.safe env ex J lk S (knows A) (k res)"
    and "og.safe env ex J lk S (knows (\<lambda>m T. A m T \<and> (\<forall>d\<in>set deps. achieved env ex d b T))) (k (Inr True))"
  shows "og.safe env ex J lk S (knows A) (deps_prog ops deps b k)"
  using assms
proof (induction deps arbitrary: A)
  case (Cons d deps)
  let ?f = "zero_filter\<lparr>f_JobID := d, f_BatchID := b\<rparr>"
  let ?B = "\<lambda>m T. A m T \<and> achieved env ex d b T"
  let ?after = "\<lambda>x. case x of Inl e \<Rightarrow> k (Inl e) | Inr runs \<Rightarrow> if \<not> hasSucceeded runs then k (Inr False) else deps_prog ops deps b k"
  have rest: "og.safe env ex J lk S (knows ?B) (deps_prog ops deps b k)"
  proof (rule Cons.IH)
    show "og.safe env ex J lk S (knows ?B) (k res)" if "res \<noteq> Inr True" for res
      by (rule og_weaken [OF Cons.prems(4) [OF that]]) simp
    show "og.safe env ex J lk S (knows (\<lambda>m T. ?B m T \<and> (\<forall>d\<in>set deps. achieved env ex d b T))) (k (Inr True))"
      by (rule og_weaken [OF Cons.prems(5)]) simp
  qed (use Cons.prems(1-3) in \<open>auto intro!: lasting_intros\<close>)
  have "og.safe env ex J lk S (knows A) (act (call (st_ListRuns ops ?f)) ?after)"
  proof (rule og_learn [OF silent_call [OF quiet_ListRuns]])
    fix w x w' assume w: "ordered_world env ex J w" "A (runs_of (w_store w)) (w_trace w)" "call (st_ListRuns ops ?f) w = (x, w')"
    have "achieved env ex d b (w_trace w)" if x: "x = Inr runs" "hasSucceeded runs" for runs
    proof -
      have "set runs = {r. r \<in> ran (runs_of (w_store w)) \<and> r_JobID r = d \<and> r_BatchID r = b}"
        using call_ListRuns(3) [OF ordered_worldD(1) [OF w(1)] w(3) x(1)] Cons.prems(1,2) by (auto simp: zero_filter_def run_matches_def)
      then have "succeeded_in (runs_of (w_store w)) d b" using x(2) by (auto simp: hasSucceeded_iff succeeded_in_def)
      then show ?thesis unfolding achieved_def by (rule ordered_succeeded [OF ordered_worldD(6) [OF w(1)]])
    qed
    note succ = this
    consider runs where "x = Inr runs" "hasSucceeded runs" | "?after x = k (Inr False)" | e where "?after x = k (Inl e)"
    proof (cases x)
      case (Inr runs)
      then show ?thesis using that by (cases "hasSucceeded runs") auto
    qed simp
    then show "\<exists>B. lasting env S B \<and> B (runs_of (w_store w)) (w_trace w) \<and> og.safe env ex J lk S (knows B) (?after x)"
    proof cases
      case 1
      then show ?thesis using w(2) rest succ Cons.prems(3) by (intro exI [of _ ?B]) (auto intro: lasting_intros)
    qed (use Cons.prems(3,4) w(2) in \<open>auto intro!: exI [of _ A]\<close>)
  qed
  then show ?case by simp
qed (auto elim: og_weaken)

lemma og_dependent:
  assumes j: "J (j_ID j) = Some j" "j_DependsOn j \<noteq> []" "[] \<notin> set (j_DependsOn j)" "r_BatchID c \<noteq> []"
    and k: "\<And>U res. S \<subseteq> U \<Longrightarrow> og.safe env ex J lk U (knows (owns c)) (k res)"
  shows "og.safe env ex J lk S (knows (owns c)) (dependent_prog ops env c now j k)"
  unfolding dependent_prog_def
proof (rule og_deps [OF j(3,4) lasting_owns])
  let ?b = "r_BatchID c"
  let ?A = "\<lambda>m T. owns c m T \<and> (\<forall>d\<in>set (j_DependsOn j). achieved env ex d ?b T)"
  have A: "lasting env S ?A" by (intro lasting_conj lasting_owns lasting_ball lasting_achieved)
  have skip: "og.safe env ex J lk S (knows ?A) (k res)" for res by (rule og_weaken [OF k [OF subset_refl]]) simp
  have "og.safe env ex J lk S (knows ?A) (act (draw_id env) (\<lambda>rid. act (call (st_CreateRun ops (dependent_run rid ?b j now))) k))"
  proof (rule og_draw [OF A])
    fix n
    let ?r = "dependent_run (e_newID env n) ?b j now"
    show "og.safe env ex J lk (insert n S) (knows (\<lambda>m T. ?A m T \<and> reserved (e_newID env n) m)) (act (call (st_CreateRun ops ?r)) k)"
    proof (rule og_create [where n = n and B = "owns c"])
      fix m T assume *: "?A m T \<and> reserved (e_newID env n) m"
      then have "may_start env ex J ?r m T" using prepared_achieved [of J, OF j(1,2)] by (simp add: may_start_def)
      then show "reserved (e_newID env n) m \<and> new_run_ok True (e_newID env ` insert n S) m ?r \<and> may_start env ex J ?r m T"
        using * own_run_batch [of c m] by (auto simp: new_run_ok_def owns_def)
    qed (auto simp: owns_def run_state_defs intro: own_run_grows lasting_owns k [OF subset_insertI])
  qed
  then show "og.safe env ex J lk S (knows ?A)
      (case Inr True of Inl e \<Rightarrow> k (Inl e) | Inr ready \<Rightarrow> if \<not> ready then k (Inr ())
        else act (call (st_ListRuns ops (zero_filter\<lparr>f_JobID := j_ID j, f_BatchID := ?b\<rparr>))) (\<lambda>res. case res of
           Inl e \<Rightarrow> k (Inl e)
         | Inr existing \<Rightarrow>
             if 0 < length existing then k (Inr ())
             else act (draw_id env) (\<lambda>rid. act (call (st_CreateRun ops (dependent_run rid ?b j now))) k)))"
    by (auto intro!: og_silent [OF silent_call [OF quiet_ListRuns] A] skip split: sum.split)
qed (auto intro: k split: sum.split)

lemma og_dependents:
  assumes "r_BatchID c \<noteq> []" "\<forall>j\<in>set js. J (j_ID j) = Some j \<and> [] \<notin> set (j_DependsOn j)"
    and "\<And>U res. S \<subseteq> U \<Longrightarrow> og.safe env ex J lk U (knows (owns c)) (k res)"
  shows "og.safe env ex J lk S (knows (owns c)) (dependents_prog ops env c now js k)"
  using assms
proof (induction js arbitrary: S)
  case (Cons j js)
  have rest: "og.safe env ex J lk U (knows (owns c)) (dependents_prog ops env c now js k)" if "S \<subseteq> U" for U
    using that Cons.prems by (intro Cons.IH) auto
  show ?case
  proof (cases "contains (j_DependsOn j) (r_JobID c)")
    case True
    then have "j_DependsOn j \<noteq> []" by (auto simp: contains_iff)
    then show ?thesis using True Cons.prems rest by (auto intro!: og_dependent split: sum.split)
  next
    case False
    then show ?thesis using rest [OF subset_refl] by simp
  qed
qed simp

lemma og_enqueueDependents:
  assumes k: "\<And>U res. S \<subseteq> U \<Longrightarrow> og.safe env ex J lk U (knows (owns c)) (k res)"
  shows "og.safe env ex J lk S (knows (owns c)) (enqueueDependents_prog ops env c now k)"
  unfolding enqueueDependents_prog_def
proof (rule og_learn [OF silent_call [OF quiet_ListJobs]])
  fix w x w' assume w: "ordered_world env ex J w" "owns c (runs_of (w_store w)) (w_trace w)" "call (st_ListJobs ops) w = (x, w')"
  note ow = ordered_worldD [OF w(1)]
  have b: "r_BatchID c \<noteq> []" using own_run_batch w(2) ow(5) by (fastforce simp: owns_def batches_ok_def)
  have "J (j_ID j) = Some j \<and> [] \<notin> set (j_DependsOn j)" if x: "x = Inr js" "j \<in> set js" for js j
  proof -
    have "j \<in> ran J" using call_ListJobs(3) [OF ow(1) w(3) x(1)] x(2) ow(2) by simp
    moreover from this obtain k where "J k = Some j" by (auto simp: ran_def)
    moreover from this have "j_ID j = k" using job_key [of "w_store w" k j] ow(1,2) by (simp add: world_ok_def)
    ultimately show ?thesis using ow(3) by (simp add: named_jobs_def)
  qed
  then have "og.safe env ex J lk S (knows (owns c)) (case x of Inl e \<Rightarrow> k (Inl e) | Inr jobs \<Rightarrow> dependents_prog ops env c now jobs k)"
    using k b by (auto intro!: og_dependents split: sum.split)
  then show "\<exists>B. lasting env S B \<and> B (runs_of (w_store w)) (w_trace w) \<and>
      og.safe env ex J lk S (knows B) (case x of Inl e \<Rightarrow> k (Inl e) | Inr jobs \<Rightarrow> dependents_prog ops env c now jobs k)"
    using w(2) lasting_owns by blast
qed

lemma og_work: "og.safe env ex J False S (knows (owns r)) (work_prog ops env ex r)"
  unfolding work_prog_def
proof (rule og_process)
  fix U p and err :: "store_error option" assume p: "identity p = identity r"
  have "og.safe env ex J True V (knows (owns p)) (Unlock Halt)" for V
    by (rule og.safe_Unlock [where Q = "\<lambda>_. True"]) (auto intro: og.safe_Halt simp: og.stable_def)
  then have "og.safe env ex J True U (knows (owns p))
      (act (read_clock env) (\<lambda>now. enqueueDependents_prog ops env p now (\<lambda>_. Unlock Halt)))"
    by (auto intro!: og_silent silent_clock lasting_owns og_enqueueDependents)
  moreover have "owns p = owns r" using own_run_cong [OF p] by (simp add: owns_def fun_eq_iff)
  ultimately show "og.safe env ex J False U (knows (owns r)) (case (p, err) of (result, err) \<Rightarrow> case err of Some e \<Rightarrow> Halt | None \<Rightarrow>
      if r_State result = StateSucceeded
      then Lock (act (read_clock env) (\<lambda>now. enqueueDependents_prog ops env result now (\<lambda>_. Unlock Halt))) else Halt)"
    by (auto intro: og.safe_Halt og.safe_Lock split: option.split)
qed

lemma og_trigger: "og.safe env ex J False S (knows (\<lambda>m T. True)) (trigger_prog ops env k)"
proof -
  have "og.safe env ex J False S (knows (\<lambda>m T. True)) (act (draw_id env) (\<lambda>rid. act (draw_id env) (\<lambda>batch.
         act (call (st_CreateRun ops (triggered_run rid batch j now))) (\<lambda>_. Halt))))" for j now
  proof (rule og_draw [OF lasting_True], rule og_draw)
    fix a b
    show "lasting env (insert a S) (\<lambda>m T. True \<and> reserved (e_newID env a) m)" by (intro lasting_intros) simp
    let ?r = "triggered_run (e_newID env a) (e_newID env b) j now"
    show "og.safe env ex J False (insert b (insert a S)) (knows (\<lambda>m T. (True \<and> reserved (e_newID env a) m) \<and> reserved (e_newID env b) m))
        (act (call (st_CreateRun ops ?r)) (\<lambda>_. Halt))"
    proof (rule og_create [where n = a and B = "\<lambda>m T. True"])
      fix m :: "string \<rightharpoonup> Run" and T assume "(True \<and> reserved (e_newID env a) m) \<and> reserved (e_newID env b) m"
      then show "reserved (e_newID env a) m \<and> new_run_ok True (e_newID env ` insert b (insert a S)) m ?r \<and> may_start env ex J ?r m T"
        by (auto simp: new_run_ok_def may_start_def reserved_def triggered_run_def)
    qed (auto simp: triggered_run_def run_state_defs intro: lasting_True og.safe_Halt)
  qed
  then show ?thesis
    unfolding trigger_prog_def
    by (intro og_silent [OF silent_call [OF quiet_GetJob] lasting_True])
       (auto intro: og_silent [OF silent_clock lasting_True] og.safe_Halt split: sum.split)
qed

text \<open>The invariant holds when the pool of a pass starts, and so in all its states.\<close>

lemma og_start_pool:
  assumes "ordered_world env ex J w" "\<forall>r\<in>set claimed. own_run r (runs_of (w_store w))"
  shows "og.pool_inv env ex J (start_pool ops env ex claimed triggers w)"
  unfolding start_pool_def
proof (rule og.pool_inv_start [OF assms(1)])
  fix p assume "p \<in> set (map (work_prog ops env ex) claimed @ map (trigger_prog ops env) triggers)"
  then consider r where "r \<in> set claimed" "p = work_prog ops env ex r" | k where "p = trigger_prog ops env k" by auto
  then show "\<exists>P. og.stable env ex J False {} P \<and> P w \<and> og.safe env ex J False {} P p"
  proof cases
    case 1
    then show ?thesis using assms(2) og_work stable_knows [OF lasting_owns]
      by (intro exI [of _ "knows (owns r)"]) (simp add: knows_def owns_def)
  next
    case 2
    then show ?thesis using og_trigger stable_knows [OF lasting_True] by (intro exI [of _ "knows (\<lambda>m T. True)"]) (simp add: knows_def)
  qed
qed simp

end

end
