(* ===== verification/Concurrent.thy ===== *)
theory Concurrent
  imports Pool_Order
begin

text \<open>
  The scheduler with its pool of worker goroutines. A pass ticks the metrics, dispatches, claims a batch,
  runs the pool of the claimed runs to its end in any interleaving, with triggers that arrive meanwhile
  as further programs, and publishes the backlog. Between passes there may be more triggers, taken as
  one action each. The locale \<open>pass_invariant\<close> carries an invariant through such a life; it is
  interpreted with the order of executions and with the uniqueness of first attempts.
\<close>

section \<open>Passes with a pool\<close>

inductive pool_drain :: "'s store_ops \<Rightarrow> Scheduler \<Rightarrow> time \<Rightarrow> 's world \<Rightarrow> 's world \<Rightarrow> bool" for ops s now w where
  ClaimFailed: "claim_batch ops s now w = (Inl e, w') \<Longrightarrow> pool_drain ops s now w w'"
| NothingDue: "claim_batch ops s now w = (Inr [], w') \<Longrightarrow> pool_drain ops s now w w'"
| Drained: "claim_batch ops s now w = (Inr claimed, w') \<Longrightarrow> claimed \<noteq> [] \<Longrightarrow>
    (pool_step (nat (s_workers s)))\<^sup>*\<^sup>* (start_pool ops (s_env s) (s_exec s) claimed triggers w') p \<Longrightarrow> finished_pool p \<Longrightarrow>
    pool_drain ops s now w (p_world p)"

inductive concurrent :: "'s store_ops \<Rightarrow> Scheduler \<Rightarrow> 's world \<Rightarrow> Scheduler \<Rightarrow> 's world \<Rightarrow> bool" for ops s w where
  Start: "concurrent ops s w s w"
| Pass: "concurrent ops s w s1 w1 \<Longrightarrow> dispatch ops (s_env s1) now (s_disp s1) (on_metrics Tick w1) = Some (res, d, w2) \<Longrightarrow>
    pool_drain ops (s1\<lparr>s_disp := d\<rparr>) now w2 w3 \<Longrightarrow> concurrent ops s w (s1\<lparr>s_disp := d\<rparr>) (publishBacklog ops now w3)"
| Triggered: "concurrent ops s w s1 w1 \<Longrightarrow> Trigger ops (s_env s1) k w1 = (res, w2) \<Longrightarrow> concurrent ops s w s1 w2"
| Read: "concurrent ops s w s1 w1 \<Longrightarrow> concurrent ops s w s1 (w1\<lparr>w_clock := c\<rparr>)"

text \<open>The worlds of such a life: between passes, and in the midst of one, whatever the goroutines have done.\<close>

inductive observed :: "'s store_ops \<Rightarrow> Scheduler \<Rightarrow> 's world \<Rightarrow> 's world \<Rightarrow> bool" for ops s w where
  Between: "concurrent ops s w s' v \<Longrightarrow> observed ops s w v"
| During: "concurrent ops s w s1 w1 \<Longrightarrow> dispatch ops (s_env s1) now (s_disp s1) (on_metrics Tick w1) = Some (res, d, w2) \<Longrightarrow>
    claim_batch ops (s1\<lparr>s_disp := d\<rparr>) now w2 = (Inr claimed, w3) \<Longrightarrow>
    (pool_step (nat (s_workers s1)))\<^sup>*\<^sup>* (start_pool ops (s_env s1) (s_exec s1) claimed triggers w3) p \<Longrightarrow>
    observed ops s w (p_world p)"

section \<open>Invariants of a life\<close>

locale pass_invariant =
  fixes ops :: "'s store_ops" and env :: env and ex :: Executor and I :: "'s world \<Rightarrow> bool"
  assumes on_clock: "I w \<Longrightarrow> I (w\<lparr>w_clock := c\<rparr>)"
    and on_metrics: "I w \<Longrightarrow> I (on_metrics f w)"
    and on_list: "I w \<Longrightarrow> call (st_ListRuns ops g) w = (res_l, w') \<Longrightarrow> I w'"
    and on_dispatch: "I w \<Longrightarrow> dispatch ops env now d w = Some (res_d, d', w') \<Longrightarrow> I w'"
    and on_trigger: "I w \<Longrightarrow> Trigger ops env k w = (res_t, w') \<Longrightarrow> I w'"
    and on_claim: "I w \<Longrightarrow> s_env s = env \<Longrightarrow> claim_batch ops s now w = (res_c, w') \<Longrightarrow> I w'"
    and on_pool: "I w \<Longrightarrow> s_env s = env \<Longrightarrow> claim_batch ops s now w = (Inr claimed, w') \<Longrightarrow>
      (pool_step n)\<^sup>*\<^sup>* (start_pool ops env ex claimed triggers w') p \<Longrightarrow> I (p_world p)"
begin

lemma publish_keeps: "I w \<Longrightarrow> I (publishBacklog ops now w)"
  unfolding publishBacklog_def Let_def by (auto split: prod.split sum.split intro: on_metrics dest: on_list)

lemma dispatch_keeps:
  assumes "dispatch ops (s_env s) now d (Worker.on_metrics f w) = Some (res, d', w')" "I w" "s_env s = env"
  shows "I w'"
  by (rule on_dispatch [OF on_metrics [OF assms(2)] assms(1) [unfolded assms(3)]])

lemma pool_drain_keeps:
  assumes "pool_drain ops s now w w'" "I w" "s_env s = env" "s_exec s = ex"
  shows "I w'"
  using assms(1)
proof cases
  case (Drained claimed v triggers p)
  then show ?thesis using on_pool [OF assms(2,3) Drained(2)] assms(3,4) by simp
qed (use on_claim assms(2,3) in blast)+

lemma concurrent_keeps:
  assumes "concurrent ops s w s' w'" "I w" "s_env s = env" "s_exec s = ex"
  shows "I w' \<and> s_env s' = env \<and> s_exec s' = ex"
  using assms(1)
proof (induction rule: concurrent.induct)
  case (Pass s1 w1 now res d w2 w3)
  then have "I w2" using dispatch_keeps [OF Pass.hyps(2)] by simp
  then have "I w3" using pool_drain_keeps [OF Pass.hyps(3)] Pass.IH by simp
  then show ?case using publish_keeps Pass.IH by simp
next
  case (Triggered s1 w1 k res w2)
  then show ?case using on_trigger by auto
qed (simp_all add: assms on_clock)

lemma observed_keeps:
  assumes "observed ops s w v" "I w" "s_env s = env" "s_exec s = ex"
  shows "I v"
  using assms(1)
proof cases
  case (Between s')
  then show ?thesis using concurrent_keeps assms(2-4) by blast
next
  case (During s1 w1 now res d w2 claimed w3 triggers p)
  note s1 = concurrent_keeps [OF During(2) assms(2-4)]
  have "I w2" using dispatch_keeps [OF During(3)] s1 by simp
  then show ?thesis using on_pool [of w2 "s1\<lparr>s_disp := d\<rparr>"] s1 During(1,4,5) by auto
qed

end

section \<open>The order of executions\<close>

context store_contract
begin

lemma claim_ordered:
  assumes "ordered_world env ex J w" "s_env s = env" "claim_batch ops s now w = (res, w')"
  shows "ordered_world env ex J w'"
proof -
  note ow = ordered_worldD [OF assms(1)]
  note cb = claim_batch_spec [OF ow(1) [folded assms(2)] assms(3)]
  show ?thesis
    using claims_ordered [OF cb(3) ow(6)] cb(1,2) trace.claim_frame [OF assms(3)] ow(2) assms(2)
    by (intro ordered_world_next [OF assms(1)]) auto
qed

lemma claimed_own:
  assumes "world_ok (s_env s) w" "claim_batch ops s now w = (Inr claimed, w')"
  shows "\<forall>r\<in>set claimed. own_run r (runs_of (w_store w'))"
  using claim_batch_spec(4) [OF assms refl] by (auto simp: own_run_def)

lemma list_ordered:
  assumes "ordered_world env ex J w" "call (st_ListRuns ops g) w = (res, w')"
  shows "ordered_world env ex J w'"
  using ordered_world_same [OF assms(1)] call_ListRuns(1,2) [OF ordered_worldD(1) [OF assms(1)] assms(2)] trace.call_frame [OF assms(2)] by blast

lemma pool_ordered:
  assumes "ordered_world env ex J w" "s_env s = env" "claim_batch ops s now w = (Inr claimed, w')"
    "(pool_step n)\<^sup>*\<^sup>* (start_pool ops env ex claimed triggers w') p"
  shows "ordered_world env ex J (p_world p)"
proof -
  have "\<forall>r\<in>set claimed. own_run r (runs_of (w_store w'))"
    using claimed_own [OF _ assms(3)] ordered_worldD(1) [OF assms(1)] assms(2) by simp
  from og.pool_steps_inv [OF assms(4) og_start_pool [OF claim_ordered [OF assms(1-3)] this]] show ?thesis by (rule og.pool_inv_I)
qed

end

sublocale store_contract < ordered_pass: pass_invariant ops env ex "ordered_world env ex J" for env ex J
proof
  show "ordered_world env ex J (w\<lparr>w_clock := c\<rparr>)" "ordered_world env ex J (on_metrics f w)" if "ordered_world env ex J w" for w c f
    using that by (simp_all add: ordered_world_def world_ok_def)
qed (fact list_ordered dispatch_ordered Trigger_ordered claim_ordered pool_ordered)+

section \<open>First attempts\<close>

lemma claims_unique:
  assumes "(lifecycle Map.empty)\<^sup>*\<^sup>* m m'" "first_unique m"
  shows "first_unique m' \<and> (\<forall>r\<in>ran m'. \<exists>q\<in>ran m. identity q = identity r)"
  using assms
proof (induction rule: rtranclp_induct)
  case (step y z)
  then have IH: "first_unique y" "\<forall>r\<in>ran y. \<exists>q\<in>ran m. identity q = identity r" by blast+
  from step.hyps(2) show ?case
  proof (rule claims_only)
    fix r now w l assume r: "y (r_ID r) = Some r" "z = y(r_ID r \<mapsto> claim_run now w l r)"
    have same: "identity (claim_run now w l r) = identity r" by (rule identity_claim)
    have "first_unique z" unfolding r(2) by (rule first_unique_update [OF IH(1) r(1) same])
    moreover have "\<exists>q\<in>ran y. identity q = identity x" if "x \<in> ran z" for x
      using that ran_upd_cases [of x y] ranI [of y, OF r(1)] same unfolding r(2) by metis
    ultimately show ?thesis using IH(2) by metis
  qed (use IH in simp)
qed auto

context store_contract
begin

lemma rg_invD: "rg_inv env w \<Longrightarrow> world_ok env w"
  by (simp add: rg_inv_def)

lemma list_unique:
  assumes "rg_inv env w" "call (st_ListRuns ops g) w = (res, w')"
  shows "rg_inv env w'"
  using rg_inv_same [OF assms(1) call_ListRuns(1,2) [OF rg_invD [OF assms(1)] assms(2)] call_w_ids [OF assms(2)]] .

lemma claim_unique:
  assumes "rg_inv env w" "s_env s = env" "claim_batch ops s now w = (res, w')"
  shows "rg_inv env w'"
proof -
  note cb = claim_batch_spec [OF rg_invD [OF assms(1), folded assms(2)] assms(3)]
  have u: "first_unique (runs_of (w_store w'))" "\<forall>r\<in>ran (runs_of (w_store w')). \<exists>q\<in>ran (runs_of (w_store w)). identity q = identity r"
    using claims_unique [OF cb(3)] assms(1) by (simp_all add: rg_inv_def)
  have ids: "w_ids w \<le> w_ids w'" using trace.claim_frame [OF assms(3)] by simp
  have "0 \<le> r_Attempt r \<and> (\<forall>i\<ge>w_ids w'. r_BatchID r \<noteq> e_newID env i)" if r: "r \<in> ran (runs_of (w_store w'))" for r
  proof -
    obtain q where "q \<in> ran (runs_of (w_store w))" "identity q = identity r" using u(2) r by blast
    then show ?thesis using assms(1) ids by (auto simp: rg_inv_def identity_def)
  qed
  then show ?thesis using u(1) cb(1,2) assms(1,2) by (simp add: rg_inv_def)
qed

lemma enqueueRoot_unique:
  assumes "rg_inv env w" "enqueueRoot ops env j t w = (res, w')"
  shows "rg_inv env w'"
proof -
  obtain r1 w1 where c: "call (st_ListRuns ops (zero_filter\<lparr>f_JobID := j_ID j\<rparr>)) w = (r1, w1)" by fastforce
  note w1 = list_unique [OF assms(1) c]
  show ?thesis
  proof (cases "\<exists>rs. r1 = Inr rs \<and> \<not> slot_taken rs t")
    case True
    then show ?thesis
      using assms(2) c create_fresh [where mk = "\<lambda>a b. root_run a b j t", OF _ w1] by (auto simp: enqueueRoot_def bind_act_def newID_def)
  next
    case False
    then have "w' = w1" using assms(2) c by (auto simp: enqueueRoot_def bind_act_def split: sum.splits)
    then show ?thesis using w1 by simp
  qed
qed

lemma dispatch_unique:
  assumes "rg_inv env w" "dispatch ops env now d w = Some (res, d', w')"
  shows "rg_inv env w'"
proof -
  obtain r1 w1 where c: "call (st_ListJobs ops) w = (r1, w1)" by fastforce
  note w1 = rg_inv_same [OF assms(1) call_ListJobs(1,2) [OF rg_invD [OF assms(1)] c] call_w_ids [OF c]]
  show ?thesis
  proof (cases r1)
    case (Inl e)
    then show ?thesis using assms(2) c w1 by (simp add: dispatch_def)
  next
    case (Inr js)
    then have "dispatch_jobs ops env now js 0 d w1 = Some (res, d', w')" using assms(2) c by (simp add: dispatch_def)
    with enqueueRoot_unique show ?thesis using w1 by (rule dispatch_jobs_keeps [where P = "rg_inv env"])
  qed
qed

lemma Trigger_unique: "rg_inv env w \<Longrightarrow> Trigger ops env k w = (res, w') \<Longrightarrow> rg_inv env w'"
  using rg.run_keeps [OF _ stable_True _ safe_trigger, of env w k] by (simp add: run_trigger_prog holds_def)

lemma pool_unique:
  assumes "rg_inv env w" "s_env s = env" "claim_batch ops s now w = (Inr claimed, w')"
    "(pool_step n)\<^sup>*\<^sup>* (start_pool ops env ex claimed triggers w') p"
  shows "rg_inv env (p_world p)"
proof -
  have "\<forall>r\<in>set claimed. own_run r (runs_of (w_store w'))"
    using claimed_own [OF _ assms(3)] rg_invD [OF assms(1)] assms(2) by simp
  from rg.pool_steps_inv [OF assms(4) start_pool_inv [OF claim_unique [OF assms(1-3)] this]] show ?thesis by (rule rg.pool_inv_I)
qed

end

sublocale store_contract < unique_pass: pass_invariant ops env ex "rg_inv env" for env ex
proof
  show "rg_inv env (w\<lparr>w_clock := c\<rparr>)" "rg_inv env (on_metrics f w)" if "rg_inv env w" for w c f
    using that by (simp_all add: rg_inv_def world_ok_def)
qed (fact list_unique dispatch_unique Trigger_unique claim_unique pool_unique)+

section \<open>The sequential scheduler is one of the concurrent ones\<close>

context store_contract
begin

lemma drain_is_pool:
  assumes "rg_inv (s_env s) w" "0 < s_workers s"
  shows "pool_drain ops s now w (drain ops s now w)"
proof -
  obtain res w1 where c: "claim_batch ops s now w = (res, w1)" by fastforce
  consider e where "res = Inl e" | "res = Inr []" | claimed where "res = Inr claimed" "claimed \<noteq> []" by (cases res) auto
  then show ?thesis
  proof cases
    case 3
    note claim = c [unfolded 3(1)]
    have "0 < nat (s_workers s)" using assms(2) by simp
    from sequential_run [OF claim_unique [OF assms(1) refl claim] claimed_own [OF rg_invD [OF assms(1)] claim] this]
    obtain p where p: "(pool_step (nat (s_workers s)))\<^sup>*\<^sup>* (start_pool ops (s_env s) (s_exec s) claimed [] w1) p" "finished_pool p"
      "p_world p = work_all ops (s_env s) (s_exec s) claimed w1" by blast
    have "drain ops s now w = p_world p" using claim 3(2) p(3) by (simp add: drain_def)
    then show ?thesis using pool_drain.Drained [OF claim 3(2) p(1,2)] by simp
  qed (use c in \<open>auto simp: drain_def intro: pool_drain.ClaimFailed pool_drain.NothingDue\<close>)
qed

lemma reaches_concurrent:
  assumes "reaches ops s w s' w'" "rg_inv (s_env s) w" "0 < s_workers s"
  shows "concurrent ops s w s' w' \<and> s_workers s' = s_workers s"
  using assms(1)
proof (induction rule: reaches.induct)
  case (Pass s1 w1 now s2 w2)
  have s1: "rg_inv (s_env s1) w1" "0 < s_workers s1"
    using unique_pass.concurrent_keeps [of s w s1 w1 "s_env s" "s_exec s"] Pass.IH assms(2,3) by auto
  obtain res d w' where d: "dispatch ops (s_env s1) now (s_disp s1) (on_metrics Tick w1) = Some (res, d, w')"
    "s2 = s1\<lparr>s_disp := d\<rparr>" "w2 = publishBacklog ops now (drain ops s2 now w')"
    using Pass.hyps(2) by (auto simp: step_def Let_def split: option.splits)
  have "rg_inv (s_env s1) w'" by (rule dispatch_unique [OF unique_pass.on_metrics [OF s1(1)] d(1)])
  then have "pool_drain ops s2 now w' (drain ops s2 now w')" using s1(2) by (intro drain_is_pool) (simp_all add: d(2))
  then show ?case using concurrent.Pass [OF conjunct1 [OF Pass.IH] d(1)] Pass.IH unfolding d(2,3) by simp
qed (auto intro: concurrent.intros)

end

text \<open>The order of the calls in every world of a life.\<close>

lemma observed_trace:
  assumes "mem_world_ok (s_env s) w" "jobs_named (w_store w)" "mem_runs (w_store w) = Map.empty" "w_trace w = []"
    and "\<And>i. e_newID (s_env s) i \<noteq> []" "observed memory_ops s w v"
  shows "\<exists>root. \<forall>p<length (w_trace v). case w_trace v ! p of (j, r) \<Rightarrow>
    r_JobID r = root (r_BatchID r) \<or>
    j_DependsOn j \<noteq> [] \<and> (\<forall>d\<in>set (j_DependsOn j). \<exists>q<p. succeeded_call (s_env s) (s_exec s) (w_trace v) q d (r_BatchID r))"
  using mem.ordered_pass.observed_keeps [OF assms(6) ordered_world_start [OF assms(1-5)] refl refl] mem.ordered_worldD(6) ordered_trace by blast

section \<open>Properties\<close>

text \<open>C3: dependencies come first, also among concurrent workers. A scheduler process on the in-memory store that
  starts without runs calls the executor in an order that respects the dependencies, at every moment
  of its life, however the worker goroutines of a pass and triggers interleave and whatever executions
  fail or are cut short: each batch has one job that started it (fired by its schedule or
  triggered), and before any other job is executed in the batch each of its dependencies has been
  executed there successfully.\<close>

theorem dependencies_first:
  assumes "mem_world_ok (s_env s) w" "jobs_named (w_store w)" "mem_runs (w_store w) = Map.empty" "w_trace w = []"
    and "\<And>i. e_newID (s_env s) i \<noteq> []" "observed memory_ops s w v"
  shows "\<exists>root. \<forall>p<length (w_trace v). case w_trace v ! p of (j, r) \<Rightarrow>
    r_JobID r = root (r_BatchID r) \<or>
    j_DependsOn j \<noteq> [] \<and> (\<forall>d\<in>set (j_DependsOn j). \<exists>q<p. succeeded_call (s_env s) (s_exec s) (w_trace v) q d (r_BatchID r))"
  by (rule observed_trace [OF assms])

text \<open>C13: at every moment of the life of a scheduler process on the in-memory store, however the worker goroutines
  of a pass and concurrent triggers interleave, there is at most one first attempt of a job in a batch:
  the mutex around \<^verbatim>\<open>enqueueDependents\<close> is enough to make its check for an existing run and the creation of
  the dependent one step.\<close>

theorem first_attempts_unique:
  assumes "pool_ready (s_env s) w" "observed memory_ops s w v"
  shows "first_unique (mem_runs (w_store v))"
  using mem.unique_pass.observed_keeps [OF assms(2) _ refl refl] assms(1) by (simp add: pool_ready_eq pool_ready_def)

text \<open>Whatever the scheduler with one worker at a time does, the concurrent one can do: passes that process the
  claimed runs one after the other are passes of the pool.\<close>

lemma sequential_is_concurrent:
  assumes "pool_ready (s_env s) w" "0 < s_workers s" "reaches memory_ops s w s' w'"
  shows "concurrent memory_ops s w s' w'"
  using mem.reaches_concurrent [OF assms(3) _ assms(2)] assms(1) by (simp add: pool_ready_eq)

lemma idle_pool_ready: "pool_ready sample_env idle_world"
proof -
  have "mem_world_ok sample_env idle_world" using idle_ok(1) by (simp add: chain_scheduler_def)
  then show ?thesis
    using idle_ok(3) by (auto simp: pool_ready_def first_unique_def retries_ok_def idle_world_def chain_jobs_def mem_jobs_def zero_job_def
        max_int64_def ran_def split: if_splits)
qed

lemma chain_scheduler_sel: "s_env chain_scheduler = sample_env" "s_exec chain_scheduler = NoopExecutor" "0 < s_workers chain_scheduler"
  by (simp_all add: chain_scheduler_def sample_scheduler_def NewScheduler_def Let_def)

lemma chain_observed: "\<exists>v b. observed memory_ops chain_scheduler idle_world v \<and> succeeded_in (mem_runs (w_store v)) ''a'' b"
proof -
  have ready: "mem.rg_inv (s_env chain_scheduler) idle_world" using idle_pool_ready by (simp add: pool_ready_eq chain_scheduler_sel)
  obtain v b where v: "reaches memory_ops chain_scheduler idle_world chain_scheduler v" "succeeded_in (mem_runs (w_store v)) ''a'' b"
    using chain_reaches by blast
  from mem.reaches_concurrent [OF v(1) ready chain_scheduler_sel(3)] show ?thesis using v(2) by (blast intro: observed.Between)
qed

theorem dependencies_first_witness:
  "\<exists>v b root. observed memory_ops chain_scheduler idle_world v \<and> succeeded_in (mem_runs (w_store v)) ''a'' b \<and>
     (\<forall>p<length (w_trace v). case w_trace v ! p of (j, r) \<Rightarrow>
        r_JobID r = root (r_BatchID r) \<or>
        j_DependsOn j \<noteq> [] \<and> (\<forall>d\<in>set (j_DependsOn j). \<exists>q<p. succeeded_call sample_env NoopExecutor (w_trace v) q d (r_BatchID r)))"
proof -
  obtain v b where v: "observed memory_ops chain_scheduler idle_world v" "succeeded_in (mem_runs (w_store v)) ''a'' b"
    using chain_observed by blast
  have "jobs_named (w_store idle_world)" using idle_ok(2) by (simp add: quiet_def)
  from dependencies_first [OF idle_ok(1) this idle_ok(3,4,5) v(1), unfolded chain_scheduler_sel] v show ?thesis by blast
qed

theorem first_attempts_unique_witness:
  "\<exists>v b. observed memory_ops chain_scheduler idle_world v \<and> succeeded_in (mem_runs (w_store v)) ''a'' b \<and> first_unique (mem_runs (w_store v))"
proof -
  obtain v b where v: "observed memory_ops chain_scheduler idle_world v" "succeeded_in (mem_runs (w_store v)) ''a'' b"
    using chain_observed by blast
  have "pool_ready (s_env chain_scheduler) idle_world" using idle_pool_ready by (simp add: chain_scheduler_sel)
  from first_attempts_unique [OF this v(1)] v show ?thesis by blast
qed

end
