(* ===== verification/Dispatch_Limits.thy ===== *)
theory Dispatch_Limits
  imports Dispatcher Cron_Limits
begin

text \<open>
  The first pass of a dispatcher, and where it departs from what its comments promise: a schedule
  that never fires makes the second pass loop forever, and a job that is stored again with a new
  expression keeps firing on the old one.
\<close>

section \<open>The first pass\<close>

text \<open>What a dispatcher knows of a job after its first pass at \<open>now\<close>.\<close>

definition seeded :: "time \<Rightarrow> dispatcher \<Rightarrow> Job \<Rightarrow> bool" where
  "seeded now d j \<longleftrightarrow>
     (if \<not> j_Enabled j \<or> j_Spec j = [] then map_of (d_nextFire d) (j_ID j) = None
      else case Parse (j_Spec j) of
        Inl e \<Rightarrow> map_of (d_nextFire d) (j_ID j) = None
      | Inr s \<Rightarrow> map_of (d_parsed d) (j_ID j) = Some s \<and>
          (\<exists>t. schedule_next s now = Some t \<and> map_of (d_nextFire d) (j_ID j) = Some t))"

definition unseen :: "dispatcher \<Rightarrow> string \<Rightarrow> bool" where
  "unseen d k \<longleftrightarrow> map_of (d_nextFire d) k = None \<and> map_of (d_parsed d) k = None"

lemma dispatch_job_seeds:
  assumes "unseen d (j_ID j)"
  obtains d1 where "\<And>js. dispatch_jobs ops env now (j # js) created d w = dispatch_jobs ops env now js created d1 w"
    "seeded now d1 j" "\<And>k. k \<noteq> j_ID j \<Longrightarrow> map_of (d_nextFire d1) k = map_of (d_nextFire d) k \<and> map_of (d_parsed d1) k = map_of (d_parsed d) k"
proof (cases "\<not> j_Enabled j \<or> j_Spec j = []")
  case True
  then show ?thesis using that [of d] assms by (simp add: seeded_def unseen_def)
next
  case False
  show ?thesis
  proof (cases "Parse (j_Spec j)")
    case (Inl e)
    then have "schedule j d = (Inl e, d)" using assms by (simp add: schedule_def unseen_def)
    then show ?thesis using that [of d] assms False Inl by (simp add: seeded_def unseen_def)
  next
    case (Inr s)
    obtain t where t: "schedule_next s now = Some t" using Parse_next [OF Inr, of now] by blast
    define d1 where "d1 = d\<lparr>d_parsed := AList.update (j_ID j) s (d_parsed d)\<rparr>"
    define d2 where "d2 = d1\<lparr>d_nextFire := AList.update (j_ID j) t (d_nextFire d1)\<rparr>"
    have "schedule j d = (Inr s, d1)" using assms Inr by (simp add: schedule_def unseen_def d1_def)
    moreover have "map_of (d_nextFire d1) (j_ID j) = None" using assms by (simp add: unseen_def d1_def)
    ultimately have "dispatch_jobs ops env now (j # js) created d w = dispatch_jobs ops env now js created d2 w" for js
      using False t by (simp add: d2_def)
    moreover have "seeded now d2 j" using False Inr t by (simp add: seeded_def d2_def d1_def update_conv')
    moreover have "map_of (d_nextFire d2) k = map_of (d_nextFire d) k \<and> map_of (d_parsed d2) k = map_of (d_parsed d) k"
      if "k \<noteq> j_ID j" for k using that by (simp add: d2_def d1_def update_conv')
    ultimately show ?thesis using that by blast
  qed
qed

lemma seeded_other:
  "seeded now d j \<Longrightarrow> map_of (d_nextFire d') (j_ID j) = map_of (d_nextFire d) (j_ID j) \<and> map_of (d_parsed d') (j_ID j) = map_of (d_parsed d) (j_ID j) \<Longrightarrow>
   seeded now d' j"
  by (simp add: seeded_def split: sum.splits if_splits)

lemma dispatch_jobs_seeds:
  "distinct (map j_ID js) \<Longrightarrow> \<forall>j\<in>set js. unseen d (j_ID j) \<Longrightarrow>
   \<exists>d'. dispatch_jobs ops env now js created d w = Some ((created, None), d', w) \<and> (\<forall>j\<in>set js. seeded now d' j) \<and>
     (\<forall>k. k \<notin> j_ID ` set js \<longrightarrow> map_of (d_nextFire d') k = map_of (d_nextFire d) k \<and> map_of (d_parsed d') k = map_of (d_parsed d) k)"
proof (induction js arbitrary: d)
  case (Cons j js)
  obtain d1 where d1: "\<And>js. dispatch_jobs ops env now (j # js) created d w = dispatch_jobs ops env now js created d1 w"
    "seeded now d1 j"
    "\<And>k. k \<noteq> j_ID j \<Longrightarrow> map_of (d_nextFire d1) k = map_of (d_nextFire d) k \<and> map_of (d_parsed d1) k = map_of (d_parsed d) k"
    using dispatch_job_seeds [of d j ops env now created w] Cons.prems(2) by auto
  have j: "j_ID j \<notin> j_ID ` set js" "distinct (map j_ID js)" using Cons.prems(1) by simp_all
  then have ne: "j_ID i \<noteq> j_ID j" if "i \<in> set js" for i using imageI [OF that, of j_ID] by metis
  then have "\<forall>i\<in>set js. unseen d1 (j_ID i)" using Cons.prems(2) d1(3) by (simp add: unseen_def)
  from Cons.IH [OF j(2) this] obtain d' where d': "dispatch_jobs ops env now js created d1 w = Some ((created, None), d', w)"
    "\<forall>i\<in>set js. seeded now d' i" 
    "\<forall>k. k \<notin> j_ID ` set js \<longrightarrow> map_of (d_nextFire d') k = map_of (d_nextFire d1) k \<and> map_of (d_parsed d') k = map_of (d_parsed d1) k" by blast
  have "seeded now d' j" using d1(2) d'(3) j(1) seeded_other by blast
  then show ?case using d1(1) [of js] d' d1(3) by (intro exI [of _ d']) auto
qed simp

lemma first_pass:
  assumes "mem_inv (w_store w)"
  shows "\<exists>d w'. dispatch memory_ops env now newDispatcher w = Some ((0, None), d, w') \<and> w_store w' = w_store w \<and>
    (\<forall>j\<in>ran (mem_jobs (w_store w)). seeded now d j)"
proof -
  obtain js where js: "ListJobs (w_store w) = (Inr js, w_store w)" by (simp add: ListJobs_def)
  then have l: "set js = ran (mem_jobs (w_store w))" "distinct js"
    using mem.ListJobs_law [OF assms, of "Inr js" "w_store w"] by (simp_all add: memory_ops_def)
  have key: "mem_jobs (w_store w) (j_ID j) = Some j" if "j \<in> set js" for j
    using that l(1) mem.job_key [OF assms] by (fastforce simp: ran_def)
  have "inj_on j_ID (set js)" by (metis inj_onI key option.inject)
  then have "distinct (map j_ID js)" using l(2) by (simp add: distinct_map)
  moreover have "\<forall>j\<in>set js. unseen newDispatcher (j_ID j)" by (simp add: unseen_def newDispatcher_def)
  ultimately obtain d where d: "dispatch_jobs memory_ops env now js 0 newDispatcher w = Some ((0, None), d, w)" "\<forall>j\<in>set js. seeded now d j"
    using dispatch_jobs_seeds by blast
  have "call (st_ListJobs memory_ops) w = (Inr js, w)" using js by (simp add: call_def memory_ops_def)
  then show ?thesis using d l(1) by (intro exI [of _ d] exI [of _ w]) (simp add: dispatch_def)
qed

text \<open>A dispatcher never fires for times before it first saw a job: its first pass always returns, creates no
  run, and only notes, for every enabled job with a well-formed expression, the next activation after now.
  Disabled jobs and jobs with a malformed expression are skipped.\<close>

theorem dispatch_first_pass:
  assumes "mem_inv (w_store w)"
  shows "\<exists>d w'. dispatch memory_ops env now newDispatcher w = Some ((0, None), d, w') \<and> w_store w' = w_store w \<and>
    (\<forall>j\<in>ran (mem_jobs (w_store w)). seeded now d j)"
  using assms by (rule first_pass)

theorem dispatch_first_pass_witness:
  "\<exists>d w'. dispatch memory_ops sample_env 5 newDispatcher sample_world = Some ((0, None), d, w') \<and> seeded 5 d sample_job"
proof -
  have "mem_inv (w_store sample_world)" using sample_world_ok by (simp add: mem_world_ok_def)
  moreover have "mem_jobs (w_store sample_world) ''j'' = Some sample_job" by (simp add: mem_jobs_def sample_world_def)
  ultimately show ?thesis using dispatch_first_pass [of sample_world sample_env 5] by (blast intro: ranI)
qed

section \<open>A schedule that never fires\<close>

definition feb_30 :: expression where
  "feb_30 = \<lparr>x_second = [(RSingle (VNum 0), None)], x_minute = [(RSingle (VNum 0), None)], x_hour = [(RSingle (VNum 0), None)],
     x_dom = [(RSingle (VNum 30), None)], x_month = [(RSingle (VNum 2), None)], x_dow = [(RStar, None)]\<rparr>"

lemma feb_30_text: "print_expression feb_30 = ''0 0 0 30 2 *''"
  by (simp add: print_expression_def feb_30_def show_nat.simps digit_char_def char_of_def bit_0)

lemma feb_30_wf: "expression_wf feb_30"
  by (simp add: expression_wf_def field_wf_def feb_30_def show_nat.simps digit_char_def char_of_def
      bit_0 term_ok_def bounds_defs step_of_def spec_char_def byte_def)

lemma feb_30_never: "\<not> expression_allows feb_30 UTC t"
proof
  assume "expression_allows feb_30 UTC t"
  then have "nat (Month UTC t) = 2" "nat (Day UTC t) = 30"
    by (auto simp: expression_allows_def feb_30_def field_allows_def field_star_def term_star_def term_denotes_def step_of_def)
  then have "Month UTC t = 2" "Day UTC t = 30" by auto
  then show False
    using month_of_day_bounds(2) [of "local_day UTC t"]
    by (auto simp: Month_def Day_def mday_of_day_eq days_before_month_def split: if_splits)
qed

lemma feb_30_schedule:
  obtains s where "Parse ''0 0 0 30 2 *'' = Inr (SpecSched s)" "\<And>t. schedule_next (SpecSched s) t = Some zero_time"
proof -
  obtain s where s: "ParseInLocation (print_expression feb_30) (Some UTC) = Inr (SpecSched s)"
    "s_Location s = Some UTC" "\<And>l t. activates s l t \<longleftrightarrow> expression_allows feb_30 l t"
    using parse_written [OF feb_30_wf] by blast
  have "loc_of s = minute_zone 0" using s(2) by (simp add: loc_of_def UTC_minute_zone)
  from Next_minute_zone [OF this] have "Next s t = Some zero_time" for t
    using s(3) feb_30_never by (fastforce simp: earliest_or_zero_def UTC_minute_zone [symmetric])
  then show ?thesis using that s(1) by (simp add: feb_30_text Parse_def schedule_next_def)
qed

definition feb_job :: Job where
  "feb_job = zero_job\<lparr>j_ID := ''f'', j_Spec := ''0 0 0 30 2 *'', j_Enabled := True\<rparr>"

definition feb_world :: "MemStore world" where
  "feb_world = sample_world\<lparr>w_store := \<lparr>m_jobs = [(''f'', feb_job)], m_runs = []\<rparr>\<rparr>"

lemma feb_world_ok: "mem_world_ok sample_env feb_world"
  using sample_world_ok by (simp add: mem_world_ok_def feb_world_def feb_job_def mem_inv_def mem_runs_def zero_job_def)

lemma fire_loop_stuck:
  assumes "fire_loop memory_ops env sched j now next created w = Some res"
    and zero: "\<And>t. schedule_next sched t = Some zero_time" "zero_time \<le> now" "j_ID j \<noteq> []"
  shows "mem_world_ok env w \<Longrightarrow> next \<le> now \<Longrightarrow> False"
  using assms(1)
proof (induction rule: fire_loop_induct)
  case (Error nx created w e w')
  then show ?case using mem_enqueueRoot_ok [OF Error.prems(1), of j nx] by auto
next
  case (Step nx created w u w1 t res)
  then show ?case using mem_enqueueRoot_step(1) [OF Step.prems(1) zero(3) Step.hyps(2)] zero by simp
qed simp

lemma fire_loop_no_error:
  assumes "fire_loop memory_ops env sched j now next created w = Some res"
  shows "mem_world_ok env w \<Longrightarrow> j_ID j \<noteq> [] \<Longrightarrow> fst res = None"
  using assms
proof (induction rule: fire_loop_induct)
  case (Error nx created w e w')
  then show ?case using mem_enqueueRoot_ok [OF Error.prems(1), of j nx] by auto
next
  case (Step nx created w u w1 t res)
  then show ?case using mem_enqueueRoot_step(1) [OF Step.prems Step.hyps(2)] by simp
qed simp

lemma dispatch_jobs_stuck:
  assumes "\<And>t. schedule_next sched t = Some zero_time" "zero_time \<le> now" "\<exists>j\<in>set js. j_ID j = k \<and> j_Enabled j \<and> j_Spec j \<noteq> []"
    "\<forall>j\<in>set js. j_ID j \<noteq> []" "map_of (d_parsed d) k = Some sched" "map_of (d_nextFire d) k = Some zero_time" "mem_world_ok env w"
  shows "dispatch_jobs memory_ops env now js created d w = None"
  using assms(3-)
proof (induction js arbitrary: created d w)
  case (Cons j js)
  show ?case
  proof (cases "j_Enabled j \<and> j_Spec j \<noteq> []")
    case False
    then show ?thesis using Cons by auto
  next
    case on: True
    show ?thesis
    proof (cases "j_ID j = k")
      case True
      have "fire_loop memory_ops env sched j now zero_time created w = None"
        using fire_loop_stuck [where sched = sched and j = j and now = now and w = w] assms(1,2) Cons.prems(2,5) by fastforce
      then show ?thesis using on True Cons.prems(3,4) by (simp add: schedule_def)
    next
      case other: False
      then have rest: "\<exists>j\<in>set js. j_ID j = k \<and> j_Enabled j \<and> j_Spec j \<noteq> []" "\<forall>j\<in>set js. j_ID j \<noteq> []" "j_ID j \<noteq> []" using Cons.prems by auto
      obtain res d1 where d1: "schedule j d = (res, d1)" by fastforce
      then have kept: "map_of (d_parsed d1) k = Some sched" "map_of (d_nextFire d1) k = Some zero_time"
        using Cons.prems(3,4) other by (auto simp: schedule_def update_conv' split: option.splits sum.splits)
      have go: "dispatch_jobs memory_ops env now js n (d1\<lparr>d_nextFire := AList.update (j_ID j) t (d_nextFire d1)\<rparr>) v = None"
        if "mem_world_ok env v" for n t v using Cons.IH rest kept other that by (simp add: update_conv')
      show ?thesis
      proof (cases res)
        case (Inl e)
        then show ?thesis using on d1 Cons.IH rest kept Cons.prems(5) by simp
      next
        case (Inr s)
        have "mem_world_ok env v" if "fire_loop memory_ops env s j now t created w = Some (err, n, u, v)" for t err n u v
          using mem_fire_loop_spec [OF that Cons.prems(5) rest(3)] by simp
        moreover have "fire_loop memory_ops env s j now t created w \<noteq> Some (Some e, n, u, v)" for t e n u v
          using fire_loop_no_error [of env s j now t created w "(Some e, n, u, v)"] Cons.prems(5) rest(3) by auto
        ultimately show ?thesis using on d1 Inr go Cons.prems(5) by (auto split: option.splits prod.splits)
      qed
    qed
  qed
qed simp

text \<open>C19: an enabled job whose expression never fires, so that \<^verbatim>\<open>Next\<close> answers the zero time from every instant, hangs the
  scheduler. Whatever else the in-memory store holds, the first pass of a dispatcher caches that zero time as the job's
  next fire time, and every pass after it, at any time from the year 1 on and as long as the job is stored and enabled,
  with whatever expression by then, never returns.\<close>

theorem dispatch_hangs:
  assumes "mem_inv (w_store w)" "mem_jobs (w_store w) k = Some f" "j_Enabled f" "j_Spec f \<noteq> []"
    and "Parse (j_Spec f) = Inr sched" "\<forall>t. schedule_next sched t = Some zero_time"
  shows "\<exists>d w'. dispatch memory_ops env t newDispatcher w = Some ((0, None), d, w') \<and> w_store w' = w_store w \<and>
    (\<forall>v now j. mem_world_ok env v \<longrightarrow> [] \<notin> dom (mem_jobs (w_store v)) \<longrightarrow> mem_jobs (w_store v) k = Some j \<longrightarrow> j_Enabled j \<longrightarrow> j_Spec j \<noteq> [] \<longrightarrow>
       zero_time \<le> now \<longrightarrow> dispatch memory_ops env now d v = None)"
proof -
  obtain d w' where d: "dispatch memory_ops env t newDispatcher w = Some ((0, None), d, w')" "w_store w' = w_store w"
    "\<forall>j\<in>ran (mem_jobs (w_store w)). seeded t d j" using first_pass [OF assms(1)] by blast
  have key: "j_ID j = i" if "mem_inv s" "mem_jobs s i = Some j" for s i j
    using mem.job_key that by blast
  have "seeded t d f" using d(3) assms(2) by (blast intro: ranI)
  then have cached: "map_of (d_parsed d) k = Some sched" "map_of (d_nextFire d) k = Some zero_time"
    using assms(3-6) key [OF assms(1,2)] by (simp_all add: seeded_def)
  have "dispatch memory_ops env now d v = None"
    if v: "mem_world_ok env v" "[] \<notin> dom (mem_jobs (w_store v))" "mem_jobs (w_store v) k = Some j" "j_Enabled j" "j_Spec j \<noteq> []" "zero_time \<le> now"
    for v now j
  proof -
    have inv: "mem_inv (w_store v)" using v(1) by (simp add: mem_world_ok_def)
    obtain js where js: "ListJobs (w_store v) = (Inr js, w_store v)" by (simp add: ListJobs_def)
    then have set: "set js = ran (mem_jobs (w_store v))"
      using mem.ListJobs_law [OF inv, of "Inr js" "w_store v"] by (simp add: memory_ops_def)
    have "\<exists>j\<in>set js. j_ID j = k \<and> j_Enabled j \<and> j_Spec j \<noteq> []" using v(3-5) set key [OF inv v(3)] by (auto intro: ranI)
    moreover have "\<forall>j\<in>set js. j_ID j \<noteq> []" using v(2) set key [OF inv] by (fastforce simp: ran_def)
    ultimately have "dispatch_jobs memory_ops env now js 0 d v = None"
      using dispatch_jobs_stuck [where sched = sched and now = now and k = k] assms(6) v(1,6) cached by blast
    moreover have "call (st_ListJobs memory_ops) v = (Inr js, v)" using js by (simp add: call_def memory_ops_def)
    ultimately show ?thesis by (simp add: dispatch_def)
  qed
  then show ?thesis using d(1,2) by blast
qed

theorem dispatch_hangs_witness:
  "\<exists>d w'. dispatch memory_ops sample_env 5 newDispatcher feb_world = Some ((0, None), d, w') \<and> dispatch memory_ops sample_env 9 d feb_world = None"
proof -
  obtain s where s: "Parse ''0 0 0 30 2 *'' = Inr (SpecSched s)" "\<And>t. schedule_next (SpecSched s) t = Some zero_time"
    by (rule feb_30_schedule) blast
  have feb: "mem_jobs (w_store feb_world) = [''f'' \<mapsto> feb_job]" "j_Enabled feb_job" "j_Spec feb_job = ''0 0 0 30 2 *''"
    by (simp_all add: feb_world_def feb_job_def mem_jobs_def sample_world_def)
  have "mem_inv (w_store feb_world)" using feb_world_ok by (simp add: mem_world_ok_def)
  from dispatch_hangs [OF this, of "''f''" feb_job "SpecSched s" sample_env 5] obtain d w' where
    "dispatch memory_ops sample_env 5 newDispatcher feb_world = Some ((0, None), d, w')"
    "\<forall>v now j. mem_world_ok sample_env v \<longrightarrow> [] \<notin> dom (mem_jobs (w_store v)) \<longrightarrow> mem_jobs (w_store v) ''f'' = Some j \<longrightarrow> j_Enabled j \<longrightarrow>
       j_Spec j \<noteq> [] \<longrightarrow> zero_time \<le> now \<longrightarrow> dispatch memory_ops sample_env now d v = None"
    using s feb by auto
  then show ?thesis using feb_world_ok feb by (intro exI [of _ d] exI [of _ w']) (simp add: zero_time_def)
qed

section \<open>A job stored again with a new expression\<close>

text \<open>Once a job has been seen, its expression is never parsed again: whatever expression the job carries
  in later passes, the dispatcher keeps the schedule it parsed first, under the same job ID.\<close>

lemma schedule_ignores_new_spec:
  "schedule j d = (Inr s, d') \<Longrightarrow> schedule (j\<lparr>j_Spec := spec\<rparr>) d' = (Inr s, d')"
  by (auto simp: schedule_def split: option.splits sum.splits)

end
