(* ===== verification/Postgres.thy ===== *)
theory Postgres
  imports Store
begin

text \<open>
  The PostgreSQL store (\<^verbatim>\<open>src/internal/store/postgres/postgres.go\<close>, \<^verbatim>\<open>schema.sql\<close>). Every operation runs one SQL
  statement. The tables are those of the schema, keyed by their primary keys, and a statement is a
  function on them that follows its text: \<^verbatim>\<open>ON CONFLICT\<close>, \<^verbatim>\<open>WHERE\<close>, \<^verbatim>\<open>ORDER BY\<close>, \<^verbatim>\<open>LIMIT\<close>, comparisons with
  \<^verbatim>\<open>NULL\<close>. What the text leaves to the server, the driver and other packages is collected in the record
  \<open>pgserver\<close>: failing statements, the resolution of timestamps, the collation, the order of rows where
  none is asked for, rows locked by other transactions, the JSON codec and \<^verbatim>\<open>time.Now\<close>.

  Here a statement runs without interruption. The claim, the one statement that reads rows and then writes
  them, is composed of its phases (snapshot, row locks, update), which the theory \<open>Nodes\<close> interleaves
  with the statements of other nodes.
\<close>

section \<open>Schema\<close>

record 'j pg_job =
  pj_id :: string
  pj_name :: string
  pj_spec :: string
  pj_command :: 'j
  pj_max_retries :: int
  pj_backoff :: 'j
  pj_depends_on :: 'j
  pj_timeout :: int
  pj_enabled :: bool
  pj_created_at :: time
  pj_updated_at :: time

text \<open>\<^verbatim>\<open>started_at\<close>, \<^verbatim>\<open>finished_at\<close> and \<^verbatim>\<open>lease_expiry\<close> may be \<^verbatim>\<open>NULL\<close>.\<close>

record pg_run =
  pr_id :: string
  pr_job_id :: string
  pr_batch_id :: string
  pr_state :: string
  pr_attempt :: int
  pr_scheduled_for :: time
  pr_started_at :: "time option"
  pr_finished_at :: "time option"
  pr_lease_expiry :: "time option"
  pr_worker :: string
  pr_error :: string
  pr_created_at :: time
  pr_updated_at :: time

record 'j pg =
  pg_jobs :: "(string, 'j pg_job) gomap"
  pg_runs :: "(string, pg_run) gomap"
  pg_stmts :: nat

text \<open>
  Of the \<open>n\<close>-th statement: \<open>g_down\<close> gives its error if it fails, \<open>g_lost\<close> the error of
  reading its reply, \<open>g_plan\<close> the order in which rows are
  produced, \<open>g_locked\<close> the runs that other transactions hold, \<open>g_now\<close> the clock readings before it. \<open>g_text\<close>
  are the strings a \<^verbatim>\<open>text\<close> column accepts, \<open>g_ts\<close> the instant a \<^verbatim>\<open>timestamptz\<close> column keeps, \<open>g_less\<close> the
  collation. \<open>g_strings\<close> and \<open>g_policy\<close> give the \<^verbatim>\<open>jsonb\<close> value of a list and of a retry policy, if there is one.
\<close>

record 'j pgserver =
  g_down :: "nat \<Rightarrow> string option"
  g_lost :: "nat \<Rightarrow> string option"
  g_plan :: "nat \<Rightarrow> pg_run list \<Rightarrow> pg_run list"
  g_locked :: "nat \<Rightarrow> string \<Rightarrow> bool"
  g_now :: "nat \<Rightarrow> nat \<Rightarrow> time"
  g_text :: "string \<Rightarrow> bool"
  g_ts :: "time \<Rightarrow> time"
  g_less :: "string \<Rightarrow> string \<Rightarrow> bool"
  g_strings :: "string list \<Rightarrow> 'j option"
  g_policy :: "RetryPolicy \<Rightarrow> 'j option"
  g_get_strings :: "'j \<Rightarrow> string list option"
  g_get_policy :: "'j \<Rightarrow> RetryPolicy option"
  g_open :: "string \<Rightarrow> string option"
  g_ping :: "string option"
  g_migrate :: "string option"
  g_close :: "string option"

section \<open>Statements\<close>

text \<open>A statement fails and changes nothing, or takes effect; then its reply arrives or is lost.\<close>

definition exec :: "'j pgserver \<Rightarrow> ('j pg \<Rightarrow> string + 'a \<times> 'j pg) \<Rightarrow> 'j pg \<Rightarrow> (string + 'a) \<times> 'j pg" where
  "exec g stmt db =
     (let n = pg_stmts db; db' = db\<lparr>pg_stmts := n + 1\<rparr>
      in case g_down g n of
           Some e \<Rightarrow> (Inl e, db')
         | None \<Rightarrow>
             (case stmt db of
                Inl e \<Rightarrow> (Inl e, db')
              | Inr (a, db2) \<Rightarrow> ((case g_lost g n of None \<Rightarrow> Inr a | Some e \<Rightarrow> Inl e), db2\<lparr>pg_stmts := n + 1\<rparr>)))"

text \<open>An \<^verbatim>\<open>int\<close> column has 32 bits.\<close>

definition int4 :: "int \<Rightarrow> bool" where
  "int4 n \<longleftrightarrow> - (2 ^ 31) \<le> n \<and> n < 2 ^ 31"

definition nonNil :: "string list \<Rightarrow> string list" where
  "nonNil s = s"

definition orNow :: "time \<Rightarrow> time \<Rightarrow> time" where
  "orNow now t = (if IsZero t then now else t)"

definition nullTime :: "time \<Rightarrow> time option" where
  "nullTime t = (if IsZero t then None else Some t)"

text \<open>Parameters of type \<^verbatim>\<open>text\<close> are checked before a statement runs.\<close>

definition with_text :: "'j pgserver \<Rightarrow> string list \<Rightarrow> ('j pg \<Rightarrow> string + 'a \<times> 'j pg) \<Rightarrow> 'j pg \<Rightarrow> string + 'a \<times> 'j pg" where
  "with_text g params stmt db = (if list_all (g_text g) params then stmt db else Inl ''invalid text'')"

definition dberr :: "string + 'a \<Rightarrow> store_error + 'a" where
  "dberr res = (case res of Inl e \<Rightarrow> Inl (Backend e) | Inr a \<Rightarrow> Inr a)"

section \<open>Connection\<close>

definition Open :: "'j pgserver \<Rightarrow> string \<Rightarrow> 'j pg \<Rightarrow> string + 'j pg" where
  "Open g dsn db =
     (case g_open g dsn of Some e \<Rightarrow> Inl (''postgres: open: '' @ e)
      | None \<Rightarrow>
          (case g_ping g of Some e \<Rightarrow> Inl (''postgres: ping: '' @ e)
           | None \<Rightarrow>
               (case g_migrate g of Some e \<Rightarrow> Inl (''postgres: migrate: '' @ e)
                | None \<Rightarrow> Inr db)))"

definition pg_Close :: "'j pgserver \<Rightarrow> 'j pg \<Rightarrow> (store_error + unit) \<times> 'j pg" where
  "pg_Close g db = (case g_close g of Some e \<Rightarrow> (Inl (Backend e), db) | None \<Rightarrow> (Inr (), db))"

definition Reset :: "'j pgserver \<Rightarrow> 'j pg \<Rightarrow> (store_error + unit) \<times> 'j pg" where
  "Reset g db = (let (res, db) = exec g (\<lambda>db. Inr ((), db\<lparr>pg_jobs := [], pg_runs := []\<rparr>)) db in (dberr res, db))"

section \<open>Jobs\<close>

definition insert_job :: "'j pgserver \<Rightarrow> 'j pg_job option \<Rightarrow> 'j pg \<Rightarrow> string + unit \<times> 'j pg" where
  "insert_job g row db =
     (case row of
        None \<Rightarrow> Inl ''null value violates not-null constraint''
      | Some row \<Rightarrow>
          if \<not> (g_text g (pj_id row) \<and> g_text g (pj_name row) \<and> g_text g (pj_spec row)) then Inl ''invalid text''
          else if \<not> int4 (pj_max_retries row) then Inl ''integer out of range''
          else
            let row = (case map_of (pg_jobs db) (pj_id row) of
                         None \<Rightarrow> row
                       | Some old \<Rightarrow> row\<lparr>pj_created_at := pj_created_at old\<rparr>)
            in Inr ((), db\<lparr>pg_jobs := AList.update (pj_id row) row (pg_jobs db)\<rparr>))"

definition job_row :: "'j pgserver \<Rightarrow> time \<Rightarrow> time \<Rightarrow> Job \<Rightarrow> 'j pg_job option" where
  "job_row g created updated j =
     (case (g_strings g (nonNil (j_Command j)), g_policy g (j_Backoff j), g_strings g (nonNil (j_DependsOn j))) of
        (Some command, Some backoff, Some deps) \<Rightarrow>
          Some \<lparr>pj_id = j_ID j, pj_name = j_Name j, pj_spec = j_Spec j, pj_command = command, pj_max_retries = j_MaxRetries j,
            pj_backoff = backoff, pj_depends_on = deps, pj_timeout = j_Timeout j, pj_enabled = j_Enabled j,
            pj_created_at = g_ts g created, pj_updated_at = g_ts g updated\<rparr>
      | _ \<Rightarrow> None)"

definition pg_PutJob :: "'j pgserver \<Rightarrow> Job \<Rightarrow> 'j pg \<Rightarrow> (store_error + unit) \<times> 'j pg" where
  "pg_PutJob g j db =
     (let created = orNow (g_now g (pg_stmts db) 0) (j_CreatedAt j);
          updated = orNow (g_now g (pg_stmts db) 1) (j_UpdatedAt j);
          (res, db) = exec g (insert_job g (job_row g created updated j)) db
      in (dberr res, db))"

definition scanJob :: "'j pgserver \<Rightarrow> 'j pg_job \<Rightarrow> Job" where
  "scanJob g row =
     zero_job\<lparr>j_ID := pj_id row, j_Name := pj_name row, j_Spec := pj_spec row,
       j_Command := (case g_get_strings g (pj_command row) of None \<Rightarrow> [] | Some xs \<Rightarrow> xs),
       j_MaxRetries := pj_max_retries row,
       j_Backoff := (case g_get_policy g (pj_backoff row) of None \<Rightarrow> j_Backoff zero_job | Some p \<Rightarrow> p),
       j_DependsOn := (case g_get_strings g (pj_depends_on row) of None \<Rightarrow> [] | Some xs \<Rightarrow> xs),
       j_Timeout := pj_timeout row, j_Enabled := pj_enabled row,
       j_CreatedAt := pj_created_at row, j_UpdatedAt := pj_updated_at row\<rparr>"

definition pg_GetJob :: "'j pgserver \<Rightarrow> string \<Rightarrow> 'j pg \<Rightarrow> (store_error + Job) \<times> 'j pg" where
  "pg_GetJob g k db =
     (case exec g (with_text g [k] (\<lambda>db. Inr (map_of (pg_jobs db) k, db))) db of
        (Inl e, db) \<Rightarrow> (Inl (Backend e), db)
      | (Inr None, db) \<Rightarrow> (Inl ErrNotFound, db)
      | (Inr (Some row), db) \<Rightarrow> (Inr (scanJob g row), db))"

definition pg_ListJobs :: "'j pgserver \<Rightarrow> 'j pg \<Rightarrow> (store_error + Job list) \<times> 'j pg" where
  "pg_ListJobs g db =
     (case exec g (\<lambda>db. Inr (sort_slice (\<lambda>a b. g_less g (pj_id a) (pj_id b)) (map snd (pg_jobs db)), db)) db of
        (Inl e, db) \<Rightarrow> (Inl (Backend e), db)
      | (Inr rows, db) \<Rightarrow> (Inr (map (scanJob g) rows), db))"

definition pg_DeleteJob :: "'j pgserver \<Rightarrow> string \<Rightarrow> 'j pg \<Rightarrow> (store_error + unit) \<times> 'j pg" where
  "pg_DeleteJob g k db =
     (case exec g (with_text g [k] (\<lambda>db.
        Inr (length (filter (\<lambda>(i, row). i = k) (pg_jobs db)), db\<lparr>pg_jobs := AList.delete k (pg_jobs db)\<rparr>))) db of
        (Inl e, db) \<Rightarrow> (Inl (Backend e), db)
      | (Inr n, db) \<Rightarrow> if n = 0 then (Inl ErrNotFound, db) else (Inr (), db))"

section \<open>Runs\<close>

definition run_row :: "'j pgserver \<Rightarrow> time \<Rightarrow> time \<Rightarrow> Run \<Rightarrow> pg_run" where
  "run_row g created updated r =
     \<lparr>pr_id = r_ID r, pr_job_id = r_JobID r, pr_batch_id = r_BatchID r, pr_state = r_State r, pr_attempt = r_Attempt r,
      pr_scheduled_for = g_ts g (r_ScheduledFor r), pr_started_at = map_option (g_ts g) (r_StartedAt r),
      pr_finished_at = map_option (g_ts g) (r_FinishedAt r), pr_lease_expiry = map_option (g_ts g) (nullTime (r_LeaseExpiry r)),
      pr_worker = r_Worker r, pr_error = r_Error r, pr_created_at = g_ts g created, pr_updated_at = g_ts g updated\<rparr>"

definition run_row_ok :: "'j pgserver \<Rightarrow> pg_run \<Rightarrow> string option" where
  "run_row_ok g row =
     (if \<not> list_all (g_text g) [pr_id row, pr_job_id row, pr_batch_id row, pr_state row, pr_worker row, pr_error row] then Some ''invalid text''
      else if \<not> int4 (pr_attempt row) then Some ''integer out of range''
      else None)"

definition insert_run :: "'j pgserver \<Rightarrow> pg_run \<Rightarrow> 'j pg \<Rightarrow> string + unit \<times> 'j pg" where
  "insert_run g row db =
     (case run_row_ok g row of
        Some e \<Rightarrow> Inl e
      | None \<Rightarrow>
          if map_of (pg_runs db) (pr_id row) \<noteq> None then Inl ''duplicate key value violates unique constraint''
          else Inr ((), db\<lparr>pg_runs := AList.update (pr_id row) row (pg_runs db)\<rparr>))"

definition pg_CreateRun :: "'j pgserver \<Rightarrow> Run \<Rightarrow> 'j pg \<Rightarrow> (store_error + unit) \<times> 'j pg" where
  "pg_CreateRun g r db =
     (let created = orNow (g_now g (pg_stmts db) 0) (r_CreatedAt r);
          updated = orNow (g_now g (pg_stmts db) 1) (r_UpdatedAt r);
          (res, db) = exec g (insert_run g (run_row g created updated r)) db
      in (dberr res, db))"

definition scanRun :: "pg_run \<Rightarrow> Run" where
  "scanRun row =
     zero_run\<lparr>r_ID := pr_id row, r_JobID := pr_job_id row, r_BatchID := pr_batch_id row, r_State := pr_state row,
       r_Attempt := pr_attempt row, r_ScheduledFor := pr_scheduled_for row, r_StartedAt := pr_started_at row,
       r_FinishedAt := pr_finished_at row, r_LeaseExpiry := (case pr_lease_expiry row of None \<Rightarrow> zero_time | Some t \<Rightarrow> t),
       r_Worker := pr_worker row, r_Error := pr_error row, r_CreatedAt := pr_created_at row, r_UpdatedAt := pr_updated_at row\<rparr>"

definition pg_GetRun :: "'j pgserver \<Rightarrow> string \<Rightarrow> 'j pg \<Rightarrow> (store_error + Run) \<times> 'j pg" where
  "pg_GetRun g k db =
     (case exec g (with_text g [k] (\<lambda>db. Inr (map_of (pg_runs db) k, db))) db of
        (Inl e, db) \<Rightarrow> (Inl (Backend e), db)
      | (Inr None, db) \<Rightarrow> (Inl ErrNotFound, db)
      | (Inr (Some row), db) \<Rightarrow> (Inr (scanRun row), db))"

text \<open>\<^verbatim>\<open>UPDATE runs SET ... WHERE id=$1\<close> leaves \<^verbatim>\<open>created_at\<close> alone and gives the number of rows it changed.\<close>

definition update_run :: "'j pgserver \<Rightarrow> pg_run \<Rightarrow> 'j pg \<Rightarrow> string + nat \<times> 'j pg" where
  "update_run g row db =
     (case run_row_ok g row of
        Some e \<Rightarrow> Inl e
      | None \<Rightarrow>
          (case map_of (pg_runs db) (pr_id row) of
             None \<Rightarrow> Inr (0, db)
           | Some old \<Rightarrow> Inr (1, db\<lparr>pg_runs := AList.update (pr_id row) (row\<lparr>pr_created_at := pr_created_at old\<rparr>) (pg_runs db)\<rparr>)))"

definition pg_UpdateRun :: "'j pgserver \<Rightarrow> Run \<Rightarrow> 'j pg \<Rightarrow> (store_error + unit) \<times> 'j pg" where
  "pg_UpdateRun g r db =
     (case exec g (update_run g (run_row g zero_time (orNow (g_now g (pg_stmts db) 0) (r_UpdatedAt r)) r)) db of
        (Inl e, db) \<Rightarrow> (Inl (Backend e), db)
      | (Inr n, db) \<Rightarrow> if n = 0 then (Inl ErrNotFound, db) else (Inr (), db))"

text \<open>The conditions that \<^verbatim>\<open>ListRuns\<close> puts together, in the order of the code, and their arguments.\<close>

definition conds :: "RunFilter \<Rightarrow> (pg_run \<Rightarrow> bool) list" where
  "conds f =
     (if f_JobID f \<noteq> [] then [\<lambda>row. pr_job_id row = f_JobID f] else []) @
     (if f_BatchID f \<noteq> [] then [\<lambda>row. pr_batch_id row = f_BatchID f] else []) @
     (if f_State f \<noteq> [] then [\<lambda>row. pr_state row = f_State f] else [])"

definition cond_args :: "RunFilter \<Rightarrow> string list" where
  "cond_args f = filter (\<lambda>x. x \<noteq> []) [f_JobID f, f_BatchID f, f_State f]"

definition newest_row :: "'j pgserver \<Rightarrow> pg_run \<Rightarrow> pg_run \<Rightarrow> bool" where
  "newest_row g a b \<longleftrightarrow>
     (if pr_created_at a \<noteq> pr_created_at b then pr_created_at b < pr_created_at a else g_less g (pr_id b) (pr_id a))"

definition pg_ListRuns :: "'j pgserver \<Rightarrow> RunFilter \<Rightarrow> 'j pg \<Rightarrow> (store_error + Run list) \<times> 'j pg" where
  "pg_ListRuns g f db =
     (case exec g (with_text g (cond_args f) (\<lambda>db.
        let rows = filter (\<lambda>row. list_all (\<lambda>c. c row) (conds f)) (map snd (pg_runs db));
            rows = sort_slice (newest_row g) rows;
            rows = (if 0 < f_Offset f then drop (nat (f_Offset f)) rows else rows);
            rows = (if 0 < f_Limit f then take (nat (f_Limit f)) rows else rows)
        in Inr (rows, db))) db of
        (Inl e, db) \<Rightarrow> (Inl (Backend e), db)
      | (Inr rows, db) \<Rightarrow> (Inr (map scanRun rows), db))"

text \<open>The \<^verbatim>\<open>WHERE\<close> clause of \<^verbatim>\<open>ready\<close>: a comparison with \<^verbatim>\<open>NULL\<close> is not true.\<close>

definition row_ready :: "time \<Rightarrow> pg_run \<Rightarrow> bool" where
  "row_ready now row \<longleftrightarrow>
     pr_state row = ''pending'' \<and> pr_scheduled_for row \<le> now \<or>
     pr_state row = ''running'' \<and> (case pr_lease_expiry row of None \<Rightarrow> False | Some t \<Rightarrow> t < now)"

definition claim_row :: "time \<Rightarrow> string \<Rightarrow> time \<Rightarrow> pg_run \<Rightarrow> pg_run" where
  "claim_row now worker expiry row =
     row\<lparr>pr_state := ''running'', pr_worker := worker, pr_lease_expiry := Some expiry, pr_updated_at := now,
       pr_started_at := (case pr_started_at row of None \<Rightarrow> Some now | Some t \<Rightarrow> Some t)\<rparr>"

text \<open>
  The claim in phases. The snapshot of \<^verbatim>\<open>ready\<close> gives the candidates, in the order of their slots; then, until the
  limit is reached, each candidate is locked, or skipped when another transaction holds it
  (\<^verbatim>\<open>FOR UPDATE SKIP LOCKED\<close>) or when its current version no longer satisfies the condition (under \<^verbatim>\<open>READ COMMITTED\<close>
  the condition is evaluated again on a version newer than the snapshot); at last the locked rows are updated.
\<close>

record pg_claim =
  cl_now :: time
  cl_worker :: string
  cl_expiry :: time
  cl_left :: nat
  cl_todo :: "string list"
  cl_locked :: "string list"

definition claim_open :: "'j pgserver \<Rightarrow> time \<Rightarrow> string \<Rightarrow> time \<Rightarrow> int \<Rightarrow> 'j pg \<Rightarrow> string + pg_claim" where
  "claim_open g now worker expiry limit db =
     (if limit < 0 then Inl ''LIMIT must not be negative''
      else if \<not> g_text g worker then Inl ''invalid text''
      else
        let rows = filter (row_ready now) (g_plan g (pg_stmts db) (map snd (pg_runs db)))
        in Inr \<lparr>cl_now = now, cl_worker = worker, cl_expiry = expiry, cl_left = nat limit,
             cl_todo = map pr_id (sort_slice (\<lambda>a b. pr_scheduled_for a < pr_scheduled_for b) rows), cl_locked = []\<rparr>)"

definition lock_row :: "(string \<Rightarrow> bool) \<Rightarrow> 'j pg \<Rightarrow> pg_claim \<Rightarrow> pg_claim" where
  "lock_row locked db c =
     (case cl_todo c of
        [] \<Rightarrow> c
      | k # ks \<Rightarrow>
          if cl_left c = 0 then c\<lparr>cl_todo := []\<rparr>
          else if locked k then c\<lparr>cl_todo := ks\<rparr>
          else
            (case map_of (pg_runs db) k of
               None \<Rightarrow> c\<lparr>cl_todo := ks\<rparr>
             | Some row \<Rightarrow>
                 if row_ready (cl_now c) row then c\<lparr>cl_todo := ks, cl_left := cl_left c - 1, cl_locked := cl_locked c @ [k]\<rparr>
                 else c\<lparr>cl_todo := ks\<rparr>))"

definition claim_write :: "'j pgserver \<Rightarrow> pg_claim \<Rightarrow> 'j pg \<Rightarrow> pg_run list \<times> 'j pg" where
  "claim_write g c db =
     (let tbl = map (\<lambda>(k, row). (k, if k \<in> set (cl_locked c) then claim_row (cl_now c) (cl_worker c) (cl_expiry c) row else row)) (pg_runs db)
      in (g_plan g (Suc (pg_stmts db)) (map snd (filter (\<lambda>(k, row). k \<in> set (cl_locked c)) tbl)), db\<lparr>pg_runs := tbl\<rparr>))"

definition claim_stmt :: "'j pgserver \<Rightarrow> time \<Rightarrow> string \<Rightarrow> time \<Rightarrow> int \<Rightarrow> 'j pg \<Rightarrow> string + pg_run list \<times> 'j pg" where
  "claim_stmt g now worker expiry limit db =
     (case claim_open g now worker expiry limit db of
        Inl e \<Rightarrow> Inl e
      | Inr c \<Rightarrow> Inr (claim_write g ((lock_row (g_locked g (pg_stmts db)) db ^^ length (cl_todo c)) c) db))"

definition pg_ClaimDue ::
    "'j pgserver \<Rightarrow> time \<Rightarrow> string \<Rightarrow> duration \<Rightarrow> int \<Rightarrow> 'j pg \<Rightarrow> (store_error + Run list) \<times> 'j pg" where
  "pg_ClaimDue g now worker lease limit db =
     (case exec g (claim_stmt g (g_ts g now) worker (g_ts g (now + lease)) limit) db of
        (Inl e, db) \<Rightarrow> (Inl (Backend e), db)
      | (Inr rows, db) \<Rightarrow> (Inr (map scanRun rows), db))"

definition postgres_ops :: "'j pgserver \<Rightarrow> 'j pg store_ops" where
  "postgres_ops g = \<lparr>st_PutJob = pg_PutJob g, st_GetJob = pg_GetJob g, st_ListJobs = pg_ListJobs g, st_DeleteJob = pg_DeleteJob g,
     st_CreateRun = pg_CreateRun g, st_GetRun = pg_GetRun g, st_UpdateRun = pg_UpdateRun g, st_ListRuns = pg_ListRuns g,
     st_ClaimDue = pg_ClaimDue g, st_Close = pg_Close g\<rparr>"

section \<open>A claim without interruption\<close>

lemma lock_row_Nil [simp]: "cl_todo c = [] \<Longrightarrow> (lock_row locked db ^^ n) c = c"
  by (induction n) (simp_all add: lock_row_def)

text \<open>When all candidates are still ready, the first ones that nobody else holds are locked.\<close>

lemma lock_rows:
  assumes "\<And>k. k \<in> set (cl_todo c) \<Longrightarrow> \<exists>row. map_of (pg_runs db) k = Some row \<and> row_ready (cl_now c) row"
  shows "let c' = (lock_row locked db ^^ length (cl_todo c)) c
    in cl_locked c' = cl_locked c @ take (cl_left c) (filter (\<lambda>k. \<not> locked k) (cl_todo c)) \<and>
       cl_now c' = cl_now c \<and> cl_worker c' = cl_worker c \<and> cl_expiry c' = cl_expiry c"
  using assms
proof (induction "cl_todo c" arbitrary: c)
  case Nil
  then show ?case by (simp add: Nil.hyps [symmetric])
next
  case (Cons k ks)
  let ?c = "lock_row locked db c"
  obtain row where row: "map_of (pg_runs db) k = Some row" "row_ready (cl_now c) row" using Cons.prems [of k] Cons.hyps(2) by (metis list.set_intros(1))
  have step: "(lock_row locked db ^^ length (cl_todo c)) c = (lock_row locked db ^^ length ks) ?c"
    by (simp add: Cons.hyps(2) [symmetric] funpow_swap1)
  show ?case
  proof (cases "cl_left c")
    case 0
    then have "?c = c\<lparr>cl_todo := []\<rparr>" by (simp add: lock_row_def Cons.hyps(2) [symmetric])
    then show ?thesis using 0 by (simp add: step)
  next
    case (Suc n)
    have todo: "cl_todo ?c = ks" "cl_now ?c = cl_now c" "cl_worker ?c = cl_worker c" "cl_expiry ?c = cl_expiry c"
      "cl_left ?c = (if locked k then Suc n else n)" "cl_locked ?c = (if locked k then cl_locked c else cl_locked c @ [k])"
      using row Suc by (simp_all add: lock_row_def Cons.hyps(2) [symmetric])
    have "\<exists>row. map_of (pg_runs db) i = Some row \<and> row_ready (cl_now ?c) row" if "i \<in> set (cl_todo ?c)" for i
      using Cons.prems [of i] that unfolding todo by (simp add: Cons.hyps(2) [symmetric])
    from Cons.hyps(1) [of ?c, OF todo(1) [symmetric] this] show ?thesis
      unfolding step Let_def using todo Suc by (simp add: Cons.hyps(2) [symmetric])
  qed
qed

lemma claim_stmt_eq:
  assumes "\<forall>row\<in>set (g_plan g (pg_stmts db) (map snd (pg_runs db))). row_ready now row \<longrightarrow> map_of (pg_runs db) (pr_id row) = Some row"
  shows "claim_stmt g now worker expiry limit db =
     (if limit < 0 then Inl ''LIMIT must not be negative''
      else if \<not> g_text g worker then Inl ''invalid text''
      else
        let n = pg_stmts db;
            rows = sort_slice (\<lambda>a b. pr_scheduled_for a < pr_scheduled_for b) (filter (row_ready now) (g_plan g n (map snd (pg_runs db))));
            ready = map pr_id (take (nat limit) (filter (\<lambda>row. \<not> g_locked g n (pr_id row)) rows));
            tbl = map (\<lambda>(k, row). (k, if k \<in> set ready then claim_row now worker expiry row else row)) (pg_runs db)
        in Inr (g_plan g (Suc n) (map snd (filter (\<lambda>(k, row). k \<in> set ready) tbl)), db\<lparr>pg_runs := tbl\<rparr>))"
proof (cases "limit < 0 \<or> \<not> g_text g worker")
  case True
  then show ?thesis by (elim disjE) (simp_all add: claim_stmt_def claim_open_def)
next
  case False
  define rows where "rows = sort_slice (\<lambda>a b. pr_scheduled_for a < pr_scheduled_for b) (filter (row_ready now) (g_plan g (pg_stmts db) (map snd (pg_runs db))))"
  define c where "c = \<lparr>cl_now = now, cl_worker = worker, cl_expiry = expiry, cl_left = nat limit, cl_todo = map pr_id rows, cl_locked = []\<rparr>"
  have op: "claim_open g now worker expiry limit db = Inr c" using False by (simp add: claim_open_def c_def rows_def)
  have "\<exists>row. map_of (pg_runs db) k = Some row \<and> row_ready (cl_now c) row" if "k \<in> set (cl_todo c)" for k
    using that assms by (fastforce simp: c_def rows_def)
  note locks = lock_rows [where c = c and locked = "g_locked g (pg_stmts db)", OF this, unfolded Let_def]
  define c' where "c' = (lock_row (g_locked g (pg_stmts db)) db ^^ length (cl_todo c)) c"
  have sel: "cl_locked c = []" "cl_now c = now" "cl_worker c = worker" "cl_expiry c = expiry" by (simp_all add: c_def)
  have "take (cl_left c) (filter (\<lambda>k. \<not> g_locked g (pg_stmts db) k) (cl_todo c)) =
      map pr_id (take (nat limit) (filter (\<lambda>row. \<not> g_locked g (pg_stmts db) (pr_id row)) rows))"
    by (simp add: c_def filter_map o_def take_map)
  then have c': "cl_locked c' = map pr_id (take (nat limit) (filter (\<lambda>row. \<not> g_locked g (pg_stmts db) (pr_id row)) rows))"
    "cl_now c' = now" "cl_worker c' = worker" "cl_expiry c' = expiry"
    using locks unfolding c'_def [symmetric] sel by simp_all
  show ?thesis
    using False unfolding claim_stmt_def op sum.case c'_def [symmetric] claim_write_def Let_def rows_def [symmetric] c' by simp
qed

end
