(* ===== verification/Storetest.thy ===== *)
theory Storetest
  imports Memory GoTime
begin

text \<open>
  The conformance suite that both backends share (\<^verbatim>\<open>src/internal/store/storetest/suite.go\<close>). A sub-test
  is a function from a fresh store to the list of failures it reports: \<^verbatim>\<open>t.Fatalf\<close> ends the test,
  \<^verbatim>\<open>t.Errorf\<close> reports and goes on. The locale \<open>conforming_store\<close> is the store contract with its
  success and failure conditions; every store that satisfies it passes the suite, whatever its
  implementation, and the in-memory store satisfies it.
\<close>

section \<open>The suite\<close>

definition errorf :: "bool \<Rightarrow> string \<Rightarrow> string list" where
  "errorf cond msg = (if cond then [msg] else [])"

definition ids :: "Run list \<Rightarrow> string list" where
  "ids runs = map r_ID runs"

text \<open>\<^verbatim>\<open>mustCreate\<close> ends the test at the first error.\<close>

fun mustCreate :: "'s store_ops \<Rightarrow> Run list \<Rightarrow> 's \<Rightarrow> string + 's" where
  "mustCreate ops [] s = Inr s"
| "mustCreate ops (r # runs) s =
     (case st_CreateRun ops r s of
        (Inl e, s) \<Rightarrow> Inl (''CreateRun '' @ r_ID r)
      | (Inr _, s) \<Rightarrow> mustCreate ops runs s)"

definition testJobCRUD :: "'s store_ops \<Rightarrow> 's \<Rightarrow> string list" where
  "testJobCRUD ops s =
     (let j = zero_job\<lparr>j_ID := ''build'', j_Name := ''Build'', j_Spec := ''@hourly'', j_Command := [''make'']\<rparr>
      in case st_PutJob ops j s of
        (Inl e, s) \<Rightarrow> [''PutJob'']
      | (Inr _, s) \<Rightarrow> (case st_GetJob ops ''build'' s of
          (Inl e, s) \<Rightarrow> [''GetJob'']
        | (Inr got, s) \<Rightarrow>
            errorf (j_Name got \<noteq> ''Build'' \<or> j_Spec got \<noteq> ''@hourly'') ''GetJob returned'' @
            (case st_ListJobs ops s of
               (Inl e, s) \<Rightarrow> [''ListJobs'']
             | (Inr jobs, s) \<Rightarrow>
                 if length jobs \<noteq> 1 then [''ListJobs len'']
                 else case st_DeleteJob ops ''build'' s of
                   (Inl e, s) \<Rightarrow> [''DeleteJob'']
                 | (Inr _, s) \<Rightarrow> (case st_GetJob ops ''build'' s of
                     (res, s) \<Rightarrow> errorf (res \<noteq> Inl ErrNotFound) ''GetJob after delete''))))"

definition suite_now :: time where
  "suite_now = Date 2026 5 1 10 0 0 0 UTC"

definition testRunLifecycle :: "'s store_ops \<Rightarrow> 's \<Rightarrow> string list" where
  "testRunLifecycle ops s =
     (let now = suite_now;
          r = zero_run\<lparr>r_ID := ''r1'', r_JobID := ''build'', r_State := StatePending, r_ScheduledFor := now, r_CreatedAt := now\<rparr>
      in case st_CreateRun ops r s of
        (Inl e, s) \<Rightarrow> [''CreateRun'']
      | (Inr _, s) \<Rightarrow>
          (let r = r\<lparr>r_State := StateSucceeded\<rparr>
           in case st_UpdateRun ops r s of
             (Inl e, s) \<Rightarrow> [''UpdateRun'']
           | (Inr _, s) \<Rightarrow> (case st_GetRun ops ''r1'' s of
               (Inl e, s) \<Rightarrow> [''GetRun'']
             | (Inr got, s) \<Rightarrow>
                 errorf (r_State got \<noteq> StateSucceeded) ''run state'' @
                 (case st_GetRun ops ''missing'' s of
                    (res, s) \<Rightarrow> errorf (res \<noteq> Inl ErrNotFound) ''GetRun(missing)''))))"

definition testClaimDue :: "'s store_ops \<Rightarrow> 's \<Rightarrow> string list" where
  "testClaimDue ops s =
     (let now = suite_now;
          due = zero_run\<lparr>r_ID := ''due'', r_JobID := ''j'', r_State := StatePending,
                  r_ScheduledFor := now - MinuteD, r_CreatedAt := now\<rparr>;
          future = zero_run\<lparr>r_ID := ''future'', r_JobID := ''j'', r_State := StatePending,
                  r_ScheduledFor := now + HourD, r_CreatedAt := now\<rparr>
      in case mustCreate ops [due, future] s of
        Inl msg \<Rightarrow> [msg]
      | Inr s \<Rightarrow> (case st_ClaimDue ops now ''worker-1'' (30 * SecondD) 10 s of
          (Inl e, s) \<Rightarrow> [''ClaimDue'']
        | (Inr claimed, s) \<Rightarrow>
            if length claimed \<noteq> 1 \<or> r_ID (claimed ! 0) \<noteq> ''due'' then [''claimed'']
            else
              errorf (r_State (claimed ! 0) \<noteq> StateRunning \<or> r_Worker (claimed ! 0) \<noteq> ''worker-1'') ''claimed run not leased correctly'' @
              errorf (r_LeaseExpiry (claimed ! 0) \<noteq> now + 30 * SecondD) ''lease expiry'' @
              (case st_ClaimDue ops now ''worker-2'' (30 * SecondD) 10 s of
                 (Inl e, s) \<Rightarrow> [''ClaimDue again'']
               | (Inr again, s) \<Rightarrow> errorf (length again \<noteq> 0) ''second claim'')))"

text \<open>The early claim ignores its error; the slice is \<^verbatim>\<open>nil\<close> then.\<close>

definition testLeaseRedelivery :: "'s store_ops \<Rightarrow> 's \<Rightarrow> string list" where
  "testLeaseRedelivery ops s =
     (let now = suite_now;
          r = zero_run\<lparr>r_ID := ''r'', r_JobID := ''j'', r_State := StatePending,
                r_ScheduledFor := now - MinuteD, r_CreatedAt := now\<rparr>
      in case mustCreate ops [r] s of
        Inl msg \<Rightarrow> [msg]
      | Inr s \<Rightarrow> (case st_ClaimDue ops now ''worker-1'' (30 * SecondD) 10 s of
          (Inl e, s) \<Rightarrow> [''first claim'']
        | (Inr _, s) \<Rightarrow> (case st_ClaimDue ops (now + 10 * SecondD) ''worker-2'' (30 * SecondD) 10 s of
            (res, s) \<Rightarrow>
              if length (case res of Inl _ \<Rightarrow> [] | Inr got \<Rightarrow> got) \<noteq> 0 then [''claimed a still-leased run'']
              else case st_ClaimDue ops (now + MinuteD) ''worker-2'' (30 * SecondD) 10 s of
                (Inl e, s) \<Rightarrow> [''redelivery claim'']
              | (Inr got, s) \<Rightarrow>
                  errorf (length got \<noteq> 1 \<or> r_Worker (got ! 0) \<noteq> ''worker-2'') ''expected redelivery to worker-2'')))"

definition testListRunsFilter :: "'s store_ops \<Rightarrow> 's \<Rightarrow> string list" where
  "testListRunsFilter ops s =
     (let base = suite_now
      in case mustCreate ops
          [zero_run\<lparr>r_ID := ''a'', r_JobID := ''j1'', r_State := StateSucceeded, r_CreatedAt := base\<rparr>,
           zero_run\<lparr>r_ID := ''b'', r_JobID := ''j1'', r_State := StateFailed, r_CreatedAt := base + SecondD\<rparr>,
           zero_run\<lparr>r_ID := ''c'', r_JobID := ''j2'', r_State := StateSucceeded, r_CreatedAt := base + 2 * SecondD\<rparr>] s of
        Inl msg \<Rightarrow> [msg]
      | Inr s \<Rightarrow> (case st_ListRuns ops (zero_filter\<lparr>f_JobID := ''j1''\<rparr>) s of
          (Inl e, s) \<Rightarrow> [''ListRuns'']
        | (Inr byJob, s) \<Rightarrow>
            errorf (length byJob \<noteq> 2) ''JobID filter'' @
            errorf (length byJob = 2 \<and> r_ID (byJob ! 0) \<noteq> ''b'') ''expected newest run first'' @
            (case st_ListRuns ops (zero_filter\<lparr>f_State := StateSucceeded\<rparr>) s of
               (Inl e, s) \<Rightarrow> [''ListRuns state'']
             | (Inr byState, s) \<Rightarrow>
                 errorf (length byState \<noteq> 2) ''state filter'' @
                 (case st_ListRuns ops (zero_filter\<lparr>f_Limit := 1\<rparr>) s of
                    (Inl e, s) \<Rightarrow> [''ListRuns limit'']
                  | (Inr limited, s) \<Rightarrow> errorf (length limited \<noteq> 1) ''limit''))))"

text \<open>Every sub-test gets a store of its own from the factory.\<close>

definition RunSuite :: "'s store_ops \<Rightarrow> (nat \<Rightarrow> 's) \<Rightarrow> (string \<times> string list) list" where
  "RunSuite ops newStore =
     [(''JobCRUD'', testJobCRUD ops (newStore 0)),
      (''RunLifecycle'', testRunLifecycle ops (newStore 1)),
      (''ClaimDue'', testClaimDue ops (newStore 2)),
      (''LeaseRedelivery'', testLeaseRedelivery ops (newStore 3)),
      (''ListRunsFilter'', testListRunsFilter ops (newStore 4))]"

definition passes :: "(string \<times> string list) list \<Rightarrow> bool" where
  "passes results \<longleftrightarrow> list_all (\<lambda>(name, failures). failures = []) results"

section \<open>Conforming stores\<close>

lemma sorted_wrt_cases: "sorted_wrt lt xs \<Longrightarrow> x \<in> set xs \<Longrightarrow> y \<in> set xs \<Longrightarrow> x = y \<or> lt x y \<or> lt y x"
  by (induction xs) auto

text \<open>There is one listing of a map in a given order.\<close>

lemma listing_unique:
  assumes "slice_order lt" "listing lt P m xs" "listing lt P m ys"
  shows "xs = ys"
proof -
  have sorted: "slice_sorted lt zs" if "listing lt P m zs" for zs
    using that slice_order.lt_asym [OF assms(1)] by (auto simp: listing_def intro: sorted_wrt_mono_rel)
  have perm: "mset zs = mset xs" if "listing lt P m zs" for zs
    using that assms(2) by (simp add: listing_def set_eq_iff_mset_eq_distinct [symmetric])
  have eq: "zs = sort_slice lt xs" if "listing lt P m zs" for zs
  proof (rule slice_order.sort_slice_unique [OF assms(1) sorted [OF that] perm [OF that]])
    show "x = y" if "x \<in> set xs" "y \<in> set xs" "\<not> lt x y" "\<not> lt y x" for x y
      using sorted_wrt_cases [of lt xs x y] that assms(2) by (auto simp: listing_def)
  qed
  show ?thesis using eq [OF assms(2)] eq [OF assms(3)] by (rule trans [OF _ sym])
qed

locale conforming_store = reliable_store +
  assumes PutJob_ok: "inv s \<Longrightarrow> fst (st_PutJob ops j s) = Inr ()"
    and DeleteJob_found: "inv s \<Longrightarrow> jobs_of s k \<noteq> None \<Longrightarrow> fst (st_DeleteJob ops k s) = Inr ()"
    and GetJob_missing: "inv s \<Longrightarrow> jobs_of s k = None \<Longrightarrow> fst (st_GetJob ops k s) = Inl ErrNotFound"
    and GetRun_found: "inv s \<Longrightarrow> runs_of s k = Some r \<Longrightarrow> fst (st_GetRun ops k s) = Inr r"
    and GetRun_missing: "inv s \<Longrightarrow> runs_of s k = None \<Longrightarrow> fst (st_GetRun ops k s) = Inl ErrNotFound"
begin

text \<open>A store state with given jobs and runs, and what each call does on it.\<close>

definition holds_data :: "(string \<rightharpoonup> Job) \<Rightarrow> (string \<rightharpoonup> Run) \<Rightarrow> 'a \<Rightarrow> bool" where
  "holds_data js rs s \<longleftrightarrow> inv s \<and> jobs_of s = js \<and> runs_of s = rs"

lemma put_job:
  assumes "holds_data js rs s"
  obtains s' where "st_PutJob ops j s = (Inr (), s')" "holds_data (js(j_ID j \<mapsto> j)) rs s'"
  using PutJob_ok [of s j] PutJob_law [of s j "Inr ()" "snd (st_PutJob ops j s)"] assms that
  by (cases "st_PutJob ops j s") (auto simp: holds_data_def)

lemma get_job:
  assumes "holds_data js rs s"
  obtains s' where "st_GetJob ops k s = (case js k of None \<Rightarrow> Inl ErrNotFound | Some j \<Rightarrow> Inr j, s')" "holds_data js rs s'"
proof -
  have "fst (st_GetJob ops k s) = (case js k of None \<Rightarrow> Inl ErrNotFound | Some j \<Rightarrow> Inr j)"
    using GetJob_found [of s k] GetJob_missing [of s k] assms by (auto simp: holds_data_def split: option.split)
  then show ?thesis using that GetJob_law [of s k] assms by (cases "st_GetJob ops k s") (auto simp: holds_data_def)
qed

lemma list_jobs:
  assumes "holds_data js rs s"
  obtains xs s' where "st_ListJobs ops s = (Inr xs, s')" "distinct xs" "set xs = ran js" "holds_data js rs s'"
proof -
  obtain xs s' where l: "st_ListJobs ops s = (Inr xs, s')" using ListJobs_ok [of s] assms
    by (cases "st_ListJobs ops s") (auto simp: holds_data_def)
  show ?thesis using that [OF l] ListJobs_law [OF _ l] assms by (auto simp: holds_data_def)
qed

lemma delete_job:
  assumes "holds_data js rs s" "js k \<noteq> None"
  obtains s' where "st_DeleteJob ops k s = (Inr (), s')" "holds_data (js(k := None)) rs s'"
  using DeleteJob_found [of s k] DeleteJob_law [of s k "Inr ()" "snd (st_DeleteJob ops k s)"] assms that
  by (cases "st_DeleteJob ops k s") (auto simp: holds_data_def)

lemma create_run:
  assumes "holds_data js rs s" "rs (r_ID r) = None"
  obtains s' where "st_CreateRun ops r s = (Inr (), s')" "holds_data js (rs(r_ID r \<mapsto> r)) s'"
  using CreateRun_ok [of s r] CreateRun_law [of s r "Inr ()" "snd (st_CreateRun ops r s)"] assms that
  by (cases "st_CreateRun ops r s") (auto simp: holds_data_def)

lemma update_run:
  assumes "holds_data js rs s" "rs (r_ID r) \<noteq> None"
  obtains s' where "st_UpdateRun ops r s = (Inr (), s')" "holds_data js (rs(r_ID r \<mapsto> r)) s'"
  using UpdateRun_found [of s r] UpdateRun_law [of s r "Inr ()" "snd (st_UpdateRun ops r s)"] assms that
  by (cases "st_UpdateRun ops r s") (auto simp: holds_data_def)

lemma get_run:
  assumes "holds_data js rs s"
  obtains s' where "st_GetRun ops k s = (case rs k of None \<Rightarrow> Inl ErrNotFound | Some r \<Rightarrow> Inr r, s')" "holds_data js rs s'"
proof -
  have "fst (st_GetRun ops k s) = (case rs k of None \<Rightarrow> Inl ErrNotFound | Some r \<Rightarrow> Inr r)"
    using GetRun_found [of s k] GetRun_missing [of s k] assms by (auto simp: holds_data_def split: option.split)
  then show ?thesis using that GetRun_law [of s k] assms by (cases "st_GetRun ops k s") (auto simp: holds_data_def)
qed

lemma list_runs:
  assumes "holds_data js rs s" "listing run_newer (run_matches f) rs xs"
  obtains s' where "st_ListRuns ops f s = (Inr (page f xs), s')" "holds_data js rs s'"
proof -
  obtain out s' where l: "st_ListRuns ops f s = (Inr out, s')" using ListRuns_ok [of s f] assms(1)
    by (cases "st_ListRuns ops f s") (auto simp: holds_data_def)
  have "out = page f xs" "holds_data js rs s'"
    using ListRuns_law [OF _ l] assms listing_unique [OF newer_order.slice_order_axioms] by (fastforce simp: holds_data_def)+
  then show ?thesis using that l by blast
qed

lemma claim_due:
  assumes "holds_data js rs s" "listing due_before (claimable now) rs xs"
  obtains s' where "st_ClaimDue ops now w l n s = (Inr (map (claim_run now w l) (claim_limit n xs)), s')"
    "holds_data js (overwrite_runs rs (map (claim_run now w l) (claim_limit n xs))) s'"
proof -
  obtain out s' where c: "st_ClaimDue ops now w l n s = (Inr out, s')" using ClaimDue_ok [of s now w l n] assms(1)
    by (cases "st_ClaimDue ops now w l n s") (auto simp: holds_data_def)
  obtain ys where "listing due_before (claimable now) rs ys" "out = map (claim_run now w l) (claim_limit n ys)"
    "inv s'" "jobs_of s' = js" "runs_of s' = overwrite_runs rs out"
    using ClaimDue_law [OF _ c] assms(1) by (auto simp: holds_data_def)
  moreover from this(1) have "ys = xs" using assms(2) by (rule listing_unique [OF due_order.slice_order_axioms])
  ultimately show ?thesis using that c by (simp add: holds_data_def)
qed

lemma claim_few:
  assumes "holds_data js rs s" "listing due_before (claimable now) rs xs" "int (length xs) \<le> n"
  obtains s' where "st_ClaimDue ops now w l n s = (Inr (map (claim_run now w l) xs), s')"
    "holds_data js (overwrite_runs rs (map (claim_run now w l) xs)) s'"
proof -
  have "claim_limit n xs = xs" using assms(3) by (simp add: claim_limit_def)
  with claim_due [OF assms(1,2), of w l n] that show ?thesis by metis
qed

lemma JobCRUD_passes:
  assumes "holds_data Map.empty Map.empty s"
  shows "testJobCRUD ops s = []"
proof -
  let ?j = "zero_job\<lparr>j_ID := ''build'', j_Name := ''Build'', j_Spec := ''@hourly'', j_Command := [''make'']\<rparr>"
  obtain s1 where s1: "st_PutJob ops ?j s = (Inr (), s1)" "holds_data [''build'' \<mapsto> ?j] Map.empty s1"
    using put_job [OF assms, of ?j] by auto
  obtain s2 where s2: "st_GetJob ops ''build'' s1 = (Inr ?j, s2)" "holds_data [''build'' \<mapsto> ?j] Map.empty s2"
    using get_job [OF s1(2), of "''build''"] by auto
  obtain js s3 where s3: "st_ListJobs ops s2 = (Inr js, s3)" "distinct js" "set js = {?j}" "holds_data [''build'' \<mapsto> ?j] Map.empty s3"
    using list_jobs [OF s2(2)] by auto
  obtain s4 where s4: "st_DeleteJob ops ''build'' s3 = (Inr (), s4)" "holds_data Map.empty Map.empty s4"
    using delete_job [OF s3(4), of "''build''"] by auto
  obtain s5 where s5: "st_GetJob ops ''build'' s4 = (Inl ErrNotFound, s5)" using get_job [OF s4(2), of "''build''"] by auto
  have "length js = 1" using distinct_card [OF s3(2)] s3(3) by simp
  then show ?thesis using s1(1) s2(1) s3(1) s4(1) s5 by (simp add: testJobCRUD_def errorf_def)
qed

lemma RunLifecycle_passes:
  assumes "holds_data Map.empty Map.empty s"
  shows "testRunLifecycle ops s = []"
proof -
  let ?r = "zero_run\<lparr>r_ID := ''r1'', r_JobID := ''build'', r_State := StatePending, r_ScheduledFor := suite_now, r_CreatedAt := suite_now\<rparr>"
  let ?q = "?r\<lparr>r_State := StateSucceeded\<rparr>"
  obtain s1 where s1: "st_CreateRun ops ?r s = (Inr (), s1)" "holds_data Map.empty [''r1'' \<mapsto> ?r] s1"
    using create_run [OF assms, of ?r] by auto
  obtain s2 where s2: "st_UpdateRun ops ?q s1 = (Inr (), s2)" "holds_data Map.empty [''r1'' \<mapsto> ?q] s2"
    using update_run [OF s1(2), of ?q] by auto
  obtain s3 where s3: "st_GetRun ops ''r1'' s2 = (Inr ?q, s3)" "holds_data Map.empty [''r1'' \<mapsto> ?q] s3"
    using get_run [OF s2(2), of "''r1''"] by auto
  obtain s4 where s4: "st_GetRun ops ''missing'' s3 = (Inl ErrNotFound, s4)" using get_run [OF s3(2), of "''missing''"] by auto
  show ?thesis using s1(1) s2(1) s3(1) s4 by (simp add: testRunLifecycle_def errorf_def)
qed

lemma must_create:
  assumes "holds_data js rs s" "distinct (map r_ID runs)" "\<forall>r\<in>set runs. rs (r_ID r) = None"
  obtains s' where "mustCreate ops runs s = Inr s'" "holds_data js (rs ++ map_of (map (\<lambda>r. (r_ID r, r)) (rev runs))) s'"
  using assms
proof (induction runs arbitrary: rs s thesis)
  case Nil
  then show ?case by simp
next
  case (Cons r runs)
  obtain s1 where s1: "st_CreateRun ops r s = (Inr (), s1)" "holds_data js (rs(r_ID r \<mapsto> r)) s1"
    using create_run [OF Cons.prems(2)] Cons.prems(4) by auto
  have "\<forall>q\<in>set runs. (rs(r_ID r \<mapsto> r)) (r_ID q) = None"
    using Cons.prems(3,4) by (auto simp: image_iff)
  moreover have "distinct (map r_ID runs)" using Cons.prems(3) by simp
  ultimately obtain s2 where "mustCreate ops runs s1 = Inr s2"
    "holds_data js (rs(r_ID r \<mapsto> r) ++ map_of (map (\<lambda>r. (r_ID r, r)) (rev runs))) s2"
    using Cons.IH [OF _ s1(2)] by blast
  then show ?case using Cons.prems(1) s1(1) by (simp add: map_add_assoc [symmetric])
qed

lemma suite_times [simp]: "MinuteD = 60 * SecondD" "HourD = 3600 * SecondD" "0 < SecondD" "0 \<le> SecondD"
  by (simp_all add: MinuteD_def HourD_def SecondD_def)

lemma ClaimDue_passes:
  assumes "holds_data Map.empty Map.empty s"
  shows "testClaimDue ops s = []"
proof -
  let ?due = "zero_run\<lparr>r_ID := ''due'', r_JobID := ''j'', r_State := StatePending, r_ScheduledFor := suite_now - MinuteD, r_CreatedAt := suite_now\<rparr>"
  let ?fut = "zero_run\<lparr>r_ID := ''future'', r_JobID := ''j'', r_State := StatePending, r_ScheduledFor := suite_now + HourD, r_CreatedAt := suite_now\<rparr>"
  let ?got = "claim_run suite_now ''worker-1'' (30 * SecondD) ?due"
  obtain s1 where s1: "mustCreate ops [?due, ?fut] s = Inr s1" "holds_data Map.empty [''due'' \<mapsto> ?due, ''future'' \<mapsto> ?fut] s1"
    using must_create [OF assms, of "[?due, ?fut]"] by auto
  have "listing due_before (claimable suite_now) [''due'' \<mapsto> ?due, ''future'' \<mapsto> ?fut] [?due]"
    by (auto simp: listing_def ran_def claimable_def SecondD_def split: if_splits)
  from claim_few [OF s1(2) this, of 10 "''worker-1''" "30 * SecondD"] obtain s2 where s2:
    "st_ClaimDue ops suite_now ''worker-1'' (30 * SecondD) 10 s1 = (Inr [?got], s2)"
    "holds_data Map.empty ([''due'' \<mapsto> ?due, ''future'' \<mapsto> ?fut](''due'' \<mapsto> ?got)) s2"
    by (auto simp: overwrite_runs_def)
  have "listing due_before (claimable suite_now) ([''due'' \<mapsto> ?due, ''future'' \<mapsto> ?fut](''due'' \<mapsto> ?got)) []"
    by (auto simp: listing_def ran_def claimable_def SecondD_def split: if_splits)
  from claim_few [OF s2(2) this, of 10 "''worker-2''" "30 * SecondD"] obtain s3 where s3:
    "st_ClaimDue ops suite_now ''worker-2'' (30 * SecondD) 10 s2 = (Inr [], s3)" by auto
  show ?thesis using s1(1) s2(1) s3 by (simp add: testClaimDue_def errorf_def)
qed

lemma LeaseRedelivery_passes:
  assumes "holds_data Map.empty Map.empty s"
  shows "testLeaseRedelivery ops s = []"
proof -
  let ?r = "zero_run\<lparr>r_ID := ''r'', r_JobID := ''j'', r_State := StatePending, r_ScheduledFor := suite_now - MinuteD, r_CreatedAt := suite_now\<rparr>"
  let ?got = "claim_run suite_now ''worker-1'' (30 * SecondD) ?r"
  obtain s1 where s1: "mustCreate ops [?r] s = Inr s1" "holds_data Map.empty [''r'' \<mapsto> ?r] s1"
    using must_create [OF assms, of "[?r]"] by auto
  have "listing due_before (claimable suite_now) [''r'' \<mapsto> ?r] [?r]" by (auto simp: listing_def claimable_def)
  from claim_few [OF s1(2) this, of 10 "''worker-1''" "30 * SecondD"] obtain s2 where s2:
    "st_ClaimDue ops suite_now ''worker-1'' (30 * SecondD) 10 s1 = (Inr [?got], s2)"
    "holds_data Map.empty [''r'' \<mapsto> ?got] s2" by (auto simp: overwrite_runs_def)
  have "listing due_before (claimable (suite_now + 10 * SecondD)) [''r'' \<mapsto> ?got] []"
    by (auto simp: listing_def claimable_def SecondD_def)
  from claim_few [OF s2(2) this, of 10 "''worker-2''" "30 * SecondD"] obtain s3 where s3:
    "st_ClaimDue ops (suite_now + 10 * SecondD) ''worker-2'' (30 * SecondD) 10 s2 = (Inr [], s3)"
    "holds_data Map.empty [''r'' \<mapsto> ?got] s3" by (auto simp: overwrite_runs_def)
  have "listing due_before (claimable (suite_now + MinuteD)) [''r'' \<mapsto> ?got] [?got]"
    by (auto simp: listing_def claimable_def SecondD_def)
  from claim_few [OF s3(2) this, of 10 "''worker-2''" "30 * SecondD"] obtain s4 where
    "st_ClaimDue ops (suite_now + MinuteD) ''worker-2'' (30 * SecondD) 10 s3 = (Inr [claim_run (suite_now + MinuteD) ''worker-2'' (30 * SecondD) ?got], s4)"
    by auto
  then show ?thesis using s1(1) s2(1) s3(1) by (simp add: testLeaseRedelivery_def errorf_def)
qed

lemma ListRunsFilter_passes:
  assumes "holds_data Map.empty Map.empty s"
  shows "testListRunsFilter ops s = []"
proof -
  define a where "a = zero_run\<lparr>r_ID := ''a'', r_JobID := ''j1'', r_State := StateSucceeded, r_CreatedAt := suite_now\<rparr>"
  define b where "b = zero_run\<lparr>r_ID := ''b'', r_JobID := ''j1'', r_State := StateFailed, r_CreatedAt := suite_now + SecondD\<rparr>"
  define c where "c = zero_run\<lparr>r_ID := ''c'', r_JobID := ''j2'', r_State := StateSucceeded, r_CreatedAt := suite_now + 2 * SecondD\<rparr>"
  let ?m = "[''a'' \<mapsto> a, ''b'' \<mapsto> b, ''c'' \<mapsto> c]"
  have abc: "r_ID a = ''a''" "r_ID b = ''b''" "r_ID c = ''c''" "r_JobID a = ''j1''" "r_JobID b = ''j1''" "r_JobID c = ''j2''"
    "r_State a = StateSucceeded" "r_State b = StateFailed" "r_State c = StateSucceeded"
    "r_CreatedAt a = suite_now" "r_CreatedAt b = suite_now + SecondD" "r_CreatedAt c = suite_now + 2 * SecondD"
    by (simp_all add: a_def b_def c_def)
  then have ne: "a \<noteq> b" "b \<noteq> c" "a \<noteq> c" "b \<noteq> a" "c \<noteq> b" "c \<noteq> a" by auto
  have ran: "ran ?m = {a, b, c}" by (simp add: insert_commute)
  obtain s1 where s1: "mustCreate ops [a, b, c] s = Inr s1" "holds_data Map.empty ?m s1"
    using must_create [OF assms, of "[a, b, c]"] abc by auto
  have "listing run_newer (run_matches (zero_filter\<lparr>f_JobID := ''j1''\<rparr>)) ?m [b, a]"
    unfolding listing_def ran by (auto simp: abc ne run_newer_def run_matches_def zero_filter_def)
  from list_runs [OF s1(2) this] obtain s2 where s2:
    "st_ListRuns ops (zero_filter\<lparr>f_JobID := ''j1''\<rparr>) s1 = (Inr [b, a], s2)" "holds_data Map.empty ?m s2"
    by (auto simp: page_all zero_filter_def)
  have "listing run_newer (run_matches (zero_filter\<lparr>f_State := StateSucceeded\<rparr>)) ?m [c, a]"
    unfolding listing_def ran by (auto simp: abc ne run_newer_def run_matches_def zero_filter_def)
  from list_runs [OF s2(2) this] obtain s3 where s3:
    "st_ListRuns ops (zero_filter\<lparr>f_State := StateSucceeded\<rparr>) s2 = (Inr [c, a], s3)" "holds_data Map.empty ?m s3"
    by (auto simp: page_all zero_filter_def)
  have "listing run_newer (run_matches (zero_filter\<lparr>f_Limit := 1\<rparr>)) ?m [c, b, a]"
    unfolding listing_def ran by (auto simp: abc ne run_newer_def run_matches_def zero_filter_def)
  from list_runs [OF s3(2) this] obtain s4 where s4: "st_ListRuns ops (zero_filter\<lparr>f_Limit := 1\<rparr>) s3 = (Inr [c], s4)"
    by (auto simp: page_def zero_filter_def)
  show ?thesis unfolding testListRunsFilter_def Let_def a_def [symmetric] b_def [symmetric] c_def [symmetric]
    using s1(1) s2(1) s3(1) s4 by (simp add: errorf_def abc del: mustCreate.simps)
qed

lemma suite_passes:
  assumes "\<And>i. holds_data Map.empty Map.empty (newStore i)"
  shows "passes (RunSuite ops newStore)"
  using assms by (simp add: passes_def RunSuite_def JobCRUD_passes RunLifecycle_passes ClaimDue_passes LeaseRedelivery_passes ListRunsFilter_passes)

end

interpretation mem_conf: conforming_store memory_ops mem_inv mem_jobs mem_runs
  by unfold_locales (auto simp: memory_ops_def PutJob_def DeleteJob_def GetJob_def GetRun_def mem_jobs_def mem_runs_def split: option.split)

section \<open>Properties\<close>

text \<open>C27: the contract that the scheduler is proved against is at least as strong as the conformance suite the
  backends are tested with: every store that satisfies it, started empty, passes all five sub-tests.\<close>

theorem conforming_passes_suite:
  assumes "conforming_store ops ok jobs_of runs_of"
    and "\<And>i. ok (newStore i)" "\<And>i. jobs_of (newStore i) = Map.empty" "\<And>i. runs_of (newStore i) = Map.empty"
  shows "passes (RunSuite ops newStore)"
  using assms(2-4) by (intro conforming_store.suite_passes [OF assms(1)]) (simp add: conforming_store.holds_data_def [OF assms(1)])

theorem conforming_passes_suite_witness: "passes (RunSuite memory_ops (\<lambda>_. New))"
  using mem_conf.conforming_store_axioms
  by (rule conforming_passes_suite) (simp_all add: New_def mem_inv_def mem_jobs_def mem_runs_def)

end
