(* ===== verification/Backends.thy ===== *)
theory Backends
  imports Postgres Storetest
begin

text \<open>
  The two backends side by side. The abstraction \<open>mem_of\<close> reads the tables of the PostgreSQL store as an
  in-memory store; on calls that satisfy \<open>comparable\<close> (below), every operation on the
  tables is the operation of the in-memory store on the abstraction. The last section shows where the
  backends differ.
\<close>

section \<open>Abstraction\<close>

definition vals :: "('v \<Rightarrow> 'u) \<Rightarrow> ('k, 'v) gomap \<Rightarrow> ('k, 'u) gomap" where
  "vals h m = map (\<lambda>(k, v). (k, h v)) m"

definition mem_of :: "'j pgserver \<Rightarrow> 'j pg \<Rightarrow> MemStore" where
  "mem_of g db = \<lparr>m_jobs = vals (scanJob g) (pg_jobs db), m_runs = vals scanRun (pg_runs db)\<rparr>"

lemma map_of_vals [simp]: "map_of (vals h m) k = map_option h (map_of m k)"
  by (simp add: vals_def map_of_map)

lemma vals_update [simp]: "vals h (AList.update k v m) = AList.update k (h v) (vals h m)"
  by (induction m) (auto simp: vals_def)

lemma vals_delete [simp]: "vals h (AList.delete k m) = AList.delete k (vals h m)"
  by (induction m) (auto simp: vals_def AList.delete_eq)

lemma vals_snd [simp]: "map snd (vals h m) = map h (map snd m)"
  by (simp add: vals_def case_prod_beta o_def)

lemma vals_fst [simp]: "map fst (vals h m) = map fst m"
  by (simp add: vals_def case_prod_beta o_def)

lemma vals_Nil [simp]: "vals h [] = []"
  by (simp add: vals_def)

text \<open>Instants that a column with microseconds keeps.\<close>

definition micro :: "time \<Rightarrow> bool" where
  "micro t \<longleftrightarrow> 1000 dvd t"

text \<open>A server that runs every statement, uses byte order, and has no other clients.\<close>

definition healthy :: "'j pgserver \<Rightarrow> bool" where
  "healthy g \<longleftrightarrow> (\<forall>n. g_down g n = None \<and> g_lost g n = None) \<and> (\<forall>n xs. mset (g_plan g n xs) = mset xs) \<and> (\<forall>n k. \<not> g_locked g n k) \<and>
     (\<forall>t. micro t \<longrightarrow> g_ts g t = t) \<and> (\<forall>a b. g_less g a b \<longleftrightarrow> a < b)"

text \<open>The tables: keys are the primary keys, and a running run has a lease.\<close>

definition pg_ok :: "'j pg \<Rightarrow> bool" where
  "pg_ok db \<longleftrightarrow> gomap_ok (pg_jobs db) \<and> gomap_ok (pg_runs db) \<and>
     list_all (\<lambda>(k, row). pj_id row = k) (pg_jobs db) \<and>
     list_all (\<lambda>(k, row). pr_id row = k \<and> (pr_state row = StateRunning \<longrightarrow> pr_lease_expiry row \<noteq> None)) (pg_runs db)"

definition job_storable :: "'j pgserver \<Rightarrow> Job \<Rightarrow> bool" where
  "job_storable g j \<longleftrightarrow> list_all (g_text g) [j_ID j, j_Name j, j_Spec j] \<and> int4 (j_MaxRetries j) \<and>
     Option.bind (g_strings g (j_Command j)) (g_get_strings g) = Some (j_Command j) \<and>
     Option.bind (g_strings g (j_DependsOn j)) (g_get_strings g) = Some (j_DependsOn j) \<and>
     Option.bind (g_policy g (j_Backoff j)) (g_get_policy g) = Some (j_Backoff j) \<and>
     micro (j_CreatedAt j) \<and> micro (j_UpdatedAt j) \<and> \<not> IsZero (j_CreatedAt j) \<and> \<not> IsZero (j_UpdatedAt j)"

definition run_storable :: "'j pgserver \<Rightarrow> Run \<Rightarrow> bool" where
  "run_storable g r \<longleftrightarrow> list_all (g_text g) [r_ID r, r_JobID r, r_BatchID r, r_State r, r_Worker r, r_Error r] \<and> int4 (r_Attempt r) \<and>
     list_all micro [r_ScheduledFor r, r_LeaseExpiry r, r_CreatedAt r, r_UpdatedAt r] \<and>
     pred_option micro (r_StartedAt r) \<and> pred_option micro (r_FinishedAt r) \<and> \<not> IsZero (r_CreatedAt r) \<and> \<not> IsZero (r_UpdatedAt r) \<and>
     (r_State r = StateRunning \<longrightarrow> \<not> IsZero (r_LeaseExpiry r))"

section \<open>Reading back what was written\<close>

lemma exec_healthy:
  "healthy g \<Longrightarrow> exec g stmt db =
     (case stmt db of Inl e \<Rightarrow> (Inl e, db\<lparr>pg_stmts := pg_stmts db + 1\<rparr>) | Inr (a, db2) \<Rightarrow> (Inr a, db2\<lparr>pg_stmts := pg_stmts db + 1\<rparr>))"
  by (simp add: healthy_def exec_def Let_def split: sum.split)

lemma mem_of_stmts [simp]: "mem_of g (db\<lparr>pg_stmts := n\<rparr>) = mem_of g db"
  by (simp add: mem_of_def)

lemma pg_ok_stmts [simp]: "pg_ok (db\<lparr>pg_stmts := n\<rparr>) = pg_ok db"
  by (simp add: pg_ok_def)

lemma scan_job_row:
  assumes "healthy g" "job_storable g j"
  obtains row where "job_row g (j_CreatedAt j) (j_UpdatedAt j) j = Some row" "scanJob g row = j" "pj_id row = j_ID j"
    "pj_name row = j_Name j" "pj_spec row = j_Spec j" "pj_max_retries row = j_MaxRetries j" "pj_created_at row = j_CreatedAt j"
proof -
  obtain c b d where "g_strings g (j_Command j) = Some c" "g_get_strings g c = Some (j_Command j)"
    "g_strings g (j_DependsOn j) = Some d" "g_get_strings g d = Some (j_DependsOn j)"
    "g_policy g (j_Backoff j) = Some b" "g_get_policy g b = Some (j_Backoff j)"
    using assms(2) by (auto simp: job_storable_def bind_eq_Some_conv)
  moreover have "g_ts g (j_CreatedAt j) = j_CreatedAt j" "g_ts g (j_UpdatedAt j) = j_UpdatedAt j"
    using assms by (simp_all add: healthy_def job_storable_def)
  ultimately show ?thesis using that by (cases j) (simp add: job_row_def nonNil_def scanJob_def zero_job_def)
qed

lemma scan_run_row:
  assumes "healthy g" "run_storable g r"
  shows "scanRun (run_row g (r_CreatedAt r) (r_UpdatedAt r) r) = r"
proof -
  have ts: "g_ts g t = t" if "micro t" for t using assms(1) that by (simp add: healthy_def)
  have "map_option (g_ts g) x = x" if "pred_option micro x" for x using that ts by (cases x) simp_all
  then show ?thesis using assms(2) ts
    by (cases r) (auto simp: run_row_def scanRun_def run_storable_def nullTime_def zero_run_def IsZero_def)
qed

lemma run_row_accepted:
  assumes "run_storable g r"
  shows "run_row_ok g (run_row g c u r) = None" "pr_id (run_row g c u r) = r_ID r"
    "pr_state (run_row g c u r) = StateRunning \<longrightarrow> pr_lease_expiry (run_row g c u r) \<noteq> None"
  using assms by (auto simp: run_row_ok_def run_row_def run_storable_def nullTime_def)

section \<open>Operations\<close>

lemma PutJob_refines:
  assumes "healthy g" "pg_ok db" "job_storable g j"
    and "\<And>old. mem_jobs (mem_of g db) (j_ID j) = Some old \<Longrightarrow> j_CreatedAt old = j_CreatedAt j"
  obtains db' where "pg_PutJob g j db = (Inr (), db')" "pg_ok db'" "PutJob j (mem_of g db) = (Inr (), mem_of g db')"
proof -
  obtain row where row: "job_row g (j_CreatedAt j) (j_UpdatedAt j) j = Some row" "scanJob g row = j" "pj_id row = j_ID j"
    "pj_name row = j_Name j" "pj_spec row = j_Spec j" "pj_max_retries row = j_MaxRetries j" "pj_created_at row = j_CreatedAt j"
    using scan_job_row [OF assms(1,3)] by blast
  have keep: "row\<lparr>pj_created_at := pj_created_at old\<rparr> = row" if "map_of (pg_jobs db) (j_ID j) = Some old" for old
    using assms(4) [of "scanJob g old"] that row(7) by (simp add: mem_jobs_def mem_of_def scanJob_def)
  have now: "orNow n (j_CreatedAt j) = j_CreatedAt j" "orNow n (j_UpdatedAt j) = j_UpdatedAt j" for n
    using assms(3) by (simp_all add: orNow_def job_storable_def)
  define db' where "db' = db\<lparr>pg_jobs := AList.update (j_ID j) row (pg_jobs db), pg_stmts := pg_stmts db + 1\<rparr>"
  have "insert_job g (Some row) db = Inr ((), db\<lparr>pg_jobs := AList.update (j_ID j) row (pg_jobs db)\<rparr>)"
    using assms(3) row keep by (auto simp: insert_job_def job_storable_def Let_def split: option.split)
  then have "pg_PutJob g j db = (Inr (), db')"
    using row(1) by (simp add: pg_PutJob_def now exec_healthy [OF assms(1)] dberr_def db'_def)
  moreover have "pg_ok db'" using assms(2) row(3) by (simp add: pg_ok_def db'_def list_all_update)
  moreover have "PutJob j (mem_of g db) = (Inr (), mem_of g db')" by (simp add: PutJob_def mem_of_def db'_def row(2))
  ultimately show ?thesis using that by blast
qed

lemma GetJob_refines:
  assumes "healthy g" "g_text g k"
  shows "\<exists>res db'. pg_GetJob g k db = (res, db') \<and> GetJob k (mem_of g db) = (res, mem_of g db') \<and> (pg_ok db \<longrightarrow> pg_ok db')"
  using assms(2) by (auto simp: pg_GetJob_def with_text_def exec_healthy [OF assms(1)] GetJob_def mem_of_def pg_ok_def split: option.split)

lemma DeleteJob_refines:
  assumes "healthy g" "pg_ok db" "g_text g k"
  obtains res db' where "pg_DeleteJob g k db = (res, db')" "pg_ok db'" "DeleteJob k (mem_of g db) = (res, mem_of g db')"
proof -
  have none: "length (filter (\<lambda>(i, row). i = k) m) = 0 \<longleftrightarrow> map_of m k = None" for m :: "(string, 'a pg_job) gomap"
    by (induction m) auto
  have absent: "AList.delete k m = m" if "map_of m k = None" for m :: "(string, Job) gomap"
    using that by (simp add: delete_id map_of_eq_None_iff)
  have ok: "pg_ok (db\<lparr>pg_jobs := AList.delete k (pg_jobs db)\<rparr>)" using assms(2) by (simp add: pg_ok_def list_all_delete)
  show ?thesis
  proof (cases "map_of (pg_jobs db) k")
    case None
    then show ?thesis using that ok none [of "pg_jobs db"] absent [of "vals (scanJob g) (pg_jobs db)"] assms(3)
      by (simp add: pg_DeleteJob_def with_text_def exec_healthy [OF assms(1)] DeleteJob_def mem_of_def)
  next
    case (Some row)
    then show ?thesis using that ok none [of "pg_jobs db"] assms(3)
      by (simp add: pg_DeleteJob_def with_text_def exec_healthy [OF assms(1)] DeleteJob_def mem_of_def)
  qed
qed

lemma map_sort_slice: "(\<And>a b. lt' (h a) (h b) = lt a b) \<Longrightarrow> map h (sort_slice lt xs) = sort_slice lt' (map h xs)"
proof (induction xs)
  case (Cons x xs)
  have "map h (insert_slice lt x ys) = insert_slice lt' (h x) (map h ys)" for ys
    by (induction ys) (simp_all add: Cons.prems)
  then show ?case using Cons by simp
qed simp

lemma ListJobs_refines:
  assumes "healthy g"
  shows "\<exists>res db'. pg_ListJobs g db = (res, db') \<and> ListJobs (mem_of g db) = (res, mem_of g db') \<and> (pg_ok db \<longrightarrow> pg_ok db')"
proof -
  have "map (scanJob g) (sort_slice (\<lambda>a b. g_less g (pj_id a) (pj_id b)) rows) = sort_slice job_before (map (scanJob g) rows)" for rows
    using assms by (intro map_sort_slice) (simp add: healthy_def job_before_def scanJob_def)
  then show ?thesis by (auto simp: pg_ListJobs_def exec_healthy [OF assms] ListJobs_def mem_of_def pg_ok_def o_def)
qed

lemma CreateRun_refines:
  assumes "healthy g" "pg_ok db" "run_storable g r" "mem_runs (mem_of g db) (r_ID r) = None"
  obtains db' where "pg_CreateRun g r db = (Inr (), db')" "pg_ok db'" "CreateRun r (mem_of g db) = (Inr (), mem_of g db')"
proof -
  let ?row = "run_row g (r_CreatedAt r) (r_UpdatedAt r) r"
  note acc = run_row_accepted [OF assms(3), of "r_CreatedAt r" "r_UpdatedAt r"]
  have now: "orNow n (r_CreatedAt r) = r_CreatedAt r" "orNow n (r_UpdatedAt r) = r_UpdatedAt r" for n
    using assms(3) by (simp_all add: orNow_def run_storable_def)
  define db' where "db' = db\<lparr>pg_runs := AList.update (r_ID r) ?row (pg_runs db), pg_stmts := pg_stmts db + 1\<rparr>"
  have "insert_run g ?row db = Inr ((), db\<lparr>pg_runs := AList.update (r_ID r) ?row (pg_runs db)\<rparr>)"
    using acc assms(4) by (simp add: insert_run_def mem_runs_def mem_of_def)
  then have "pg_CreateRun g r db = (Inr (), db')"
    by (simp add: pg_CreateRun_def now exec_healthy [OF assms(1)] dberr_def db'_def)
  moreover have "pg_ok db'" using assms(2) acc(2,3) by (simp add: pg_ok_def db'_def list_all_update)
  moreover have "CreateRun r (mem_of g db) = (Inr (), mem_of g db')"
    by (simp add: CreateRun_def mem_of_def db'_def scan_run_row [OF assms(1,3)])
  ultimately show ?thesis using that by blast
qed

lemma GetRun_refines:
  assumes "healthy g" "g_text g k"
  shows "\<exists>res db'. pg_GetRun g k db = (res, db') \<and> GetRun k (mem_of g db) = (res, mem_of g db') \<and> (pg_ok db \<longrightarrow> pg_ok db')"
  using assms(2) by (auto simp: pg_GetRun_def with_text_def exec_healthy [OF assms(1)] GetRun_def mem_of_def pg_ok_def split: option.split)

lemma UpdateRun_refines:
  assumes "healthy g" "pg_ok db" "run_storable g r"
    and "\<And>old. mem_runs (mem_of g db) (r_ID r) = Some old \<Longrightarrow> r_CreatedAt old = r_CreatedAt r"
  obtains res db' where "pg_UpdateRun g r db = (res, db')" "pg_ok db'" "UpdateRun r (mem_of g db) = (res, mem_of g db')"
proof -
  let ?row = "run_row g zero_time (r_UpdatedAt r) r"
  note acc = run_row_accepted [OF assms(3), of zero_time "r_UpdatedAt r"]
  have now: "orNow n (r_UpdatedAt r) = r_UpdatedAt r" for n
    using assms(3) by (simp add: orNow_def run_storable_def)
  show ?thesis
  proof (cases "map_of (pg_runs db) (r_ID r)")
    case None
    then show ?thesis using that [of "Inl ErrNotFound" "db\<lparr>pg_stmts := pg_stmts db + 1\<rparr>"] acc assms(2)
      by (simp add: pg_UpdateRun_def now update_run_def exec_healthy [OF assms(1)] UpdateRun_def mem_of_def)
  next
    case (Some old)
    have "pr_created_at old = r_CreatedAt r"
      using assms(4) [of "scanRun old"] Some by (simp add: mem_runs_def mem_of_def scanRun_def)
    moreover have "g_ts g (r_CreatedAt r) = r_CreatedAt r" using assms(1,3) by (simp add: healthy_def run_storable_def)
    ultimately have "?row\<lparr>pr_created_at := pr_created_at old\<rparr> = run_row g (r_CreatedAt r) (r_UpdatedAt r) r"
      by (simp add: run_row_def)
    moreover have "pg_ok (db\<lparr>pg_runs := AList.update (r_ID r) (run_row g (r_CreatedAt r) (r_UpdatedAt r) r) (pg_runs db)\<rparr>)"
      using assms(2) run_row_accepted [OF assms(3), of "r_CreatedAt r" "r_UpdatedAt r"] by (simp add: pg_ok_def list_all_update)
    ultimately show ?thesis
      using that Some acc by (simp add: pg_UpdateRun_def now update_run_def exec_healthy [OF assms(1)] UpdateRun_def mem_of_def scan_run_row [OF assms(1,3)])
  qed
qed

lemma conds_eq: "list_all (\<lambda>c. c row) (conds f) \<longleftrightarrow> run_matches f (scanRun row)"
  by (auto simp: conds_def run_matches_def scanRun_def)

lemma ListRuns_refines:
  assumes "healthy g" "list_all (g_text g) (cond_args f)"
  shows "\<exists>res db'. pg_ListRuns g f db = (res, db') \<and> ListRuns f (mem_of g db) = (res, mem_of g db') \<and> (pg_ok db \<longrightarrow> pg_ok db')"
proof -
  have "map scanRun (sort_slice (newest_row g) rows) = sort_slice run_newer (map scanRun rows)" for rows
    using assms(1) by (intro map_sort_slice) (simp add: healthy_def newest_row_def run_newer_def scanRun_def)
  moreover have "map scanRun (filter (\<lambda>row. list_all (\<lambda>c. c row) (conds f)) rows) = filter (run_matches f) (map scanRun rows)" for rows
    by (simp add: conds_eq filter_map o_def)
  ultimately show ?thesis using assms(2)
    by (auto simp: pg_ListRuns_def with_text_def exec_healthy [OF assms(1)] ListRuns_eq mem_of_def pg_ok_def Let_def page_def drop_map [symmetric] take_map [symmetric])
qed

section \<open>Claiming\<close>

lemma row_ready_claimable:
  "(pr_state row = StateRunning \<longrightarrow> pr_lease_expiry row \<noteq> None) \<Longrightarrow> row_ready now row \<longleftrightarrow> claimable now (scanRun row)"
  by (auto simp: row_ready_def claimable_def scanRun_def StatePending_def StateRunning_def split: option.splits)

lemma scan_claim_row: "scanRun (claim_row now w (now + l) row) = claim_run now w l (scanRun row)"
  by (simp add: claim_row_def claim_run_def scanRun_def StateRunning_def zero_run_def)

lemma mem_inv_of: "pg_ok db \<Longrightarrow> mem_inv (mem_of g db)"
  by (auto simp: pg_ok_def mem_inv_def mem_of_def vals_def list_all_iff scanJob_def scanRun_def case_prod_beta o_def)

lemma ClaimDue_unfold:
  "ClaimDue now w l n s =
     (let rs = claim_limit n (sort_slice due_before (filter (claimable now) (map snd (m_runs s))))
      in (Inr (map (claim_run now w l) rs), s\<lparr>m_runs := fold (\<lambda>r. AList.update (r_ID r) (claim_run now w l r)) rs (m_runs s)\<rparr>))"
  unfolding ClaimDue_def Let_def collect_ready_eq claim_limit_eq by (simp add: lease_runs_eq)

text \<open>Updating the entries of some runs keeps their places.\<close>

lemma update_in_place:
  assumes "distinct (map fst m)" "map_of m k = Some v"
  shows "AList.update k (h v) m = map (\<lambda>(i, x). (i, if i = k then h x else x)) m"
  using assms
proof (induction m)
  case (Cons e m)
  have "map (\<lambda>(i, x). (i, if i = k then h x else x)) m = m" if "k \<notin> fst ` set m"
    using that by (intro map_idI) force
  then show ?case using Cons by (cases e) auto
qed simp

lemma fold_update_in_place:
  assumes "distinct (map fst m)" "distinct (map r_ID rs)" "\<And>r. r \<in> set rs \<Longrightarrow> map_of m (r_ID r) = Some r"
  shows "fold (\<lambda>r. AList.update (r_ID r) (h r)) rs m = map (\<lambda>(k, v). (k, if k \<in> r_ID ` set rs then h v else v)) m"
  using assms
proof (induction rs arbitrary: m)
  case Nil
  show ?case by (simp add: case_prod_beta)
next
  case (Cons r rs)
  define m1 where "m1 = map (\<lambda>(k, v). (k, if k = r_ID r then h v else v)) m"
  have up: "AList.update (r_ID r) (h r) m = m1"
    unfolding m1_def by (rule update_in_place [OF Cons.prems(1)]) (use Cons.prems(3) in simp)
  have "distinct (map fst m1)" using Cons.prems(1) by (simp add: m1_def case_prod_beta o_def)
  moreover have "map_of m1 (r_ID q) = Some q" if q: "q \<in> set rs" for q
  proof -
    have "r_ID q \<in> r_ID ` set rs" using q by (rule imageI)
    then have "r_ID q \<noteq> r_ID r" using Cons.prems(2) by auto
    then show ?thesis using Cons.prems(3) [of q] q unfolding up [symmetric] by (simp add: update_conv')
  qed
  ultimately have "fold (\<lambda>r. AList.update (r_ID r) (h r)) rs m1 = map (\<lambda>(k, v). (k, if k \<in> r_ID ` set rs then h v else v)) m1"
    using Cons.prems(2) by (intro Cons.IH) simp_all
  moreover have "r_ID r \<notin> r_ID ` set rs" using Cons.prems(2) by simp
  ultimately show ?case using up by (auto simp: m1_def)
qed

text \<open>The runs one statement picks are those the in-memory store picks, if the limit does not cut between runs
  of the same slot.\<close>

definition decided :: "time \<Rightarrow> int \<Rightarrow> MemStore \<Rightarrow> bool" where
  "decided now n s \<longleftrightarrow> (let ready = filter (claimable now) (map snd (m_runs s))
     in int (length ready) \<le> n \<or> distinct (map r_ScheduledFor ready))"

lemma scan_sel [simp]:
  "r_ID (scanRun row) = pr_id row" "r_ScheduledFor (scanRun row) = pr_scheduled_for row" "r_State (scanRun row) = pr_state row"
  by (simp_all add: scanRun_def)

interpretation slot_order: slice_order "\<lambda>a b. pr_scheduled_for a < pr_scheduled_for b"
  by unfold_locales auto

lemma strictly_increasing:
  fixes f :: "'a \<Rightarrow> int"
  shows "slice_sorted (\<lambda>a b. f a < f b) xs \<Longrightarrow> distinct (map f xs) \<Longrightarrow> sorted_wrt (\<lambda>a b. f a < f b) xs"
proof (induction xs)
  case (Cons x xs)
  have "f x < f y" if "y \<in> set xs" for y
    using Cons.prems that imageI [OF that, of f] by (auto simp: not_less order_le_less)
  then show ?case using Cons by simp
qed simp

lemma picked_same:
  assumes "mset rows = mset (filter (row_ready now) T)" "map scanRun (filter (row_ready now) T) = filter (claimable now) (map scanRun T)"
    and "distinct (map r_ID (filter (claimable now) (map scanRun T)))" "0 < n"
    and "int (length (filter (claimable now) (map scanRun T))) \<le> n \<or> distinct (map r_ScheduledFor (filter (claimable now) (map scanRun T)))"
  shows "set (map scanRun (take (nat n) (sort_slice (\<lambda>a b. pr_scheduled_for a < pr_scheduled_for b) rows))) =
    set (claim_limit n (sort_slice due_before (filter (claimable now) (map scanRun T))))"
proof -
  let ?C = "filter (claimable now) (map scanRun T)" and ?S = "sort_slice (\<lambda>a b. pr_scheduled_for a < pr_scheduled_for b) rows"
  have perm: "mset (map scanRun ?S) = mset ?C" using assms(1,2) by (metis mset_map mset_sort_slice)
  from assms(5) show ?thesis
  proof
    assume few: "int (length ?C) \<le> n"
    have "length ?S = length ?C" using perm by (metis length_map mset_eq_length)
    then have "take (nat n) ?S = ?S" "claim_limit n (sort_slice due_before ?C) = sort_slice due_before ?C"
      using few by (simp_all add: claim_limit_def)
    then show ?thesis using perm by (metis set_mset_mset set_sort_slice)
  next
    assume d: "distinct (map r_ScheduledFor ?C)"
    have "map scanRun ?S = sort_slice due_before ?C"
    proof (rule due_order.sort_slice_unique [OF _ perm])
      have "distinct (map pr_scheduled_for ?S)"
        using d distinct_map_mset_cong [OF perm, of r_ScheduledFor] by (simp add: o_def)
      then have "sorted_wrt (\<lambda>a b. pr_scheduled_for a < pr_scheduled_for b) ?S"
        by (intro strictly_increasing slot_order.sorted_sort_slice)
      then show "slice_sorted due_before (map scanRun ?S)"
        unfolding sorted_wrt_map by (rule sorted_wrt_mono_rel [rotated]) (simp add: due_before_def)
    next
      show "x = y" if "x \<in> set ?C" "y \<in> set ?C" "\<not> due_before x y" "\<not> due_before y x" for x y
        using due_before_total [of x y] that assms(3) by (auto simp: distinct_map dest: inj_onD)
    qed
    moreover have "claim_limit n xs = take (nat n) xs" for xs :: "Run list" using assms(4) by (simp add: claim_limit_def)
    ultimately show ?thesis by (simp add: take_map [symmetric])
  qed
qed

lemma ready_rows:
  assumes "pg_ok db"
  shows "map scanRun (filter (row_ready now) (map snd (pg_runs db))) = filter (claimable now) (map scanRun (map snd (pg_runs db)))"
proof -
  have "row_ready now row = claimable now (scanRun row)" if "row \<in> set (map snd (pg_runs db))" for row
    using assms that by (intro row_ready_claimable) (auto simp: pg_ok_def list_all_iff)
  then show ?thesis by (simp add: filter_map o_def cong: filter_cong)
qed

lemma claim_stmt_healthy:
  assumes "healthy g" "0 < n" "g_text g w"
    and "\<And>row. row \<in> set (map snd (pg_runs db)) \<Longrightarrow> row_ready now row \<Longrightarrow> map_of (pg_runs db) (pr_id row) = Some row"
  obtains rows where "mset rows = mset (filter (row_ready now) (map snd (pg_runs db)))"
    "claim_stmt g now w e n db =
      (let ready = pr_id ` set (take (nat n) (sort_slice (\<lambda>a b. pr_scheduled_for a < pr_scheduled_for b) rows));
           tbl = map (\<lambda>(k, row). (k, if k \<in> ready then claim_row now w e row else row)) (pg_runs db)
       in Inr (g_plan g (Suc (pg_stmts db)) (map snd (filter (\<lambda>(k, row). k \<in> ready) tbl)), db\<lparr>pg_runs := tbl\<rparr>))"
proof -
  define rows where "rows = filter (row_ready now) (g_plan g (pg_stmts db) (map snd (pg_runs db)))"
  have "mset rows = mset (filter (row_ready now) (map snd (pg_runs db)))"
    unfolding rows_def using assms(1) by (simp add: healthy_def del: mset_map)
  moreover have "\<forall>row\<in>set (g_plan g (pg_stmts db) (map snd (pg_runs db))). row_ready now row \<longrightarrow> map_of (pg_runs db) (pr_id row) = Some row"
    using assms(1,4) unfolding healthy_def by (metis mset_eq_setD)
  note claim_stmt_eq [OF this, where worker = w and expiry = e and limit = n]
  moreover have "g_locked g m k = False" for m k using assms(1) by (simp add: healthy_def)
  ultimately show ?thesis using that assms(2,3) unfolding Let_def rows_def [symmetric] by (simp add: case_prod_beta)
qed

lemma ok_row: "pg_ok db \<Longrightarrow> row \<in> set (map snd (pg_runs db)) \<Longrightarrow> map_of (pg_runs db) (pr_id row) = Some row"
  by (auto simp: pg_ok_def list_all_iff)

lemma mset_map_cong: "mset xs = mset ys \<Longrightarrow> mset (map f xs) = mset (map f ys)"
  by simp

text \<open>Marking the rows of some runs is claiming those runs.\<close>

definition claim_table :: "time \<Rightarrow> string \<Rightarrow> duration \<Rightarrow> string set \<Rightarrow> (string, pg_run) gomap \<Rightarrow> (string, pg_run) gomap" where
  "claim_table now w l ready m = map (\<lambda>(k, row). (k, if k \<in> ready then claim_row now w (now + l) row else row)) m"

lemma claim_table_runs:
  assumes "pg_ok db" "set rs \<subseteq> set (map scanRun (map snd (pg_runs db)))" "distinct (map r_ID rs)"
  shows "fold (\<lambda>r. AList.update (r_ID r) (claim_run now w l r)) rs (vals scanRun (pg_runs db)) =
      vals scanRun (claim_table now w l (r_ID ` set rs) (pg_runs db))" (is ?runs)
    and "mset (map scanRun (map snd (filter (\<lambda>(k, row). k \<in> r_ID ` set rs) (claim_table now w l (r_ID ` set rs) (pg_runs db))))) =
      mset (map (claim_run now w l) rs)" (is ?out)
proof -
  have d: "distinct (map fst (pg_runs db))" and key: "\<And>k row. (k, row) \<in> set (pg_runs db) \<Longrightarrow> pr_id row = k"
    using assms(1) by (auto simp: pg_ok_def list_all_iff)
  have entry: "\<exists>row. (r_ID r, row) \<in> set (pg_runs db) \<and> r = scanRun row" if "r \<in> set rs" for r
    using assms(2) that key by fastforce
  show ?runs
  proof (subst fold_update_in_place [OF _ assms(3)])
    show "distinct (map fst (vals scanRun (pg_runs db)))" using d by simp
    show "map_of (vals scanRun (pg_runs db)) (r_ID r) = Some r" if "r \<in> set rs" for r
      using entry [OF that] d by (auto dest: map_of_is_SomeI)
    show "map (\<lambda>(k, v). (k, if k \<in> r_ID ` set rs then claim_run now w l v else v)) (vals scanRun (pg_runs db)) =
        vals scanRun (claim_table now w l (r_ID ` set rs) (pg_runs db))"
      by (auto simp: vals_def claim_table_def scan_claim_row)
  qed
  define P where "P = filter (\<lambda>(k, row). k \<in> r_ID ` set rs) (pg_runs db)"
  have "set (map scanRun (map snd P)) = set rs"
  proof (intro equalityI subsetI)
    fix x assume "x \<in> set (map scanRun (map snd P))"
    then obtain row r where x: "(r_ID r, row) \<in> set (pg_runs db)" "x = scanRun row" "r \<in> set rs" by (auto simp: P_def)
    obtain row' where "(r_ID r, row') \<in> set (pg_runs db)" "r = scanRun row'" using entry [OF x(3)] by blast
    then show "x \<in> set rs" using eq_key_imp_eq_value [OF d x(1)] x(2,3) by blast
  next
    fix x assume x: "x \<in> set rs"
    then obtain row where row: "(r_ID x, row) \<in> set (pg_runs db)" "x = scanRun row" using entry by blast
    then have "(r_ID x, row) \<in> set P" using imageI [OF x, of r_ID] by (simp add: P_def)
    then show "x \<in> set (map scanRun (map snd P))" using row(2) by force
  qed
  moreover have "distinct (map scanRun (map snd P))"
  proof -
    have "distinct (map fst P)" using d by (simp add: P_def distinct_map_filter)
    moreover have "map r_ID (map scanRun (map snd P)) = map fst P" using key by (auto simp: P_def)
    ultimately show ?thesis by (metis distinct_map)
  qed
  moreover have "distinct rs" using assms(3) distinct_map by blast
  ultimately have perm: "mset (map scanRun (map snd P)) = mset rs" by (metis set_eq_iff_mset_eq_distinct)
  have claimed: "map scanRun (map snd (filter (\<lambda>(k, row). k \<in> R) (claim_table now w l R m))) =
      map (claim_run now w l) (map scanRun (map snd (filter (\<lambda>(k, row). k \<in> R) m)))" for R m
    by (induction m) (auto simp: claim_table_def scan_claim_row)
  show ?out unfolding claimed using mset_map_cong [OF perm] by (simp only: P_def)
qed

lemma pg_ok_claim_table: "pg_ok db \<Longrightarrow> pg_ok (db\<lparr>pg_runs := claim_table now w l R (pg_runs db)\<rparr>)"
  by (auto simp: pg_ok_def claim_table_def claim_row_def list_all_iff case_prod_beta o_def)

lemma ClaimDue_refines:
  assumes "healthy g" "pg_ok db" "micro now" "micro (now + l)" "0 < n" "g_text g w" "decided now n (mem_of g db)"
  obtains out out' db' where "pg_ClaimDue g now w l n db = (Inr out, db')" "pg_ok db'"
    "ClaimDue now w l n (mem_of g db) = (Inr out', mem_of g db')" "mset out = mset out'"
proof -
  let ?T = "map snd (pg_runs db)"
  let ?C = "filter (claimable now) (map scanRun ?T)"
  obtain rows where rows: "mset rows = mset (filter (row_ready now) ?T)"
    "claim_stmt g now w (now + l) n db =
      (let ready = pr_id ` set (take (nat n) (sort_slice (\<lambda>a b. pr_scheduled_for a < pr_scheduled_for b) rows));
           tbl = map (\<lambda>(k, row). (k, if k \<in> ready then claim_row now w (now + l) row else row)) (pg_runs db)
       in Inr (g_plan g (Suc (pg_stmts db)) (map snd (filter (\<lambda>(k, row). k \<in> ready) tbl)), db\<lparr>pg_runs := tbl\<rparr>))"
    using claim_stmt_healthy [OF assms(1,5,6) ok_row [OF assms(2)]] by blast
  define rs where "rs = claim_limit n (sort_slice due_before ?C)"
  have ids: "distinct (map r_ID (map scanRun ?T))" using mem_values(1) [OF mem_inv_of [OF assms(2), of g]] by (simp add: mem_of_def)
  then have idsC: "distinct (map r_ID ?C)" using distinct_map_filter by blast
  have "set (map scanRun (take (nat n) (sort_slice (\<lambda>a b. pr_scheduled_for a < pr_scheduled_for b) rows))) = set rs"
    unfolding rs_def using assms(7)
    by (intro picked_same [OF rows(1) ready_rows [OF assms(2)] idsC assms(5)]) (simp add: decided_def mem_of_def Let_def)
  from arg_cong [OF this, of "image r_ID"]
  have ready: "pr_id ` set (take (nat n) (sort_slice (\<lambda>a b. pr_scheduled_for a < pr_scheduled_for b) rows)) = r_ID ` set rs"
    by (simp add: image_image)
  have sub: "set rs \<subseteq> set (map scanRun ?T)" using set_claim_limit by (fastforce simp: rs_def)
  have drs: "distinct (map r_ID rs)"
    unfolding rs_def using idsC distinct_map_mset_cong [of "sort_slice due_before ?C" ?C r_ID] by (intro distinct_claim_limit) simp
  note claimed = claim_table_runs [OF assms(2) sub drs, of now w l]
  define tbl where "tbl = claim_table now w l (r_ID ` set rs) (pg_runs db)"
  define db' where "db' = db\<lparr>pg_runs := tbl, pg_stmts := pg_stmts db + 1\<rparr>"
  define out where "out = map scanRun (g_plan g (Suc (pg_stmts db)) (map snd (filter (\<lambda>(k, row). k \<in> r_ID ` set rs) tbl)))"
  have stmt: "claim_stmt g now w (now + l) n db =
      Inr (g_plan g (Suc (pg_stmts db)) (map snd (filter (\<lambda>(k, row). k \<in> r_ID ` set rs) tbl)), db\<lparr>pg_runs := tbl\<rparr>)"
    unfolding rows(2) Let_def ready by (simp add: tbl_def claim_table_def)
  have ts: "g_ts g now = now" "g_ts g (now + l) = now + l" using assms(1,3,4) by (simp_all add: healthy_def)
  show ?thesis
  proof (rule that)
    show "pg_ClaimDue g now w l n db = (Inr out, db')"
      by (simp add: pg_ClaimDue_def exec_healthy [OF assms(1)] ts stmt out_def db'_def)
    show "pg_ok db'" using pg_ok_claim_table [OF assms(2), of now w l "r_ID ` set rs"] by (simp add: db'_def tbl_def)
    show "ClaimDue now w l n (mem_of g db) = (Inr (map (claim_run now w l) rs), mem_of g db')"
    proof -
      have "m_runs (mem_of g db) = vals scanRun (pg_runs db)" by (simp add: mem_of_def)
      then have "claim_limit n (sort_slice due_before (filter (claimable now) (map snd (m_runs (mem_of g db))))) = rs" by (simp only: vals_snd rs_def)
      then show ?thesis using claimed(1) by (simp only: ClaimDue_unfold Let_def) (simp add: mem_of_def db'_def tbl_def)
    qed
    show "mset out = mset (map (claim_run now w l) rs)"
      unfolding out_def using assms(1) by (intro trans [OF mset_map_cong claimed(2) [folded tbl_def]]) (simp add: healthy_def)
  qed
qed

section \<open>Sequences of calls\<close>

datatype store_call =
    CPutJob Job | CGetJob string | CListJobs | CDeleteJob string
  | CCreateRun Run | CGetRun string | CUpdateRun Run | CListRuns RunFilter
  | CClaimDue time string duration int

datatype store_result = RUnit "store_error + unit" | RJob "store_error + Job" | RJobs "store_error + Job list"
  | RRun "store_error + Run" | RRuns "store_error + Run list"

fun perform :: "'s store_ops \<Rightarrow> store_call \<Rightarrow> 's \<Rightarrow> store_result \<times> 's" where
  "perform ops (CPutJob j) s = map_prod RUnit (\<lambda>s. s) (st_PutJob ops j s)"
| "perform ops (CGetJob k) s = map_prod RJob (\<lambda>s. s) (st_GetJob ops k s)"
| "perform ops CListJobs s = map_prod RJobs (\<lambda>s. s) (st_ListJobs ops s)"
| "perform ops (CDeleteJob k) s = map_prod RUnit (\<lambda>s. s) (st_DeleteJob ops k s)"
| "perform ops (CCreateRun r) s = map_prod RUnit (\<lambda>s. s) (st_CreateRun ops r s)"
| "perform ops (CGetRun k) s = map_prod RRun (\<lambda>s. s) (st_GetRun ops k s)"
| "perform ops (CUpdateRun r) s = map_prod RUnit (\<lambda>s. s) (st_UpdateRun ops r s)"
| "perform ops (CListRuns f) s = map_prod RRuns (\<lambda>s. s) (st_ListRuns ops f s)"
| "perform ops (CClaimDue now w l n) s = map_prod RRuns (\<lambda>s. s) (st_ClaimDue ops now w l n s)"

fun perform_all :: "'s store_ops \<Rightarrow> store_call list \<Rightarrow> 's \<Rightarrow> store_result list \<times> 's" where
  "perform_all ops [] s = ([], s)"
| "perform_all ops (c # cs) s =
     (let (res, s) = perform ops c s; (rest, s) = perform_all ops cs s in (res # rest, s))"

text \<open>Calls on which the two backends can be compared, in a store \<open>s\<close>: texts, numbers and instants fit their columns,
  a job or run that is written again keeps its creation time, a run is created once, a claim has a
  positive limit that does not cut between runs of the same slot. On others they differ, as shown below.\<close>

fun comparable :: "'j pgserver \<Rightarrow> store_call \<Rightarrow> MemStore \<Rightarrow> bool" where
  "comparable g (CPutJob j) s =
     (job_storable g j \<and> (case mem_jobs s (j_ID j) of None \<Rightarrow> True | Some old \<Rightarrow> j_CreatedAt old = j_CreatedAt j))"
| "comparable g (CCreateRun r) s = (run_storable g r \<and> mem_runs s (r_ID r) = None)"
| "comparable g (CUpdateRun r) s =
     (run_storable g r \<and> (case mem_runs s (r_ID r) of None \<Rightarrow> True | Some old \<Rightarrow> r_CreatedAt old = r_CreatedAt r))"
| "comparable g (CClaimDue now w l n) s = (micro now \<and> micro (now + l) \<and> 0 < n \<and> g_text g w \<and> decided now n s)"
| "comparable g (CGetJob k) s = g_text g k"
| "comparable g (CDeleteJob k) s = g_text g k"
| "comparable g (CGetRun k) s = g_text g k"
| "comparable g (CListRuns f) s = list_all (g_text g) (cond_args f)"
| "comparable g CListJobs s = True"

fun comparable_all :: "'j pgserver \<Rightarrow> store_call list \<Rightarrow> MemStore \<Rightarrow> bool" where
  "comparable_all g [] s = True"
| "comparable_all g (c # cs) s = (comparable g c s \<and> comparable_all g cs (snd (perform memory_ops c s)))"

text \<open>Claimed runs come in any order from the database.\<close>

fun same_result :: "store_call \<Rightarrow> store_result \<Rightarrow> store_result \<Rightarrow> bool" where
  "same_result (CClaimDue now w l n) (RRuns (Inr xs)) (RRuns (Inr ys)) = (mset xs = mset ys)"
| "same_result c x y = (x = y)"

lemma same_result_refl: "same_result c x x"
  by (cases "(c, x, x)" rule: same_result.cases) auto

lemma call_refines:
  assumes "healthy g" "pg_ok db" "comparable g c (mem_of g db)"
  obtains res res' db' where "perform (postgres_ops g) c db = (res, db')" "perform memory_ops c (mem_of g db) = (res', mem_of g db')"
    "pg_ok db'" "same_result c res res'"
proof (cases c)
  case (CPutJob j)
  then have "job_storable g j" "\<And>old. mem_jobs (mem_of g db) (j_ID j) = Some old \<Longrightarrow> j_CreatedAt old = j_CreatedAt j"
    using assms(3) by simp_all
  from PutJob_refines [OF assms(1,2) this] obtain db' where "pg_PutJob g j db = (Inr (), db')" "pg_ok db'"
    "PutJob j (mem_of g db) = (Inr (), mem_of g db')" by blast
  then show ?thesis using that CPutJob same_result_refl by (auto simp: postgres_ops_def memory_ops_def)
next
  case (CGetJob k)
  then show ?thesis using that GetJob_refines [OF assms(1), of k db] assms(2,3) same_result_refl
    by (auto simp: postgres_ops_def memory_ops_def map_prod_def split: prod.splits)
next
  case CListJobs
  then show ?thesis using that ListJobs_refines [OF assms(1), of db] assms(2) same_result_refl
    by (auto simp: postgres_ops_def memory_ops_def map_prod_def split: prod.splits)
next
  case (CDeleteJob k)
  obtain res db' where "pg_DeleteJob g k db = (res, db')" "pg_ok db'" "DeleteJob k (mem_of g db) = (res, mem_of g db')"
    using DeleteJob_refines [OF assms(1,2), of k] assms(3) CDeleteJob by auto
  then show ?thesis using that CDeleteJob same_result_refl
    by (auto simp: postgres_ops_def memory_ops_def map_prod_def split: prod.splits)
next
  case (CCreateRun r)
  then have "run_storable g r" "mem_runs (mem_of g db) (r_ID r) = None" using assms(3) by simp_all
  from CreateRun_refines [OF assms(1,2) this] obtain db' where "pg_CreateRun g r db = (Inr (), db')" "pg_ok db'"
    "CreateRun r (mem_of g db) = (Inr (), mem_of g db')" by blast
  then show ?thesis using that CCreateRun same_result_refl by (auto simp: postgres_ops_def memory_ops_def)
next
  case (CGetRun k)
  then show ?thesis using that GetRun_refines [OF assms(1), of k db] assms(2,3) same_result_refl
    by (auto simp: postgres_ops_def memory_ops_def map_prod_def split: prod.splits)
next
  case (CUpdateRun r)
  then have "run_storable g r" "\<And>old. mem_runs (mem_of g db) (r_ID r) = Some old \<Longrightarrow> r_CreatedAt old = r_CreatedAt r"
    using assms(3) by simp_all
  from UpdateRun_refines [OF assms(1,2) this] obtain res db' where "pg_UpdateRun g r db = (res, db')" "pg_ok db'"
    "UpdateRun r (mem_of g db) = (res, mem_of g db')" by blast
  then show ?thesis using that CUpdateRun same_result_refl
    by (auto simp: postgres_ops_def memory_ops_def map_prod_def split: prod.splits)
next
  case (CListRuns f)
  then show ?thesis using that ListRuns_refines [OF assms(1), of f db] assms(2,3) same_result_refl
    by (auto simp: postgres_ops_def memory_ops_def map_prod_def split: prod.splits)
next
  case (CClaimDue now w l n)
  then have "micro now" "micro (now + l)" "0 < n" "g_text g w" "decided now n (mem_of g db)" using assms(3) by simp_all
  from ClaimDue_refines [OF assms(1,2) this] obtain out out' db' where "pg_ClaimDue g now w l n db = (Inr out, db')" "pg_ok db'"
    "ClaimDue now w l n (mem_of g db) = (Inr out', mem_of g db')" "mset out = mset out'" by blast
  then show ?thesis using that CClaimDue by (auto simp: postgres_ops_def memory_ops_def)
qed

lemma calls_refine:
  "healthy g \<Longrightarrow> pg_ok db \<Longrightarrow> comparable_all g cs (mem_of g db) \<Longrightarrow>
   perform_all (postgres_ops g) cs db = (rs, db') \<Longrightarrow> perform_all memory_ops cs (mem_of g db) = (rs', s') \<Longrightarrow>
   s' = mem_of g db' \<and> pg_ok db' \<and> list_all2 (\<lambda>(c, x) y. same_result c x y) (zip cs rs) rs' \<and> length rs = length cs"
proof (induction cs arbitrary: db rs rs')
  case (Cons c cs)
  obtain res res' db1 where one: "perform (postgres_ops g) c db = (res, db1)" "perform memory_ops c (mem_of g db) = (res', mem_of g db1)"
    "pg_ok db1" "same_result c res res'"
    using call_refines [OF Cons.prems(1,2), of c] Cons.prems(3) by (metis comparable_all.simps(2))
  obtain rest rest' where "rs = res # rest" "rs' = res' # rest'" "perform_all (postgres_ops g) cs db1 = (rest, db')"
    "perform_all memory_ops cs (mem_of g db1) = (rest', s')"
    using Cons.prems(4,5) one(1,2) by (auto split: prod.splits)
  then show ?case using Cons.IH [OF Cons.prems(1) one(3), of rest rest'] Cons.prems(3) one by simp
qed simp

section \<open>What a claim does\<close>

text \<open>Keys are primary keys; every statement keeps that, whatever the server does.\<close>

definition pg_keys :: "'j pg \<Rightarrow> bool" where
  "pg_keys db \<longleftrightarrow> gomap_ok (pg_runs db) \<and> list_all (\<lambda>(k, row). pr_id row = k) (pg_runs db)"

definition fair_plan :: "'j pgserver \<Rightarrow> bool" where
  "fair_plan g \<longleftrightarrow> (\<forall>n xs. mset (g_plan g n xs) = mset xs)"

lemma set_plan: "fair_plan g \<Longrightarrow> set (g_plan g n xs) = set xs"
  unfolding fair_plan_def by (metis set_mset_mset)

text \<open>What a claim does to the row of a run: nothing, or it marks a ready row.\<close>

definition claimed_row :: "'j pgserver \<Rightarrow> time \<Rightarrow> duration \<Rightarrow> pg_run \<Rightarrow> pg_run \<Rightarrow> bool" where
  "claimed_row g now l old new \<longleftrightarrow> row_ready (g_ts g now) old \<and> pr_id new = pr_id old \<and>
     pr_state new = StateRunning \<and> pr_lease_expiry new = Some (g_ts g (now + l))"

lemma map_of_keyed: "map_of (map (\<lambda>(k, v). (k, f k v)) m) k = map_option (f k) (map_of m k)"
  by (induction m) auto

lemma claim_stmt_effect:
  assumes "fair_plan g" "pg_keys db" "claim_stmt g now w e n db = Inr (rows, db')"
  obtains ready where "\<And>k. k \<in> ready \<Longrightarrow> \<exists>row. (k, row) \<in> set (pg_runs db) \<and> row_ready now row"
    "pg_runs db' = map (\<lambda>(k, row). (k, if k \<in> ready then claim_row now w e row else row)) (pg_runs db)"
    "set rows = snd ` {(k, row) \<in> set (pg_runs db'). k \<in> ready}"
proof -
  define picked where "picked = take (nat n) (filter (\<lambda>row. \<not> g_locked g (pg_stmts db) (pr_id row))
    (sort_slice (\<lambda>a b. pr_scheduled_for a < pr_scheduled_for b) (filter (row_ready now) (g_plan g (pg_stmts db) (map snd (pg_runs db))))))"
  have "\<forall>row\<in>set (g_plan g (pg_stmts db) (map snd (pg_runs db))). row_ready now row \<longrightarrow> map_of (pg_runs db) (pr_id row) = Some row"
    using assms(2) set_plan [OF assms(1)] by (auto simp: pg_keys_def list_all_iff)
  note stmt = claim_stmt_eq [OF this, where worker = w and expiry = e and limit = n]
  let ?ready = "set (map pr_id picked)"
  have tbl: "pg_runs db' = map (\<lambda>(k, row). (k, if k \<in> ?ready then claim_row now w e row else row)) (pg_runs db)"
    "rows = g_plan g (Suc (pg_stmts db)) (map snd (filter (\<lambda>(k, row). k \<in> ?ready) (pg_runs db')))"
    using assms(3) unfolding stmt by (auto simp: Let_def picked_def split: if_splits)
  have "set picked \<subseteq> {row \<in> set (map snd (pg_runs db)). row_ready now row}"
    using set_plan [OF assms(1)] by (auto simp: picked_def dest!: in_set_takeD)
  then have "\<exists>row. (k, row) \<in> set (pg_runs db) \<and> row_ready now row" if "k \<in> ?ready" for k
    using assms(2) that by (fastforce simp: pg_keys_def list_all_iff)
  moreover have "set rows = snd ` {(k, row) \<in> set (pg_runs db'). k \<in> ?ready}"
    unfolding tbl(2) using set_plan [OF assms(1)] by auto
  ultimately show ?thesis using that tbl(1) by blast
qed

lemma claim_effect:
  assumes "fair_plan g" "pg_keys db" "pg_ClaimDue g now w l n db = (res, db')"
  shows "pg_keys db' \<and> (\<forall>k. map_of (pg_runs db') k = map_of (pg_runs db) k \<or>
      (\<exists>old new. map_of (pg_runs db) k = Some old \<and> map_of (pg_runs db') k = Some new \<and> claimed_row g now l old new)) \<and>
    (\<forall>out. res = Inr out \<longrightarrow> (\<forall>r\<in>set out. \<exists>old new. map_of (pg_runs db) (r_ID r) = Some old \<and>
      map_of (pg_runs db') (r_ID r) = Some new \<and> claimed_row g now l old new))"
proof -
  let ?stmt = "claim_stmt g (g_ts g now) w (g_ts g (now + l)) n"
  show ?thesis
  proof (cases "g_down g (pg_stmts db) = None \<and> \<not> isl (?stmt db)")
    case False
    then have "res = Inl (Backend e) \<Longrightarrow> True" "pg_runs db' = pg_runs db" "isl res" for e
      using assms(3) by (auto simp: pg_ClaimDue_def exec_def Let_def split: option.splits sum.splits)
    then show ?thesis using assms(2) by (auto simp: pg_keys_def)
  next
    case True
    then obtain rows db1 where st: "?stmt db = Inr (rows, db1)" by (cases "?stmt db") auto
    then have res: "\<And>out. res = Inr out \<Longrightarrow> out = map scanRun rows" "pg_runs db' = pg_runs db1"
      using assms(3) True by (auto simp: pg_ClaimDue_def exec_def Let_def split: option.splits)
    obtain ready where ready: "\<And>k. k \<in> ready \<Longrightarrow> \<exists>row. (k, row) \<in> set (pg_runs db) \<and> row_ready (g_ts g now) row"
      "pg_runs db1 = map (\<lambda>(k, row). (k, if k \<in> ready then claim_row (g_ts g now) w (g_ts g (now + l)) row else row)) (pg_runs db)"
      "set rows = snd ` {(k, row) \<in> set (pg_runs db1). k \<in> ready}"
      using claim_stmt_effect [OF assms(1,2) st] by blast
    have keys: "distinct (map fst (pg_runs db))" "\<And>k row. (k, row) \<in> set (pg_runs db) \<Longrightarrow> pr_id row = k"
      using assms(2) by (auto simp: pg_keys_def list_all_iff)
    have look: "map_of (pg_runs db') k = map_option (\<lambda>row. if k \<in> ready then claim_row (g_ts g now) w (g_ts g (now + l)) row else row) (map_of (pg_runs db) k)" for k
      unfolding res(2) ready(2) by (rule map_of_keyed)
    have got: "claimed_row g now l old (claim_row (g_ts g now) w (g_ts g (now + l)) old)"
      if k: "k \<in> ready" "map_of (pg_runs db) k = Some old" for k old
    proof -
      obtain row where "(k, row) \<in> set (pg_runs db)" "row_ready (g_ts g now) row" using ready(1) [OF k(1)] by blast
      then have "row_ready (g_ts g now) old" using k(2) keys(1) by simp
      then show ?thesis by (simp add: claimed_row_def claim_row_def StateRunning_def)
    qed
    have "pg_keys db'"
      using keys unfolding pg_keys_def res(2) ready(2) by (auto simp: list_all_iff case_prod_beta o_def claim_row_def)
    moreover have "map_of (pg_runs db') k = map_of (pg_runs db) k \<or>
        (\<exists>old new. map_of (pg_runs db) k = Some old \<and> map_of (pg_runs db') k = Some new \<and> claimed_row g now l old new)" for k
      using got [of k] by (cases "map_of (pg_runs db) k") (auto simp: look)
    moreover have "\<exists>old new. map_of (pg_runs db) (r_ID r) = Some old \<and> map_of (pg_runs db') (r_ID r) = Some new \<and> claimed_row g now l old new"
      if r: "res = Inr out" "r \<in> set out" for r out
    proof -
      obtain k row where k: "(k, row) \<in> set (pg_runs db')" "k \<in> ready" "r = scanRun row"
        using r(2) res(1) [OF r(1)] ready(3) res(2) by auto
      then have "pr_id row = k" using \<open>pg_keys db'\<close> by (auto simp: pg_keys_def list_all_iff)
      moreover obtain old where "map_of (pg_runs db) k = Some old" using ready(1) [OF k(2)] keys(1) by auto
      ultimately show ?thesis using got [OF k(2)] k(2,3) by (simp add: look)
    qed
    ultimately show ?thesis by blast
  qed
qed

lemma run_row_id [simp]: "pr_id (run_row g c u q) = r_ID q"
  by (simp add: run_row_def)

section \<open>Properties\<close>

text \<open>A server to instantiate the properties on: JSON values are the lists themselves, the clock is fixed.\<close>

datatype sample_json = JStrings "string list" | JPolicy RetryPolicy

definition sample_pg :: "sample_json pgserver" where
  "sample_pg = \<lparr>g_down = (\<lambda>_. None), g_lost = (\<lambda>_. None), g_plan = (\<lambda>_ xs. rev xs), g_locked = (\<lambda>_ _. False), g_now = (\<lambda>_ _. 5000), g_text = (\<lambda>_. True),
     g_ts = (\<lambda>t. t - t mod 1000), g_less = (<), g_strings = (\<lambda>xs. Some (JStrings xs)), g_policy = (\<lambda>p. Some (JPolicy p)),
     g_get_strings = (\<lambda>v. case v of JStrings xs \<Rightarrow> Some xs | _ \<Rightarrow> None), g_get_policy = (\<lambda>v. case v of JPolicy p \<Rightarrow> Some p | _ \<Rightarrow> None),
     g_open = (\<lambda>_. None), g_ping = None, g_migrate = None, g_close = None\<rparr>"

definition empty_pg :: "'j pg" where
  "empty_pg = \<lparr>pg_jobs = [], pg_runs = [], pg_stmts = 0\<rparr>"

lemma sample_pg_ok: "healthy sample_pg" "fair_plan sample_pg" "pg_ok empty_pg" "pg_keys empty_pg"
  by (auto simp: healthy_def fair_plan_def sample_pg_def micro_def pg_ok_def pg_keys_def empty_pg_def)

lemma sample_pg_mono: "mono (g_ts sample_pg)"
proof (rule monoI)
  fix a b :: int assume "a \<le> b"
  then have "a div 1000 * 1000 \<le> b div 1000 * 1000" by (simp add: zdiv_mono1)
  then show "g_ts sample_pg a \<le> g_ts sample_pg b" by (simp add: sample_pg_def minus_mod_eq_div_mult)
qed


definition sample_run :: Run where
  "sample_run = zero_run\<lparr>r_ID := ''r'', r_State := StatePending, r_ScheduledFor := 1000, r_CreatedAt := 1000, r_UpdatedAt := 1000\<rparr>"

definition sample_calls :: "store_call list" where
  "sample_calls = [CCreateRun sample_run, CClaimDue 2000 ''w'' 3000 10, CGetRun ''r'']"

lemma sample_memory:
  "perform_all memory_ops sample_calls (mem_of sample_pg empty_pg) =
     ([RUnit (Inr ()), RRuns (Inr [claim_run 2000 ''w'' 3000 sample_run]), RRun (Inr (claim_run 2000 ''w'' 3000 sample_run))],
      \<lparr>m_jobs = [], m_runs = [(''r'', claim_run 2000 ''w'' 3000 sample_run)]\<rparr>)"
  by (simp add: sample_calls_def mem_of_def empty_pg_def memory_ops_def CreateRun_def ClaimDue_unfold GetRun_def claimable_def claim_limit_def sample_run_def)


definition sample_table :: "sample_json pg" where
  "sample_table = \<lparr>pg_jobs = [], pg_runs = [(''r'', run_row sample_pg 1000 1000 sample_run)], pg_stmts = 0\<rparr>"

section \<open>Where the backends differ\<close>

text \<open>Without a positive limit the in-memory store claims everything; PostgreSQL claims nothing, or fails.\<close>

theorem claim_limit_zero:
  "fst (pg_ClaimDue sample_pg 2000 ''w'' 3000 0 sample_table) = Inr []"
  "isl (fst (pg_ClaimDue g now w l (- int (Suc n)) db))"
  "fst (ClaimDue 2000 ''w'' 3000 0 (mem_of sample_pg sample_table)) = Inr [claim_run 2000 ''w'' 3000 sample_run]"
proof -
  show "fst (pg_ClaimDue sample_pg 2000 ''w'' 3000 0 sample_table) = Inr []"
    by (simp add: pg_ClaimDue_def exec_def claim_stmt_def claim_open_def claim_write_def lock_row_def sample_table_def sample_pg_def Let_def)
  show "isl (fst (pg_ClaimDue g now w l (- int (Suc n)) db))"
    by (simp add: pg_ClaimDue_def exec_def claim_stmt_def claim_open_def Let_def split: option.split)
  have "scanRun (run_row sample_pg 1000 1000 sample_run) = sample_run"
    by (simp add: scanRun_def run_row_def sample_run_def sample_pg_def zero_run_def nullTime_def IsZero_def)
  then show "fst (ClaimDue 2000 ''w'' 3000 0 (mem_of sample_pg sample_table)) = Inr [claim_run 2000 ''w'' 3000 sample_run]"
    by (simp add: mem_of_def sample_table_def vals_def ClaimDue_unfold claimable_def claim_limit_def sample_run_def)
qed

text \<open>A running run without a lease is never redelivered by PostgreSQL; the in-memory store takes the missing
  lease for the zero time, which has passed.\<close>

theorem null_lease_never_claimed:
  assumes "fair_plan g" "pg_keys db" "pg_ClaimDue g now w l n db = (res, db')"
    and "map_of (pg_runs db) k = Some row" "pr_state row = StateRunning" "pr_lease_expiry row = None"
  shows "map_of (pg_runs db') k = Some row \<and> claimable (zero_time + 1) (scanRun row)"
proof -
  have "\<not> row_ready t row" for t using assms(5,6) by (simp add: row_ready_def StateRunning_def)
  then have "\<not> claimed_row g now l row new" for new by (simp add: claimed_row_def)
  then have "map_of (pg_runs db') k = map_of (pg_runs db) k"
    using claim_effect [OF assms(1-3)] assms(4) by (metis option.inject)
  then show ?thesis using assms(4-6) by (simp add: claimable_def scanRun_def)
qed

text \<open>Creating a run under an identifier in use is an error in PostgreSQL and replaces the run in memory.\<close>

theorem create_run_twice:
  "map_of (pg_runs db) (r_ID r) \<noteq> None \<Longrightarrow> isl (fst (pg_CreateRun g r db)) \<and> pg_runs (snd (pg_CreateRun g r db)) = pg_runs db"
  "fst (CreateRun r s) = Inr () \<and> mem_runs (snd (CreateRun r s)) (r_ID r) = Some r"
  by (auto simp: pg_CreateRun_def exec_def insert_run_def dberr_def CreateRun_def mem_runs_def Let_def split: option.splits)

text \<open>A job that is stored again keeps its first creation time in PostgreSQL; the in-memory store takes the new one.\<close>

theorem created_at_kept:
  "map_of (pg_jobs db) (j_ID j) = Some old \<Longrightarrow> pg_PutJob g j db = (Inr (), db') \<Longrightarrow>
     \<exists>row. map_of (pg_jobs db') (j_ID j) = Some row \<and> pj_created_at row = pj_created_at old"
  "mem_jobs (snd (PutJob j s)) (j_ID j) = Some j"
  by (auto simp: pg_PutJob_def exec_def insert_job_def job_row_def dberr_def Let_def PutJob_def mem_jobs_def update_conv' split: option.splits if_splits)

text \<open>A run whose times are not whole microseconds is not read back as it was written.\<close>

theorem times_rounded:
  "let r = sample_run\<lparr>r_ScheduledFor := 1001\<rparr>; db = snd (pg_CreateRun sample_pg r empty_pg)
   in fst (pg_CreateRun sample_pg r empty_pg) = Inr () \<and> fst (pg_GetRun sample_pg ''r'' db) = Inr sample_run"
  by (simp add: pg_CreateRun_def pg_GetRun_def exec_def with_text_def insert_run_def run_row_ok_def run_row_def dberr_def sample_pg_def empty_pg_def Let_def
      sample_run_def scanRun_def zero_run_def int4_def nullTime_def orNow_def IsZero_def zero_time_def)

end
