(* ===== verification/Conformance.thy ===== *)
theory Conformance
  imports Backends
begin

text \<open>
  The PostgreSQL store and the conformance suite. The columns round instants and fill in missing ones,
  so the tables do not keep the store contract to the letter; the suite is passed all the same, by
  evaluating its calls on the tables.
\<close>


text \<open>A server that takes every text and every list of texts without the zero byte, and the zero retry policy.\<close>

definition accepting :: "'j pgserver \<Rightarrow> bool" where
  "accepting g \<longleftrightarrow> healthy g \<and> (\<forall>s. CHR 0x00 \<notin> set s \<longrightarrow> g_text g s) \<and>
     (\<forall>xs. (\<forall>s\<in>set xs. CHR 0x00 \<notin> set s) \<longrightarrow> g_strings g xs \<noteq> None) \<and> g_policy g (j_Backoff zero_job) \<noteq> None"

lemma suite_now_value: "suite_now = 63913226400000000000"
  by code_simp

lemma acceptingD:
  assumes "accepting g"
  shows "healthy g" "CHR 0x00 \<notin> set s \<Longrightarrow> g_text g s"
  using assms by (simp_all add: accepting_def)

lemma ts_nanos: "healthy g \<Longrightarrow> 1000 dvd t \<Longrightarrow> g_ts g t = t"
  by (simp add: healthy_def micro_def)

lemma plan_short: "healthy g \<Longrightarrow> g_plan g n [] = []" "healthy g \<Longrightarrow> g_plan g n [x] = [x]"
  by (metis healthy_def mset_zero_iff mset.simps(1)) (metis healthy_def mset_single_iff_right mset.simps)

lemma pg_create:
  assumes "accepting g" "list_all (\<lambda>s. CHR 0x00 \<notin> set s) [r_ID r, r_JobID r, r_BatchID r, r_State r, r_Worker r, r_Error r]"
    "int4 (r_Attempt r)" "map_of (pg_runs db) (r_ID r) = None"
  shows "pg_CreateRun g r db = (Inr (), db\<lparr>pg_runs := AList.update (r_ID r) (run_row g (orNow (g_now g (pg_stmts db) 0) (r_CreatedAt r))
      (orNow (g_now g (pg_stmts db) 1) (r_UpdatedAt r)) r) (pg_runs db), pg_stmts := pg_stmts db + 1\<rparr>)"
proof -
  let ?row = "run_row g (orNow (g_now g (pg_stmts db) 0) (r_CreatedAt r)) (orNow (g_now g (pg_stmts db) 1) (r_UpdatedAt r)) r"
  have "run_row_ok g ?row = None" using acceptingD(2) [OF assms(1)] assms(2,3) by (simp add: run_row_ok_def run_row_def)
  then show ?thesis
    using assms(4) by (simp add: pg_CreateRun_def exec_healthy [OF acceptingD(1) [OF assms(1)]] insert_run_def dberr_def)
qed

text \<open>A claim where one row or none is ready.\<close>

lemma filter_in_place:
  assumes "distinct (map fst m)" "map_of m k = Some v"
  shows "map snd (filter (\<lambda>(i, x). i = k) (map (\<lambda>(i, x). (i, if i = k then h x else x)) m)) = [h v]"
  using assms
proof (induction m)
  case (Cons e m)
  have "filter (\<lambda>(i, x). i = k) (map (\<lambda>(i, x). (i, if i = k then h x else x)) m) = []" if "k \<notin> fst ` set m"
    using that by (force simp: filter_empty_conv)
  then show ?case using Cons by (cases e) auto
qed simp

lemma pg_claim_one:
  assumes "accepting g" "CHR 0x00 \<notin> set w" "filter (row_ready (g_ts g now)) (map snd (pg_runs db)) = [row]"
    "distinct (map fst (pg_runs db))" "map_of (pg_runs db) (pr_id row) = Some row"
  shows "pg_ClaimDue g now w l 10 db = (Inr [scanRun (claim_row (g_ts g now) w (g_ts g (now + l)) row)],
    db\<lparr>pg_runs := AList.update (pr_id row) (claim_row (g_ts g now) w (g_ts g (now + l)) row) (pg_runs db), pg_stmts := pg_stmts db + 1\<rparr>)"
proof -
  note ok = acceptingD(1) [OF assms(1)]
  let ?h = "claim_row (g_ts g now) w (g_ts g (now + l))"
  let ?tbl = "map (\<lambda>(k, x). (k, if k = pr_id row then ?h x else x)) (pg_runs db)"
  have alone: "map_of (pg_runs db) (pr_id x) = Some x" if "x \<in> set (map snd (pg_runs db))" "row_ready (g_ts g now) x" for x
    using assms(5) arg_cong [OF assms(3), of set] that by (auto simp: set_eq_iff)
  obtain rows where rows: "mset rows = mset [row]"
    "claim_stmt g (g_ts g now) w (g_ts g (now + l)) 10 db =
      (let ready = pr_id ` set (take (nat 10) (sort_slice (\<lambda>a b. pr_scheduled_for a < pr_scheduled_for b) rows));
           tbl = map (\<lambda>(k, x). (k, if k \<in> ready then ?h x else x)) (pg_runs db)
       in Inr (g_plan g (Suc (pg_stmts db)) (map snd (filter (\<lambda>(k, x). k \<in> ready) tbl)), db\<lparr>pg_runs := tbl\<rparr>))"
    using claim_stmt_healthy [OF ok _ acceptingD(2) [OF assms(1,2)], of 10 db "g_ts g now" "g_ts g (now + l)"] alone unfolding assms(3) by auto
  have "rows = [row]" using rows(1) by simp
  then have "claim_stmt g (g_ts g now) w (g_ts g (now + l)) 10 db = Inr ([?h row], db\<lparr>pg_runs := ?tbl\<rparr>)"
    using rows(2) filter_in_place [OF assms(4,5), of ?h] plan_short(2) [OF ok] by (simp add: Let_def del: filter_map map_map)
  moreover have "AList.update (pr_id row) (?h row) (pg_runs db) = ?tbl" by (rule update_in_place [OF assms(4,5)])
  ultimately show ?thesis by (simp add: pg_ClaimDue_def exec_healthy [OF ok])
qed

definition ready_rows_at :: "'j pgserver \<Rightarrow> time \<Rightarrow> 'j pg \<Rightarrow> pg_run list" where
  "ready_rows_at g now db = filter (row_ready (g_ts g now)) (map snd (pg_runs db))"

lemma pg_claim_hd:
  assumes "accepting g" "CHR 0x00 \<notin> set w" "length (ready_rows_at g now db) = 1" "distinct (map fst (pg_runs db))"
    "map_of (pg_runs db) (pr_id (hd (ready_rows_at g now db))) = Some (hd (ready_rows_at g now db))"
  shows "pg_ClaimDue g now w l 10 db = (Inr [scanRun (claim_row (g_ts g now) w (g_ts g (now + l)) (hd (ready_rows_at g now db)))],
    db\<lparr>pg_runs := AList.update (pr_id (hd (ready_rows_at g now db))) (claim_row (g_ts g now) w (g_ts g (now + l)) (hd (ready_rows_at g now db)))
      (pg_runs db), pg_stmts := pg_stmts db + 1\<rparr>)"
proof -
  have "ready_rows_at g now db = [hd (ready_rows_at g now db)]" using assms(3) by (cases "ready_rows_at g now db") auto
  then show ?thesis by (intro pg_claim_one [OF assms(1,2) _ assms(4,5)]) (simp add: ready_rows_at_def)
qed

lemma pg_claim_none:
  assumes "accepting g" "CHR 0x00 \<notin> set w" "filter (row_ready (g_ts g now)) (map snd (pg_runs db)) = []"
  shows "pg_ClaimDue g now w l 10 db = (Inr [], db\<lparr>pg_stmts := pg_stmts db + 1\<rparr>)"
proof -
  note ok = acceptingD(1) [OF assms(1)]
  have no_ready: "\<not> row_ready (g_ts g now) x" if "x \<in> snd ` set (pg_runs db)" for x
    using assms(3) that unfolding filter_empty_conv set_map by blast
  obtain rows where rows: "mset rows = mset []"
    "claim_stmt g (g_ts g now) w (g_ts g (now + l)) 10 db =
      (let ready = pr_id ` set (take (nat 10) (sort_slice (\<lambda>a b. pr_scheduled_for a < pr_scheduled_for b) rows));
           tbl = map (\<lambda>(k, x). (k, if k \<in> ready then claim_row (g_ts g now) w (g_ts g (now + l)) x else x)) (pg_runs db)
       in Inr (g_plan g (Suc (pg_stmts db)) (map snd (filter (\<lambda>(k, x). k \<in> ready) tbl)), db\<lparr>pg_runs := tbl\<rparr>))"
    using claim_stmt_healthy [OF ok _ acceptingD(2) [OF assms(1,2)], of 10 db "g_ts g now" "g_ts g (now + l)"] no_ready
    unfolding assms(3) by auto
  have "rows = []" using rows(1) by simp
  moreover have "map (\<lambda>(k, x). (k, x)) m = m" for m :: "(string \<times> pg_run) list" by (simp add: case_prod_beta)
  ultimately have "claim_stmt g (g_ts g now) w (g_ts g (now + l)) 10 db = Inr ([], db)"
    using rows(2) plan_short(1) [OF ok] by (simp add: Let_def case_prod_beta)
  then show ?thesis by (simp add: pg_ClaimDue_def exec_healthy [OF ok])
qed

section \<open>The sub-tests\<close>

lemma pg_ops: 
  "st_PutJob (postgres_ops g) = pg_PutJob g" "st_GetJob (postgres_ops g) = pg_GetJob g" "st_ListJobs (postgres_ops g) = pg_ListJobs g"
  "st_DeleteJob (postgres_ops g) = pg_DeleteJob g" "st_CreateRun (postgres_ops g) = pg_CreateRun g" "st_GetRun (postgres_ops g) = pg_GetRun g"
  "st_UpdateRun (postgres_ops g) = pg_UpdateRun g" "st_ListRuns (postgres_ops g) = pg_ListRuns g" "st_ClaimDue (postgres_ops g) = pg_ClaimDue g"
  by (simp_all add: postgres_ops_def)

lemma pg_JobCRUD:
  assumes "accepting g"
  shows "testJobCRUD (postgres_ops g) \<lparr>pg_jobs = [], pg_runs = [], pg_stmts = n\<rparr> = []"
proof -
  obtain c d b where json: "g_strings g [''make''] = Some c" "g_strings g [] = Some d" "g_policy g (j_Backoff zero_job) = Some b"
  proof -
    have "g_strings g [''make''] \<noteq> None" "g_strings g [] \<noteq> None" "g_policy g (j_Backoff zero_job) \<noteq> None"
      using assms by (simp_all add: accepting_def)
    then show thesis using that by blast
  qed
  show ?thesis
    using json acceptingD(2) [OF assms]
    by (simp add: testJobCRUD_def pg_ops pg_PutJob_def pg_GetJob_def pg_ListJobs_def pg_DeleteJob_def exec_healthy [OF acceptingD(1) [OF assms]]
        insert_job_def job_row_def nonNil_def dberr_def scanJob_def errorf_def int4_def Let_def zero_job_def with_text_def)
qed

lemma pg_RunLifecycle:
  assumes "accepting g"
  shows "testRunLifecycle (postgres_ops g) \<lparr>pg_jobs = [], pg_runs = [], pg_stmts = n\<rparr> = []"
  using acceptingD(2) [OF assms]
  by (simp add: testRunLifecycle_def pg_ops pg_create [OF assms] pg_GetRun_def pg_UpdateRun_def exec_healthy [OF acceptingD(1) [OF assms]]
      update_run_def run_row_ok_def run_row_def dberr_def scanRun_def errorf_def int4_def Let_def zero_run_def run_state_defs with_text_def)

lemmas claim_eval = ts_nanos ready_rows_at_def pg_claim_hd pg_claim_none pg_create pg_ops row_ready_def run_row_def claim_row_def scanRun_def
  errorf_def int4_def Let_def zero_run_def run_state_defs suite_now_value SecondD_def nullTime_def IsZero_def zero_time_def orNow_def

lemma pg_ClaimDue_test:
  assumes "accepting g"
  shows "testClaimDue (postgres_ops g) \<lparr>pg_jobs = [], pg_runs = [], pg_stmts = n\<rparr> = []"
  using assms acceptingD(1) [OF assms] by (simp add: testClaimDue_def claim_eval)

lemma pg_LeaseRedelivery:
  assumes "accepting g"
  shows "testLeaseRedelivery (postgres_ops g) \<lparr>pg_jobs = [], pg_runs = [], pg_stmts = n\<rparr> = []"
  using assms acceptingD(1) [OF assms] by (simp add: testLeaseRedelivery_def claim_eval)

lemma pg_ListRunsFilter:
  assumes "accepting g"
  shows "testListRunsFilter (postgres_ops g) \<lparr>pg_jobs = [], pg_runs = [], pg_stmts = n\<rparr> = []"
  using assms acceptingD(1) [OF assms] by (simp add: testListRunsFilter_def claim_eval pg_ListRuns_def exec_healthy conds_def cond_args_def with_text_def acceptingD(2) newest_row_def zero_filter_def)

section \<open>Properties\<close>

lemma Reset_empty: "healthy g \<Longrightarrow> Reset g db = (Inr (), db') \<Longrightarrow> \<exists>n. db' = \<lparr>pg_jobs = [], pg_runs = [], pg_stmts = n\<rparr>"
  by (cases db) (auto simp: Reset_def exec_healthy dberr_def)

text \<open>C17: the PostgreSQL store passes the conformance suite: on a server that runs every statement and accepts texts
  without the zero byte, if each sub-test opens the store and resets it, as the integration test does, none of the
  five reports a failure, whatever the tables held before and in whichever order rows are produced.\<close>

theorem postgres_passes_suite:
  assumes "accepting g" "\<And>i. Open g dsn (before i) = Inr (opened i)" "\<And>i. Reset g (opened i) = (Inr (), newStore i)"
  shows "passes (RunSuite (postgres_ops g) newStore)"
proof -
  have "\<exists>n. newStore i = \<lparr>pg_jobs = [], pg_runs = [], pg_stmts = n\<rparr>" for i
    by (rule Reset_empty [OF acceptingD(1) [OF assms(1)] assms(3)])
  then obtain n where n: "\<And>i. newStore i = \<lparr>pg_jobs = [], pg_runs = [], pg_stmts = n i\<rparr>" by metis
  show ?thesis
    by (simp add: passes_def RunSuite_def n pg_JobCRUD [OF assms(1)] pg_RunLifecycle [OF assms(1)] pg_ClaimDue_test [OF assms(1)]
        pg_LeaseRedelivery [OF assms(1)] pg_ListRunsFilter [OF assms(1)])
qed

theorem postgres_passes_suite_witness:
  "passes (RunSuite (postgres_ops sample_pg) (\<lambda>i. snd (Reset sample_pg (sample_table\<lparr>pg_stmts := i\<rparr>))))"
proof -
  have "accepting sample_pg" using sample_pg_ok(1) by (simp add: accepting_def sample_pg_def)
  moreover have "Open sample_pg [] (sample_table\<lparr>pg_stmts := i\<rparr>) = Inr (sample_table\<lparr>pg_stmts := i\<rparr>)" for i
    by (simp add: Open_def sample_pg_def)
  moreover have "Reset sample_pg (sample_table\<lparr>pg_stmts := i\<rparr>) = (Inr (), snd (Reset sample_pg (sample_table\<lparr>pg_stmts := i\<rparr>)))" for i
    by (simp add: Reset_def exec_healthy [OF sample_pg_ok(1)] dberr_def)
  ultimately show ?thesis by (rule postgres_passes_suite)
qed

end
