(* ===== verification/Nodes.thy ===== *)
theory Nodes
  imports Backends
begin

text \<open>
  Several nodes on one database. The claim of one node and the statements of the others interleave: a node
  takes its snapshot, locks rows one by one and writes at commit, and in between the other nodes take their own
  snapshots, lock, write, update and create runs. Row locks keep others from updating a locked row, and \<^verbatim>\<open>SKIP LOCKED\<close>
  makes claims step over it. Statements that touch one row are single steps. A statement may fail at any
  point, which releases its locks.
\<close>

section \<open>Interleaved statements\<close>

text \<open>The log, newest entry first: a claim that took effect at an instant, with leases until another, and updates.\<close>

datatype node_event = Claimed time time "string list" | Updated string

record 'j cluster =
  c_db :: "'j pg"
  c_open :: "nat \<rightharpoonup> pg_claim"
  c_log :: "node_event list"

definition locked_by_others :: "'j cluster \<Rightarrow> nat \<Rightarrow> string \<Rightarrow> bool" where
  "locked_by_others s i k \<longleftrightarrow> (\<exists>j c. j \<noteq> i \<and> c_open s j = Some c \<and> k \<in> set (cl_locked c))"

fun update_of :: "store_call \<Rightarrow> string option" where
  "update_of (CUpdateRun q) = Some (r_ID q)"
| "update_of _ = None"

fun is_claim :: "store_call \<Rightarrow> bool" where
  "is_claim (CClaimDue now w l n) = True"
| "is_claim _ = False"

text \<open>\<open>Lock\<close> visits the next candidate of a claim; \<open>locked\<close> holds of the rows that other claims have locked, and
  possibly of more. An update of a run waits until no claim holds its row.\<close>

inductive node_step :: "'j pgserver \<Rightarrow> 'j cluster \<Rightarrow> 'j cluster \<Rightarrow> bool" for g where
  Open: "c_open s i = None \<Longrightarrow> claim_open g (g_ts g now) w (g_ts g (now + l)) n (c_db s) = Inr c \<Longrightarrow>
    node_step g s (s\<lparr>c_db := (c_db s)\<lparr>pg_stmts := pg_stmts (c_db s) + 1\<rparr>, c_open := (c_open s)(i \<mapsto> c)\<rparr>)"
| Lock: "c_open s i = Some c \<Longrightarrow> (\<And>k. locked_by_others s i k \<Longrightarrow> locked k) \<Longrightarrow>
    node_step g s (s\<lparr>c_open := (c_open s)(i \<mapsto> lock_row locked (c_db s) c)\<rparr>)"
| Write: "c_open s i = Some c \<Longrightarrow> cl_todo c = [] \<Longrightarrow> claim_write g c (c_db s) = (rows, db) \<Longrightarrow>
    node_step g s (s\<lparr>c_db := db, c_open := (c_open s)(i := None), c_log := Claimed (cl_now c) (cl_expiry c) (cl_locked c) # c_log s\<rparr>)"
| Abort: "c_open s i = Some c \<Longrightarrow> node_step g s (s\<lparr>c_open := (c_open s)(i := None)\<rparr>)"
| Other: "\<not> is_claim call \<Longrightarrow> (\<And>k i c. update_of call = Some k \<Longrightarrow> c_open s i = Some c \<Longrightarrow> k \<notin> set (cl_locked c)) \<Longrightarrow>
    perform (postgres_ops g) call (c_db s) = (res, db) \<Longrightarrow>
    node_step g s (s\<lparr>c_db := db, c_log := (case update_of call of None \<Rightarrow> [] | Some k \<Rightarrow> [Updated k]) @ c_log s\<rparr>)"

definition idle :: "'j pg \<Rightarrow> 'j cluster" where
  "idle db = \<lparr>c_db = db, c_open = Map.empty, c_log = []\<rparr>"

section \<open>Leases\<close>

text \<open>A run that is held until at least \<open>e\<close>.\<close>

definition held :: "time \<Rightarrow> string \<Rightarrow> 'j pg \<Rightarrow> bool" where
  "held e k db \<longleftrightarrow> (\<exists>row t. map_of (pg_runs db) k = Some row \<and> pr_state row = StateRunning \<and> pr_lease_expiry row = Some t \<and> e \<le> t)"

text \<open>Entries that leave the lease of run \<open>k\<close> to its holder.\<close>

fun leaves_lease :: "string \<Rightarrow> node_event \<Rightarrow> bool" where
  "leaves_lease k (Claimed t e ks) = (t \<le> e)"
| "leaves_lease k (Updated i) = (i \<noteq> k)"

text \<open>The leases on a run that nobody has given up, and logs in which claims respect them.\<close>

fun leases :: "string \<Rightarrow> node_event list \<Rightarrow> time set" where
  "leases k [] = {}"
| "leases k (Claimed t e ks # evs) = (if k \<in> set ks then {e} else {}) \<union> (if t \<le> e then leases k evs else {})"
| "leases k (Updated i # evs) = (if i = k then {} else leases k evs)"

fun exclusive :: "node_event list \<Rightarrow> bool" where
  "exclusive [] = True"
| "exclusive (Claimed t e ks # evs) = ((\<forall>k\<in>set ks. \<forall>x\<in>leases k evs. x < t) \<and> exclusive evs)"
| "exclusive (Updated i # evs) = exclusive evs"

lemma leases_append: "list_all (leaves_lease k) mid \<Longrightarrow> leases k evs \<subseteq> leases k (mid @ evs)"
proof (induction mid)
  case (Cons ev mid)
  then show ?case by (cases ev) auto
qed simp

lemma exclusive_append: "exclusive (new @ evs) \<Longrightarrow> exclusive evs"
proof (induction new)
  case (Cons ev new)
  then show ?case by (cases ev) auto
qed simp

lemma exclusive_claims:
  assumes "exclusive (new @ Claimed t' e' ks' # mid @ Claimed t e ks # old)" "k \<in> set ks" "k \<in> set ks'" "list_all (leaves_lease k) mid"
  shows "e < t'"
proof -
  have "e \<in> leases k (mid @ Claimed t e ks # old)" using leases_append [OF assms(4), of "Claimed t e ks # old"] assms(2) by auto
  then show ?thesis using exclusive_append [OF assms(1)] assms(3) by simp
qed

section \<open>What the statements do to the runs\<close>

lemma written_runs:
  obtains row where "pr_id row = r_ID q" "pg_runs (snd (pg_CreateRun g q db)) = pg_runs db \<or>
      map_of (pg_runs db) (r_ID q) = None \<and> pg_runs (snd (pg_CreateRun g q db)) = AList.update (r_ID q) row (pg_runs db)"
proof
  let ?row = "run_row g (orNow (g_now g (pg_stmts db) 0) (r_CreatedAt q)) (orNow (g_now g (pg_stmts db) 1) (r_UpdatedAt q)) q"
  show "pg_runs (snd (pg_CreateRun g q db)) = pg_runs db \<or>
      map_of (pg_runs db) (r_ID q) = None \<and> pg_runs (snd (pg_CreateRun g q db)) = AList.update (r_ID q) ?row (pg_runs db)"
    by (auto simp: pg_CreateRun_def exec_def insert_run_def Let_def split: option.splits)
qed simp

lemma updated_runs:
  obtains row where "pr_id row = r_ID q" "pg_runs (snd (pg_UpdateRun g q db)) = pg_runs db \<or>
      pg_runs (snd (pg_UpdateRun g q db)) = AList.update (r_ID q) row (pg_runs db)"
proof
  let ?row = "(run_row g zero_time (orNow (g_now g (pg_stmts db) 0) (r_UpdatedAt q)) q)\<lparr>pr_created_at := pr_created_at (the (map_of (pg_runs db) (r_ID q)))\<rparr>"
  show "pg_runs (snd (pg_UpdateRun g q db)) = pg_runs db \<or> pg_runs (snd (pg_UpdateRun g q db)) = AList.update (r_ID q) ?row (pg_runs db)"
    by (auto simp: pg_UpdateRun_def exec_def update_run_def Let_def split: option.splits)
qed simp

lemma held_runs:
  "pg_runs db' = pg_runs db \<Longrightarrow> held e k db' = held e k db"
  "pg_runs db' = AList.update i row (pg_runs db) \<Longrightarrow> i \<noteq> k \<Longrightarrow> held e k db' = held e k db"
  by (simp_all add: held_def update_conv')

lemma keys_runs:
  "pg_runs db' = pg_runs db \<Longrightarrow> pg_keys db' = pg_keys db"
  "pg_runs db' = AList.update (pr_id row) row (pg_runs db) \<Longrightarrow> pg_keys db \<Longrightarrow> pg_keys db'"
  by (simp_all add: pg_keys_def list_all_update)

lemma held_key: "held e k db \<Longrightarrow> map_of (pg_runs db) k \<noteq> None"
  by (auto simp: held_def)

lemma run_writes:
  assumes "pg_keys db"
  shows "pg_keys (snd (pg_CreateRun g q db))" "held e k db \<Longrightarrow> held e k (snd (pg_CreateRun g q db))"
    "pg_keys (snd (pg_UpdateRun g q db))" "held e k db \<Longrightarrow> r_ID q \<noteq> k \<Longrightarrow> held e k (snd (pg_UpdateRun g q db))"
proof -
  obtain row where "pr_id row = r_ID q" "pg_runs (snd (pg_CreateRun g q db)) = pg_runs db \<or>
      map_of (pg_runs db) (r_ID q) = None \<and> pg_runs (snd (pg_CreateRun g q db)) = AList.update (r_ID q) row (pg_runs db)"
    by (rule written_runs)
  then show "pg_keys (snd (pg_CreateRun g q db))" "held e k db \<Longrightarrow> held e k (snd (pg_CreateRun g q db))"
    using assms keys_runs held_runs held_key by metis+
  obtain row where "pr_id row = r_ID q" "pg_runs (snd (pg_UpdateRun g q db)) = pg_runs db \<or>
      pg_runs (snd (pg_UpdateRun g q db)) = AList.update (r_ID q) row (pg_runs db)"
    by (rule updated_runs)
  then show "pg_keys (snd (pg_UpdateRun g q db))" "held e k db \<Longrightarrow> r_ID q \<noteq> k \<Longrightarrow> held e k (snd (pg_UpdateRun g q db))"
    using assms keys_runs held_runs by metis+
qed

lemma other_calls:
  "pg_runs (snd (pg_PutJob g j db)) = pg_runs db" "pg_runs (snd (pg_GetJob g k db)) = pg_runs db" "pg_runs (snd (pg_ListJobs g db)) = pg_runs db"
  "pg_runs (snd (pg_DeleteJob g k db)) = pg_runs db" "pg_runs (snd (pg_GetRun g k db)) = pg_runs db" "pg_runs (snd (pg_ListRuns g f db)) = pg_runs db"
  by (auto simp: pg_PutJob_def pg_GetJob_def pg_ListJobs_def pg_DeleteJob_def pg_GetRun_def pg_ListRuns_def exec_def with_text_def insert_job_def Let_def
      split: option.splits sum.splits if_splits prod.splits)

lemma perform_keeps_runs:
  "case c of CCreateRun q \<Rightarrow> True | CUpdateRun q \<Rightarrow> True | CClaimDue now w l n \<Rightarrow> True
   | _ \<Rightarrow> pg_runs (snd (perform (postgres_ops g) c db)) = pg_runs db"
  by (cases c) (simp_all add: postgres_ops_def other_calls)

lemma ready_held: "held e k db \<Longrightarrow> map_of (pg_runs db) k = Some row \<Longrightarrow> row_ready now row \<Longrightarrow> e < now"
  by (auto simp: held_def row_ready_def StateRunning_def)

text \<open>A call other than a claim leaves every run but the one it updates.\<close>

lemma other_rows:
  assumes "pg_keys db" "\<not> is_claim call" "perform (postgres_ops g) call db = (res, db')"
  shows "pg_keys db'" "map_of (pg_runs db) k = Some row \<Longrightarrow> update_of call \<noteq> Some k \<Longrightarrow> map_of (pg_runs db') k = Some row"
proof -
  have "pg_keys db' \<and> (map_of (pg_runs db) k = Some row \<longrightarrow> update_of call \<noteq> Some k \<longrightarrow> map_of (pg_runs db') k = Some row)"
  proof (cases call)
    case (CCreateRun q)
    then have db': "db' = snd (pg_CreateRun g q db)" using assms(3) by (cases "pg_CreateRun g q db") (simp add: postgres_ops_def)
    obtain x where "pr_id x = r_ID q" "pg_runs db' = pg_runs db \<or> map_of (pg_runs db) (r_ID q) = None \<and> pg_runs db' = AList.update (r_ID q) x (pg_runs db)"
      unfolding db' by (rule written_runs)
    then show ?thesis using assms(1) keys_runs(1) [of db' db] keys_runs(2) [of db' x db] by (auto simp: update_conv')
  next
    case (CUpdateRun q)
    then have db': "db' = snd (pg_UpdateRun g q db)" using assms(3) by (cases "pg_UpdateRun g q db") (simp add: postgres_ops_def)
    obtain x where "pr_id x = r_ID q" "pg_runs db' = pg_runs db \<or> pg_runs db' = AList.update (r_ID q) x (pg_runs db)"
      unfolding db' by (rule updated_runs)
    then show ?thesis using assms(1) keys_runs(1) [of db' db] keys_runs(2) [of db' x db] CUpdateRun by (auto simp: update_conv')
  qed (use assms perform_keeps_runs [where c = call and g = g and db = db] keys_runs(1) [of db' db] in simp_all)
  then show "pg_keys db'" "map_of (pg_runs db) k = Some row \<Longrightarrow> update_of call \<noteq> Some k \<Longrightarrow> map_of (pg_runs db') k = Some row" by blast+
qed

lemma lock_row_cases:
  obtains "cl_locked (lock_row locked db c) = cl_locked c"
  | k row where "\<not> locked k" "map_of (pg_runs db) k = Some row" "row_ready (cl_now c) row" "cl_locked (lock_row locked db c) = cl_locked c @ [k]"
proof (cases "cl_todo c")
  case Nil
  then show ?thesis using that(1) by (simp add: lock_row_def)
next
  case (Cons k ks)
  show ?thesis
  proof (cases "cl_left c \<noteq> 0 \<and> \<not> locked k \<and> (\<exists>row. map_of (pg_runs db) k = Some row \<and> row_ready (cl_now c) row)")
    case True
    then obtain row where row: "map_of (pg_runs db) k = Some row" "row_ready (cl_now c) row" by blast
    then show ?thesis using that(2) [of k row] True Cons by (simp add: lock_row_def)
  next
    case False
    then show ?thesis using that(1) Cons by (auto simp: lock_row_def split: option.split)
  qed
qed

lemma lock_row_now [simp]: "cl_now (lock_row locked db c) = cl_now c"
  by (simp add: lock_row_def split: list.split option.split)

lemma claim_write_rows:
  assumes "claim_write g c db = (rows, db')"
  shows "map_of (pg_runs db') k = map_option (\<lambda>row. if k \<in> set (cl_locked c) then claim_row (cl_now c) (cl_worker c) (cl_expiry c) row else row) (map_of (pg_runs db) k)"
    "pg_keys db \<Longrightarrow> pg_keys db'"
proof -
  have runs: "pg_runs db' = map (\<lambda>(k, row). (k, if k \<in> set (cl_locked c) then claim_row (cl_now c) (cl_worker c) (cl_expiry c) row else row)) (pg_runs db)"
    using assms by (auto simp: claim_write_def Let_def)
  show "map_of (pg_runs db') k = map_option (\<lambda>row. if k \<in> set (cl_locked c) then claim_row (cl_now c) (cl_worker c) (cl_expiry c) row else row) (map_of (pg_runs db) k)"
    unfolding runs by (rule map_of_keyed)
  show "pg_keys db \<Longrightarrow> pg_keys db'" unfolding pg_keys_def runs by (auto simp: list_all_iff case_prod_beta o_def claim_row_def)
qed

section \<open>The invariant\<close>

text \<open>Locked rows are ready and locked by one claim; runs are held as long as the log says.\<close>

definition locks_ready :: "'j cluster \<Rightarrow> bool" where
  "locks_ready s \<longleftrightarrow> (\<forall>i c k. c_open s i = Some c \<longrightarrow> k \<in> set (cl_locked c) \<longrightarrow>
     (\<exists>row. map_of (pg_runs (c_db s)) k = Some row \<and> row_ready (cl_now c) row))"

definition locks_disjoint :: "'j cluster \<Rightarrow> bool" where
  "locks_disjoint s \<longleftrightarrow> (\<forall>i j c d. c_open s i = Some c \<longrightarrow> c_open s j = Some d \<longrightarrow> i \<noteq> j \<longrightarrow> set (cl_locked c) \<inter> set (cl_locked d) = {})"

definition leases_held :: "'j cluster \<Rightarrow> bool" where
  "leases_held s \<longleftrightarrow> (\<forall>k. \<forall>e\<in>leases k (c_log s). held e k (c_db s))"

definition cluster_inv :: "'j cluster \<Rightarrow> bool" where
  "cluster_inv s \<longleftrightarrow> pg_keys (c_db s) \<and> locks_ready s \<and> locks_disjoint s \<and> leases_held s \<and> exclusive (c_log s)"

lemma cluster_inv_idle: "pg_keys db \<Longrightarrow> cluster_inv (idle db)"
  by (simp add: cluster_inv_def locks_ready_def locks_disjoint_def leases_held_def idle_def)

lemma lock_inv:
  assumes "cluster_inv s" "c_open s i = Some c" "\<And>k. locked_by_others s i k \<Longrightarrow> locked k"
  shows "cluster_inv (s\<lparr>c_open := (c_open s)(i \<mapsto> lock_row locked (c_db s) c)\<rparr>)"
proof (rule lock_row_cases [of locked "c_db s" c])
  assume "cl_locked (lock_row locked (c_db s) c) = cl_locked c"
  then show ?thesis using assms(1,2) by (auto simp: cluster_inv_def locks_ready_def locks_disjoint_def leases_held_def)
next
  fix k row assume k: "\<not> locked k" "map_of (pg_runs (c_db s)) k = Some row" "row_ready (cl_now c) row"
    "cl_locked (lock_row locked (c_db s) c) = cl_locked c @ [k]"
  have free: "k \<notin> set (cl_locked d)" if "c_open s j = Some d" "j \<noteq> i" for j d
    using assms(3) k(1) that by (auto simp: locked_by_others_def)
  let ?s = "s\<lparr>c_open := (c_open s)(i \<mapsto> lock_row locked (c_db s) c)\<rparr>"
  have "locks_ready ?s" using assms(1,2) k by (auto simp: cluster_inv_def locks_ready_def)
  moreover have "locks_disjoint ?s" using assms(1,2) k(4) free by (auto simp: cluster_inv_def locks_disjoint_def)
  ultimately show ?thesis using assms(1) by (simp add: cluster_inv_def leases_held_def)
qed

lemma write_inv:
  assumes "cluster_inv s" "c_open s i = Some c" "claim_write g c (c_db s) = (rows, db)"
  shows "cluster_inv (s\<lparr>c_db := db, c_open := (c_open s)(i := None), c_log := Claimed (cl_now c) (cl_expiry c) (cl_locked c) # c_log s\<rparr>)"
    (is "cluster_inv ?s")
proof -
  note w = claim_write_rows [OF assms(3)]
  have inv: "pg_keys (c_db s)" "locks_ready s" "locks_disjoint s" "leases_held s" "exclusive (c_log s)"
    using assms(1) by (simp_all add: cluster_inv_def)
  have row: "\<exists>row. map_of (pg_runs (c_db s)) k = Some row \<and> row_ready (cl_now c) row" if "k \<in> set (cl_locked c)" for k
    using inv(2) assms(2) that by (auto simp: locks_ready_def)
  have past: "x < cl_now c" if "k \<in> set (cl_locked c)" "x \<in> leases k (c_log s)" for k x
    using row [OF that(1)] inv(4) that(2) ready_held by (fastforce simp: leases_held_def)
  have "map_of (pg_runs db) k = map_of (pg_runs (c_db s)) k" if "k \<notin> set (cl_locked c)" for k using w(1) [of k] that by (simp add: option.map_id0 [unfolded id_def])
  note same = this
  have "locks_ready ?s"
    unfolding locks_ready_def
  proof (intro allI impI)
    fix j d k assume d: "c_open ?s j = Some d" "k \<in> set (cl_locked d)"
    then have "j \<noteq> i" "c_open s j = Some d" by (auto split: if_splits)
    then have "k \<notin> set (cl_locked c)" using inv(3) assms(2) d(2) unfolding locks_disjoint_def by (metis disjoint_iff)
    then show "\<exists>row. map_of (pg_runs (c_db ?s)) k = Some row \<and> row_ready (cl_now d) row"
      using inv(2) \<open>c_open s j = Some d\<close> d(2) same by (simp add: locks_ready_def)
  qed
  moreover have "locks_disjoint ?s" using inv(3) by (auto simp: locks_disjoint_def split: if_splits)
  moreover have "leases_held ?s"
    unfolding leases_held_def
  proof (intro allI ballI)
    fix k e assume e: "e \<in> leases k (c_log ?s)"
    show "held e k (c_db ?s)"
    proof (cases "k \<in> set (cl_locked c)")
      case True
      then have "e \<le> cl_expiry c" using e past [OF True] by (fastforce split: if_splits)
      then show ?thesis using row [OF True] w(1) [of k] True by (auto simp: held_def claim_row_def StateRunning_def)
    next
      case False
      then have "held e k (c_db s)" using e inv(4) by (auto simp: leases_held_def split: if_splits)
      then show ?thesis using same [OF False] by (simp add: held_def)
    qed
  qed
  ultimately show ?thesis using w(2) inv(1,5) past by (simp add: cluster_inv_def)
qed

lemma other_inv:
  assumes "cluster_inv s" "\<not> is_claim call" "perform (postgres_ops g) call (c_db s) = (res, db)"
    and free: "\<And>k i c. update_of call = Some k \<Longrightarrow> c_open s i = Some c \<Longrightarrow> k \<notin> set (cl_locked c)"
  shows "cluster_inv (s\<lparr>c_db := db, c_log := (case update_of call of None \<Rightarrow> [] | Some k \<Rightarrow> [Updated k]) @ c_log s\<rparr>)" (is "cluster_inv ?s")
proof -
  have inv: "pg_keys (c_db s)" "locks_ready s" "locks_disjoint s" "leases_held s" "exclusive (c_log s)"
    using assms(1) by (simp_all add: cluster_inv_def)
  note rows = other_rows [OF inv(1) assms(2,3)]
  have "locks_ready ?s" using inv(2) free rows(2) unfolding locks_ready_def by (simp, metis)
  moreover have "locks_disjoint ?s" using inv(3) by (simp add: locks_disjoint_def)
  moreover have "leases_held ?s"
    unfolding leases_held_def
  proof (intro allI ballI)
    fix k e assume "e \<in> leases k (c_log ?s)"
    then have "update_of call \<noteq> Some k" "held e k (c_db s)" using inv(4) by (auto simp: leases_held_def split: option.splits if_splits)
    then show "held e k (c_db ?s)" using rows(2) [of k] by (auto simp: held_def)
  qed
  moreover have "exclusive (c_log ?s)" using inv(5) by (simp split: option.split)
  ultimately show ?thesis using rows(1) by (simp add: cluster_inv_def)
qed

lemma node_step_inv: "node_step g s s' \<Longrightarrow> cluster_inv s \<Longrightarrow> cluster_inv s'"
proof (induction rule: node_step.induct)
  case (Open s i now w l n c)
  then have "cl_locked c = []" by (auto simp: claim_open_def Let_def split: if_splits)
  then show ?case using Open by (auto simp: cluster_inv_def locks_ready_def locks_disjoint_def leases_held_def pg_keys_def held_def)
next
  case (Abort s i c)
  then show ?case by (auto simp: cluster_inv_def locks_ready_def locks_disjoint_def leases_held_def split: if_splits)
qed (blast intro: lock_inv write_inv other_inv)+

lemma node_steps_inv: "(node_step g)\<^sup>*\<^sup>* s s' \<Longrightarrow> cluster_inv s \<Longrightarrow> cluster_inv s'"
  by (induction rule: rtranclp_induct) (auto intro: node_step_inv)

section \<open>Properties\<close>

text \<open>C16: claims are exclusive across nodes that share the database. However the claims of the nodes interleave,
  each between its snapshot, its row locks and its commit, with each other and with the updates and creations
  of runs, and whatever statements fail: a run that has been claimed is claimed again only at a time after its lease,
  unless it has been updated in between. (No claim in between sets a lease that ends before its own time.)\<close>

theorem claims_exclusive:
  assumes "pg_keys db" "(node_step g)\<^sup>*\<^sup>* (idle db) s"
    and "c_log s = new @ Claimed t' e' ks' # mid @ Claimed t e ks # old"
    and "k \<in> set ks" "k \<in> set ks'" "list_all (leaves_lease k) mid"
  shows "e < t'"
proof -
  have "exclusive (c_log s)" using node_steps_inv [OF assms(2) cluster_inv_idle [OF assms(1)]] by (simp add: cluster_inv_def)
  then show ?thesis using exclusive_claims assms(3-6) by metis
qed

text \<open>Two nodes claim the same run at the same time: one gets it, the other steps over it, and a third gets it
  after the lease.\<close>

definition sample_claim :: "time \<Rightarrow> nat \<Rightarrow> string list \<Rightarrow> string list \<Rightarrow> pg_claim" where
  "sample_claim now n todo locked =
     \<lparr>cl_now = now, cl_worker = ''w'', cl_expiry = now + 3000, cl_left = n, cl_todo = todo, cl_locked = locked\<rparr>"

lemma lock_to:
  assumes "c_open s i = Some c" "\<forall>j d. j \<noteq> i \<longrightarrow> c_open s j = Some d \<longrightarrow> set (cl_locked d) \<subseteq> ks"
    "s' = s\<lparr>c_open := (c_open s)(i \<mapsto> lock_row (\<lambda>k. k \<in> ks) (c_db s) c)\<rparr>"
  shows "node_step g s s'"
  unfolding assms(3) using assms(1,2) by (intro node_step.Lock) (auto simp: locked_by_others_def)

lemma contention:
  "\<exists>s. (node_step sample_pg)\<^sup>*\<^sup>* (idle sample_table) s \<and>
     c_log s = [Claimed 6000 9000 [''r''], Claimed 2000 5000 [], Claimed 2000 5000 [''r'']]"
proof -
  let ?row = "run_row sample_pg 1000 1000 sample_run"
  define st where "st tbl n op evs = (\<lparr>c_db = \<lparr>pg_jobs = [], pg_runs = tbl, pg_stmts = n\<rparr>, c_open = op, c_log = evs\<rparr> :: sample_json cluster)" for tbl n op evs
  define t0 where "t0 = [(''r'', ?row)]"
  define t1 where "t1 = [(''r'', claim_row 2000 ''w'' 5000 ?row)]"
  define t2 where "t2 = [(''r'', claim_row 6000 ''w'' 9000 (claim_row 2000 ''w'' 5000 ?row))]"
  note defs = st_def t0_def t1_def t2_def sample_claim_def
  have ready: "row_ready 2000 ?row" "row_ready 6000 (claim_row 2000 ''w'' 5000 ?row)" "pr_id ?row = ''r''"
    "pr_id (claim_row 2000 ''w'' 5000 ?row) = ''r''"
    by (simp_all add: row_ready_def claim_row_def run_row_def sample_run_def sample_pg_def StatePending_def)
  have opens: "claim_open sample_pg (g_ts sample_pg 2000) ''w'' (g_ts sample_pg (2000 + 3000)) 10 (c_db (st t0 n op evs)) = Inr (sample_claim 2000 10 [''r''] [])"
    "claim_open sample_pg (g_ts sample_pg 6000) ''w'' (g_ts sample_pg (6000 + 3000)) 10 (c_db (st t1 n op evs)) = Inr (sample_claim 6000 10 [''r''] [])"
    for n op evs
    using ready by (simp_all add: claim_open_def defs sample_pg_def Let_def)
  let ?c = "sample_claim 2000 10 [''r''] []" and ?l = "sample_claim 2000 9 [] [''r'']" and ?e = "sample_claim 2000 10 [] []"
  have s1: "node_step sample_pg (st t0 0 Map.empty []) (st t0 1 [0 \<mapsto> ?c] [])"
    using node_step.Open [of "st t0 0 Map.empty []" 0 sample_pg 2000 "''w''" 3000 10, OF _ opens(1)] by (simp add: st_def)
  have s2: "node_step sample_pg (st t0 1 [0 \<mapsto> ?c] []) (st t0 2 [0 \<mapsto> ?c, 1 \<mapsto> ?c] [])"
    using node_step.Open [of "st t0 1 [0 \<mapsto> ?c] []" 1 sample_pg 2000 "''w''" 3000 10, OF _ opens(1)] by (simp add: st_def numeral_2_eq_2)
  have s3: "node_step sample_pg (st t0 2 [0 \<mapsto> ?c, 1 \<mapsto> ?c] []) (st t0 2 [0 \<mapsto> ?l, 1 \<mapsto> ?c] [])"
    by (rule lock_to [where i = 0 and c = ?c and ks = "{}"]) (use ready in \<open>auto simp: defs lock_row_def fun_upd_twist split: if_splits\<close>)
  have s4: "node_step sample_pg (st t0 2 [0 \<mapsto> ?l, 1 \<mapsto> ?c] []) (st t0 2 [0 \<mapsto> ?l, 1 \<mapsto> ?e] [])"
    by (rule lock_to [where i = 1 and c = ?c and ks = "{''r''}"]) (auto simp: defs lock_row_def split: if_splits)
  have s5: "node_step sample_pg (st t0 2 [0 \<mapsto> ?l, 1 \<mapsto> ?e] []) (st t1 2 [1 \<mapsto> ?e] [Claimed 2000 5000 [''r'']])"
    using node_step.Write [of "st t0 2 [0 \<mapsto> ?l, 1 \<mapsto> ?e] []" 0 ?l sample_pg "[claim_row 2000 ''w'' 5000 ?row]"]
    by (simp add: defs claim_write_def sample_pg_def fun_upd_twist Let_def)
  have s6: "node_step sample_pg (st t1 2 [1 \<mapsto> ?e] [Claimed 2000 5000 [''r'']]) (st t1 2 Map.empty [Claimed 2000 5000 [], Claimed 2000 5000 [''r'']])"
    using node_step.Write [of "st t1 2 [1 \<mapsto> ?e] [Claimed 2000 5000 [''r'']]" 1 ?e sample_pg "[]"]
    by (simp add: defs claim_write_def sample_pg_def Let_def)
  let ?evs = "[Claimed 2000 5000 [], Claimed 2000 5000 [''r'']]"
  let ?d = "sample_claim 6000 10 [''r''] []" and ?m = "sample_claim 6000 9 [] [''r'']"
  have s7: "node_step sample_pg (st t1 2 Map.empty ?evs) (st t1 3 [2 \<mapsto> ?d] ?evs)"
    using node_step.Open [of "st t1 2 Map.empty ?evs" 2 sample_pg 6000 "''w''" 3000 10, OF _ opens(2)] by (simp add: st_def numeral_3_eq_3 numeral_2_eq_2)
  have s8: "node_step sample_pg (st t1 3 [2 \<mapsto> ?d] ?evs) (st t1 3 [2 \<mapsto> ?m] ?evs)"
    by (rule lock_to [where i = 2 and c = ?d and ks = "{}"]) (use ready in \<open>auto simp: defs lock_row_def split: if_splits\<close>)
  have s9: "node_step sample_pg (st t1 3 [2 \<mapsto> ?m] ?evs) (st t2 3 Map.empty (Claimed 6000 9000 [''r''] # ?evs))"
    using node_step.Write [of "st t1 3 [2 \<mapsto> ?m] ?evs" 2 ?m sample_pg "[claim_row 6000 ''w'' 9000 (claim_row 2000 ''w'' 5000 ?row)]"]
    by (simp add: defs claim_write_def sample_pg_def Let_def)
  have "(node_step sample_pg)\<^sup>*\<^sup>* (st t0 0 Map.empty []) (st t2 3 Map.empty (Claimed 6000 9000 [''r''] # ?evs))"
    using s1 s2 s3 s4 s5 s6 s7 s8 s9 by (meson converse_rtranclp_into_rtranclp r_into_rtranclp)
  then show ?thesis by (intro exI [of _ "st t2 3 Map.empty (Claimed 6000 9000 [''r''] # ?evs)"]) (simp add: idle_def sample_table_def st_def t0_def)
qed

theorem claims_exclusive_witness:
  "\<exists>s. (node_step sample_pg)\<^sup>*\<^sup>* (idle sample_table) s \<and>
     c_log s = [Claimed 6000 9000 [''r''], Claimed 2000 5000 [], Claimed 2000 5000 [''r'']] \<and> (5000 :: time) < 6000"
proof -
  obtain s where s: "(node_step sample_pg)\<^sup>*\<^sup>* (idle sample_table) s"
    "c_log s = [Claimed 6000 9000 [''r''], Claimed 2000 5000 [], Claimed 2000 5000 [''r'']]" using contention by blast
  have "pg_keys sample_table" by (simp add: pg_keys_def sample_table_def run_row_def sample_run_def)
  from claims_exclusive [OF this s(1), of "[]" 6000 9000 "[''r'']" "[Claimed 2000 5000 []]" 2000 5000 "[''r'']" "[]" "''r''"] s
  show ?thesis by auto
qed

end
