(* ===== verification/GoMux.thy ===== *)
theory GoMux
  imports Prelude
begin

text \<open>
  The part of Go's \<^verbatim>\<open>net/http\<close> the API uses: \<^verbatim>\<open>ServeMux\<close> with method patterns, and a \<^verbatim>\<open>ResponseWriter\<close>. A
  clean request path is the list of its segments after the leading slash; a path that ends with a
  slash has an empty last segment, and \<^verbatim>\<open>/\<close> alone is one empty segment. The mux finds the handler by
  walking a tree of patterns, a literal segment before a wildcard and a wildcard before the rest.
\<close>

section \<open>Patterns\<close>

text \<open>\<^verbatim>\<open>/a/{id}/{$}\<close>: \<open>Lit\<close>, \<open>Wild\<close>, \<open>Slash\<close>; a final \<^verbatim>\<open>/\<close> that matches every continuation is \<open>Rest\<close>.\<close>

datatype segment = Lit string | Wild | Slash | Rest

type_synonym pattern = "segment list"

text \<open>The entries below one edge of the tree.\<close>

definition below :: "(segment \<Rightarrow> bool) \<Rightarrow> (pattern \<times> 'h) list \<Rightarrow> (pattern \<times> 'h) list" where
  "below P es = map (\<lambda>(p, h). (tl p, h)) (filter (\<lambda>(p, h). p \<noteq> [] \<and> P (hd p)) es)"

definition leaf :: "(pattern \<times> 'h) list \<Rightarrow> 'h option" where
  "leaf es = map_option snd (find (\<lambda>(p, h). p = []) es)"

definition or_else :: "'a option \<Rightarrow> 'a option \<Rightarrow> 'a option" where
  "or_else a b = (case a of Some x \<Rightarrow> Some x | None \<Rightarrow> b)"

text \<open>The handler of a path and the segments its wildcards matched. A wildcard needs a non-empty segment.\<close>

fun match_path :: "(pattern \<times> 'h) list \<Rightarrow> string list \<Rightarrow> ('h \<times> string list) option" where
  "match_path es [] = map_option (\<lambda>h. (h, [])) (leaf es)"
| "match_path es (seg # segs) =
     or_else (match_path (below (\<lambda>s. s = Lit seg) es) segs)
     (or_else (if seg = [] \<and> segs = [] then map_option (\<lambda>h. (h, [])) (leaf (below (\<lambda>s. s = Slash) es)) else None)
     (or_else (if seg \<noteq> [] then map_option (\<lambda>(h, vs). (h, seg # vs)) (match_path (below (\<lambda>s. s = Wild) es) segs) else None)
        (map_option (\<lambda>h. (h, [])) (leaf (below (\<lambda>s. s = Rest) es)))))"

section \<open>Routing\<close>

text \<open>An entry is a method, a pattern and a handler. A \<^verbatim>\<open>HEAD\<close> request without an entry of its own uses those
  for \<^verbatim>\<open>GET\<close>.\<close>

type_synonym 'h mux = "(string \<times> pattern \<times> 'h) list"

definition entries :: "'h mux \<Rightarrow> string \<Rightarrow> (pattern \<times> pattern \<times> 'h) list" where
  "entries m meth = map (\<lambda>(_, p, h). (p, p, h)) (filter (\<lambda>(mt, p, h). mt = meth) m)"

definition mux_match :: "'h mux \<Rightarrow> string \<Rightarrow> string list \<Rightarrow> ((pattern \<times> 'h) \<times> string list) option" where
  "mux_match m meth path =
     or_else (match_path (entries m meth) path)
       (if meth = ''HEAD'' then match_path (entries m ''GET'') path else None)"

text \<open>A match of the rest is exact if the rest is empty. A path without final slash that has no exact match is
  redirected if it has one with the slash.\<close>

definition exact :: "((pattern \<times> 'h) \<times> string list) option \<Rightarrow> string list \<Rightarrow> bool" where
  "exact r path =
     (case r of None \<Rightarrow> False
      | Some ((p, h), _) \<Rightarrow> last p \<noteq> Rest \<or> last path = [] \<and> length p = length path)"

datatype 'h routed = Handler 'h "string list" | Redirected "string list" | NotAllowed | NoRoute

definition route :: "'h mux \<Rightarrow> string \<Rightarrow> string list \<Rightarrow> 'h routed" where
  "route m meth path =
     (let r = mux_match m meth path
      in if \<not> exact r path \<and> last path \<noteq> [] \<and> exact (mux_match m meth (path @ [[]])) (path @ [[]])
         then Redirected (path @ [[]])
         else case r of
           Some ((p, h), vs) \<Rightarrow> Handler h vs
         | None \<Rightarrow> if list_ex (\<lambda>(mt, p, h). match_path (entries m mt) path \<noteq> None) m then NotAllowed else NoRoute)"

section \<open>Responses\<close>

text \<open>The status is the one of the first \<^verbatim>\<open>WriteHeader\<close>; a write without one sends 200 first.\<close>

record 'b writer =
  rw_status :: "int option"
  rw_type :: string
  rw_body :: "'b list"

definition new_writer :: "'b writer" where
  "new_writer = \<lparr>rw_status = None, rw_type = [], rw_body = []\<rparr>"

definition http_WriteHeader :: "int \<Rightarrow> 'b writer \<Rightarrow> 'b writer" where
  "http_WriteHeader code w = (case rw_status w of None \<Rightarrow> w\<lparr>rw_status := Some code\<rparr> | Some _ \<Rightarrow> w)"

definition http_Write :: "'b \<Rightarrow> 'b writer \<Rightarrow> 'b writer" where
  "http_Write b w = (let w = http_WriteHeader 200 w in w\<lparr>rw_body := rw_body w @ [b]\<rparr>)"

section \<open>Lemmas\<close>

lemma or_else_simps [simp]: "or_else (Some x) b = Some x" "or_else None b = b"
  by (simp_all add: or_else_def)

lemma below_Nil [simp]: "below P [] = []"
  by (simp add: below_def)

lemma match_path_Nil [simp]: "match_path [] path = None"
  by (induction path) (simp_all add: leaf_def)

lemma below_Cons [simp]:
  "below P ((p, h) # es) = (if p \<noteq> [] \<and> P (hd p) then (tl p, h) # below P es else below P es)"
  by (simp add: below_def)

lemma leaf_simps [simp]: "leaf [] = None" "leaf ((p, h) # es) = (if p = [] then Some h else leaf es)"
  by (simp_all add: leaf_def)

lemma http_WriteHeader_new [simp]: "rw_status w = None \<Longrightarrow> http_WriteHeader code w = w\<lparr>rw_status := Some code\<rparr>"
  by (simp add: http_WriteHeader_def)

end
