(* ===== verification/Api.thy ===== *)
theory Api
  imports Scheduler GoMux
begin

text \<open>
  The HTTP interface (\<^verbatim>\<open>src/internal/api\<close>): the routes, the handlers and the responses they write, over an
  arbitrary store. A handler works on the status recorder that the logging wrapper puts around the
  connection's \<^verbatim>\<open>ResponseWriter\<close>. What the transport decodes is part of the request: the query
  parameters and the outcome of decoding the body as a job. The handlers of other packages (the
  Prometheus exposition, the static file server) are fields of the server.
\<close>

section \<open>Requests and responses\<close>

text \<open>The text of an error is left as the error that is rendered.\<close>

datatype message = Text string | StoreText string store_error | CronText cron_error | DecodeText string

datatype body =
    JobsJSON "Job list"
  | JobJSON Job
  | RunsJSON "Run list"
  | RunJSON Run
  | MapJSON "(string, string) gomap"
  | ErrorJSON message
  | Page string
  | Plain string

record request =
  q_Method :: string
  q_Path :: "string list"
  q_Query :: "string \<Rightarrow> string"
  q_Body :: "string + Job"
  q_PathValue :: string

record statusRecorder =
  sr_writer :: "body writer"
  sr_status :: int

definition WriteHeader :: "int \<Rightarrow> statusRecorder \<Rightarrow> statusRecorder" where
  "WriteHeader code r = r\<lparr>sr_status := code, sr_writer := http_WriteHeader code (sr_writer r)\<rparr>"

text \<open>\<^verbatim>\<open>Header().Set\<close> and \<^verbatim>\<open>Write\<close> are those of the embedded writer.\<close>

definition set_type :: "string \<Rightarrow> statusRecorder \<Rightarrow> statusRecorder" where
  "set_type t r = r\<lparr>sr_writer := (sr_writer r)\<lparr>rw_type := t\<rparr>\<rparr>"

definition write_body :: "body \<Rightarrow> statusRecorder \<Rightarrow> statusRecorder" where
  "write_body b r = r\<lparr>sr_writer := http_Write b (sr_writer r)\<rparr>"

definition writeJSON :: "int \<Rightarrow> body \<Rightarrow> statusRecorder \<Rightarrow> statusRecorder" where
  "writeJSON status v r = write_body v (WriteHeader status (set_type ''application/json; charset=utf-8'' r))"

definition writeError :: "int \<Rightarrow> message \<Rightarrow> statusRecorder \<Rightarrow> statusRecorder" where
  "writeError status msg = writeJSON status (ErrorJSON msg)"

definition writeStoreError :: "store_error \<Rightarrow> statusRecorder \<Rightarrow> statusRecorder" where
  "writeStoreError err =
     (if err = ErrNotFound then writeError 404 (Text ''not found'') else writeError 500 (StoreText [] err))"

section \<open>The server\<close>

text \<open>A missing \<open>sv_scheduler\<close> is a nil pointer, a missing \<open>sv_gatherer\<close> a nil interface. \<open>sv_web\<close> is what
  opening the embedded assets gives: the file server and the index page, if they can be read.\<close>

record Server =
  sv_scheduler :: "Scheduler option"
  sv_gatherer :: "(statusRecorder \<Rightarrow> statusRecorder) option"
  sv_web :: "((string list \<Rightarrow> statusRecorder \<Rightarrow> statusRecorder) \<times> string option) option"
  sv_now :: "nat \<Rightarrow> time"
  sv_version :: string

type_synonym 's handler = "request \<Rightarrow> statusRecorder \<Rightarrow> 's world \<Rightarrow> statusRecorder \<times> 's world"

definition time_Now :: "Server \<Rightarrow> 's world \<Rightarrow> time \<times> 's world" where
  "time_Now srv w = (sv_now srv (w_clock w), w\<lparr>w_clock := w_clock w + 1\<rparr>)"

section \<open>Jobs\<close>

definition handleListJobs :: "'s store_ops \<Rightarrow> 's handler" where
  "handleListJobs ops q r w =
     (case call (st_ListJobs ops) w of
        (Inl err, w) \<Rightarrow> (writeError 500 (StoreText [] err) r, w)
      | (Inr jobs, w) \<Rightarrow> (writeJSON 200 (JobsJSON jobs) r, w))"

definition stamped :: "time \<Rightarrow> Job \<Rightarrow> Job" where
  "stamped now j =
     (let j = (if IsZero (j_CreatedAt j) then j\<lparr>j_CreatedAt := now\<rparr> else j)
      in j\<lparr>j_UpdatedAt := now\<rparr>)"

definition handleCreateJob :: "'s store_ops \<Rightarrow> Server \<Rightarrow> 's handler" where
  "handleCreateJob ops srv q r w =
     (case q_Body q of
        Inl err \<Rightarrow> (writeError 400 (DecodeText err) r, w)
      | Inr j \<Rightarrow>
          if j_ID j = [] then (writeError 400 (Text ''job id is required'') r, w)
          else case (if j_Spec j \<noteq> [] then (case Parse (j_Spec j) of Inl err \<Rightarrow> Some err | Inr _ \<Rightarrow> None) else None) of
            Some err \<Rightarrow> (writeError 400 (CronText err) r, w)
          | None \<Rightarrow>
              (let (now, w) = time_Now srv w;
                   j = stamped now j
               in case call (st_PutJob ops j) w of
                    (Inl err, w) \<Rightarrow> (writeError 500 (StoreText [] err) r, w)
                  | (Inr _, w) \<Rightarrow> (writeJSON 201 (JobJSON j) r, w)))"

definition handleGetJob :: "'s store_ops \<Rightarrow> 's handler" where
  "handleGetJob ops q r w =
     (case call (st_GetJob ops (q_PathValue q)) w of
        (Inl err, w) \<Rightarrow> (writeStoreError err r, w)
      | (Inr j, w) \<Rightarrow> (writeJSON 200 (JobJSON j) r, w))"

definition handleDeleteJob :: "'s store_ops \<Rightarrow> 's handler" where
  "handleDeleteJob ops q r w =
     (case call (st_DeleteJob ops (q_PathValue q)) w of
        (Inl err, w) \<Rightarrow> (writeStoreError err r, w)
      | (Inr _, w) \<Rightarrow> (WriteHeader 204 r, w))"

definition handleTriggerJob :: "'s store_ops \<Rightarrow> Server \<Rightarrow> 's handler" where
  "handleTriggerJob ops srv q r w =
     (case sv_scheduler srv of
        None \<Rightarrow> (writeError 503 (Text ''scheduler not available'') r, w)
      | Some s \<Rightarrow>
          (case Trigger ops (s_env s) (q_PathValue q) w of
             (Inl err, w) \<Rightarrow> (writeStoreError err r, w)
           | (Inr run, w) \<Rightarrow> (writeJSON 202 (RunJSON run) r, w)))"

section \<open>Runs, health and the rest\<close>

definition atoiDefault :: "string \<Rightarrow> int \<Rightarrow> int" where
  "atoiDefault s d =
     (if s = [] then d
      else case Atoi s of Inl err \<Rightarrow> d | Inr n \<Rightarrow> if n < 0 then d else n)"

definition query_filter :: "request \<Rightarrow> RunFilter" where
  "query_filter q =
     \<lparr>f_JobID = q_Query q ''job'', f_BatchID = q_Query q ''batch'', f_State = q_Query q ''state'',
      f_Limit = atoiDefault (q_Query q ''limit'') 100, f_Offset = atoiDefault (q_Query q ''offset'') 0\<rparr>"

definition handleListRuns :: "'s store_ops \<Rightarrow> 's handler" where
  "handleListRuns ops q r w =
     (case call (st_ListRuns ops (query_filter q)) w of
        (Inl err, w) \<Rightarrow> (writeError 500 (StoreText [] err) r, w)
      | (Inr runs, w) \<Rightarrow> (writeJSON 200 (RunsJSON runs) r, w))"

definition handleGetRun :: "'s store_ops \<Rightarrow> 's handler" where
  "handleGetRun ops q r w =
     (case call (st_GetRun ops (q_PathValue q)) w of
        (Inl err, w) \<Rightarrow> (writeStoreError err r, w)
      | (Inr run, w) \<Rightarrow> (writeJSON 200 (RunJSON run) r, w))"

definition handleHealth :: "Server \<Rightarrow> 's handler" where
  "handleHealth srv q r w = (writeJSON 200 (MapJSON [(''status'', ''ok''), (''version'', sv_version srv)]) r, w)"

definition handleReady :: "'s store_ops \<Rightarrow> 's handler" where
  "handleReady ops q r w =
     (case call (st_ListJobs ops) w of
        (Inl err, w) \<Rightarrow> (writeError 503 (StoreText ''store unavailable: '' err) r, w)
      | (Inr _, w) \<Rightarrow> (writeJSON 200 (MapJSON [(''status'', ''ready'')]) r, w))"

definition serviceInfo :: "'s handler" where
  "serviceInfo q r w =
     (writeJSON 200 (MapJSON [(''service'', ''cronflux''), (''api'', ''/api''), (''metrics'', ''/metrics'')]) r, w)"

definition handleRoot :: "'s handler" where
  "handleRoot q r w = (writeError 404 (Text ''not found'') r, w)"

definition serveIndex :: "string \<Rightarrow> 's handler" where
  "serveIndex index q r w = (write_body (Page index) (set_type ''text/html; charset=utf-8'' r), w)"

section \<open>Routes\<close>

definition registerJobRoutes :: "'s store_ops \<Rightarrow> Server \<Rightarrow> 's handler mux" where
  "registerJobRoutes ops srv =
     [(''GET'', [Lit ''api'', Lit ''jobs''], handleListJobs ops),
      (''POST'', [Lit ''api'', Lit ''jobs''], handleCreateJob ops srv),
      (''GET'', [Lit ''api'', Lit ''jobs'', Wild], handleGetJob ops),
      (''DELETE'', [Lit ''api'', Lit ''jobs'', Wild], handleDeleteJob ops),
      (''POST'', [Lit ''api'', Lit ''jobs'', Wild, Lit ''trigger''], handleTriggerJob ops srv)]"

definition registerRunRoutes :: "'s store_ops \<Rightarrow> 's handler mux" where
  "registerRunRoutes ops =
     [(''GET'', [Lit ''api'', Lit ''runs''], handleListRuns ops),
      (''GET'', [Lit ''api'', Lit ''runs'', Wild], handleGetRun ops)]"

definition registerHealthRoutes :: "'s store_ops \<Rightarrow> Server \<Rightarrow> 's handler mux" where
  "registerHealthRoutes ops srv =
     [(''GET'', [Lit ''healthz''], handleHealth srv),
      (''GET'', [Lit ''readyz''], handleReady ops)]"

text \<open>\<^verbatim>\<open>http.StripPrefix("/ui/", ...)\<close> hands the file server the path below \<^verbatim>\<open>/ui/\<close>.\<close>

definition registerDashboard :: "Server \<Rightarrow> 's handler mux" where
  "registerDashboard srv =
     (case sv_web srv of
        None \<Rightarrow> []
      | Some (files, index) \<Rightarrow>
          (''GET'', [Lit ''ui'', Rest], \<lambda>q r w. (files (tl (q_Path q)) r, w)) #
          (case index of None \<Rightarrow> [] | Some html \<Rightarrow> [(''GET'', [Slash], serveIndex html)]))"

definition routes :: "'s store_ops \<Rightarrow> Server \<Rightarrow> 's handler mux" where
  "routes ops srv =
     registerJobRoutes ops srv @ registerRunRoutes ops @ registerHealthRoutes ops srv @
     [(''GET'', [Lit ''api''], serviceInfo)] @
     (case sv_gatherer srv of None \<Rightarrow> [] | Some g \<Rightarrow> [(''GET'', [Lit ''metrics''], \<lambda>q r w. (g r, w))]) @
     registerDashboard srv @
     [(''GET'', [Rest], handleRoot)]"

text \<open>The mux itself answers redirects and methods without a handler.\<close>

definition ServeHTTP :: "'s handler mux \<Rightarrow> 's handler" where
  "ServeHTTP mux q r w =
     (case route mux (q_Method q) (q_Path q) of
        Handler h vs \<Rightarrow> h (q\<lparr>q_PathValue := (case vs of [] \<Rightarrow> [] | v # _ \<Rightarrow> v)\<rparr>) r w
      | Redirected path \<Rightarrow> (write_body (Plain ''Moved Permanently'') (WriteHeader 301 r), w)
      | NotAllowed \<Rightarrow> (write_body (Plain ''Method Not Allowed'') (WriteHeader 405 r), w)
      | NoRoute \<Rightarrow> (write_body (Plain ''404 page not found'') (WriteHeader 404 r), w))"

text \<open>The wrapper gives the response as sent and the status it logs.\<close>

definition withLogging :: "'s handler \<Rightarrow> request \<Rightarrow> body writer \<Rightarrow> 's world \<Rightarrow> (body writer \<times> int) \<times> 's world" where
  "withLogging nxt q rw w =
     (let (r, w) = nxt q \<lparr>sr_writer = rw, sr_status = 200\<rparr> w
      in ((sr_writer r, sr_status r), w))"

definition serve :: "'s store_ops \<Rightarrow> Server \<Rightarrow> request \<Rightarrow> 's world \<Rightarrow> (body writer \<times> int) \<times> 's world" where
  "serve ops srv q w = withLogging (ServeHTTP (routes ops srv)) q new_writer w"

section \<open>The routing table\<close>

text \<open>Where a request goes, written out by method and path.\<close>

definition below_ui :: "Server \<Rightarrow> string list \<Rightarrow> 's handler routed" where
  "below_ui srv path =
     (case sv_web srv of
        Some (files, index) \<Rightarrow> if hd path = ''ui'' then Handler (\<lambda>q r w. (files (tl (q_Path q)) r, w)) [] else Handler handleRoot []
      | None \<Rightarrow> Handler handleRoot [])"

definition get_endpoint :: "'s store_ops \<Rightarrow> Server \<Rightarrow> string list \<Rightarrow> 's handler routed" where
  "get_endpoint ops srv path =
     (case path of
        [a] \<Rightarrow>
          if a = ''api'' then Handler serviceInfo []
          else if a = ''healthz'' then Handler (handleHealth srv) []
          else if a = ''readyz'' then Handler (handleReady ops) []
          else if a = ''metrics'' then (case sv_gatherer srv of Some g \<Rightarrow> Handler (\<lambda>q r w. (g r, w)) [] | None \<Rightarrow> Handler handleRoot [])
          else if a = ''ui'' then (case sv_web srv of Some _ \<Rightarrow> Redirected [a, []] | None \<Rightarrow> Handler handleRoot [])
          else if a = [] then (case sv_web srv of Some (_, Some html) \<Rightarrow> Handler (serveIndex html) [] | _ \<Rightarrow> Handler handleRoot [])
          else Handler handleRoot []
      | [a, b] \<Rightarrow>
          if a = ''api'' \<and> b = ''jobs'' then Handler (handleListJobs ops) []
          else if a = ''api'' \<and> b = ''runs'' then Handler (handleListRuns ops) []
          else below_ui srv path
      | [a, b, c] \<Rightarrow>
          if a = ''api'' \<and> b = ''jobs'' \<and> c \<noteq> [] then Handler (handleGetJob ops) [c]
          else if a = ''api'' \<and> b = ''runs'' \<and> c \<noteq> [] then Handler (handleGetRun ops) [c]
          else below_ui srv path
      | _ \<Rightarrow> below_ui srv path)"

definition endpoint :: "'s store_ops \<Rightarrow> Server \<Rightarrow> string \<Rightarrow> string list \<Rightarrow> 's handler routed" where
  "endpoint ops srv meth path =
     (if meth = ''GET'' \<or> meth = ''HEAD'' then get_endpoint ops srv path
      else if meth = ''POST'' \<and> path = [''api'', ''jobs''] then Handler (handleCreateJob ops srv) []
      else case path of
        [a, b, k] \<Rightarrow>
          if meth = ''DELETE'' \<and> a = ''api'' \<and> b = ''jobs'' \<and> k \<noteq> [] then Handler (handleDeleteJob ops) [k] else NotAllowed
      | [a, b, k, c] \<Rightarrow>
          if meth = ''POST'' \<and> a = ''api'' \<and> b = ''jobs'' \<and> k \<noteq> [] \<and> c = ''trigger'' then Handler (handleTriggerJob ops srv) [k] else NotAllowed
      | _ \<Rightarrow> NotAllowed)"

lemmas register_defs = routes_def registerJobRoutes_def registerRunRoutes_def registerHealthRoutes_def registerDashboard_def

lemma entries_simps [simp]:
  "entries [] meth = []"
  "entries ((mt, p, h) # m) meth = (if mt = meth then (p, p, h) # entries m meth else entries m meth)"
  by (simp_all add: entries_def)

lemma entries_append [simp]: "entries (m @ n) meth = entries m meth @ entries n meth"
  by (simp add: entries_def)

lemma post_entries:
  "entries (routes ops srv) ''POST'' =
     [([Lit ''api'', Lit ''jobs''], [Lit ''api'', Lit ''jobs''], handleCreateJob ops srv),
      ([Lit ''api'', Lit ''jobs'', Wild, Lit ''trigger''], [Lit ''api'', Lit ''jobs'', Wild, Lit ''trigger''], handleTriggerJob ops srv)]"
  by (simp add: register_defs split: option.split)

lemma delete_entries:
  "entries (routes ops srv) ''DELETE'' =
     [([Lit ''api'', Lit ''jobs'', Wild], [Lit ''api'', Lit ''jobs'', Wild], handleDeleteJob ops)]"
  by (simp add: register_defs split: option.split)

lemma other_entries:
  "meth \<noteq> ''GET'' \<Longrightarrow> meth \<noteq> ''POST'' \<Longrightarrow> meth \<noteq> ''DELETE'' \<Longrightarrow> entries (routes ops srv) meth = []"
  by (simp add: register_defs split: option.split)

lemma match_leaf [simp]: "match_path [([], h)] path = (case path of [] \<Rightarrow> Some (h, []) | _ \<Rightarrow> None)"
  by (cases path) simp_all

lemma match_DELETE:
  "mux_match (routes ops srv) ''DELETE'' path =
     (case path of [a, b, k] \<Rightarrow>
        if a = ''api'' \<and> b = ''jobs'' \<and> k \<noteq> [] then Some (([Lit ''api'', Lit ''jobs'', Wild], handleDeleteJob ops), [k]) else None
      | _ \<Rightarrow> None)"
  by (simp add: mux_match_def delete_entries split: list.split)

lemma match_POST:
  "mux_match (routes ops srv) ''POST'' path =
     (case path of
        [a, b] \<Rightarrow> if a = ''api'' \<and> b = ''jobs'' then Some (([Lit ''api'', Lit ''jobs''], handleCreateJob ops srv), []) else None
      | [a, b, k, c] \<Rightarrow>
          if a = ''api'' \<and> b = ''jobs'' \<and> k \<noteq> [] \<and> c = ''trigger''
          then Some (([Lit ''api'', Lit ''jobs'', Wild, Lit ''trigger''], handleTriggerJob ops srv), [k]) else None
      | _ \<Rightarrow> None)"
  by (simp add: mux_match_def post_entries split: list.split)

lemma match_GET_api:
  "match_path (entries (routes ops srv) ''GET'') (''api'' # path) = Some
     (case path of
        [] \<Rightarrow> (([Lit ''api''], serviceInfo), [])
      | [b] \<Rightarrow>
          if b = ''jobs'' then (([Lit ''api'', Lit ''jobs''], handleListJobs ops), [])
          else if b = ''runs'' then (([Lit ''api'', Lit ''runs''], handleListRuns ops), [])
          else (([Rest], handleRoot), [])
      | [b, k] \<Rightarrow>
          if b = ''jobs'' \<and> k \<noteq> [] then (([Lit ''api'', Lit ''jobs'', Wild], handleGetJob ops), [k])
          else if b = ''runs'' \<and> k \<noteq> [] then (([Lit ''api'', Lit ''runs'', Wild], handleGetRun ops), [k])
          else (([Rest], handleRoot), [])
      | _ \<Rightarrow> (([Rest], handleRoot), []))"
  by (cases "sv_gatherer srv"; cases "sv_web srv")
    (simp_all add: register_defs split: list.split option.split prod.split)

lemma match_GET_other:
  assumes "a \<noteq> ''api''"
  shows "match_path (entries (routes ops srv) ''GET'') (a # path) = Some
     (if a = ''healthz'' \<and> path = [] then (([Lit ''healthz''], handleHealth srv), [])
      else if a = ''readyz'' \<and> path = [] then (([Lit ''readyz''], handleReady ops), [])
      else if a = ''metrics'' \<and> path = [] \<and> sv_gatherer srv \<noteq> None then (([Lit ''metrics''], \<lambda>q r w. (the (sv_gatherer srv) r, w)), [])
      else if a = ''ui'' \<and> path \<noteq> [] \<and> sv_web srv \<noteq> None then (([Lit ''ui'', Rest], \<lambda>q r w. (fst (the (sv_web srv)) (tl (q_Path q)) r, w)), [])
      else if a = [] \<and> path = [] \<and> sv_web srv \<noteq> None \<and> snd (the (sv_web srv)) \<noteq> None
      then (([Slash], serveIndex (the (snd (the (sv_web srv))))), [])
      else (([Rest], handleRoot), []))"
  using assms by (cases "sv_gatherer srv"; cases "sv_web srv")
    (simp_all add: register_defs split: list.split option.split prod.split)

declare match_path.simps(2) [simp del]

lemma get_always:
  assumes "path \<noteq> []"
  obtains p h vs where "match_path (entries (routes ops srv) ''GET'') path = Some ((p, h), vs)"
  using assms match_GET_api [of ops srv "tl path"] match_GET_other [of "hd path" ops srv "tl path"]
  by (cases path; cases "hd path = ''api''") (auto split: if_splits list.splits)

lemma mux_match_other:
  assumes "meth \<noteq> ''GET''" "meth \<noteq> ''HEAD''" "meth \<noteq> ''POST''" "meth \<noteq> ''DELETE''"
  shows "mux_match (routes ops srv) meth path = None"
  using assms by (simp add: mux_match_def other_entries)

lemma mux_match_GET:
  assumes "meth = ''GET'' \<or> meth = ''HEAD''" "path \<noteq> []"
  shows "mux_match (routes ops srv) meth path = match_path (entries (routes ops srv) ''GET'') path"
proof -
  obtain p h vs where "match_path (entries (routes ops srv) ''GET'') path = Some ((p, h), vs)" using get_always [OF assms(2)] by blast
  then show ?thesis using assms(1) by (auto simp: mux_match_def other_entries)
qed

lemma no_route_NotAllowed:
  assumes "path \<noteq> []"
  shows "list_ex (\<lambda>(mt, p, h). match_path (entries (routes ops srv) mt) path \<noteq> None) (routes ops srv)"
proof -
  obtain p h vs where "match_path (entries (routes ops srv) ''GET'') path = Some ((p, h), vs)" using get_always [OF assms] by blast
  moreover have "(''GET'', [Lit ''api''], serviceInfo) \<in> set (routes ops srv)" by (simp add: routes_def)
  ultimately show ?thesis unfolding list_ex_iff by force
qed

lemma exact_simps [simp]:
  "exact None path = False"
  "exact (Some ((p, h), vs)) path = (last p \<noteq> Rest \<or> last path = [] \<and> length p = length path)"
  by (simp_all add: exact_def)

lemma exact_slash:
  "exact (match_path (entries (routes ops srv) ''GET'') (a # rest @ [[]])) (a # rest @ [[]]) \<longleftrightarrow>
     a = ''ui'' \<and> rest = [] \<and> sv_web srv \<noteq> None"
proof (cases "a = ''api''")
  case True
  have "match_path (entries (routes ops srv) ''GET'') (''api'' # rest @ [[]]) = Some (([Rest], handleRoot), [])"
    unfolding match_GET_api by (cases rest; cases "tl rest"; cases "tl (tl rest)") auto
  then show ?thesis using True by simp
next
  case False
  then show ?thesis unfolding match_GET_other [OF False] by auto
qed

lemma route_GET:
  assumes "meth = ''GET'' \<or> meth = ''HEAD''"
  shows "route (routes ops srv) meth (a # rest) =
    (if a = ''ui'' \<and> rest = [] \<and> sv_web srv \<noteq> None then Redirected [a, []]
     else case match_path (entries (routes ops srv) ''GET'') (a # rest) of Some ((p, h), vs) \<Rightarrow> Handler h vs)"
proof -
  obtain p h vs where m: "match_path (entries (routes ops srv) ''GET'') (a # rest) = Some ((p, h), vs)"
    using get_always [of "a # rest"] by blast
  have "\<not> exact (Some ((p, h), vs)) (a # rest)" if "a = ''ui''" "rest = []"
    using m that by (auto simp: match_GET_other)
  then show ?thesis
    using m mux_match_GET [OF assms, of "a # rest" ops srv] mux_match_GET [OF assms, of "a # rest @ [[]]" ops srv] exact_slash [of ops srv a rest]
    by (auto simp: route_def Let_def)
qed

lemma route_GET_endpoint:
  assumes "meth = ''GET'' \<or> meth = ''HEAD''" "path \<noteq> []"
  shows "route (routes ops srv) meth path = get_endpoint ops srv path"
proof -
  obtain a rest where path: "path = a # rest" using assms(2) by (cases path) auto
  show ?thesis
  proof (cases "a = ''api''")
    case True
    then show ?thesis unfolding path route_GET [OF assms(1)]
      by (simp add: match_GET_api get_endpoint_def below_ui_def split: list.split option.split)
  next
    case False
    then show ?thesis unfolding path route_GET [OF assms(1)] match_GET_other [OF False]
      by (simp add: get_endpoint_def below_ui_def split: list.split option.split)
  qed
qed

lemma route_spec:
  assumes "path \<noteq> []"
  shows "route (routes ops srv) meth path = endpoint ops srv meth path"
proof -
  note na = no_route_NotAllowed [OF assms, of ops srv]
  consider "meth = ''GET'' \<or> meth = ''HEAD''" | "meth = ''POST''" | "meth = ''DELETE''"
    | "meth \<noteq> ''GET''" "meth \<noteq> ''HEAD''" "meth \<noteq> ''POST''" "meth \<noteq> ''DELETE''" by blast
  then show ?thesis
  proof cases
    case 1
    then show ?thesis using route_GET_endpoint [OF 1 assms] by (auto simp: endpoint_def)
  next
    case 2
    then show ?thesis using na
      by (auto simp: route_def Let_def match_POST endpoint_def append_eq_Cons_conv split: list.splits)
  next
    case 3
    then show ?thesis using na
      by (auto simp: route_def Let_def match_DELETE endpoint_def append_eq_Cons_conv split: list.splits)
  next
    case 4
    then show ?thesis using na by (simp add: route_def mux_match_other endpoint_def split: list.split)
  qed
qed

end
