(* ===== verification/Service.thy ===== *)
theory Service
  imports Api Lifecycle
begin

text \<open>
  What the HTTP interface does to the system: the effect of a request on the jobs and runs of any
  store that satisfies the contract, the invariants that passes of the scheduler and requests keep
  together, and the answers of the job endpoints.
\<close>

section \<open>Effects of requests\<close>

text \<open>A job the interface accepts: it has an identifier, and its expression is empty or well formed.\<close>

definition job_valid :: "Job \<Rightarrow> bool" where
  "job_valid j \<longleftrightarrow> j_ID j \<noteq> [] \<and> (j_Spec j = [] \<or> \<not> isl (Parse (j_Spec j)))"

inductive job_change :: "(string \<rightharpoonup> Job) \<Rightarrow> (string \<rightharpoonup> Job) \<Rightarrow> bool" for J where
  Keep: "job_change J J"
| Put: "job_valid j \<Longrightarrow> job_change J (J(j_ID j \<mapsto> j))"
| Delete: "job_change J (J(k := None))"

inductive_cases job_changeE: "job_change J J'"

lemma job_change_valid: "job_change J J' \<Longrightarrow> j \<in> ran J' \<Longrightarrow> j \<in> ran J \<or> job_valid j"
  by (erule job_changeE) (auto simp: ran_def split: if_splits)

lemma stamped_sel [simp]: "j_ID (stamped now j) = j_ID j" "j_Spec (stamped now j) = j_Spec j"
  by (simp_all add: stamped_def Let_def)

lemma job_valid_stamped [simp]: "job_valid (stamped now j) = job_valid j"
  by (simp add: job_valid_def)

context store_contract
begin

definition request_effect :: "env \<Rightarrow> 's world \<Rightarrow> 's world \<Rightarrow> bool" where
  "request_effect env w w' \<longleftrightarrow> world_ok env w' \<and> job_change (jobs_of (w_store w)) (jobs_of (w_store w')) \<and>
     (enqueue (jobs_of (w_store w)))\<^sup>*\<^sup>* (runs_of (w_store w)) (runs_of (w_store w'))"

definition benign :: "env \<Rightarrow> 's handler \<Rightarrow> bool" where
  "benign env h \<longleftrightarrow> (\<forall>q r w r' w'. world_ok env w \<longrightarrow> h q r w = (r', w') \<longrightarrow> request_effect env w w')"

lemma effect_same: "world_ok env w' \<Longrightarrow> same_data w w' \<Longrightarrow> request_effect env w w'"
  by (simp add: request_effect_def same_data_def Keep)

lemma call_PutJob:
  assumes "world_ok env w" "call (st_PutJob ops j) w = (res, w')" "job_valid j"
  shows "request_effect env w w'"
proof -
  obtain s where s: "st_PutJob ops j (w_store w) = (res, s)" "w' = w\<lparr>w_store := s\<rparr>"
    using assms(2) by (auto simp: call_def split: prod.splits)
  show ?thesis using PutJob_law [OF _ s(1)] assms(1,3) s(2)
    by (auto simp: request_effect_def world_ok_def intro: job_change.intros split: sum.splits)
qed

lemma call_DeleteJob:
  assumes "world_ok env w" "call (st_DeleteJob ops k) w = (res, w')"
  shows "request_effect env w w'"
proof -
  obtain s where s: "st_DeleteJob ops k (w_store w) = (res, s)" "w' = w\<lparr>w_store := s\<rparr>"
    using assms(2) by (auto simp: call_def split: prod.splits)
  show ?thesis using DeleteJob_law [OF _ s(1)] assms(1) s(2)
    by (auto simp: request_effect_def world_ok_def intro: job_change.intros split: sum.splits)
qed

lemma call_GetRun:
  assumes "world_ok env w" "call (st_GetRun ops k) w = (res, w')"
  shows "request_effect env w w'"
proof -
  obtain s where s: "st_GetRun ops k (w_store w) = (res, s)" "w' = w\<lparr>w_store := s\<rparr>"
    using assms(2) by (auto simp: call_def split: prod.splits)
  show ?thesis using GetRun_law [OF _ s(1)] assms(1) s(2) by (intro effect_same) (auto simp: world_ok_def same_data_def)
qed

lemma reading_effects:
  assumes "world_ok env w"
  shows "call (st_ListJobs ops) w = (a, w') \<Longrightarrow> request_effect env w w'"
    "call (st_GetJob ops k) w = (b, w') \<Longrightarrow> request_effect env w w'"
    "call (st_ListRuns ops f) w = (c, w') \<Longrightarrow> request_effect env w w'"
  using call_ListJobs(1,2) [OF assms] call_GetJob(1,2) [OF assms] call_ListRuns(1,2) [OF assms] effect_same by blast+

lemma benign_readers:
  "benign env (handleListJobs ops)" "benign env (handleGetJob ops)" "benign env (handleListRuns ops)"
  "benign env (handleGetRun ops)" "benign env (handleReady ops)" "benign env (handleDeleteJob ops)"
  unfolding benign_def
  by (auto simp: handleListJobs_def handleGetJob_def handleListRuns_def handleGetRun_def handleReady_def handleDeleteJob_def
      split: prod.splits sum.splits dest: reading_effects call_GetRun call_DeleteJob)

lemma benign_pure: "(\<And>q r w. snd (h q r w) = w) \<Longrightarrow> benign env h"
  unfolding benign_def by (metis effect_same same_data_refl snd_conv)

lemma benign_pages:
  "benign env (handleHealth srv)" "benign env serviceInfo" "benign env handleRoot" "benign env (serveIndex html)"
  "benign env (\<lambda>q r w. (f q r, w))"
  by (simp_all add: benign_pure handleHealth_def serviceInfo_def handleRoot_def serveIndex_def)

lemma benign_create: "benign env (handleCreateJob ops srv)"
  unfolding benign_def
proof (intro allI impI)
  fix q r w r' w' assume w: "world_ok env w" and h: "handleCreateJob ops srv q r w = (r', w')"
  show "request_effect env w w'"
  proof (cases "\<exists>j. q_Body q = Inr j \<and> job_valid j")
    case True
    then obtain j where j: "q_Body q = Inr j" "job_valid j" by blast
    define w1 where "w1 = w\<lparr>w_clock := w_clock w + 1\<rparr>"
    define now where "now = sv_now srv (w_clock w)"
    obtain res where "call (st_PutJob ops (stamped now j)) w1 = (res, w')"
      using h j by (auto simp: handleCreateJob_def job_valid_def time_Now_def w1_def now_def Let_def split: prod.splits sum.splits)
    moreover have "world_ok env w1" using w by (simp add: world_ok_def w1_def)
    ultimately have "request_effect env w1 w'" using call_PutJob j(2) by simp
    then show ?thesis by (simp add: request_effect_def w1_def)
  next
    case False
    then have "w' = w" using h by (auto simp: handleCreateJob_def job_valid_def split: sum.splits if_splits)
    then show ?thesis using w by (simp add: effect_same)
  qed
qed

lemma benign_trigger:
  assumes "\<And>s. sv_scheduler srv = Some s \<Longrightarrow> s_env s = env"
  shows "benign env (handleTriggerJob ops srv)"
  unfolding benign_def
proof (intro allI impI)
  fix q r w r' w' assume w: "world_ok env w" and h: "handleTriggerJob ops srv q r w = (r', w')"
  show "request_effect env w w'"
  proof (cases "sv_scheduler srv")
    case None
    then show ?thesis using h w by (simp add: handleTriggerJob_def effect_same)
  next
    case (Some s)
    then obtain res where "Trigger ops env (q_PathValue q) w = (res, w')"
      using h assms [OF Some] by (auto simp: handleTriggerJob_def split: prod.splits sum.splits)
    from addsD [OF adds_Trigger w refl this] show ?thesis by (simp add: request_effect_def Keep)
  qed
qed

lemma endpoint_benign:
  assumes "endpoint ops srv meth path = Handler h vs" "\<And>s. sv_scheduler srv = Some s \<Longrightarrow> s_env s = env"
  shows "benign env h"
  using assms(1) benign_readers benign_pages benign_create benign_trigger [OF assms(2)]
  by (auto simp: endpoint_def get_endpoint_def below_ui_def split: if_splits list.splits option.splits)

lemma serve_effect:
  assumes "world_ok env w" "serve ops srv q w = (res, w')" "q_Path q \<noteq> []" "\<And>s. sv_scheduler srv = Some s \<Longrightarrow> s_env s = env"
  shows "request_effect env w w'"
proof (cases "endpoint ops srv (q_Method q) (q_Path q)")
  case (Handler h vs)
  then obtain q' r r' where "h q' r w = (r', w')"
    using assms(2) by (auto simp: serve_def withLogging_def ServeHTTP_def route_spec [OF assms(3)] split: prod.splits)
  then show ?thesis using endpoint_benign [OF Handler assms(4)] assms(1) unfolding benign_def by blast
qed (use assms in \<open>auto simp: serve_def withLogging_def ServeHTTP_def route_spec effect_same\<close>)

end

section \<open>The running system\<close>

text \<open>The scheduler's passes, its readings of the clock and the requests of any clients, one after the other.\<close>

inductive service :: "'s store_ops \<Rightarrow> Server \<Rightarrow> Scheduler \<Rightarrow> 's world \<Rightarrow> Scheduler \<Rightarrow> 's world \<Rightarrow> bool" for ops srv s w where
  Start: "service ops srv s w s w"
| Pass: "service ops srv s w s1 w1 \<Longrightarrow> step ops now s1 w1 = Some (s2, w2) \<Longrightarrow> service ops srv s w s2 w2"
| Request: "service ops srv s w s1 w1 \<Longrightarrow> q_Path q \<noteq> [] \<Longrightarrow>
     serve ops (srv\<lparr>sv_scheduler := Some s1\<rparr>) q w1 = (res, w2) \<Longrightarrow> service ops srv s w s1 w2"
| Read: "service ops srv s w s1 w1 \<Longrightarrow> service ops srv s w s1 (w1\<lparr>w_clock := c\<rparr>)"

lemma enqueues_evolve: "(enqueue J)\<^sup>*\<^sup>* m m' \<Longrightarrow> evolves m m'"
  by (rule lifecycles_evolve [OF enqueues_lifecycle])

lemma enqueues_typed: "(enqueue J)\<^sup>*\<^sup>* m m' \<Longrightarrow> runs_typed m \<Longrightarrow> runs_typed m'"
  by (rule lifecycles_typed [OF enqueues_lifecycle])

context store_contract
begin

lemma service_spec:
  assumes "service ops srv s w s' w'" "world_ok (s_env s) w"
  shows "world_ok (s_env s) w' \<and> s_env s' = s_env s \<and> evolves (runs_of (w_store w)) (runs_of (w_store w')) \<and>
    (runs_typed (runs_of (w_store w)) \<longrightarrow> runs_typed (runs_of (w_store w'))) \<and>
    (\<forall>j\<in>ran (jobs_of (w_store w')). j \<in> ran (jobs_of (w_store w)) \<or> job_valid j)"
  using assms
proof (induction rule: service.induct)
  case (Pass s1 w1 now s2 w2)
  then have ok: "world_ok (s_env s1) w1" by simp
  from step_spec [OF ok Pass.hyps(2)] Pass show ?case by (auto dest: lifecycles_evolve lifecycles_typed intro: evolves_trans)
next
  case (Request s1 w1 q res w2)
  then have ok: "world_ok (s_env s) w1" by simp
  have "request_effect (s_env s) w1 w2"
    using serve_effect [OF ok Request.hyps(3,2)] Request by simp
  with Request show ?case
    by (auto simp: request_effect_def dest: enqueues_evolve enqueues_typed job_change_valid intro: evolves_trans)
qed (simp_all add: world_ok_def)

end

section \<open>Properties\<close>

text \<open>An answer: the status line and what was written.\<close>

definition answer :: "(body writer \<times> int) \<times> 's world \<Rightarrow> int option \<times> body list" where
  "answer res = (rw_status (fst (fst res)), rw_body (fst (fst res)))"

definition api_request :: "string \<Rightarrow> string list \<Rightarrow> string + Job \<Rightarrow> request" where
  "api_request meth path b = \<lparr>q_Method = meth, q_Path = path, q_Query = (\<lambda>_. []), q_Body = b, q_PathValue = []\<rparr>"

lemmas mem_service_spec = mem.service_spec [unfolded mem_world_ok_eq]

text \<open>C22: along any sequence of scheduler passes and HTTP requests on the in-memory store, one after the other, the store stays
  well formed, no run is lost, runs keep their identity and finished ones never change; and no job gets in
  without validation: every job stored at the end was stored at the start (job files are not validated) or has an identifier and
  an expression that is empty or parses.\<close>

theorem service_invariant:
  assumes "mem_world_ok (s_env s) w" "service memory_ops srv s w s' w'"
  shows "mem_world_ok (s_env s) w' \<and> evolves (mem_runs (w_store w)) (mem_runs (w_store w')) \<and>
    (\<forall>j\<in>ran (mem_jobs (w_store w')). j \<in> ran (mem_jobs (w_store w)) \<or> job_valid j)"
  using mem_service_spec [OF assms(2,1)] by blast

text \<open>C23: runs are well typed, if they are at the start, after any sequence of HTTP requests and of passes that process their claimed
  runs one after the other. A pending run has no times and no error, a running one has been
  started and not finished, a finished one has both times, and an error is recorded only with a failure;
  the state is one of the declared ones and never \<open>StateSkipped\<close>.\<close>

theorem runs_well_typed:
  assumes "mem_world_ok (s_env s) w" "service memory_ops srv s w s' w'" "runs_typed (mem_runs (w_store w))"
    "mem_runs (w_store w') k = Some r"
  shows "run_typed r \<and> Valid (r_State r) \<and> r_State r \<noteq> StateSkipped \<and>
    (r_FinishedAt r \<noteq> None \<longleftrightarrow> Terminal (r_State r) \<or> r_State r = StateFailed)"
proof -
  have "run_typed r"
    using mem_service_spec [OF assms(2,1)] assms(3,4) by (auto simp: runs_typed_def ran_def)
  then show ?thesis
    by (auto simp: run_typed_def Valid_def Terminal_iff run_state_defs split: if_splits)
qed

definition sample_server :: Server where
  "sample_server = \<lparr>sv_scheduler = None, sv_gatherer = None, sv_web = None, sv_now = (\<lambda>_. 7), sv_version = ''dev''\<rparr>"

lemma serve_POST:
  "serve memory_ops srv (api_request ''POST'' [''api'', ''jobs''] (Inr j)) w =
     (if job_valid j
      then ((\<lparr>rw_status = Some 201, rw_type = ''application/json; charset=utf-8'', rw_body = [JobJSON (stamped (sv_now srv (w_clock w)) j)]\<rparr>, 201),
        w\<lparr>w_clock := w_clock w + 1, w_store := snd (PutJob (stamped (sv_now srv (w_clock w)) j) (w_store w))\<rparr>)
      else ((\<lparr>rw_status = Some 400, rw_type = ''application/json; charset=utf-8'',
          rw_body = [ErrorJSON (if j_ID j = [] then Text ''job id is required'' else CronText (projl (Parse (j_Spec j))))]\<rparr>, 400), w))"
  by (auto simp: serve_def withLogging_def ServeHTTP_def route_spec endpoint_def api_request_def handleCreateJob_def job_valid_def
      time_Now_def Let_def call_def memory_ops_def PutJob_def writeJSON_def writeError_def write_body_def WriteHeader_def set_type_def
      http_Write_def http_WriteHeader_def new_writer_def split: sum.splits)

lemma serve_GET:
  assumes "k \<noteq> []"
  shows "answer (serve memory_ops srv (api_request ''GET'' [''api'', ''jobs'', k] b) w) =
     (case mem_jobs (w_store w) k of
        Some j \<Rightarrow> (Some 200, [JobJSON j])
      | None \<Rightarrow> (Some 404, [ErrorJSON (Text ''not found'')]))"
    "snd (serve memory_ops srv (api_request ''GET'' [''api'', ''jobs'', k] b) w) = w"
  using assms by (auto simp: answer_def serve_def withLogging_def ServeHTTP_def route_spec endpoint_def get_endpoint_def api_request_def
      handleGetJob_def call_def memory_ops_def GetJob_def mem_jobs_def writeJSON_def writeError_def writeStoreError_def write_body_def
      WriteHeader_def set_type_def http_Write_def http_WriteHeader_def new_writer_def split: option.splits)

lemma serve_DELETE:
  assumes "k \<noteq> []"
  shows "answer (serve memory_ops srv (api_request ''DELETE'' [''api'', ''jobs'', k] b) w) =
     (case mem_jobs (w_store w) k of
        Some j \<Rightarrow> (Some 204, [])
      | None \<Rightarrow> (Some 404, [ErrorJSON (Text ''not found'')]))"
    "mem_jobs (w_store (snd (serve memory_ops srv (api_request ''DELETE'' [''api'', ''jobs'', k] b) w))) = (mem_jobs (w_store w))(k := None)"
  using assms by (auto simp: answer_def serve_def withLogging_def ServeHTTP_def route_spec endpoint_def api_request_def
      handleDeleteJob_def call_def memory_ops_def DeleteJob_def mem_jobs_def writeJSON_def writeError_def writeStoreError_def write_body_def
      WriteHeader_def set_type_def http_Write_def http_WriteHeader_def new_writer_def delete_conv' fun_upd_idem split: option.splits)

text \<open>C24: the job endpoints round-trip. Posting a valid job answers 201 with the job as stored, stamped with the
  time of the request; getting it back answers 200 with the same job; deleting it answers 204, after
  which getting and deleting it answer 404. A job without identifier or with a malformed expression is
  answered 400 and nothing changes. No other job is touched.\<close>

theorem job_endpoints:
  "let post = api_request ''POST'' [''api'', ''jobs''] (Inr j);
       get = api_request ''GET'' [''api'', ''jobs'', j_ID j] b;
       del = api_request ''DELETE'' [''api'', ''jobs'', j_ID j] b;
       created = serve memory_ops srv post w;
       deleted = serve memory_ops srv del (snd created);
       j' = stamped (sv_now srv (w_clock w)) j;
       missing = (Some 404, [ErrorJSON (Text ''not found'')])
   in if job_valid j then
        answer created = (Some 201, [JobJSON j']) \<and>
        mem_jobs (w_store (snd created)) = (mem_jobs (w_store w))(j_ID j \<mapsto> j') \<and>
        answer (serve memory_ops srv get (snd created)) = (Some 200, [JobJSON j']) \<and>
        answer deleted = (Some 204, []) \<and>
        mem_jobs (w_store (snd deleted)) = (mem_jobs (w_store w))(j_ID j := None) \<and>
        answer (serve memory_ops srv get (snd deleted)) = missing \<and>
        answer (serve memory_ops srv del (snd deleted)) = missing
      else fst (answer created) = Some 400 \<and> snd created = w"
proof (cases "job_valid j")
  case True
  then have k: "j_ID j \<noteq> []" by (simp add: job_valid_def)
  have "mem_jobs (w_store (snd (serve memory_ops srv (api_request ''POST'' [''api'', ''jobs''] (Inr j)) w))) =
      (mem_jobs (w_store w))(j_ID j \<mapsto> stamped (sv_now srv (w_clock w)) j)"
    using True by (simp add: serve_POST PutJob_def mem_jobs_def update_conv')
  moreover have "answer (serve memory_ops srv (api_request ''POST'' [''api'', ''jobs''] (Inr j)) w) =
      (Some 201, [JobJSON (stamped (sv_now srv (w_clock w)) j)])"
    using True by (simp add: serve_POST answer_def)
  ultimately show ?thesis using True by (simp add: Let_def serve_GET [OF k] serve_DELETE [OF k])
next
  case False
  then show ?thesis by (simp add: Let_def serve_POST answer_def)
qed

theorem service_invariant_witness:
  "\<exists>w'. serve memory_ops (sample_server\<lparr>sv_scheduler := Some sample_scheduler\<rparr>)
      (api_request ''POST'' [''api'', ''jobs''] (Inr (zero_job\<lparr>j_ID := ''x''\<rparr>))) flaky_world = w' \<and>
     (\<forall>j\<in>ran (mem_jobs (w_store (snd w'))). job_valid j) \<and> mem_jobs (w_store (snd w')) ''x'' \<noteq> None"
proof -
  let ?q = "api_request ''POST'' [''api'', ''jobs''] (Inr (zero_job\<lparr>j_ID := ''x''\<rparr>))"
  let ?srv = "sample_server\<lparr>sv_scheduler := Some sample_scheduler\<rparr>"
  obtain res w' where r: "serve memory_ops ?srv ?q flaky_world = (res, w')" by fastforce
  have "q_Path ?q \<noteq> []" by (simp add: api_request_def)
  from service.Request [OF service.Start this r] have "service memory_ops sample_server sample_scheduler flaky_world sample_scheduler w'" .
  moreover have "\<forall>j\<in>ran (mem_jobs (w_store flaky_world)). job_valid j"
    by (auto simp: flaky_world_def mem_jobs_def ran_def job_valid_def zero_job_def split: if_splits)
  ultimately have "\<forall>j\<in>ran (mem_jobs (w_store w')). job_valid j"
    using service_invariant [of sample_scheduler flaky_world sample_server sample_scheduler w'] flaky_world_ok by auto
  moreover have "mem_jobs (w_store w') ''x'' \<noteq> None"
    using r by (auto simp: serve_POST job_valid_def PutJob_def mem_jobs_def update_conv' zero_job_def)
  ultimately show ?thesis using r by auto
qed

theorem runs_well_typed_witness:
  "\<exists>s' w' r. step memory_ops 5 sample_scheduler flaky_world = Some (s', w') \<and> mem_runs (w_store w') ''ra'' = Some r \<and> run_typed r"
proof -
  obtain s' w' where st: "step memory_ops 5 sample_scheduler flaky_world = Some (s', w')" using flaky_pass by blast
  have sv: "service memory_ops sample_server sample_scheduler flaky_world s' w'" using st by (auto intro: service.intros)
  obtain r where r: "mem_runs (w_store w') ''ra'' = Some r"
    using mem_service_spec [OF sv] flaky_world_ok flaky_data(1) unfolding evolves_def by fastforce
  have "runs_typed (mem_runs (w_store flaky_world))"
    by (auto simp: runs_typed_def ran_def flaky_world_def mem_runs_def run_typed_def flaky_run_def run_state_defs zero_run_def split: if_splits)
  then show ?thesis using runs_well_typed [OF _ sv _ r] flaky_world_ok st r by auto
qed

section \<open>Listing runs\<close>

definition runs_request :: "(string \<Rightarrow> string) \<Rightarrow> request" where
  "runs_request query = \<lparr>q_Method = ''GET'', q_Path = [''api'', ''runs''], q_Query = query, q_Body = Inl [], q_PathValue = []\<rparr>"

lemma serve_runs:
  "serve ops srv (runs_request query) w =
     (case call (st_ListRuns ops (query_filter (runs_request query))) w of
        (Inl err, w) \<Rightarrow> ((\<lparr>rw_status = Some 500, rw_type = ''application/json; charset=utf-8'', rw_body = [ErrorJSON (StoreText [] err)]\<rparr>, 500), w)
      | (Inr runs, w) \<Rightarrow> ((\<lparr>rw_status = Some 200, rw_type = ''application/json; charset=utf-8'', rw_body = [RunsJSON runs]\<rparr>, 200), w))"
  by (simp add: serve_def withLogging_def ServeHTTP_def route_spec endpoint_def get_endpoint_def runs_request_def query_filter_def
      handleListRuns_def writeJSON_def writeError_def write_body_def WriteHeader_def set_type_def http_Write_def http_WriteHeader_def new_writer_def
      split: prod.split sum.split)

lemma atoiDefault_nonneg: "0 \<le> d \<Longrightarrow> 0 \<le> atoiDefault s d"
  by (simp add: atoiDefault_def split: sum.split)

text \<open>C25: listing runs answers 200 with the requested window of the matching runs, newest first: a limit or offset
  that is missing, malformed or negative counts as 100 or 0, and a limit of 0 means no limit. Nothing changes.\<close>

theorem list_runs_window:
  assumes "mem_inv (w_store w)"
  shows "\<exists>xs. listing run_newer (run_matches (query_filter (runs_request query))) (mem_runs (w_store w)) xs \<and>
    (let off = nat (atoiDefault (query ''offset'') 0); n = nat (atoiDefault (query ''limit'') 100)
     in answer (serve memory_ops srv (runs_request query) w) =
          (Some 200, [RunsJSON (if n = 0 then drop off xs else take n (drop off xs))])) \<and>
    w_store (snd (serve memory_ops srv (runs_request query) w)) = w_store w"
proof -
  let ?f = "query_filter (runs_request query)"
  obtain rs s where l: "st_ListRuns memory_ops ?f (w_store w) = (Inr rs, s)"
    using mem.ListRuns_ok [OF assms, of ?f] by (cases "st_ListRuns memory_ops ?f (w_store w)") auto
  obtain xs where xs: "listing run_newer (run_matches ?f) (mem_runs (w_store w)) xs" "rs = page ?f xs"
    using mem.ListRuns_law [OF assms l] by auto
  have "s = w_store w" using l by (auto simp: memory_ops_def ListRuns_def Let_def split: if_split_asm)
  moreover have "rs = (let off = nat (atoiDefault (query ''offset'') 0); n = nat (atoiDefault (query ''limit'') 100)
      in if n = 0 then drop off xs else take n (drop off xs))"
    using xs(2) atoiDefault_nonneg [of 0 "query ''offset''"] atoiDefault_nonneg [of 100 "query ''limit''"]
    by (simp add: page_def query_filter_def runs_request_def Let_def)
  ultimately show ?thesis using xs(1) l by (auto simp: serve_runs call_def answer_def Let_def)
qed

theorem list_runs_window_witness:
  "answer (serve memory_ops sample_server (runs_request (\<lambda>k. if k = ''limit'' then ''-5'' else [])) flaky_world) =
     (Some 200, [RunsJSON [flaky_run]])"
proof -
  let ?query = "\<lambda>k. if k = ''limit'' then ''-5'' else ([] :: string)"
  have inv: "mem_inv (w_store flaky_world)" using flaky_world_ok by (simp add: mem_world_ok_def)
  have lim: "atoiDefault ''-5'' 100 = 100" by (simp add: atoiDefault_def Atoi_def is_digit_def digit_value_def byte_def min_int64_def max_int64_def)
  obtain xs where xs: "listing run_newer (run_matches (query_filter (runs_request ?query))) (mem_runs (w_store flaky_world)) xs"
    "answer (serve memory_ops sample_server (runs_request ?query) flaky_world) = (Some 200, [RunsJSON (take 100 xs)])"
    using list_runs_window [OF inv, of ?query sample_server] lim by (auto simp: atoiDefault_def)
  have "ran (mem_runs (w_store flaky_world)) = {flaky_run}" by (simp add: flaky_world_def mem_runs_def)
  then have "set xs = {flaky_run}" "distinct xs"
    using xs(1) by (auto simp: listing_def run_matches_def query_filter_def runs_request_def)
  then have "xs = [flaky_run]" by (cases xs; cases "tl xs") auto
  then show ?thesis using xs(2) by simp
qed

section \<open>Logging\<close>

text \<open>The recorder agrees with the connection: the logged status is the one the client got.\<close>

definition fresh_recorder :: "statusRecorder \<Rightarrow> bool" where
  "fresh_recorder r \<longleftrightarrow> sr_status r = 200 \<and> rw_status (sr_writer r) = None"

definition recorded :: "statusRecorder \<Rightarrow> bool" where
  "recorded r \<longleftrightarrow> sr_status r = (case rw_status (sr_writer r) of None \<Rightarrow> 200 | Some c \<Rightarrow> c)"

definition faithful :: "(statusRecorder \<Rightarrow> statusRecorder) \<Rightarrow> bool" where
  "faithful f \<longleftrightarrow> (\<forall>r. fresh_recorder r \<longrightarrow> recorded (f r))"

lemma faithful_writes:
  "faithful (writeJSON c v)" "faithful (writeError c m)" "faithful (writeStoreError e)" "faithful (WriteHeader c)"
  "faithful (\<lambda>r. write_body b (WriteHeader c r))" "faithful (\<lambda>r. write_body b (set_type t r))"
  by (simp_all add: faithful_def fresh_recorder_def recorded_def writeJSON_def writeError_def writeStoreError_def write_body_def
      WriteHeader_def set_type_def http_Write_def http_WriteHeader_def)

definition faithful_handler :: "'s handler \<Rightarrow> bool" where
  "faithful_handler h \<longleftrightarrow> (\<forall>q r w. fresh_recorder r \<longrightarrow> recorded (fst (h q r w)))"

lemma faithful_handlers:
  "faithful_handler (handleListJobs ops)" "faithful_handler (handleCreateJob ops srv)" "faithful_handler (handleGetJob ops)"
  "faithful_handler (handleDeleteJob ops)" "faithful_handler (handleTriggerJob ops srv)" "faithful_handler (handleListRuns ops)"
  "faithful_handler (handleGetRun ops)" "faithful_handler (handleHealth srv)" "faithful_handler (handleReady ops)"
  "faithful_handler serviceInfo" "faithful_handler handleRoot" "faithful_handler (serveIndex html)"
  using faithful_writes unfolding faithful_handler_def faithful_def
  by (auto simp: handleListJobs_def handleCreateJob_def handleGetJob_def handleDeleteJob_def handleTriggerJob_def handleListRuns_def
      handleGetRun_def handleHealth_def handleReady_def serviceInfo_def handleRoot_def serveIndex_def Let_def
      split: prod.split sum.split option.split)

lemma endpoint_faithful:
  assumes "endpoint ops srv meth path = Handler h vs"
    and "\<And>g. sv_gatherer srv = Some g \<Longrightarrow> faithful g" "\<And>files index p. sv_web srv = Some (files, index) \<Longrightarrow> faithful (files p)"
  shows "faithful_handler h"
proof -
  have web: "faithful_handler (\<lambda>q r w. (files (tl (q_Path q)) r, w))" if "sv_web srv = Some (files, index)" for files index
    using assms(3) [OF that] by (simp add: faithful_handler_def faithful_def)
  have metrics: "faithful_handler (\<lambda>q r w. (g r, w))" if "sv_gatherer srv = Some g" for g
    using assms(2) [OF that] by (simp add: faithful_handler_def faithful_def)
  show ?thesis using assms(1) faithful_handlers web metrics
    by (auto simp: endpoint_def get_endpoint_def below_ui_def split: if_splits list.splits option.splits)
qed

text \<open>The status the access log reports is the one that was sent (200 when a handler writes a body without
  choosing one), for every request, provided the handlers of the other packages behave so.\<close>

theorem logged_status:
  assumes "q_Path q \<noteq> []" "serve ops srv q w = ((rw, logged), w')"
    and "\<And>g. sv_gatherer srv = Some g \<Longrightarrow> faithful g" "\<And>files index p. sv_web srv = Some (files, index) \<Longrightarrow> faithful (files p)"
  shows "logged = (case rw_status rw of None \<Rightarrow> 200 | Some c \<Rightarrow> c)"
proof -
  have start: "fresh_recorder \<lparr>sr_writer = new_writer, sr_status = 200\<rparr>" by (simp add: fresh_recorder_def new_writer_def)
  have "recorded (fst (ServeHTTP (routes ops srv) q \<lparr>sr_writer = new_writer, sr_status = 200\<rparr> w))"
  proof (cases "endpoint ops srv (q_Method q) (q_Path q)")
    case (Handler h vs)
    have "faithful_handler h" by (rule endpoint_faithful [OF Handler]) (use assms(3,4) in blast)+
    then show ?thesis using Handler start
      by (simp add: ServeHTTP_def route_spec [OF assms(1)] faithful_handler_def)
  qed (use start faithful_writes(5) in \<open>auto simp: ServeHTTP_def route_spec [OF assms(1)] faithful_def\<close>)
  then show ?thesis using assms(2) by (auto simp: serve_def withLogging_def recorded_def split: prod.splits)
qed

theorem logged_status_witness:
  "\<exists>rw w'. serve memory_ops (sample_server\<lparr>sv_web := Some (\<lambda>p. writeError 404 (Text ''not found''), Some ''page'')\<rparr>)
      (api_request ''GET'' [[]] (Inl [])) flaky_world = ((rw, 200), w') \<and> rw_body rw = [Page ''page'']"
proof -
  let ?srv = "sample_server\<lparr>sv_web := Some (\<lambda>p. writeError 404 (Text ''not found''), Some ''page'')\<rparr>"
  let ?q = "api_request ''GET'' [[]] (Inl [])"
  obtain rw logged w' where r: "serve memory_ops ?srv ?q flaky_world = ((rw, logged), w')" by (metis prod.exhaust)
  have "logged = (case rw_status rw of None \<Rightarrow> 200 | Some c \<Rightarrow> c)"
    by (rule logged_status [OF _ r]) (auto simp: api_request_def sample_server_def faithful_writes)
  moreover have "rw_status rw = Some 200" "rw_body rw = [Page ''page'']"
    using r by (auto simp: serve_def withLogging_def ServeHTTP_def route_spec endpoint_def get_endpoint_def api_request_def serveIndex_def
      write_body_def set_type_def http_Write_def http_WriteHeader_def new_writer_def Let_def sample_server_def)
  ultimately show ?thesis using r by simp
qed

end
