(* ===== verification/GoFlag.thy ===== *)
theory GoFlag
  imports GoStrings GoDuration
begin

text \<open>
  What cronflux uses of Go's \<^verbatim>\<open>flag\<close> package: a \<^verbatim>\<open>FlagSet\<close> with string, integer and duration flags,
  parsed with \<^verbatim>\<open>ContinueOnError\<close>. Integer flags are read by \<^verbatim>\<open>strconv.ParseInt(s, 0, 64)\<close>, which accepts
  base prefixes and underscores between digits.
\<close>

section \<open>Integers with a base prefix\<close>

definition lower :: "char \<Rightarrow> char" where
  "lower c = ascii_lower c"

definition based_digit :: "char \<Rightarrow> nat option" where
  "based_digit c =
     (if is_digit c then Some (digit_value c)
      else if 97 \<le> byte (lower c) \<and> byte (lower c) \<le> 122 then Some (byte (lower c) - 97 + 10)
      else None)"

text \<open>The base and the digits that follow its prefix.\<close>

definition base_prefix :: "string \<Rightarrow> nat \<times> string" where
  "base_prefix s =
     (if take 1 s = ''0'' then
        if 3 \<le> length s \<and> lower (s ! 1) = CHR ''b'' then (2, drop 2 s)
        else if 3 \<le> length s \<and> lower (s ! 1) = CHR ''o'' then (8, drop 2 s)
        else if 3 \<le> length s \<and> lower (s ! 1) = CHR ''x'' then (16, drop 2 s)
        else (8, drop 1 s)
      else (10, s))"

fun based_from :: "nat \<Rightarrow> nat \<Rightarrow> string \<Rightarrow> num_error + nat" where
  "based_from base n [] = Inr n"
| "based_from base n (c # s) =
     (if c = CHR ''_'' then based_from base n s
      else case based_digit c of
        None \<Rightarrow> Inl ErrSyntax
      | Some d \<Rightarrow>
          if base \<le> d then Inl ErrSyntax
          else if 2 ^ 64 \<le> n * base + d then Inl ErrRange
          else based_from base (n * base + d) s)"

text \<open>\<^verbatim>\<open>underscoreOK\<close>: what was seen last is the beginning, a digit (or the prefix), an underscore or another byte.\<close>

datatype seen = SeenStart | SeenDigit | SeenUnderscore | SeenOther

fun underscore_scan :: "bool \<Rightarrow> seen \<Rightarrow> string \<Rightarrow> bool" where
  "underscore_scan hex i [] = (i \<noteq> SeenUnderscore)"
| "underscore_scan hex i (c # s) =
     (if is_digit c \<or> hex \<and> 97 \<le> byte (lower c) \<and> byte (lower c) \<le> 102 then underscore_scan hex SeenDigit s
      else if c = CHR ''_'' then i = SeenDigit \<and> underscore_scan hex SeenUnderscore s
      else if i = SeenUnderscore then False
      else underscore_scan hex SeenOther s)"

definition underscoreOK :: "string \<Rightarrow> bool" where
  "underscoreOK s =
     (if 2 \<le> length s \<and> s ! 0 = CHR ''0'' \<and> lower (s ! 1) \<in> {CHR ''b'', CHR ''o'', CHR ''x''}
      then underscore_scan (lower (s ! 1) = CHR ''x'') SeenDigit (drop 2 s)
      else underscore_scan False SeenStart s)"

definition parse_uint_based :: "string \<Rightarrow> num_error + nat" where
  "parse_uint_based s =
     (if s = [] then Inl ErrSyntax
      else let (base, ds) = base_prefix s
           in case based_from base 0 ds of
                Inl e \<Rightarrow> Inl e
              | Inr n \<Rightarrow> if CHR ''_'' \<in> set ds \<and> \<not> underscoreOK s then Inl ErrSyntax else Inr n)"

definition ParseInt0 :: "string \<Rightarrow> num_error + int" where
  "ParseInt0 s =
     (if s = [] then Inl ErrSyntax
      else let neg = (take 1 s = ''-'');
               ds = (if take 1 s = ''-'' \<or> take 1 s = ''+'' then drop 1 s else s)
           in case parse_uint_based ds of
                Inl e \<Rightarrow> Inl e
              | Inr n \<Rightarrow>
                  (let v = (if neg then - int n else int n)
                   in if min_int64 \<le> v \<and> v \<le> max_int64 then Inr v else Inl ErrRange))"

section \<open>Flag sets\<close>

datatype flag_error = BadSyntax string | NotDefined string | ErrHelp | NeedsArgument string | InvalidValue string string

text \<open>A flag set over the values \<open>'c\<close>: for a defined flag, how setting it changes them, or \<open>None\<close> when the
  text is not a value of the flag.\<close>

type_synonym 'c flagset = "(string, string \<Rightarrow> 'c \<Rightarrow> 'c option) gomap"

text \<open>The name of an argument without its leading dashes, and the value after \<^verbatim>\<open>=\<close>; the sign is looked for after
  the first byte of the name.\<close>

definition flag_name :: "string \<Rightarrow> string \<times> string option" where
  "flag_name name =
     (case split_at_byte (CHR ''='') (drop 1 name) of
        None \<Rightarrow> (name, None)
      | Some (l, v) \<Rightarrow> (take 1 name @ l, Some v))"

text \<open>\<^verbatim>\<open>FlagSet.Parse\<close>: the flags set so far, until the first argument that is not a flag.\<close>

function parse_flags :: "'c flagset \<Rightarrow> string list \<Rightarrow> 'c \<Rightarrow> flag_error + 'c" where
  "parse_flags fs args c =
     (case args of
        [] \<Rightarrow> Inr c
      | s # rest \<Rightarrow>
          if length s < 2 \<or> s ! 0 \<noteq> CHR ''-'' then Inr c
          else if s = ''--'' then Inr c
          else let name = (if s ! 1 = CHR ''-'' then drop 2 s else drop 1 s)
               in if name = [] \<or> name ! 0 = CHR ''-'' \<or> name ! 0 = CHR ''='' then Inl (BadSyntax s)
                  else let (name, val) = flag_name name
                       in case map_of fs name of
                            None \<Rightarrow> Inl (if name = ''help'' \<or> name = ''h'' then ErrHelp else NotDefined name)
                          | Some setter \<Rightarrow>
                              (case val of
                                 Some v \<Rightarrow>
                                   (case setter v c of
                                      None \<Rightarrow> Inl (InvalidValue name v)
                                    | Some c \<Rightarrow> parse_flags fs rest c)
                               | None \<Rightarrow>
                                   (case rest of
                                      [] \<Rightarrow> Inl (NeedsArgument name)
                                    | v # rest \<Rightarrow>
                                        (case setter v c of
                                           None \<Rightarrow> Inl (InvalidValue name v)
                                         | Some c \<Rightarrow> parse_flags fs rest c))))"
  by pat_completeness auto

termination by (relation "measure (\<lambda>(fs, args, c). length args)") auto

declare parse_flags.simps [simp del]

lemma parse_flags_Nil [simp]: "parse_flags fs [] c = Inr c"
  by (simp add: parse_flags.simps)

text \<open>\<^verbatim>\<open>-name value\<close> sets the flag.\<close>

lemma flag_name_plain: "CHR ''='' \<notin> set name \<Longrightarrow> flag_name name = (name, None)"
  by (cases name) (simp_all add: flag_name_def split_at_byte_None [THEN iffD2])

lemma parse_flags_set:
  assumes "map_of fs name = Some f" "name \<noteq> []" "hd name \<noteq> CHR ''-''" "CHR ''='' \<notin> set name"
  shows "parse_flags fs ((CHR ''-'' # name) # v # rest) c =
    (case f v c of None \<Rightarrow> Inl (InvalidValue name v) | Some c \<Rightarrow> parse_flags fs rest c)"
proof -
  obtain x xs where name: "name = x # xs" using assms(2) by (cases name) auto
  show ?thesis
    using assms by (subst parse_flags.simps) (auto simp: name flag_name_plain [OF assms(4), unfolded name] split: option.split)
qed

end
