(* ===== verification/Config.thy ===== *)
theory Config
  imports GoFlag Dag
begin

text \<open>
  Configuration (\<^verbatim>\<open>src/internal/config\<close>): defaults, validation, the environment and the command line
  (\<^verbatim>\<open>config.go\<close>, \<^verbatim>\<open>load.go\<close>), and job files (\<^verbatim>\<open>jobs.go\<close>). The environment is a function from names to
  values, empty when unset. Reading a file and decoding its JSON are arguments of \<open>LoadJobs\<close>; the
  conversion of the decoded document to jobs and its validation are modelled.
\<close>

section \<open>Definitions\<close>

type_synonym Backend = string

definition BackendMemory :: Backend where "BackendMemory = ''memory''"
definition BackendPostgres :: Backend where "BackendPostgres = ''postgres''"

record Config =
  cf_ListenAddr :: string
  cf_Backend :: Backend
  cf_DatabaseURL :: string
  cf_TickInterval :: duration
  cf_Workers :: int
  cf_LeaseDuration :: duration
  cf_JobsFile :: string
  cf_LogLevel :: string

definition Default :: Config where
  "Default = \<lparr>cf_ListenAddr = '':8080'', cf_Backend = BackendMemory, cf_DatabaseURL = [], cf_TickInterval = SecondD,
     cf_Workers = 4, cf_LeaseDuration = 30 * SecondD, cf_JobsFile = [], cf_LogLevel = ''info''\<rparr>"

datatype config_error =
    DatabaseURLRequired Backend
  | UnknownBackend Backend
  | WorkersTooFew int
  | TickNotPositive duration
  | LeaseNotPositive duration
  | FlagError flag_error

definition Validate :: "Config \<Rightarrow> config_error option" where
  "Validate c =
     (if cf_Backend c = BackendPostgres \<and> cf_DatabaseURL c = [] then Some (DatabaseURLRequired (cf_Backend c))
      else if cf_Backend c \<noteq> BackendMemory \<and> cf_Backend c \<noteq> BackendPostgres then Some (UnknownBackend (cf_Backend c))
      else if cf_Workers c < 1 then Some (WorkersTooFew (cf_Workers c))
      else if cf_TickInterval c \<le> 0 then Some (TickNotPositive (cf_TickInterval c))
      else if cf_LeaseDuration c \<le> 0 then Some (LeaseNotPositive (cf_LeaseDuration c))
      else None)"

text \<open>\<^verbatim>\<open>if v := os.Getenv(name); v != ""\<close>, and the variants that parse the value and ignore it on error.\<close>

definition with_env :: "(string \<Rightarrow> string) \<Rightarrow> string \<Rightarrow> (string \<Rightarrow> Config \<Rightarrow> Config) \<Rightarrow> Config \<Rightarrow> Config" where
  "with_env getenv name f c = (if getenv name \<noteq> [] then f (getenv name) c else c)"

definition FromEnv :: "(string \<Rightarrow> string) \<Rightarrow> Config \<Rightarrow> Config" where
  "FromEnv getenv base =
     (let base = with_env getenv ''CRONFLUX_ADDR'' (\<lambda>v c. c\<lparr>cf_ListenAddr := v\<rparr>) base;
          base = with_env getenv ''CRONFLUX_STORE'' (\<lambda>v c. c\<lparr>cf_Backend := v\<rparr>) base;
          base = with_env getenv ''CRONFLUX_DATABASE_URL'' (\<lambda>v c. c\<lparr>cf_DatabaseURL := v\<rparr>) base;
          base = with_env getenv ''CRONFLUX_TICK'' (\<lambda>v c.
            case ParseDuration v of Inr d \<Rightarrow> c\<lparr>cf_TickInterval := d\<rparr> | Inl _ \<Rightarrow> c) base;
          base = with_env getenv ''CRONFLUX_WORKERS'' (\<lambda>v c.
            case Atoi v of Inr n \<Rightarrow> c\<lparr>cf_Workers := n\<rparr> | Inl _ \<Rightarrow> c) base;
          base = with_env getenv ''CRONFLUX_LEASE'' (\<lambda>v c.
            case ParseDuration v of Inr d \<Rightarrow> c\<lparr>cf_LeaseDuration := d\<rparr> | Inl _ \<Rightarrow> c) base;
          base = with_env getenv ''CRONFLUX_JOBS'' (\<lambda>v c. c\<lparr>cf_JobsFile := v\<rparr>) base
      in with_env getenv ''CRONFLUX_LOG_LEVEL'' (\<lambda>v c. c\<lparr>cf_LogLevel := v\<rparr>) base)"

text \<open>The flags of \<^verbatim>\<open>Load\<close>; each variable starts at the value of \<^verbatim>\<open>cfg\<close> and is copied back to it after parsing.\<close>

definition flags :: "Config flagset" where
  "flags =
     [(''addr'', \<lambda>v c. Some (c\<lparr>cf_ListenAddr := v\<rparr>)),
      (''store'', \<lambda>v c. Some (c\<lparr>cf_Backend := v\<rparr>)),
      (''database-url'', \<lambda>v c. Some (c\<lparr>cf_DatabaseURL := v\<rparr>)),
      (''tick'', \<lambda>v c. case ParseDuration v of Inl _ \<Rightarrow> None | Inr d \<Rightarrow> Some (c\<lparr>cf_TickInterval := d\<rparr>)),
      (''workers'', \<lambda>v c. case ParseInt0 v of Inl _ \<Rightarrow> None | Inr n \<Rightarrow> Some (c\<lparr>cf_Workers := n\<rparr>)),
      (''lease'', \<lambda>v c. case ParseDuration v of Inl _ \<Rightarrow> None | Inr d \<Rightarrow> Some (c\<lparr>cf_LeaseDuration := d\<rparr>)),
      (''jobs'', \<lambda>v c. Some (c\<lparr>cf_JobsFile := v\<rparr>)),
      (''log-level'', \<lambda>v c. Some (c\<lparr>cf_LogLevel := v\<rparr>))]"

definition Load :: "(string \<Rightarrow> string) \<Rightarrow> string list \<Rightarrow> config_error + Config" where
  "Load getenv args =
     (let cfg = FromEnv getenv Default
      in case parse_flags flags args cfg of
           Inl e \<Rightarrow> Inl (FlagError e)
         | Inr cfg \<Rightarrow> (case Validate cfg of Some e \<Rightarrow> Inl e | None \<Rightarrow> Inr cfg))"

section \<open>Job files\<close>

record backoffSpec =
  b_Base :: string
  b_Max :: string
  b_Factor :: f64
  b_Jitter :: f64

record JobSpec =
  js_ID :: string
  js_Name :: string
  js_Spec :: string
  js_Command :: "string list"
  js_MaxRetries :: int
  js_Backoff :: backoffSpec
  js_DependsOn :: "string list"
  js_Timeout :: string
  js_Enabled :: "bool option"

datatype jobs_error =
    ReadError string
  | DecodeError string
  | IDRequired
  | BadTimeout duration_error
  | BadBackoffBase duration_error
  | BadBackoffMax duration_error
  | JobError nat string jobs_error
  | GraphError dag_error

definition parseOptionalDuration :: "string \<Rightarrow> duration_error + duration" where
  "parseOptionalDuration s = (if s = [] then Inr 0 else ParseDuration s)"

definition toJob :: "JobSpec \<Rightarrow> jobs_error + Job" where
  "toJob s =
     (if js_ID s = [] then Inl IDRequired
      else case parseOptionalDuration (js_Timeout s) of
        Inl e \<Rightarrow> Inl (BadTimeout e)
      | Inr timeout \<Rightarrow>
          (case parseOptionalDuration (b_Base (js_Backoff s)) of
             Inl e \<Rightarrow> Inl (BadBackoffBase e)
           | Inr base \<Rightarrow>
               (case parseOptionalDuration (b_Max (js_Backoff s)) of
                  Inl e \<Rightarrow> Inl (BadBackoffMax e)
                | Inr maxDelay \<Rightarrow>
                    (let enabled = (case js_Enabled s of None \<Rightarrow> True | Some b \<Rightarrow> b)
                     in Inr (zero_job\<lparr>j_ID := js_ID s, j_Name := js_Name s, j_Spec := js_Spec s, j_Command := js_Command s,
                          j_MaxRetries := js_MaxRetries s,
                          j_Backoff := \<lparr>p_Base = base, p_Max = maxDelay, p_Factor = b_Factor (js_Backoff s), p_Jitter = b_Jitter (js_Backoff s)\<rparr>,
                          j_DependsOn := js_DependsOn s, j_Timeout := timeout, j_Enabled := enabled\<rparr>)))))"

text \<open>The loop over the document, with the index that errors report.\<close>

fun convert_jobs :: "nat \<Rightarrow> JobSpec list \<Rightarrow> jobs_error + Job list" where
  "convert_jobs i [] = Inr []"
| "convert_jobs i (spec # specs) =
     (case toJob spec of
        Inl e \<Rightarrow> Inl (JobError i (js_ID spec) e)
      | Inr j \<Rightarrow> (case convert_jobs (i + 1) specs of Inl e \<Rightarrow> Inl e | Inr js \<Rightarrow> Inr (j # js)))"

definition LoadJobs :: "(string \<Rightarrow> string + 'd) \<Rightarrow> ('d \<Rightarrow> string + JobSpec list) \<Rightarrow> string \<Rightarrow> jobs_error + Job list" where
  "LoadJobs read_file unmarshal path =
     (case read_file path of
        Inl e \<Rightarrow> Inl (ReadError e)
      | Inr data \<Rightarrow>
          (case unmarshal data of
             Inl e \<Rightarrow> Inl (DecodeError e)
           | Inr doc \<Rightarrow>
               (case convert_jobs 0 doc of
                  Inl e \<Rightarrow> Inl e
                | Inr jobs \<Rightarrow> (case BuildGraph jobs of Inl e \<Rightarrow> Inl (GraphError e) | Inr _ \<Rightarrow> Inr jobs))))"

section \<open>Resolution of the configuration\<close>

text \<open>A command line that sets flags as \<^verbatim>\<open>-name value\<close>; the last setting of a flag counts.\<close>

definition flag_args :: "(string \<times> string) list \<Rightarrow> string list" where
  "flag_args xs = concat (map (\<lambda>(name, v). [CHR ''-'' # name, v]) xs)"

definition flagged :: "(string \<times> string) list \<Rightarrow> string \<Rightarrow> (string \<Rightarrow> 'a) \<Rightarrow> 'a \<Rightarrow> 'a" where
  "flagged xs name read d = (case map_of (rev xs) name of None \<Rightarrow> d | Some v \<Rightarrow> read v)"

definition overlay :: "(string \<times> string) list \<Rightarrow> Config \<Rightarrow> Config" where
  "overlay xs c =
     \<lparr>cf_ListenAddr = flagged xs ''addr'' (\<lambda>v. v) (cf_ListenAddr c),
      cf_Backend = flagged xs ''store'' (\<lambda>v. v) (cf_Backend c),
      cf_DatabaseURL = flagged xs ''database-url'' (\<lambda>v. v) (cf_DatabaseURL c),
      cf_TickInterval = flagged xs ''tick'' (projr \<circ> ParseDuration) (cf_TickInterval c),
      cf_Workers = flagged xs ''workers'' (projr \<circ> ParseInt0) (cf_Workers c),
      cf_LeaseDuration = flagged xs ''lease'' (projr \<circ> ParseDuration) (cf_LeaseDuration c),
      cf_JobsFile = flagged xs ''jobs'' (\<lambda>v. v) (cf_JobsFile c),
      cf_LogLevel = flagged xs ''log-level'' (\<lambda>v. v) (cf_LogLevel c)\<rparr>"

definition flag_names :: "string list" where
  "flag_names = [''addr'', ''store'', ''database-url'', ''tick'', ''workers'', ''lease'', ''jobs'', ''log-level'']"

lemma flagged_Nil [simp]: "flagged [] name read d = d"
  by (simp add: flagged_def)

lemma flagged_Cons:
  "flagged ((n, v) # xs) name read d = flagged xs name read (if n = name then read v else d)"
  by (auto simp: flagged_def map_add_def split: option.split)

lemma overlay_Nil: "overlay [] c = c"
  by (simp add: overlay_def)

lemma flag_defined: "n \<in> set flag_names \<Longrightarrow> \<exists>f. map_of flags n = Some f"
  by (auto simp: flag_names_def flags_def)

lemma flag_set: "map_of flags n = Some f \<Longrightarrow> f v c = Some c' \<Longrightarrow> overlay xs c' = overlay ((n, v) # xs) c"
  by (auto simp: flags_def overlay_def flagged_Cons split: if_splits sum.splits)

lemma parse_settings:
  "set (map fst xs) \<subseteq> set flag_names \<Longrightarrow> parse_flags flags (flag_args xs) c = Inr c' \<Longrightarrow> c' = overlay xs c"
proof (induction xs arbitrary: c)
  case Nil
  then show ?case by (simp add: flag_args_def overlay_Nil)
next
  case (Cons x xs)
  obtain n v where x: "x = (n, v)" by fastforce
  have n: "n \<in> set flag_names" using Cons.prems(1) x by simp
  obtain f where f: "map_of flags n = Some f" using flag_defined [OF n] by blast
  have "n \<noteq> []" "hd n \<noteq> CHR ''-''" "CHR ''='' \<notin> set n" using n by (auto simp: flag_names_def)
  then have "parse_flags flags (flag_args (x # xs)) c =
      (case f v c of None \<Rightarrow> Inl (InvalidValue n v) | Some c \<Rightarrow> parse_flags flags (flag_args xs) c)"
    using parse_flags_set [OF f] by (simp add: flag_args_def x cong: option.case_cong)
  then obtain c1 where "f v c = Some c1" "parse_flags flags (flag_args xs) c1 = Inr c'"
    using Cons.prems(2) by (auto split: option.splits)
  then show ?case using Cons.IH [of c1] Cons.prems(1) flag_set [OF f, of v c c1 xs] x by simp
qed

text \<open>The environment: unset variables and values that do not parse leave the default.\<close>

definition from_env :: "(string \<Rightarrow> string) \<Rightarrow> string \<Rightarrow> (string \<Rightarrow> 'e + 'a) \<Rightarrow> 'a \<Rightarrow> 'a" where
  "from_env getenv name read d = (if getenv name = [] then d else case read (getenv name) of Inl _ \<Rightarrow> d | Inr a \<Rightarrow> a)"

lemma with_env_plain:
  "with_env getenv n (\<lambda>v c. c\<lparr>cf_ListenAddr := v\<rparr>) c = c\<lparr>cf_ListenAddr := from_env getenv n (Inr :: _ \<Rightarrow> unit + _) (cf_ListenAddr c)\<rparr>"
  "with_env getenv n (\<lambda>v c. c\<lparr>cf_Backend := v\<rparr>) c = c\<lparr>cf_Backend := from_env getenv n (Inr :: _ \<Rightarrow> unit + _) (cf_Backend c)\<rparr>"
  "with_env getenv n (\<lambda>v c. c\<lparr>cf_DatabaseURL := v\<rparr>) c = c\<lparr>cf_DatabaseURL := from_env getenv n (Inr :: _ \<Rightarrow> unit + _) (cf_DatabaseURL c)\<rparr>"
  "with_env getenv n (\<lambda>v c. c\<lparr>cf_JobsFile := v\<rparr>) c = c\<lparr>cf_JobsFile := from_env getenv n (Inr :: _ \<Rightarrow> unit + _) (cf_JobsFile c)\<rparr>"
  "with_env getenv n (\<lambda>v c. c\<lparr>cf_LogLevel := v\<rparr>) c = c\<lparr>cf_LogLevel := from_env getenv n (Inr :: _ \<Rightarrow> unit + _) (cf_LogLevel c)\<rparr>"
  by (simp_all add: with_env_def from_env_def)

lemma with_env_parsed:
  "with_env getenv n (\<lambda>v c. case ParseDuration v of Inr d \<Rightarrow> c\<lparr>cf_TickInterval := d\<rparr> | Inl _ \<Rightarrow> c) c =
     c\<lparr>cf_TickInterval := from_env getenv n ParseDuration (cf_TickInterval c)\<rparr>"
  "with_env getenv n (\<lambda>v c. case Atoi v of Inr m \<Rightarrow> c\<lparr>cf_Workers := m\<rparr> | Inl _ \<Rightarrow> c) c =
     c\<lparr>cf_Workers := from_env getenv n Atoi (cf_Workers c)\<rparr>"
  "with_env getenv n (\<lambda>v c. case ParseDuration v of Inr d \<Rightarrow> c\<lparr>cf_LeaseDuration := d\<rparr> | Inl _ \<Rightarrow> c) c =
     c\<lparr>cf_LeaseDuration := from_env getenv n ParseDuration (cf_LeaseDuration c)\<rparr>"
  by (simp_all add: with_env_def from_env_def split: sum.split)

lemma FromEnv_eq:
  "FromEnv getenv c =
     \<lparr>cf_ListenAddr = from_env getenv ''CRONFLUX_ADDR'' (Inr :: _ \<Rightarrow> unit + _) (cf_ListenAddr c),
      cf_Backend = from_env getenv ''CRONFLUX_STORE'' (Inr :: _ \<Rightarrow> unit + _) (cf_Backend c),
      cf_DatabaseURL = from_env getenv ''CRONFLUX_DATABASE_URL'' (Inr :: _ \<Rightarrow> unit + _) (cf_DatabaseURL c),
      cf_TickInterval = from_env getenv ''CRONFLUX_TICK'' ParseDuration (cf_TickInterval c),
      cf_Workers = from_env getenv ''CRONFLUX_WORKERS'' Atoi (cf_Workers c),
      cf_LeaseDuration = from_env getenv ''CRONFLUX_LEASE'' ParseDuration (cf_LeaseDuration c),
      cf_JobsFile = from_env getenv ''CRONFLUX_JOBS'' (Inr :: _ \<Rightarrow> unit + _) (cf_JobsFile c),
      cf_LogLevel = from_env getenv ''CRONFLUX_LOG_LEVEL'' (Inr :: _ \<Rightarrow> unit + _) (cf_LogLevel c)\<rparr>"
  by (cases c) (simp add: FromEnv_def with_env_plain with_env_parsed Let_def)

lemma Validate_None:
  "Validate c = None \<longleftrightarrow>
     (cf_Backend c = BackendMemory \<or> cf_Backend c = BackendPostgres \<and> cf_DatabaseURL c \<noteq> []) \<and>
     1 \<le> cf_Workers c \<and> 0 < cf_TickInterval c \<and> 0 < cf_LeaseDuration c"
  by (auto simp: Validate_def BackendMemory_def BackendPostgres_def)

section \<open>Job files\<close>

text \<open>What a converted job has in common with its description.\<close>

definition job_of_spec :: "JobSpec \<Rightarrow> Job \<Rightarrow> bool" where
  "job_of_spec s j \<longleftrightarrow>
     j_ID j = js_ID s \<and> j_Name j = js_Name s \<and> j_Spec j = js_Spec s \<and> j_Command j = js_Command s \<and>
     j_MaxRetries j = js_MaxRetries s \<and> j_DependsOn j = js_DependsOn s \<and> j_Enabled j = (js_Enabled s \<noteq> Some False) \<and>
     Inr (j_Timeout j) = parseOptionalDuration (js_Timeout s) \<and>
     Inr (p_Base (j_Backoff j)) = parseOptionalDuration (b_Base (js_Backoff s)) \<and>
     Inr (p_Max (j_Backoff j)) = parseOptionalDuration (b_Max (js_Backoff s)) \<and>
     p_Factor (j_Backoff j) = b_Factor (js_Backoff s) \<and> p_Jitter (j_Backoff j) = b_Jitter (js_Backoff s)"

text \<open>A description that converts: it has an identifier, and its durations are empty or well formed.\<close>

definition spec_convertible :: "JobSpec \<Rightarrow> bool" where
  "spec_convertible s \<longleftrightarrow> js_ID s \<noteq> [] \<and>
     list_all (\<lambda>d. \<not> isl (parseOptionalDuration d)) [js_Timeout s, b_Base (js_Backoff s), b_Max (js_Backoff s)]"

lemma toJob_iff: "\<not> isl (toJob s) \<longleftrightarrow> spec_convertible s"
  by (auto simp: toJob_def spec_convertible_def Let_def split: sum.splits)

lemma toJob_spec: "toJob s = Inr j \<Longrightarrow> job_of_spec s j"
  by (auto simp: toJob_def job_of_spec_def Let_def split: if_splits sum.splits option.splits)

lemma convert_jobs_Inr: "convert_jobs i doc = Inr js \<Longrightarrow> list_all spec_convertible doc \<and> list_all2 job_of_spec doc js"
proof (induction doc arbitrary: i js)
  case (Cons s doc)
  obtain j where j: "toJob s = Inr j" using Cons.prems by (cases "toJob s") auto
  obtain js' where js': "convert_jobs (i + 1) doc = Inr js'" "js = j # js'"
    using Cons.prems j by (auto split: sum.splits)
  then show ?case using Cons.IH [OF js'(1)] toJob_spec [OF j] toJob_iff [of s] j by simp
qed simp

lemma convert_jobs_ok: "list_all spec_convertible doc \<Longrightarrow> \<exists>js. convert_jobs i doc = Inr js"
proof (induction doc arbitrary: i)
  case (Cons s doc)
  then obtain j js where "toJob s = Inr j" "convert_jobs (i + 1) doc = Inr js"
    using toJob_iff [of s] by (cases "toJob s") fastforce+
  then show ?case by simp
qed simp

definition spec_edges :: "JobSpec list \<Rightarrow> (string \<times> string) set" where
  "spec_edges doc = {(d, js_ID s) | s d. s \<in> set doc \<and> d \<in> set (js_DependsOn s)}"

lemma edges_Cons:
  "dep_edges (j # js) = (\<lambda>d. (d, j_ID j)) ` set (j_DependsOn j) \<union> dep_edges js"
  "spec_edges (s # doc) = (\<lambda>d. (d, js_ID s)) ` set (js_DependsOn s) \<union> spec_edges doc"
  by (auto simp: dep_edges_def spec_edges_def)

lemma converted_graph:
  assumes "list_all2 job_of_spec doc js"
  shows "dep_edges js = spec_edges doc" "j_ID ` set js = js_ID ` set doc"
proof -
  have "dep_edges js = spec_edges doc \<and> j_ID ` set js = js_ID ` set doc"
    using assms
  proof (induction rule: list_all2_induct)
    case Nil
    then show ?case by (simp add: dep_edges_def spec_edges_def)
  next
    case (Cons s doc j js)
    then have "j_ID j = js_ID s" "j_DependsOn j = js_DependsOn s" by (simp_all add: job_of_spec_def)
    then show ?case using Cons.IH by (simp add: edges_Cons)
  qed
  then show "dep_edges js = spec_edges doc" "j_ID ` set js = js_ID ` set doc" by blast+
qed

section \<open>Properties\<close>

text \<open>C20: the configuration \<^verbatim>\<open>Load\<close> returns resolves every setting on its own: the last flag that sets it, else the
  environment variable if it is set and parses, else the default. It is valid: a known backend, with a
  database URL for Postgres, at least one worker, and positive tick and lease.\<close>

theorem Load_resolves:
  assumes "set (map fst xs) \<subseteq> set flag_names" "Load getenv (flag_args xs) = Inr c"
  shows "c =
     \<lparr>cf_ListenAddr = flagged xs ''addr'' (\<lambda>v. v) (from_env getenv ''CRONFLUX_ADDR'' (Inr :: _ \<Rightarrow> unit + _) '':8080''),
      cf_Backend = flagged xs ''store'' (\<lambda>v. v) (from_env getenv ''CRONFLUX_STORE'' (Inr :: _ \<Rightarrow> unit + _) ''memory''),
      cf_DatabaseURL = flagged xs ''database-url'' (\<lambda>v. v) (from_env getenv ''CRONFLUX_DATABASE_URL'' (Inr :: _ \<Rightarrow> unit + _) []),
      cf_TickInterval = flagged xs ''tick'' (projr \<circ> ParseDuration) (from_env getenv ''CRONFLUX_TICK'' ParseDuration SecondD),
      cf_Workers = flagged xs ''workers'' (projr \<circ> ParseInt0) (from_env getenv ''CRONFLUX_WORKERS'' Atoi 4),
      cf_LeaseDuration = flagged xs ''lease'' (projr \<circ> ParseDuration) (from_env getenv ''CRONFLUX_LEASE'' ParseDuration (30 * SecondD)),
      cf_JobsFile = flagged xs ''jobs'' (\<lambda>v. v) (from_env getenv ''CRONFLUX_JOBS'' (Inr :: _ \<Rightarrow> unit + _) []),
      cf_LogLevel = flagged xs ''log-level'' (\<lambda>v. v) (from_env getenv ''CRONFLUX_LOG_LEVEL'' (Inr :: _ \<Rightarrow> unit + _) ''info'')\<rparr> \<and>
    (cf_Backend c = BackendMemory \<or> cf_Backend c = BackendPostgres \<and> cf_DatabaseURL c \<noteq> []) \<and>
    1 \<le> cf_Workers c \<and> 0 < cf_TickInterval c \<and> 0 < cf_LeaseDuration c"
proof -
  have "parse_flags flags (flag_args xs) (FromEnv getenv Default) = Inr c" "Validate c = None"
    using assms(2) by (auto simp: Load_def Let_def split: sum.splits option.splits)
  then have "c = overlay xs (FromEnv getenv Default)" "Validate c = None" using parse_settings [OF assms(1)] by simp_all
  then show ?thesis unfolding Validate_None by (simp add: overlay_def FromEnv_eq Default_def BackendMemory_def)
qed

theorem Load_resolves_witness:
  "Load (\<lambda>_. []) (flag_args [(''addr'', '':9090'')]) = Inr (Default\<lparr>cf_ListenAddr := '':9090''\<rparr>) \<and>
   cf_Workers (Default\<lparr>cf_ListenAddr := '':9090''\<rparr>) = 4"
proof -
  have names: "set (map fst [(''addr'', '':9090'')]) \<subseteq> set flag_names" by (simp add: flag_names_def)
  have "parse_flags flags (flag_args [(''addr'', '':9090'')]) Default = Inr (Default\<lparr>cf_ListenAddr := '':9090''\<rparr>)"
    using parse_flags_set [of flags "''addr''"] by (simp add: flag_args_def flags_def)
  then have l: "Load (\<lambda>_. []) (flag_args [(''addr'', '':9090'')]) = Inr (Default\<lparr>cf_ListenAddr := '':9090''\<rparr>)"
    by (simp add: Load_def FromEnv_def with_env_def Validate_def Default_def BackendMemory_def BackendPostgres_def SecondD_def)
  from Load_resolves [OF names l] have "cf_Workers (Default\<lparr>cf_ListenAddr := '':9090''\<rparr>) = flagged [(''addr'', '':9090'')] ''workers'' (projr \<circ> ParseInt0) 4"
    by (simp add: from_env_def Default_def)
  then show ?thesis using l by (simp add: flagged_def)
qed

definition valid_doc :: "JobSpec list \<Rightarrow> bool" where
  "valid_doc doc \<longleftrightarrow> list_all spec_convertible doc \<and> fst ` spec_edges doc \<subseteq> js_ID ` set doc \<and> acyclic (spec_edges doc)"

text \<open>C21: a job file is accepted exactly when every job has an identifier and well-formed durations and the declared
  dependencies are known and acyclic; the jobs returned are those of the file, in order, with durations
  parsed and \<^verbatim>\<open>enabled\<close> true unless the file says otherwise.\<close>

theorem LoadJobs_accepts:
  assumes "read_file path = Inr data" "unmarshal data = Inr doc"
  shows "case LoadJobs read_file unmarshal path of
      Inr jobs \<Rightarrow> valid_doc doc \<and> list_all2 job_of_spec doc jobs
    | Inl e \<Rightarrow> \<not> valid_doc doc"
proof (cases "convert_jobs 0 doc")
  case (Inl e)
  then have "\<not> list_all spec_convertible doc" using convert_jobs_ok [of doc 0] by auto
  then show ?thesis using assms Inl by (simp add: LoadJobs_def valid_doc_def)
next
  case (Inr js)
  note conv = convert_jobs_Inr [OF Inr]
  note eq = converted_graph [OF conjunct2 [OF conv]]
  show ?thesis
  proof (cases "BuildGraph js")
    case (Inl e)
    have "\<not> valid_doc doc"
    proof (cases e)
      case ErrCycle
      then show ?thesis using BuildGraph_spec [of js] Inl eq by (simp add: valid_doc_def)
    next
      case (UnknownDependency a d)
      then obtain j where "d \<notin> j_ID ` set js" "j \<in> set js" "d \<in> set (j_DependsOn j)" using BuildGraph_spec [of js] Inl by auto
      then have "d \<in> fst ` dep_edges js" "d \<notin> js_ID ` set doc" using eq(2) by (force simp: dep_edges_def)+
      then show ?thesis using eq(1) by (auto simp: valid_doc_def)
    qed
    then show ?thesis using assms Inl \<open>convert_jobs 0 doc = Inr js\<close> by (simp add: LoadJobs_def)
  next
    case (Inr g)
    then show ?thesis using BuildGraph_spec [of js] assms \<open>convert_jobs 0 doc = Inr js\<close> conv eq by (simp add: LoadJobs_def valid_doc_def)
  qed
qed

definition sample_spec :: "string \<Rightarrow> string list \<Rightarrow> JobSpec" where
  "sample_spec k deps = \<lparr>js_ID = k, js_Name = k, js_Spec = [], js_Command = [''true''], js_MaxRetries = 2,
     js_Backoff = \<lparr>b_Base = [], b_Max = [], b_Factor = Fin 0, b_Jitter = Fin 0\<rparr>, js_DependsOn = deps, js_Timeout = [], js_Enabled = None\<rparr>"

definition sample_doc :: "JobSpec list" where
  "sample_doc = [sample_spec ''a'' [], sample_spec ''b'' [''a'']]"

lemma sample_doc_valid: "valid_doc sample_doc"
proof -
  have "spec_edges sample_doc = {(''a'', ''b'')}" by (simp add: sample_doc_def edges_Cons sample_spec_def) (simp add: spec_edges_def)
  moreover have "acyclic {(''a'', ''b'')}" by (simp add: acyclic_insert) (simp add: acyclic_def)
  ultimately show ?thesis by (simp add: valid_doc_def sample_doc_def sample_spec_def spec_convertible_def parseOptionalDuration_def)
qed

theorem LoadJobs_accepts_witness:
  "case LoadJobs (\<lambda>_. Inr ()) (\<lambda>_. Inr sample_doc) ''jobs.json'' of
     Inr jobs \<Rightarrow> length jobs = 2 \<and> list_all2 job_of_spec sample_doc jobs
   | Inl e \<Rightarrow> False"
  using LoadJobs_accepts [of "\<lambda>_. Inr ()" "''jobs.json''" "()" "\<lambda>_. Inr sample_doc" sample_doc] sample_doc_valid
  by (auto simp: sample_doc_def dest: list_all2_lengthD split: sum.splits)

end
