(* ===== verification/Cronflux.thy ===== *)
theory Cronflux
  imports Service Config
begin

text \<open>
  The program itself (\<^verbatim>\<open>src/cmd/cronflux/main.go\<close>), its version information
  (\<^verbatim>\<open>src/internal/buildinfo/buildinfo.go\<close>) and the life of the HTTP server (\<^verbatim>\<open>ListenAndServe\<close> of
  \<^verbatim>\<open>src/internal/api/server.go\<close>). What comes from outside is collected in the record \<open>host\<close>: the
  environment, the file system, the JSON decoder, the Postgres driver, the Prometheus handler and the
  embedded assets.
\<close>

section \<open>Build information\<close>

record Info =
  i_Version :: string
  i_Commit :: string
  i_Date :: string
  i_GoVersion :: string

text \<open>The variables as the source initialises them; the linker may overwrite them.\<close>

record buildvars =
  bv_Version :: string
  bv_Commit :: string
  bv_Date :: string

definition default_buildvars :: buildvars where
  "default_buildvars = \<lparr>bv_Version = ''dev'', bv_Commit = ''none'', bv_Date = ''unknown''\<rparr>"

definition Current :: "buildvars \<Rightarrow> string \<Rightarrow> Info" where
  "Current bv go = \<lparr>i_Version = bv_Version bv, i_Commit = bv_Commit bv, i_Date = bv_Date bv, i_GoVersion = go\<rparr>"

definition Info_String :: "Info \<Rightarrow> string" where
  "Info_String i =
     ''cronflux '' @ i_Version i @ '' (commit '' @ i_Commit i @ '', built '' @ i_Date i @ '', '' @ i_GoVersion i @ '')''"

section \<open>The HTTP server\<close>

datatype http_error = ErrServerClosed | HttpError string

text \<open>What the \<^verbatim>\<open>select\<close> of \<^verbatim>\<open>ListenAndServe\<close> sees first: the listener stopped, or the context was cancelled
  and \<^verbatim>\<open>Shutdown\<close> returned.\<close>

datatype serve_event = StartReturned "http_error option" | ShutdownReturned "http_error option"

definition ListenAndServe :: "serve_event \<Rightarrow> http_error option" where
  "ListenAndServe ev =
     (case ev of
        StartReturned err \<Rightarrow> (if err \<noteq> None \<and> err \<noteq> Some ErrServerClosed then err else None)
      | ShutdownReturned err \<Rightarrow> err)"

definition NewServer ::
    "Scheduler option \<Rightarrow> (statusRecorder \<Rightarrow> statusRecorder) option \<Rightarrow>
     ((string list \<Rightarrow> statusRecorder \<Rightarrow> statusRecorder) \<times> string option) option \<Rightarrow> (nat \<Rightarrow> time) \<Rightarrow> string \<Rightarrow> Server" where
  "NewServer sched gatherer web now version =
     \<lparr>sv_scheduler = sched, sv_gatherer = gatherer, sv_web = web, sv_now = now, sv_version = version\<rparr>"

section \<open>Starting up\<close>

record ('s, 'd) host =
  h_getenv :: "string \<Rightarrow> string"
  h_ReadFile :: "string \<Rightarrow> string + 'd"
  h_Unmarshal :: "'d \<Rightarrow> string + JobSpec list"
  h_Postgres :: "string \<Rightarrow> string + 's store_ops \<times> 's"
  h_metrics :: "statusRecorder \<Rightarrow> statusRecorder"
  h_web :: "((string list \<Rightarrow> statusRecorder \<Rightarrow> statusRecorder) \<times> string option) option"
  h_build :: buildvars
  h_go :: string

datatype run_error =
    ConfigFailed config_error
  | OpenFailed string
  | BackendUnknown Backend
  | JobsFailed jobs_error
  | PutFailed store_error
  | ServeFailed http_error

datatype Level = LevelDebug | LevelInfo | LevelWarn | LevelError

definition newLogger :: "string \<Rightarrow> Level" where
  "newLogger level =
     (if level = ''debug'' then LevelDebug
      else if level = ''warn'' then LevelWarn
      else if level = ''error'' then LevelError
      else LevelInfo)"

text \<open>\<open>mem\<close> is what \<^verbatim>\<open>memory.New()\<close> returns as a store.\<close>

definition openStore :: "('s, 'd) host \<Rightarrow> 's store_ops \<times> 's \<Rightarrow> Config \<Rightarrow> run_error + 's store_ops \<times> 's" where
  "openStore h mem cfg =
     (if cf_Backend cfg = BackendMemory then Inr mem
      else if cf_Backend cfg = BackendPostgres then
        (case h_Postgres h (cf_DatabaseURL cfg) of Inl e \<Rightarrow> Inl (OpenFailed e) | Inr st \<Rightarrow> Inr st)
      else Inl (BackendUnknown (cf_Backend cfg)))"

fun put_jobs :: "'s store_ops \<Rightarrow> Job list \<Rightarrow> 's \<Rightarrow> (store_error + unit) \<times> 's" where
  "put_jobs ops [] s = (Inr (), s)"
| "put_jobs ops (j # jobs) s =
     (case st_PutJob ops j s of
        (Inl err, s) \<Rightarrow> (Inl err, s)
      | (Inr _, s) \<Rightarrow> put_jobs ops jobs s)"

definition loadJobs :: "('s, 'd) host \<Rightarrow> 's store_ops \<Rightarrow> string \<Rightarrow> 's \<Rightarrow> (run_error + unit) \<times> 's" where
  "loadJobs h ops path s =
     (case LoadJobs (h_ReadFile h) (h_Unmarshal h) path of
        Inl err \<Rightarrow> (Inl (JobsFailed err), s)
      | Inr jobs \<Rightarrow>
          (case put_jobs ops jobs s of
             (Inl err, s) \<Rightarrow> (Inl (PutFailed err), s)
           | (Inr _, s) \<Rightarrow> (Inr (), s)))"

text \<open>\<^verbatim>\<open>run\<close> up to the point where the scheduler and the server are started.\<close>

definition boot ::
    "('s, 'd) host \<Rightarrow> system \<Rightarrow> 's store_ops \<times> 's \<Rightarrow> string list \<Rightarrow> run_error + ('s store_ops \<times> Scheduler \<times> Server \<times> 's world)" where
  "boot h sys mem args =
     (case Load (h_getenv h) args of
        Inl err \<Rightarrow> Inl (ConfigFailed err)
      | Inr cfg \<Rightarrow>
          (case openStore h mem cfg of
             Inl err \<Rightarrow> Inl err
           | Inr (ops, s) \<Rightarrow>
               (case (if cf_JobsFile cfg \<noteq> [] then loadJobs h ops (cf_JobsFile cfg) s else (Inr (), s)) of
                  (Inl err, s) \<Rightarrow> Inl err
                | (Inr _, s) \<Rightarrow>
                    (let sched = NewScheduler sys
                           \<lparr>o_Executor = Some ShellExecutor, o_TickInterval = cf_TickInterval cfg, o_Workers = cf_Workers cfg,
                            o_Lease = cf_LeaseDuration cfg, o_NewID = None, o_Clock = None, o_Now = None\<rparr>;
                         srv = NewServer (Some sched) (Some (h_metrics h)) (h_web h) (sys_now sys) (bv_Version (h_build h))
                     in Inr (ops, sched, srv, \<lparr>w_store = s, w_metrics = [], w_ids = 0, w_clock = 0, w_rands = 0, w_trace = []\<rparr>)))))"

text \<open>\<^verbatim>\<open>run\<close>: the scheduler receives \<open>ticks\<close> ticks until the context is cancelled, by a signal or because the server
  stopped; \<^verbatim>\<open>wg.Wait()\<close> waits for its loop, and \<open>None\<close> says that it never returns.\<close>

definition run ::
    "('s, 'd) host \<Rightarrow> system \<Rightarrow> 's store_ops \<times> 's \<Rightarrow> string list \<Rightarrow> nat \<Rightarrow> serve_event \<Rightarrow> (run_error option) option" where
  "run h sys mem args ticks ev =
     (case boot h sys mem args of
        Inl err \<Rightarrow> Some (Some err)
      | Inr (ops, sched, srv, w) \<Rightarrow>
          (case Run_loop ops (replicate ticks TickerC @ [CtxDone]) sched w of
             Returned sched w \<Rightarrow> Some (map_option ServeFailed (ListenAndServe ev))
           | Waiting sched w \<Rightarrow> None
           | Stuck \<Rightarrow> None))"

text \<open>\<^verbatim>\<open>main\<close>: the version, or the exit code of \<^verbatim>\<open>run\<close>. The first argument is the program name.\<close>

datatype main_result = Printed string | Exit int | Hangs

definition main ::
    "('s, 'd) host \<Rightarrow> system \<Rightarrow> 's store_ops \<times> 's \<Rightarrow> string list \<Rightarrow> nat \<Rightarrow> serve_event \<Rightarrow> main_result" where
  "main h sys mem args ticks ev =
     (if length args > 1 \<and> args ! 1 \<in> set [''--version'', ''-version'', ''version'']
      then Printed (Info_String (Current (h_build h) (h_go h)))
      else case run h sys mem (drop 1 args) ticks ev of
        None \<Rightarrow> Hangs
      | Some (Some err) \<Rightarrow> Exit 1
      | Some None \<Rightarrow> Exit 0)"

section \<open>Lemmas\<close>

lemma put_jobs_memory:
  assumes "mem_inv s"
  shows "\<exists>s'. put_jobs memory_ops js s = (Inr (), s') \<and> mem_inv s' \<and> mem_runs s' = mem_runs s \<and>
    mem_jobs s' = mem_jobs s ++ map_of (map (\<lambda>j. (j_ID j, j)) (rev js))"
  using assms
proof (induction js arbitrary: s)
  case (Cons j js)
  obtain s1 where s1: "st_PutJob memory_ops j s = (Inr (), s1)" by (simp add: memory_ops_def PutJob_def)
  have l: "mem_inv s1" "mem_runs s1 = mem_runs s" "mem_jobs s1 = (mem_jobs s)(j_ID j \<mapsto> j)"
    using mem.PutJob_law [OF Cons.prems s1] by simp_all
  obtain s' where "put_jobs memory_ops js s1 = (Inr (), s')" "mem_inv s'" "mem_runs s' = mem_runs s"
    "mem_jobs s' = (mem_jobs s)(j_ID j \<mapsto> j) ++ map_of (map (\<lambda>j. (j_ID j, j)) (rev js))"
    using Cons.IH [OF l(1)] unfolding l(2,3) by blast
  then show ?case using s1 by (simp add: map_add_assoc [symmetric])
qed simp

lemma New_empty: "mem_inv New" "mem_jobs New = Map.empty" "mem_runs New = Map.empty"
  by (simp_all add: New_def mem_inv_def mem_jobs_def mem_runs_def)

text \<open>What a job file may contain: every job has an identifier and depends on jobs of the file only.\<close>

lemma LoadJobs_closed:
  assumes "LoadJobs read_file unmarshal path = Inr jobs"
  shows "list_all (\<lambda>j. j_ID j \<noteq> [] \<and> set (j_DependsOn j) \<subseteq> j_ID ` set jobs) jobs \<and> acyclic (dep_edges jobs)"
proof -
  obtain doc g where d: "convert_jobs 0 doc = Inr jobs" "BuildGraph jobs = Inr g"
    using assms by (auto simp: LoadJobs_def split: sum.splits)
  have conv: "list_all spec_convertible doc" "list_all2 job_of_spec doc jobs" using convert_jobs_Inr [OF d(1)] by auto
  have "j_ID j \<noteq> []" if j: "j \<in> set jobs" for j
  proof -
    obtain i where i: "i < length jobs" "j = jobs ! i" using j by (auto simp: in_set_conv_nth)
    then have "job_of_spec (doc ! i) j" "spec_convertible (doc ! i)"
      using conv by (simp_all add: list_all2_conv_all_nth list_all_length)
    then show ?thesis by (simp add: job_of_spec_def spec_convertible_def)
  qed
  moreover have g: "acyclic (dep_edges jobs)" "fst ` dep_edges jobs \<subseteq> j_ID ` set jobs"
    using BuildGraph_spec [of jobs] d(2) by simp_all
  have "d \<in> j_ID ` set jobs" if "j \<in> set jobs" "d \<in> set (j_DependsOn j)" for j d
  proof -
    have "(d, j_ID j) \<in> dep_edges jobs" using that by (auto simp: dep_edges_def)
    from imageI [OF this, of fst] show ?thesis using g(2) by auto
  qed
  ultimately show ?thesis using g(1) by (auto simp: list_all_iff)
qed

section \<open>Properties\<close>

lemma job_map_closed:
  assumes "list_all (\<lambda>j. j_ID j \<noteq> [] \<and> set (j_DependsOn j) \<subseteq> j_ID ` set jobs) jobs"
    "m = map_of (map (\<lambda>j. (j_ID j, j)) (rev jobs))" "j \<in> ran m"
  shows "j_ID j \<noteq> [] \<and> set (j_DependsOn j) \<subseteq> dom m"
proof -
  have "dom m = j_ID ` set jobs" unfolding assms(2) by (force simp: dom_map_of_conv_image_fst)
  moreover have "j \<in> set jobs" using assms(2,3) by (auto simp: ran_def dest: map_of_SomeD)
  ultimately show ?thesis using assms(1) by (auto simp: list_all_iff)
qed

text \<open>The store after loading: no runs, the jobs of the file, closed under dependencies.\<close>

lemma stored_jobs:
  assumes "file = [] \<and> jobs = [] \<or> file \<noteq> [] \<and> LoadJobs read_file unmarshal file = Inr jobs"
  shows "\<exists>st. put_jobs memory_ops jobs New = (Inr (), st) \<and> mem_inv st \<and> mem_runs st = Map.empty \<and>
    mem_jobs st = map_of (map (\<lambda>j. (j_ID j, j)) (rev jobs)) \<and>
    (\<forall>j\<in>ran (mem_jobs st). j_ID j \<noteq> [] \<and> set (j_DependsOn j) \<subseteq> dom (mem_jobs st))"
proof -
  obtain st where st: "put_jobs memory_ops jobs New = (Inr (), st)" "mem_inv st" "mem_runs st = Map.empty"
    "mem_jobs st = map_of (map (\<lambda>j. (j_ID j, j)) (rev jobs))"
    using put_jobs_memory [OF New_empty(1), of jobs] by (auto simp: New_empty)
  have "list_all (\<lambda>j. j_ID j \<noteq> [] \<and> set (j_DependsOn j) \<subseteq> j_ID ` set jobs) jobs"
    using assms LoadJobs_closed by fastforce
  from job_map_closed [OF this st(4)] st show ?thesis by blast
qed

lemma boot_start:
  assumes "Load (h_getenv h) args = Inr cfg" "cf_Backend cfg = BackendMemory" "boot h sys (memory_ops, New) args = Inr (ops, s, srv, w)"
  shows "ops = memory_ops" "mem_inv (w_store w)" "mem_runs (w_store w) = Map.empty" "jobs_named (w_store w)" "w_trace w = []"
    "e_newID (s_env s) = defaultID sys"
proof -
  let ?load = "LoadJobs (h_ReadFile h) (h_Unmarshal h) (cf_JobsFile cfg)"
  obtain jobs where jobs: "cf_JobsFile cfg = [] \<and> jobs = [] \<or> cf_JobsFile cfg \<noteq> [] \<and> ?load = Inr jobs"
    using assms by (cases ?load) (auto simp: boot_def openStore_def loadJobs_def split: if_splits)
  obtain st where st: "put_jobs memory_ops jobs New = (Inr (), st)" "mem_inv st" "mem_runs st = Map.empty"
    and closed: "\<forall>j\<in>ran (mem_jobs st). j_ID j \<noteq> [] \<and> set (j_DependsOn j) \<subseteq> dom (mem_jobs st)"
    using stored_jobs [OF jobs] by blast
  have boot: "ops = memory_ops" "w_store w = st" "w_trace w = []" "e_newID (s_env s) = defaultID sys"
    using assms jobs st(1) by (auto simp: boot_def openStore_def loadJobs_def NewScheduler_def Let_def)
  then show "ops = memory_ops" "mem_inv (w_store w)" "mem_runs (w_store w) = Map.empty" "w_trace w = []" "e_newID (s_env s) = defaultID sys"
    using st(2,3) by simp_all
  have "k \<noteq> []" if "k \<in> dom (mem_jobs st)" for k using that closed mem.job_key [OF st(2)] by (fastforce simp: ran_def dom_def)
  then show "jobs_named (w_store w)" using closed unfolding jobs_named_def boot(2) by blast
qed

lemma NewScheduler_settings:
  assumes "0 < o_TickInterval opts" "1 \<le> o_Workers opts" "0 < o_Lease opts"
  shows "s_tick (NewScheduler sys opts) = o_TickInterval opts" "s_workers (NewScheduler sys opts) = o_Workers opts"
    "s_lease (NewScheduler sys opts) = o_Lease opts" "s_disp (NewScheduler sys opts) = newDispatcher"
  using assms by (simp_all add: NewScheduler_def Let_def)

text \<open>C26: with the in-memory backend a valid configuration always starts, unless the job file is rejected. It
  starts with no runs, with exactly the jobs of the file (the last one of those that share an
  identifier), each with an identifier and with dependencies that are stored as well, and with the
  configured tick, lease and number of workers.\<close>

theorem boot_memory:
  assumes "Load (h_getenv h) args = Inr cfg" "cf_Backend cfg = BackendMemory"
  shows "case boot h sys (memory_ops, New) args of
      Inl err \<Rightarrow> cf_JobsFile cfg \<noteq> [] \<and> (\<exists>e. err = JobsFailed e \<and> LoadJobs (h_ReadFile h) (h_Unmarshal h) (cf_JobsFile cfg) = Inl e)
    | Inr (ops, s, srv, w) \<Rightarrow>
        ops = memory_ops \<and> mem_inv (w_store w) \<and> mem_runs (w_store w) = Map.empty \<and> sv_scheduler srv = Some s \<and>
        s_tick s = cf_TickInterval cfg \<and> s_workers s = cf_Workers cfg \<and> s_lease s = cf_LeaseDuration cfg \<and>
        (\<exists>jobs. (if cf_JobsFile cfg = [] then jobs = []
                 else LoadJobs (h_ReadFile h) (h_Unmarshal h) (cf_JobsFile cfg) = Inr jobs) \<and>
           mem_jobs (w_store w) = map_of (map (\<lambda>j. (j_ID j, j)) (rev jobs))) \<and>
        (\<forall>j\<in>ran (mem_jobs (w_store w)). j_ID j \<noteq> [] \<and> set (j_DependsOn j) \<subseteq> dom (mem_jobs (w_store w)))"
proof -
  let ?load = "LoadJobs (h_ReadFile h) (h_Unmarshal h) (cf_JobsFile cfg)"
  have valid: "0 < cf_TickInterval cfg" "1 \<le> cf_Workers cfg" "0 < cf_LeaseDuration cfg"
    using assms(1) Validate_None [of cfg] by (auto simp: Load_def Let_def split: sum.splits option.splits)
  have started: ?thesis if jobs: "cf_JobsFile cfg = [] \<and> jobs = [] \<or> cf_JobsFile cfg \<noteq> [] \<and> ?load = Inr jobs" for jobs
  proof -
    obtain st where st: "put_jobs memory_ops jobs New = (Inr (), st)" "mem_inv st" "mem_runs st = Map.empty"
      "mem_jobs st = map_of (map (\<lambda>j. (j_ID j, j)) (rev jobs))"
      and closed: "\<And>j. j \<in> ran (mem_jobs st) \<Longrightarrow> j_ID j \<noteq> [] \<and> set (j_DependsOn j) \<subseteq> dom (mem_jobs st)"
      using stored_jobs [OF jobs] by blast
    show ?thesis using assms jobs st closed valid
      by (auto simp: boot_def openStore_def loadJobs_def NewScheduler_settings NewServer_def Let_def)
  qed
  show ?thesis
  proof (cases "cf_JobsFile cfg = []")
    case True
    then show ?thesis using started [of "[]"] by blast
  next
    case False
    then show ?thesis using started assms by (cases ?load) (simp_all add: boot_def openStore_def loadJobs_def)
  qed
qed

definition sample_host :: "(MemStore, unit) host" where
  "sample_host = \<lparr>h_getenv = (\<lambda>k. if k = ''CRONFLUX_JOBS'' then ''jobs.json'' else []),
     h_ReadFile = (\<lambda>_. Inr ()), h_Unmarshal = (\<lambda>_. Inr [sample_spec ''a'' []]), h_Postgres = (\<lambda>_. Inl ''no driver''),
     h_metrics = (\<lambda>r. r), h_web = None, h_build = default_buildvars, h_go = ''go1.23''\<rparr>"

lemma sample_host_config: "Load (h_getenv sample_host) [] = Inr (Default\<lparr>cf_JobsFile := ''jobs.json''\<rparr>)"
  by (simp add: sample_host_def Load_def FromEnv_def with_env_def Validate_def Default_def BackendMemory_def BackendPostgres_def SecondD_def)

lemma sample_host_jobs: "\<exists>jobs. LoadJobs (h_ReadFile sample_host) (h_Unmarshal sample_host) p = Inr jobs \<and> map j_ID jobs = [''a'']"
proof -
  obtain j where j: "toJob (sample_spec ''a'' []) = Inr j" "j_ID j = ''a''" "j_DependsOn j = []"
    by (simp add: toJob_def sample_spec_def parseOptionalDuration_def zero_job_def)
  have e: "dep_edges [j] = {}" using j(3) by (simp add: dep_edges_def)
  obtain g where "BuildGraph [j] = Inr g"
    using BuildGraph_spec [of "[j]"] unfolding e by (auto simp: j(3) acyclic_def split: sum.splits dag_error.splits)
  then show ?thesis using j by (simp add: LoadJobs_def sample_host_def)
qed

theorem boot_memory_witness:
  "\<forall>sys. case boot sample_host sys (memory_ops, New) [] of
     Inl err \<Rightarrow> False
   | Inr (ops, s, srv, w) \<Rightarrow> s_workers s = 4 \<and> dom (mem_jobs (w_store w)) = {''a''}"
proof
  fix sys
  have "cf_Backend (Default\<lparr>cf_JobsFile := ''jobs.json''\<rparr>) = BackendMemory" by (simp add: Default_def)
  from boot_memory [OF sample_host_config this, of sys] sample_host_jobs [of "''jobs.json''"]
  show "case boot sample_host sys (memory_ops, New) [] of
     Inl err \<Rightarrow> False
   | Inr (ops, s, srv, w) \<Rightarrow> s_workers s = 4 \<and> dom (mem_jobs (w_store w)) = {''a''}" by (auto simp: Default_def dom_map_of_conv_image_fst image_image simp flip: set_map split: sum.splits if_splits)
qed

end
