(* ===== verification/Spec2Isabelle.thy ===== *)
theory Spec2Isabelle
  imports Cron_Limits Dag Examples Concurrent Dispatch_Limits Conformance Nodes Cronflux
begin

text \<open>
  \<^bold>\<open>cronflux\<close> is a job scheduler written in Go: cron expressions, jobs that depend on other jobs,
  retries with backoff, leases on claimed work, a REST interface. This library models its packages
  theory by theory and proves what makes them correct.

  \<^bold>\<open>The parts and how they interact.\<close> The scheduler (\<^verbatim>\<open>src/internal/scheduler/scheduler.go\<close>) makes a pass at
  every tick: its dispatcher (\<^verbatim>\<open>dispatcher.go\<close>) creates a run for every fire time of every job that has
  been reached since the last pass, using the schedules of \<^verbatim>\<open>src/cron\<close>; it then claims due runs
  from the store (\<^verbatim>\<open>src/internal/store\<close>), leases them and hands them to worker goroutines (\<^verbatim>\<open>worker.go\<close>),
  which execute the job, record the outcome and, on failure, create a delayed retry (\<^verbatim>\<open>src/backoff\<close>). A
  success makes the dispatcher enqueue the dependent jobs whose dependencies are then all satisfied.
  The store is the only shared state. The API (\<^verbatim>\<open>src/internal/api\<close>) reads and changes it and triggers
  runs; the command (\<^verbatim>\<open>src/cmd/cronflux\<close>) reads the configuration (\<^verbatim>\<open>src/internal/config\<close>), loads a job file,
  whose graph (\<^verbatim>\<open>src/internal/job/dag.go\<close>) must be acyclic, and starts scheduler and API.

  \<^bold>\<open>Go's language and library.\<close>
  \<^item> \<open>Prelude\<close>: results as sums, maps in iteration order, \<^verbatim>\<open>sort.Slice\<close> (locale \<open>slice_order\<close>), 64-bit
    wrap-around, instants and durations as nanoseconds.
  \<^item> \<open>GoStrings\<close>, \<open>GoTime\<close>, \<open>GoFloat\<close>, \<open>GoDuration\<close>, \<open>GoFlag\<close>, \<open>GoMux\<close>: strings and \<^verbatim>\<open>strconv\<close>; the calendar and
    time zones; float64 with rounding to nearest even; \<^verbatim>\<open>time.ParseDuration\<close>; the \<^verbatim>\<open>flag\<close> package; \<^verbatim>\<open>ServeMux\<close>
    and \<^verbatim>\<open>ResponseWriter\<close>.

  \<^bold>\<open>The cron package.\<close>
  \<^item> \<open>Cron_Field\<close> (\<^verbatim>\<open>bounds.go\<close>, \<^verbatim>\<open>names.go\<close>, \<^verbatim>\<open>field.go\<close>): a field is parsed to a 64-bit mask; the parser inverts a
    printer of field syntax and never selects a value above the bound.
  \<^item> \<open>Cron_Spec\<close> (\<^verbatim>\<open>spec.go\<close>, \<^verbatim>\<open>constant.go\<close>): the calendar search of \<^verbatim>\<open>Next\<close>, its field loops and its jump back;
    it finds the earliest activation in its window, in every zone at a fixed offset of whole minutes.
  \<^item> \<open>Cron_Parser\<close> (\<^verbatim>\<open>parser.go\<close>): five and six fields, descriptors, \<^verbatim>\<open>@every\<close>; \<^verbatim>\<open>Parse\<close> returns on every text.
  \<^item> \<open>Cron_Limits\<close>: where the search and the parser fall short of their comments.

  \<^bold>\<open>Jobs, runs and stores.\<close>
  \<^item> \<open>Job\<close> and \<open>Dag\<close> (\<^verbatim>\<open>src/internal/job\<close>): the data, and the graph with its topological sort: complete, sound,
    deterministic, failing exactly on cycles.
  \<^item> \<open>Store\<close> (\<^verbatim>\<open>store.go\<close>): the Go interface as a record of operations, its contract as the locales
    \<open>store_contract\<close> and \<open>reliable_store\<close>, over an abstraction to two maps. \<open>Memory\<close> (\<^verbatim>\<open>memory.go\<close>): the in-memory
    store interprets them; claiming is exclusive, ordered and redelivers. \<open>Storetest\<close>
    (\<^verbatim>\<open>storetest/suite.go\<close>): every store of the contract \<open>conforming_store\<close> passes the conformance suite.
  \<^item> \<open>Postgres\<close> (\<^verbatim>\<open>postgres.go\<close>, \<^verbatim>\<open>schema.sql\<close>): the tables, and each SQL statement as a function on them; what the server,
    the driver and the JSON codec decide is a record \<open>pgserver\<close>. \<open>Backends\<close>: read through \<open>mem_of\<close> the tables are
    an in-memory store, and on a healthy server every operation refines the in-memory one for calls that
    satisfy \<open>comparable\<close>; and the cases in which the backends differ. \<open>Nodes\<close>: several nodes on one database,
    their claims interleaved row by row with each other and with other statements, which may fail at any point:
    thanks to \<^verbatim>\<open>FOR UPDATE SKIP LOCKED\<close> no two of them hold a run together. \<open>Conformance\<close>: the PostgreSQL store
    passes the conformance suite as well.

  \<^bold>\<open>The scheduler.\<close>
  \<^item> \<open>Backoff\<close>, \<open>Clock\<close>, \<open>Metrics\<close>, \<open>Runtime\<close>: delays, clocks, the metrics as a log of collector calls, and the
    \<open>world\<close> that actions pass along: the store, the metrics, how much has been drawn from each outside
    source (identifiers, clock, random numbers), whose answers an \<open>env\<close> fixes, and the trace of the calls of
    the executor, which is the order of execution.
  \<^item> \<open>Dispatcher\<close>, \<open>Worker\<close>, \<open>Scheduler\<close>: one definition per method, over an arbitrary store; each fire time
    is materialised once, dependents are enqueued exactly when their dependencies have succeeded,
    every branch of a worker has its recorded outcome.
  \<^item> \<open>Frames\<close>: what the actions leave alone (locale \<open>frame\<close>, interpreted for the clock and for the trace), and what
    the loops of the dispatcher keep.
  \<^item> \<open>Lifecycle\<close>: passes and triggers refine an abstract life cycle of runs (enqueue, claim, record);
    from it, finished runs never change, attempts are bounded and every run is well typed for its state.
  \<^item> \<open>Pipeline\<close>: batches over the in-memory store: no dependent is forgotten, and the loop of \<^verbatim>\<open>Run\<close> executes
    everything downstream of a run, by descent on a measure of what is left to do (claimed runs are
    processed one after the other).
  \<^item> \<open>Ordering\<close>: the order of execution. In every reachable trace a job that did not start its batch comes after
    a successful execution of each of its dependencies in the batch, over every store that keeps the
    contract; and a triggered pipeline is executed completely, each job once, by a worker that takes one run
    after the other, which \<open>Examples\<close> puts together
    with the example program.
  \<^item> \<open>Interleaving\<close>, \<open>Pool\<close>, \<open>Pool_Order\<close>: goroutines as resumptions, the worker pool of a drain with its semaphore
    and mutex, and two rely-guarantee arguments (locale \<open>rely_guarantee\<close>): no interleaving creates a first
    attempt twice, and none executes a job before its dependencies; every interleaving ends.
  \<^item> \<open>Concurrent\<close>: the scheduler with such pools in its passes. The locale \<open>pass_invariant\<close> carries both invariants
    through its whole life, to every moment between passes and while a pool runs; the sequential scheduler
    of the other theories is one of its schedules. The last section of this theory applies it to the command.
  \<^item> \<open>Dispatch_Limits\<close>: the first pass, and schedules that never fire, which make every later one loop forever.

  \<^bold>\<open>The program.\<close>
  \<^item> \<open>Config\<close> (\<^verbatim>\<open>config.go\<close>, \<^verbatim>\<open>load.go\<close>, \<^verbatim>\<open>jobs.go\<close>): every setting is resolved from flag, environment or default; job
    files are accepted exactly when they are well formed and acyclic.
  \<^item> \<open>Api\<close>, \<open>Service\<close> (\<^verbatim>\<open>src/internal/api\<close>): routes and handlers; the routing table; what requests do to the
    store, the invariants that requests and passes keep together, the answers of the endpoints.
  \<^item> \<open>Cronflux\<close> (\<^verbatim>\<open>main.go\<close>, \<^verbatim>\<open>buildinfo.go\<close>): start-up, shutdown and exit code. \<open>Examples\<close> (\<^verbatim>\<open>src/examples\<close>): the
    three example programs.

  \<^bold>\<open>Loops and fuel.\<close> No definition takes fuel. Loops over slices are structural recursions; the queue loop of
  the topological sort, the parsers of durations and flags and the mask loop have termination proofs; the
  loops of \<^verbatim>\<open>Next\<close> and the catch-up loop of \<^verbatim>\<open>dispatch\<close> may run forever and are \<^verbatim>\<open>partial_function (option)\<close>, so that
  \<open>None\<close> means not returning, and that they return is proved where they do.

  \<^bold>\<open>What is one step.\<close> In \<open>Scheduler\<close> (\<open>work_all\<close>, \<open>drain\<close>), and so in \<open>Lifecycle\<close>, \<open>Pipeline\<close>, \<open>Ordering\<close> and \<open>Service\<close>, the claimed
  runs of a pass are processed one after the other, as with one worker, and triggers and requests (\<open>reaches\<close>, \<open>service\<close>) come
  between passes. \<open>Pool\<close> and \<open>Concurrent\<close> interleave the goroutines of a drain, with \<^verbatim>\<open>s.mu\<close> and the semaphore, at every call of the
  store, clock, identifier source and executor, and triggers with them; dispatching and claiming come before the pool of the pass
  starts. An execution (\<open>execute_act\<close>) is one step that returns. A call of the in-memory store is one step, as its mutex makes
  it. An SQL statement (\<open>exec\<close>) is one step, except for claims in \<open>Nodes\<close>: these take their snapshot, lock rows one by one and
  write in separate steps. Instants are unbounded integers of nanoseconds.

  \<^bold>\<open>Arguments of the model.\<close> What the code gets from outside is universally quantified: clock readings,
  random bytes and numbers, the outcome of commands and custom executors, cancellation, environment
  variables, file contents, the JSON decoder, the Prometheus registry and handler, the static file server,
  the PostgreSQL server. Identifiers
  are assumed to be drawn without repetition where the theorems say so.

  \<^bold>\<open>Not modelled.\<close> The PostgreSQL server and its driver beyond the statements of the store, the Prometheus client beyond
  the calls made on it, logging, the encoding of JSON responses, TCP and signals, the HTML, CSS and
  JavaScript of the dashboard, the formatting of what the examples print.
\<close>

section \<open>The command as a whole\<close>

text \<open>Started with a valid configuration and the in-memory backend, the program executes the jobs of its file in an
  order that respects their dependencies: at every moment, however its workers and the triggers interleave,
  a job that did not start its batch has been executed only after each of its dependencies had been
  executed there successfully.\<close>

theorem started_dependencies_first:
  assumes "Load (h_getenv h) args = Inr cfg" "cf_Backend cfg = BackendMemory" "boot h sys (memory_ops, New) args = Inr (ops, s, srv, w)"
    and "inj (defaultID sys)" "\<And>n. defaultID sys n \<noteq> []" "observed ops s w v"
  shows "\<exists>root. \<forall>p<length (w_trace v). case w_trace v ! p of (j, r) \<Rightarrow>
    r_JobID r = root (r_BatchID r) \<or>
    j_DependsOn j \<noteq> [] \<and> (\<forall>d\<in>set (j_DependsOn j). \<exists>q<p. succeeded_call (s_env s) (s_exec s) (w_trace v) q d (r_BatchID r))"
proof -
  note start = boot_start [OF assms(1-3)]
  have "mem_world_ok (s_env s) w" using start(2,3,6) assms(4) by (simp add: mem_world_ok_def)
  then show ?thesis
    by (rule observed_trace) (use start assms(5,6) in simp_all)
qed

end
